(* ===== verification/Prelude.thy ===== *)
theory Prelude
  imports Main "HOL-Library.Monad_Syntax"
begin

text \<open>
  What every component shares: Go's fixed-width integers and truncating division on
  \<open>int\<close>, indexed access to slices with its run-time panic, and the lemma
  collections of the development.

  A Go function that may panic returns an \<open>option\<close>: \<open>None\<close> is "does not return
  normally" (a run-time panic such as a nil dereference or an index out of range, or a
  loop that never ends); \<open>Some r\<close> is a normal return. Error values that the code
  returns are constructors of the component's own datatypes.
\<close>

named_theorems go_arith \<open>facts about Go's integers: wrap-around and truncating division\<close>

section \<open>Fixed-width integers\<close>

text \<open>
  A Go \<open>int64\<close> (and \<open>int\<close> on the 64-bit targets) is an \<open>int\<close> in
  \<open>[-2^63, 2^63)\<close>; \<open>wrap64\<close> brings the exact result of an operation back into
  that range, as the hardware does. \<open>wrap32\<close> is the same for \<open>int32\<close>.
\<close>

definition wrap64 :: "int \<Rightarrow> int" where
  "wrap64 x = (x + 2 ^ 63) mod 2 ^ 64 - 2 ^ 63"

definition wrap32 :: "int \<Rightarrow> int" where
  "wrap32 x = (x + 2 ^ 31) mod 2 ^ 32 - 2 ^ 31"

abbreviation in_int64 :: "int \<Rightarrow> bool" where
  "in_int64 x \<equiv> - (2 ^ 63) \<le> x \<and> x < 2 ^ 63"

abbreviation in_int32 :: "int \<Rightarrow> bool" where
  "in_int32 x \<equiv> - (2 ^ 31) \<le> x \<and> x < 2 ^ 31"

lemma wrap64_id [go_arith]: "- (2 ^ 63) \<le> x \<Longrightarrow> x < 2 ^ 63 \<Longrightarrow> wrap64 x = x"
  unfolding wrap64_def by (simp add: mod_pos_pos_trivial)

lemma wrap32_id [go_arith]: "- (2 ^ 31) \<le> x \<Longrightarrow> x < 2 ^ 31 \<Longrightarrow> wrap32 x = x"
  unfolding wrap32_def by (simp add: mod_pos_pos_trivial)

lemma wrap64_range: "in_int64 (wrap64 x)"
proof -
  have "0 \<le> (x + 2 ^ 63) mod 2 ^ 64" and "(x + 2 ^ 63) mod 2 ^ 64 < 2 ^ 64"
    by simp_all
  then show ?thesis unfolding wrap64_def by simp
qed

lemma wrap32_range: "in_int32 (wrap32 x)"
proof -
  have "0 \<le> (x + 2 ^ 31) mod 2 ^ 32" and "(x + 2 ^ 31) mod 2 ^ 32 < 2 ^ 32"
    by simp_all
  then show ?thesis unfolding wrap32_def by simp
qed

text \<open>Go's \<open>/\<close> and \<open>%\<close> on integers truncate towards zero; a zero divisor panics.\<close>

definition go_quot :: "int \<Rightarrow> int \<Rightarrow> int" where
  "go_quot a b = sgn a * sgn b * (\<bar>a\<bar> div \<bar>b\<bar>)"

definition go_rem :: "int \<Rightarrow> int \<Rightarrow> int" where
  "go_rem a b = a - go_quot a b * b"

definition go_div :: "int \<Rightarrow> int \<Rightarrow> int option" where
  "go_div a b = (if b = 0 then None else Some (wrap64 (go_quot a b)))"

definition go_mod :: "int \<Rightarrow> int \<Rightarrow> int option" where
  "go_mod a b = (if b = 0 then None else Some (go_rem a b))"

lemma go_quot_nonneg [go_arith]: "0 \<le> a \<Longrightarrow> 0 < b \<Longrightarrow> go_quot a b = a div b"
  by (cases "a = 0") (simp_all add: go_quot_def)

lemma go_rem_nonneg [go_arith]: "0 \<le> a \<Longrightarrow> 0 < b \<Longrightarrow> go_rem a b = a mod b"
  by (simp add: go_rem_def go_quot_nonneg minus_div_mult_eq_mod)

lemma go_div_nonneg [go_arith]:
  assumes "0 \<le> a" "a < 2 ^ 63" "0 < b"
  shows "go_div a b = Some (a div b)"
proof -
  have "0 \<le> a div b" using assms by (simp add: pos_imp_zdiv_nonneg_iff)
  moreover have "a div b \<le> a" using zdiv_mono2 [of a 1 b] assms by simp
  ultimately show ?thesis using assms by (simp add: go_div_def go_quot_nonneg wrap64_id)
qed

lemma go_mod_nonneg [go_arith]: "0 \<le> a \<Longrightarrow> 0 < b \<Longrightarrow> go_mod a b = Some (a mod b)"
  by (simp add: go_mod_def go_rem_nonneg)

section \<open>Slices\<close>

text \<open>Indexed read and write of a slice; \<open>None\<close> is the index-out-of-range panic.\<close>

definition slice_get :: "'a list \<Rightarrow> int \<Rightarrow> 'a option" where
  "slice_get xs i = (if 0 \<le> i \<and> i < int (length xs) then Some (xs ! nat i) else None)"

definition slice_set :: "'a list \<Rightarrow> int \<Rightarrow> 'a \<Rightarrow> 'a list option" where
  "slice_set xs i v =
     (if 0 \<le> i \<and> i < int (length xs) then Some (xs[nat i := v]) else None)"

lemma slice_get_Some [simp]: "i < length xs \<Longrightarrow> slice_get xs (int i) = Some (xs ! i)"
  by (simp add: slice_get_def)

lemma slice_set_Some [simp]: "i < length xs \<Longrightarrow> slice_set xs (int i) v = Some (xs[i := v])"
  by (simp add: slice_set_def)

lemma slice_get_last: "xs \<noteq> [] \<Longrightarrow> slice_get xs (int (length xs) - 1) = Some (last xs)"
proof -
  assume "xs \<noteq> []"
  moreover have "nat (int (length xs) - 1) = length xs - 1" by linarith
  moreover from \<open>xs \<noteq> []\<close> have "0 \<le> int (length xs) - 1" by (cases xs) simp_all
  ultimately show ?thesis by (simp add: slice_get_def last_conv_nth)
qed

text \<open>\<open>make([]T, n)\<close> with every element \<open>z\<close>; a negative length panics.\<close>

definition go_make :: "int \<Rightarrow> 'a \<Rightarrow> 'a list option" where
  "go_make n z = (if n < 0 then None else Some (replicate (nat n) z))"

section \<open>Ends of a list as pointers\<close>

text \<open>
  A pointer is \<open>None\<close> (nil) or \<open>Some a\<close>. \<open>hd_opt\<close> and \<open>last_opt\<close> read an
  end of a list of addresses as a pointer, with what to return for the empty list.
\<close>

definition hd_opt :: "'a list \<Rightarrow> 'a option \<Rightarrow> 'a option" where
  "hd_opt xs d = (if xs = [] then d else Some (hd xs))"

definition last_opt :: "'a list \<Rightarrow> 'a option \<Rightarrow> 'a option" where
  "last_opt xs d = (if xs = [] then d else Some (last xs))"

lemma hd_opt_simps [simp]:
  "hd_opt [] d = d"
  "hd_opt (x # xs) d = Some x"
  "hd_opt (xs @ ys) d = hd_opt xs (hd_opt ys d)"
  by (simp_all add: hd_opt_def)

lemma last_opt_simps [simp]:
  "last_opt [] d = d"
  "last_opt (x # xs) d = last_opt xs (Some x)"
  "last_opt (xs @ ys) d = last_opt ys (last_opt xs d)"
  by (simp_all add: last_opt_def)

lemma hd_opt_None_iff [simp]: "hd_opt xs None = None \<longleftrightarrow> xs = []"
  by (simp add: hd_opt_def)

lemma last_opt_None_iff [simp]: "last_opt xs None = None \<longleftrightarrow> xs = []"
  by (simp add: last_opt_def)

lemma hd_opt_Some_neq_None [simp]: "hd_opt xs (Some x) \<noteq> None"
  by (simp add: hd_opt_def)

lemma last_opt_Some_neq_None [simp]: "last_opt xs (Some x) \<noteq> None"
  by (simp add: last_opt_def)

section \<open>Lists\<close>

lemma list_update_append_here: "(xs @ y # ys)[length xs := z] = xs @ z # ys"
  by simp

end
