(* ===== verification/Cond.thy ===== *)
theory Cond
  imports Prelude "HOL-Library.Word"
begin

text \<open>
  \<open>gconcurrent/cond.go\<close>: \<open>TimeoutCond\<close>, a condition variable built on an unbuffered
  channel. The record has the struct's fields and, beside them, the run-time state of the
  channel they name: which goroutines are parked in a receive and which receives have
  completed without the goroutine having resumed yet.
\<close>

type_synonym gid = nat

record tcond =
  hasWaiters :: "64 word"
  signal :: nat
  recvq :: "gid list"
  delivered :: "(gid \<times> bool) list"

text \<open>
  \<open>signal\<close> is the identity of the current channel. \<open>Interrupt\<close> closes the current
  channel and makes a new one, so the channels below \<open>signal\<close> are exactly the closed
  ones. \<open>recvq\<close> are the goroutines parked on the current channel, in arrival order (a
  closed channel has none: its receives return at once). An entry \<open>(g, ok)\<close> of
  \<open>delivered\<close> is a receive of \<open>g\<close> that has completed with a value (\<open>ok\<close>) or
  because the channel was closed (\<open>\<not> ok\<close>).
\<close>

definition NewTimeoutCond :: tcond where
  "NewTimeoutCond = \<lparr>hasWaiters = 0, signal = 0, recvq = [], delivered = []\<rparr>"

definition addWaiter :: "tcond \<Rightarrow> tcond option" where
  "addWaiter c =
     (let v = hasWaiters c + 1
      in if v = 0 then None else Some (c\<lparr>hasWaiters := v\<rparr>))"

definition removeWaiter :: "tcond \<Rightarrow> tcond option" where
  "removeWaiter c =
     (let v = hasWaiters c + not 0
      in if v = - 1 then None else Some (c\<lparr>hasWaiters := v\<rparr>))"

definition HasWaiters :: "tcond \<Rightarrow> bool" where
  "HasWaiters c \<longleftrightarrow> hasWaiters c > 0"

text \<open>\<open>Signal\<close>: a send that does not block. Without a parked receiver it is dropped.\<close>

definition Signal :: "tcond \<Rightarrow> tcond" where
  "Signal c =
     (case recvq c of
        [] \<Rightarrow> c
      | g # gs \<Rightarrow> c\<lparr>recvq := gs, delivered := delivered c @ [(g, True)]\<rparr>)"

text \<open>\<open>Interrupt\<close>, under the lock: close the channel, which completes every parked
  receive with \<open>ok = false\<close>, and install a new one.\<close>

definition Interrupt :: "tcond \<Rightarrow> tcond" where
  "Interrupt c =
     c\<lparr>delivered := delivered c @ map (\<lambda>g. (g, False)) (recvq c),
       recvq := [],
       signal := Suc (signal c)\<rparr>"

text \<open>
  \<open>Wait\<close> in the pieces between which other goroutines run: \<open>wait_enter\<close> (counted and
  the channel copied, lock still held), then the lock is released; \<open>wait_select\<close> (the
  \<open>select\<close> is reached: park, or return at once; \<open>pick\<close> is the run-time's choice when
  the channel is closed and the context is done too); \<open>wait_resume\<close> (a completed receive is
  consumed); then the lock is taken again and \<open>removeWaiter\<close> runs, the two deferred
  calls in their last-in first-out order.
\<close>

definition wait_enter :: "tcond \<Rightarrow> (nat \<times> tcond) option" where
  "wait_enter c = do { c' \<leftarrow> addWaiter c; Some (signal c', c') }"

datatype select_result = Returned bool | Parked

definition wait_select :: "gid \<Rightarrow> nat \<Rightarrow> bool \<Rightarrow> bool \<Rightarrow> tcond \<Rightarrow> select_result \<times> tcond" where
  "wait_select g ch ctx_done pick c =
     (if ch < signal c \<and> (pick \<or> \<not> ctx_done) then (Returned True, c)
      else if ctx_done then (Returned False, c)
      else (Parked, c\<lparr>recvq := recvq c @ [g]\<rparr>))"

definition wait_resume :: "gid \<Rightarrow> tcond \<Rightarrow> (bool \<times> tcond) option" where
  "wait_resume g c =
     (case map_of (delivered c) g of
        None \<Rightarrow> None
      | Some ok \<Rightarrow> Some (\<not> ok, c\<lparr>delivered := filter (\<lambda>(g', _). g' \<noteq> g) (delivered c)\<rparr>))"

definition wait_ctx_done :: "gid \<Rightarrow> tcond \<Rightarrow> (bool \<times> tcond) option" where
  "wait_ctx_done g c =
     (if g \<in> set (recvq c) then Some (False, c\<lparr>recvq := remove1 g (recvq c)\<rparr>) else None)"

section \<open>Laws\<close>

lemma addWaiter_Some:
  assumes "hasWaiters c \<noteq> - 1"
  shows "addWaiter c = Some (c\<lparr>hasWaiters := hasWaiters c + 1\<rparr>)"
proof -
  have "hasWaiters c + 1 \<noteq> 0" using assms by (simp add: add_eq_0_iff2)
  then show ?thesis by (simp add: addWaiter_def)
qed

lemma removeWaiter_Some:
  assumes "hasWaiters c \<noteq> 0"
  shows "removeWaiter c = Some (c\<lparr>hasWaiters := hasWaiters c - 1\<rparr>)"
proof -
  have "hasWaiters c - 1 \<noteq> - 1" using assms by (simp add: diff_eq_eq)
  then show ?thesis by (simp add: removeWaiter_def)
qed

lemma removeWaiter_zero: "hasWaiters c = 0 \<Longrightarrow> removeWaiter c = None"
  by (simp add: removeWaiter_def)

lemma add_then_remove:
  assumes "hasWaiters c \<noteq> - 1"
  shows "addWaiter c \<bind> removeWaiter = Some c"
proof -
  have "hasWaiters c + 1 \<noteq> 0" using assms by (simp add: add_eq_0_iff2)
  then show ?thesis using assms by (simp add: addWaiter_Some removeWaiter_Some)
qed

lemma Signal_no_receiver: "recvq c = [] \<Longrightarrow> Signal c = c"
  by (simp add: Signal_def)

lemma Signal_hasWaiters [simp]: "hasWaiters (Signal c) = hasWaiters c"
  by (simp add: Signal_def split: list.split)

lemma Signal_signal [simp]: "signal (Signal c) = signal c"
  by (simp add: Signal_def split: list.split)

lemma Interrupt_recvq [simp]: "recvq (Interrupt c) = []"
  by (simp add: Interrupt_def)

section \<open>The condition and its waiters\<close>

text \<open>
  \<open>cond_ok c n P chs\<close>: \<open>n\<close> goroutines are between \<open>addWaiter\<close> and
  \<open>removeWaiter\<close>, those of \<open>P\<close> are parked or have a completed receive that they have
  not seen yet, and the channels that were copied are current or closed.
\<close>

definition cond_ok :: "tcond \<Rightarrow> nat \<Rightarrow> gid set \<Rightarrow> nat set \<Rightarrow> bool" where
  "cond_ok c n P chs \<longleftrightarrow>
     hasWaiters c = of_nat n \<and> distinct (recvq c @ map fst (delivered c)) \<and>
     set (recvq c @ map fst (delivered c)) = P \<and> (\<forall>ch \<in> chs. ch \<le> signal c)"

text \<open>The two queues of goroutines behind a condition, as one permutation.\<close>

lemma cond_ok_change:
  assumes "cond_ok c n P chs" "hasWaiters c' = hasWaiters c" "signal c \<le> signal c'"
    and "distinct (recvq c @ map fst (delivered c)) \<Longrightarrow> distinct (recvq c' @ map fst (delivered c'))"
    and "distinct (recvq c @ map fst (delivered c)) \<Longrightarrow>
      set (recvq c @ map fst (delivered c)) = P \<Longrightarrow> set (recvq c' @ map fst (delivered c')) = P'"
  shows "cond_ok c' n P' chs"
proof -
  have c: "hasWaiters c = of_nat n" "distinct (recvq c @ map fst (delivered c))"
    "set (recvq c @ map fst (delivered c)) = P" "\<forall>ch \<in> chs. ch \<le> signal c"
    using assms(1) unfolding cond_ok_def by blast+
  have "\<forall>ch \<in> chs. ch \<le> signal c'" using c(4) assms(3) by (blast intro: order_trans)
  with assms(2) c(1) assms(4) [OF c(2)] assms(5) [OF c(2,3)] show ?thesis
    unfolding cond_ok_def by presburger
qed

lemma cond_ok_new: "cond_ok NewTimeoutCond 0 {} {}"
  by (simp add: cond_ok_def NewTimeoutCond_def)

lemma cond_ok_Signal: "cond_ok c n P chs \<Longrightarrow> cond_ok (Signal c) n P chs"
proof (erule cond_ok_change)
  obtain rs ds where "recvq c = rs" "map fst (delivered c) = ds" by simp
  then show "distinct (recvq c @ map fst (delivered c)) \<Longrightarrow> distinct (recvq (Signal c) @ map fst (delivered (Signal c)))"
    and "distinct (recvq c @ map fst (delivered c)) \<Longrightarrow> set (recvq c @ map fst (delivered c)) = P \<Longrightarrow>
      set (recvq (Signal c) @ map fst (delivered (Signal c))) = P"
    by (auto simp: Signal_def simp del: set_map split: list.split)
qed simp_all

lemma cond_ok_Interrupt: "cond_ok c n P chs \<Longrightarrow> cond_ok (Interrupt c) n P chs"
  by (erule cond_ok_change) (auto simp: Interrupt_def comp_def simp del: set_map)

lemma cond_ok_enter:
  assumes "cond_ok c n P chs" "n < 2 ^ 64 - 1"
  shows "\<exists>c'. wait_enter c = Some (signal c, c') \<and> cond_ok c' (Suc n) P (insert (signal c) chs)"
proof -
  have "(of_nat n :: 64 word) \<noteq> - 1"
  proof
    assume "(of_nat n :: 64 word) = - 1"
    then have "unat (of_nat n :: 64 word) = unat (- 1 :: 64 word)" by simp
    then have "n mod 2 ^ 64 = 2 ^ 64 - 1" by (simp add: unat_of_nat unsigned_minus_1_eq_mask mask_eq_exp_minus_1)
    with assms(2) show False by simp
  qed
  with assms show ?thesis
    by (auto simp: wait_enter_def addWaiter_Some cond_ok_def)
qed

lemma cond_ok_select:
  assumes "cond_ok c n P chs" "g \<notin> P" "wait_select g ch d pick c = (r, c')"
  shows "cond_ok c' n (if r = Parked then insert g P else P) chs"
  using assms(1)
proof (rule cond_ok_change)
  have "g \<notin> set (recvq c @ map fst (delivered c))" using assms by (simp add: cond_ok_def)
  then show "distinct (recvq c @ map fst (delivered c)) \<Longrightarrow> distinct (recvq c' @ map fst (delivered c'))"
    using assms(3) by (auto simp: wait_select_def simp del: set_map split: if_splits)
  show "set (recvq c @ map fst (delivered c)) = P \<Longrightarrow>
      set (recvq c' @ map fst (delivered c')) = (if r = Parked then insert g P else P)"
    using assms(3) by (auto simp: wait_select_def simp del: set_map split: if_splits)
qed (use assms(3) in \<open>auto simp: wait_select_def split: if_splits\<close>)

lemma map_fst_delivered:
  "map fst (filter (\<lambda>(g', _). g' \<noteq> g) ds) = filter (\<lambda>g'. g' \<noteq> g) (map fst ds)"
  by (induction ds) auto

lemma cond_ok_resume:
  assumes "cond_ok c n P chs" "wait_resume g c = Some (r, c')"
  shows "cond_ok c' n (P - {g}) chs"
  using assms(1)
proof (rule cond_ok_change)
  from assms(2) obtain ok where "map_of (delivered c) g = Some ok"
    and c': "c' = c\<lparr>delivered := filter (\<lambda>(g', _). g' \<noteq> g) (delivered c)\<rparr>"
    by (auto simp: wait_resume_def split: option.splits)
  then have g: "g \<in> set (map fst (delivered c))" by (force dest: map_of_SomeD)
  show "distinct (recvq c @ map fst (delivered c)) \<Longrightarrow> distinct (recvq c' @ map fst (delivered c'))"
    and "distinct (recvq c @ map fst (delivered c)) \<Longrightarrow> set (recvq c @ map fst (delivered c)) = P \<Longrightarrow>
      set (recvq c' @ map fst (delivered c')) = P - {g}"
    using g unfolding c' by (auto simp: map_fst_delivered simp del: set_map)
  show "hasWaiters c' = hasWaiters c" "signal c \<le> signal c'" unfolding c' by simp_all
qed

lemma cond_ok_ctx:
  assumes "cond_ok c n P chs" "wait_ctx_done g c = Some (r, c')"
  shows "cond_ok c' n (P - {g}) chs"
  using assms(1)
proof (rule cond_ok_change)
  from assms(2) have g: "g \<in> set (recvq c)" and c': "c' = c\<lparr>recvq := remove1 g (recvq c)\<rparr>"
    by (auto simp: wait_ctx_done_def split: if_splits)
  show "distinct (recvq c @ map fst (delivered c)) \<Longrightarrow> distinct (recvq c' @ map fst (delivered c'))"
    and "distinct (recvq c @ map fst (delivered c)) \<Longrightarrow> set (recvq c @ map fst (delivered c)) = P \<Longrightarrow>
      set (recvq c' @ map fst (delivered c')) = P - {g}"
    using g unfolding c' by (auto simp del: set_map)
  show "hasWaiters c' = hasWaiters c" "signal c \<le> signal c'" unfolding c' by simp_all
qed

lemma cond_ok_leave:
  assumes "cond_ok c n P chs" "0 < n" "n < 2 ^ 64"
  shows "\<exists>c'. removeWaiter c = Some c' \<and> cond_ok c' (n - 1) P chs"
proof -
  have "(of_nat n :: 64 word) \<noteq> 0"
  proof
    assume "(of_nat n :: 64 word) = 0"
    then have "unat (of_nat n :: 64 word) = 0" by simp
    then have "n mod 2 ^ 64 = 0" by (simp add: unat_of_nat)
    with assms(2,3) show False by simp
  qed
  with assms show ?thesis
    by (auto simp: removeWaiter_Some cond_ok_def of_nat_diff)
qed

lemma cond_ok_subset: "cond_ok c n P chs \<Longrightarrow> chs' \<subseteq> chs \<Longrightarrow> cond_ok c n P chs'"
  by (auto simp: cond_ok_def)

end
