(* ===== verification/Deque.thy ===== *)
theory Deque
  imports Cond
begin

text \<open>
  \<open>gcollection/queue.go\<close>: the doubly-linked blocking deque. The nodes live in a heap
  (a function from addresses), pointers are \<open>addr option\<close>, and every method body is
  translated statement by statement as the code that runs while \<open>q.lock\<close> is held.
  \<open>None\<close> is a run-time panic (nil dereference, slice index) or a pointer loop that
  never ends; the refinement below shows that neither happens.
\<close>

section \<open>Nodes, the deque, and pointer accesses\<close>

type_synonym addr = nat

record 'a node =
  item :: "'a option"
  prev :: "addr option"
  nxt :: "addr option"

record 'a deque =
  nodes :: "addr \<Rightarrow> 'a node"
  fresh :: addr
  dq_first :: "addr option"
  dq_last :: "addr option"
  dq_count :: int
  dq_capacity :: int
  notEmpty :: tcond
  notFull :: tcond

datatype dq_error = ErrNilElement | ErrDequeFull

text \<open>Unallocated addresses hold \<open>blank\<close>; the allocator hands out \<open>fresh\<close>, \<open>fresh + 1\<close>, \dots\<close>

definition blank :: "'a node" where
  "blank = \<lparr>item = None, prev = None, nxt = None\<rparr>"

definition newNode :: "'a option \<Rightarrow> addr option \<Rightarrow> addr option \<Rightarrow> 'a deque \<Rightarrow> addr \<times> 'a deque" where
  "newNode e p n q =
     (fresh q, q\<lparr>nodes := (nodes q)(fresh q := \<lparr>item = e, prev = p, nxt = n\<rparr>),
                fresh := Suc (fresh q)\<rparr>)"

definition upd_node :: "('a node \<Rightarrow> 'a node) \<Rightarrow> addr option \<Rightarrow> 'a deque \<Rightarrow> 'a deque option" where
  "upd_node f p q =
     (case p of
        None \<Rightarrow> None
      | Some a \<Rightarrow> Some (q\<lparr>nodes := (nodes q)(a := f (nodes q a))\<rparr>))"

definition set_prev :: "addr option \<Rightarrow> addr option \<Rightarrow> 'a deque \<Rightarrow> 'a deque option" where
  "set_prev p v = upd_node (\<lambda>n. n\<lparr>prev := v\<rparr>) p"

definition set_nxt :: "addr option \<Rightarrow> addr option \<Rightarrow> 'a deque \<Rightarrow> 'a deque option" where
  "set_nxt p v = upd_node (\<lambda>n. n\<lparr>nxt := v\<rparr>) p"

definition set_item :: "addr option \<Rightarrow> 'a option \<Rightarrow> 'a deque \<Rightarrow> 'a deque option" where
  "set_item p v = upd_node (\<lambda>n. n\<lparr>item := v\<rparr>) p"

definition get_node :: "addr option \<Rightarrow> 'a deque \<Rightarrow> 'a node option" where
  "get_node p q = (case p of None \<Rightarrow> None | Some a \<Rightarrow> Some (nodes q a))"

lemmas node_access = upd_node_def set_prev_def set_nxt_def set_item_def get_node_def newNode_def

section \<open>The methods\<close>

definition NewDeque :: "int \<Rightarrow> 'a deque option" where
  "NewDeque cap =
     (if cap < 0 then None
      else Some \<lparr>nodes = (\<lambda>_. blank), fresh = 0, dq_first = None, dq_last = None,
                 dq_count = 0, dq_capacity = cap,
                 notEmpty = NewTimeoutCond, notFull = NewTimeoutCond\<rparr>)"

definition linkFirst :: "'a option \<Rightarrow> 'a deque \<Rightarrow> (bool \<times> 'a deque) option" where
  "linkFirst e q =
     (if dq_count q \<ge> dq_capacity q then Some (False, q)
      else do {
        let f = dq_first q;
        let (x, q) = newNode e None f q;
        let q = q\<lparr>dq_first := Some x\<rparr>;
        q \<leftarrow> (if dq_last q = None then Some (q\<lparr>dq_last := Some x\<rparr>) else set_prev f (Some x) q);
        let q = q\<lparr>dq_count := dq_count q + 1\<rparr>;
        Some (True, q\<lparr>notEmpty := Signal (notEmpty q)\<rparr>)
      })"

definition linkLast :: "'a option \<Rightarrow> 'a deque \<Rightarrow> (bool \<times> 'a deque) option" where
  "linkLast e q =
     (if dq_count q \<ge> dq_capacity q then Some (False, q)
      else do {
        let l = dq_last q;
        let (x, q) = newNode e l None q;
        let q = q\<lparr>dq_last := Some x\<rparr>;
        q \<leftarrow> (if dq_first q = None then Some (q\<lparr>dq_first := Some x\<rparr>) else set_nxt l (Some x) q);
        let q = q\<lparr>dq_count := dq_count q + 1\<rparr>;
        Some (True, q\<lparr>notEmpty := Signal (notEmpty q)\<rparr>)
      })"

definition unlinkFirst :: "'a deque \<Rightarrow> ('a option \<times> 'a deque) option" where
  "unlinkFirst q =
     (if dq_first q = None then Some (None, q)
      else do {
        let f = dq_first q;
        fn \<leftarrow> get_node f q;
        let n = nxt fn;
        q \<leftarrow> set_item f None q;
        q \<leftarrow> set_nxt f f q;
        let q = q\<lparr>dq_first := n\<rparr>;
        q \<leftarrow> (if n = None then Some (q\<lparr>dq_last := None\<rparr>) else set_prev n None q);
        let q = q\<lparr>dq_count := dq_count q - 1\<rparr>;
        Some (item fn, q\<lparr>notFull := Signal (notFull q)\<rparr>)
      })"

definition unlinkLast :: "'a deque \<Rightarrow> ('a option \<times> 'a deque) option" where
  "unlinkLast q =
     (if dq_last q = None then Some (None, q)
      else do {
        let l = dq_last q;
        ln \<leftarrow> get_node l q;
        let p = prev ln;
        q \<leftarrow> set_item l None q;
        q \<leftarrow> set_prev l l q;
        let q = q\<lparr>dq_last := p\<rparr>;
        q \<leftarrow> (if p = None then Some (q\<lparr>dq_first := None\<rparr>) else set_nxt p None q);
        let q = q\<lparr>dq_count := dq_count q - 1\<rparr>;
        Some (item ln, q\<lparr>notFull := Signal (notFull q)\<rparr>)
      })"

definition unlink :: "addr option \<Rightarrow> 'a deque \<Rightarrow> 'a deque option" where
  "unlink x q = do {
     xn \<leftarrow> get_node x q;
     let p = prev xn;
     let n = nxt xn;
     if p = None then map_option snd (unlinkFirst q)
     else if n = None then map_option snd (unlinkLast q)
     else do {
       q \<leftarrow> set_nxt p n q;
       q \<leftarrow> set_prev n p q;
       q \<leftarrow> set_item x None q;
       let q = q\<lparr>dq_count := dq_count q - 1\<rparr>;
       Some (q\<lparr>notFull := Signal (notFull q)\<rparr>)
     }
   }"

definition OfferFirst :: "'a option \<Rightarrow> 'a deque \<Rightarrow> (bool \<times> 'a deque) option" where
  "OfferFirst e q = (if e = None then Some (False, q) else linkFirst e q)"

definition OfferLast :: "'a option \<Rightarrow> 'a deque \<Rightarrow> (bool \<times> 'a deque) option" where
  "OfferLast e q = (if e = None then Some (False, q) else linkLast e q)"

definition AddFirst :: "'a option \<Rightarrow> 'a deque \<Rightarrow> (dq_error option \<times> 'a deque) option" where
  "AddFirst e q =
     (if e = None then Some (Some ErrNilElement, q)
      else do {
        (ok, q) \<leftarrow> OfferFirst e q;
        Some (if \<not> ok then Some ErrDequeFull else None, q)
      })"

definition AddLast :: "'a option \<Rightarrow> 'a deque \<Rightarrow> (dq_error option \<times> 'a deque) option" where
  "AddLast e q =
     (if e = None then Some (Some ErrNilElement, q)
      else do {
        (ok, q) \<leftarrow> OfferLast e q;
        Some (if \<not> ok then Some ErrDequeFull else None, q)
      })"

definition PollFirst :: "'a deque \<Rightarrow> ('a option \<times> 'a deque) option" where
  "PollFirst q = unlinkFirst q"

definition PollLast :: "'a deque \<Rightarrow> ('a option \<times> 'a deque) option" where
  "PollLast q = unlinkLast q"

definition PeekFirst :: "'a deque \<Rightarrow> 'a option option" where
  "PeekFirst q =
     (if dq_first q = None then Some None else map_option item (get_node (dq_first q) q))"

definition PeekLast :: "'a deque \<Rightarrow> 'a option option" where
  "PeekLast q =
     (if dq_last q = None then Some None else map_option item (get_node (dq_last q) q))"

text \<open>
  The two search loops: \<open>p\<close> is the loop variable. \<open>eq x y\<close> is Go's \<open>x == y\<close> on two
  interface values that are not nil: \<open>None\<close> is the run-time panic of two values of the same
  type that cannot be compared (a slice, a map, a function), and a value need not be equal to
  itself (a NaN). A comparison that panics is the result \<open>None\<close> of the search; the deferred
  \<open>Unlock\<close> has run and nothing has changed.
\<close>

definition iface_eq :: "('a \<Rightarrow> 'a \<Rightarrow> bool option) \<Rightarrow> 'a option \<Rightarrow> 'a option \<Rightarrow> bool option" where
  "iface_eq eq x y =
     (case (x, y) of (Some v, Some w) \<Rightarrow> eq v w | (None, None) \<Rightarrow> Some True | _ \<Rightarrow> Some False)"

partial_function (option) removeFirst_loop ::
  "('a \<Rightarrow> 'a \<Rightarrow> bool option) \<Rightarrow> 'a option \<Rightarrow> addr option \<Rightarrow> 'a deque \<Rightarrow> (bool option \<times> 'a deque) option" where
  "removeFirst_loop eq x p q =
     (case p of
        None \<Rightarrow> Some (Some False, q)
      | Some a \<Rightarrow>
          (case iface_eq eq x (item (nodes q a)) of
             None \<Rightarrow> Some (None, q)
           | Some same \<Rightarrow>
               if same then map_option (\<lambda>q. (Some True, q)) (unlink p q)
               else removeFirst_loop eq x (nxt (nodes q a)) q))"

definition RemoveFirstOccurrence ::
  "('a \<Rightarrow> 'a \<Rightarrow> bool option) \<Rightarrow> 'a option \<Rightarrow> 'a deque \<Rightarrow> (bool option \<times> 'a deque) option" where
  "RemoveFirstOccurrence eq x q =
     (if x = None then Some (Some False, q) else removeFirst_loop eq x (dq_first q) q)"

partial_function (option) removeLast_loop ::
  "('a \<Rightarrow> 'a \<Rightarrow> bool option) \<Rightarrow> 'a option \<Rightarrow> addr option \<Rightarrow> 'a deque \<Rightarrow> (bool option \<times> 'a deque) option" where
  "removeLast_loop eq x p q =
     (case p of
        None \<Rightarrow> Some (Some False, q)
      | Some a \<Rightarrow>
          (case iface_eq eq x (item (nodes q a)) of
             None \<Rightarrow> Some (None, q)
           | Some same \<Rightarrow>
               if same then map_option (\<lambda>q. (Some True, q)) (unlink p q)
               else removeLast_loop eq x (prev (nodes q a)) q))"

definition RemoveLastOccurrence ::
  "('a \<Rightarrow> 'a \<Rightarrow> bool option) \<Rightarrow> 'a option \<Rightarrow> 'a deque \<Rightarrow> (bool option \<times> 'a deque) option" where
  "RemoveLastOccurrence eq x q =
     (if x = None then Some (Some False, q) else removeLast_loop eq x (dq_last q) q)"

partial_function (option) toSlice_loop ::
  "addr option \<Rightarrow> int \<Rightarrow> 'a deque \<Rightarrow> 'a option list \<Rightarrow> 'a option list option" where
  "toSlice_loop p k q a =
     (case p of
        None \<Rightarrow> Some a
      | Some x \<Rightarrow>
          (case slice_set a k (item (nodes q x)) of
             None \<Rightarrow> None
           | Some a' \<Rightarrow> toSlice_loop (nxt (nodes q x)) (k + 1) q a'))"

definition ToSlice :: "'a deque \<Rightarrow> 'a option list option" where
  "ToSlice q = do { a \<leftarrow> go_make (dq_count q) None; toSlice_loop (dq_first q) 0 q a }"

definition dq_Size :: "'a deque \<Rightarrow> int" where
  "dq_Size q = dq_count q"

definition InterruptTakeWaiters :: "'a deque \<Rightarrow> 'a deque" where
  "InterruptTakeWaiters q = q\<lparr>notEmpty := Interrupt (notEmpty q)\<rparr>"

definition HasTakeWaiters :: "'a deque \<Rightarrow> bool" where
  "HasTakeWaiters q = HasWaiters (notEmpty q)"

section \<open>The representation invariant\<close>

text \<open>
  \<open>dll h p as n\<close>: the addresses \<open>as\<close> form a doubly-linked segment whose first node
  points back to \<open>p\<close> and whose last node points on to \<open>n\<close>.
\<close>

fun dll :: "(addr \<Rightarrow> 'a node) \<Rightarrow> addr option \<Rightarrow> addr list \<Rightarrow> addr option \<Rightarrow> bool" where
  "dll h p [] n \<longleftrightarrow> True"
| "dll h p (a # as) n \<longleftrightarrow>
     prev (h a) = p \<and> nxt (h a) = hd_opt as n \<and> dll h (Some a) as n"

lemma dll_append [simp]:
  "dll h p (as @ bs) n \<longleftrightarrow> dll h p as (hd_opt bs n) \<and> dll h (last_opt as p) bs n"
  by (induction as arbitrary: p) auto

lemma dll_frame: "x \<notin> set as \<Longrightarrow> dll (h(x := v)) p as n = dll h p as n"
  by (induction as arbitrary: p) auto

lemma dll_cong: "(\<And>a. a \<in> set as \<Longrightarrow> h' a = h a) \<Longrightarrow> dll h' p as n = dll h p as n"
  by (induction as arbitrary: p) auto

text \<open>
  \<open>dq_inv q ns\<close>: the deque's nodes are \<open>ns\<close>, in order. A node holds an item exactly
  while it is in the deque, so a removed node can be told from a live one.
\<close>

definition dq_inv :: "'a deque \<Rightarrow> addr list \<Rightarrow> bool" where
  "dq_inv q ns \<longleftrightarrow>
     distinct ns \<and> dll (nodes q) None ns None \<and>
     dq_first q = hd_opt ns None \<and> dq_last q = last_opt ns None \<and>
     dq_count q = int (length ns) \<and> int (length ns) \<le> dq_capacity q \<and>
     (\<forall>a \<in> set ns. a < fresh q) \<and>
     (\<forall>a. a \<in> set ns \<longleftrightarrow> item (nodes q a) \<noteq> None)"

definition dq_items :: "'a deque \<Rightarrow> addr list \<Rightarrow> 'a list" where
  "dq_items q ns = map (\<lambda>a. the (item (nodes q a))) ns"

text \<open>The abstraction: the deque \<open>q\<close> holds the elements \<open>xs\<close>, first to last.\<close>

definition dq_rep :: "'a deque \<Rightarrow> 'a list \<Rightarrow> bool" where
  "dq_rep q xs \<longleftrightarrow> (\<exists>ns. dq_inv q ns \<and> xs = dq_items q ns)"

lemma dq_inv_distinct: "dq_inv q ns \<Longrightarrow> distinct ns"
  by (simp add: dq_inv_def)

lemma dq_inv_fresh: "dq_inv q ns \<Longrightarrow> fresh q \<notin> set ns"
  by (auto simp: dq_inv_def)

lemma dq_repI: "dq_inv q ns \<Longrightarrow> dq_items q ns = xs \<Longrightarrow> dq_rep q xs"
  by (auto simp: dq_rep_def)

lemma dq_repE:
  assumes "dq_rep q xs"
  obtains ns where "dq_inv q ns" and "xs = dq_items q ns"
  using assms by (auto simp: dq_rep_def)

lemma dq_items_simps [simp]:
  "dq_items q [] = []"
  "dq_items q (a # as) = the (item (nodes q a)) # dq_items q as"
  "dq_items q (as @ bs) = dq_items q as @ dq_items q bs"
  "length (dq_items q ns) = length ns"
  by (simp_all add: dq_items_def)

lemma dq_items_cong:
  "(\<And>a. a \<in> set ns \<Longrightarrow> item (nodes q' a) = item (nodes q a)) \<Longrightarrow> dq_items q' ns = dq_items q ns"
  by (simp add: dq_items_def)

lemma NewDeque_inv: "NewDeque cap = Some q \<Longrightarrow> dq_inv q [] \<and> dq_capacity q = cap"
  by (auto simp: NewDeque_def dq_inv_def blank_def split: if_splits)

section \<open>Every method keeps the invariant\<close>

text \<open>
  One lemma per linking primitive: it returns (no nil dereference), its result, and the
  node list and elements of the new state.
\<close>

lemma link_full:
  assumes "dq_inv q ns" "dq_capacity q \<le> int (length ns)"
  shows "linkFirst e q = Some (False, q)" "linkLast e q = Some (False, q)"
  using assms by (simp_all add: linkFirst_def linkLast_def dq_inv_def)

lemma linkFirst_spec:
  assumes inv: "dq_inv q ns" and room: "int (length ns) < dq_capacity q"
  shows "\<exists>q'. linkFirst (Some v) q = Some (True, q') \<and> dq_inv q' (fresh q # ns) \<and>
    dq_items q' (fresh q # ns) = v # dq_items q ns \<and> dq_capacity q' = dq_capacity q"
proof (cases ns)
  case Nil
  with inv room show ?thesis
    by (simp add: linkFirst_def dq_inv_def node_access dq_items_def)
next
  case (Cons a as)
  have x: "fresh q \<notin> set ns" using inv by (rule dq_inv_fresh)
  with inv room Cons show ?thesis
    by (auto simp: linkFirst_def dq_inv_def node_access dq_items_def dll_frame)
qed

lemma linkLast_spec:
  assumes inv: "dq_inv q ns" and room: "int (length ns) < dq_capacity q"
  shows "\<exists>q'. linkLast (Some v) q = Some (True, q') \<and> dq_inv q' (ns @ [fresh q]) \<and>
    dq_items q' (ns @ [fresh q]) = dq_items q ns @ [v] \<and> dq_capacity q' = dq_capacity q"
proof (cases ns rule: rev_cases)
  case Nil
  with inv room show ?thesis
    by (simp add: linkLast_def dq_inv_def node_access dq_items_def)
next
  case (snoc as a)
  have x: "fresh q \<notin> set ns" using inv by (rule dq_inv_fresh)
  with inv room snoc show ?thesis
    by (auto simp: linkLast_def dq_inv_def node_access dq_items_def dll_frame)
qed

lemma unlinkFirst_Nil: "dq_inv q [] \<Longrightarrow> unlinkFirst q = Some (None, q)"
  by (simp add: unlinkFirst_def dq_inv_def)

lemma unlinkLast_Nil: "dq_inv q [] \<Longrightarrow> unlinkLast q = Some (None, q)"
  by (simp add: unlinkLast_def dq_inv_def)

lemma unlinkFirst_Cons:
  assumes inv: "dq_inv q (a # as)"
  shows "\<exists>q'. unlinkFirst q = Some (item (nodes q a), q') \<and> dq_inv q' as \<and>
    dq_items q' as = dq_items q as \<and> dq_capacity q' = dq_capacity q"
proof (cases as)
  case Nil
  with inv show ?thesis
    by (auto simp: unlinkFirst_def dq_inv_def node_access dq_items_def)
next
  case (Cons b bs)
  with inv show ?thesis
    by (auto simp: unlinkFirst_def dq_inv_def node_access dq_items_def dll_frame)
qed

lemma unlinkLast_snoc:
  assumes inv: "dq_inv q (as @ [a])"
  shows "\<exists>q'. unlinkLast q = Some (item (nodes q a), q') \<and> dq_inv q' as \<and>
    dq_items q' as = dq_items q as \<and> dq_capacity q' = dq_capacity q"
proof (cases as rule: rev_cases)
  case Nil
  with inv show ?thesis
    by (auto simp: unlinkLast_def dq_inv_def node_access dq_items_def)
next
  case (snoc bs b)
  with inv show ?thesis
    by (auto simp: unlinkLast_def dq_inv_def node_access dq_items_def dll_frame)
qed

lemma unlink_spec:
  assumes inv: "dq_inv q (as @ x # bs)"
  shows "\<exists>q'. unlink (Some x) q = Some q' \<and> dq_inv q' (as @ bs) \<and>
    dq_items q' (as @ bs) = dq_items q (as @ bs) \<and> dq_capacity q' = dq_capacity q"
proof (cases as rule: rev_cases)
  case Nil
  with inv have "prev (nodes q x) = None" by (simp add: dq_inv_def)
  with Nil unlinkFirst_Cons [of q x bs] inv show ?thesis
    by (auto simp: unlink_def get_node_def)
next
  case (snoc as' a)
  note as = this
  show ?thesis
  proof (cases bs)
    case Nil
    with inv as have "prev (nodes q x) = Some a" "nxt (nodes q x) = None"
      by (simp_all add: dq_inv_def)
    with Nil unlinkLast_snoc [of q as x] inv show ?thesis
      by (auto simp: unlink_def get_node_def)
  next
    case (Cons b bs')
    with inv as show ?thesis
      by (auto simp: unlink_def dq_inv_def node_access dq_items_def dll_frame)
  qed
qed

section \<open>The methods on the abstraction\<close>

text \<open>
  Each exported method, on a deque that represents \<open>xs\<close>: it returns normally, with
  which result, and what the new state represents.
\<close>

lemma OfferFirst_rep:
  assumes "dq_rep q xs"
  shows "\<exists>q'. OfferFirst (Some v) q = Some (int (length xs) < dq_capacity q, q') \<and>
    dq_rep q' (if int (length xs) < dq_capacity q then v # xs else xs) \<and>
    dq_capacity q' = dq_capacity q"
proof -
  from assms obtain ns where ns: "dq_inv q ns" "xs = dq_items q ns" by (rule dq_repE)
  show ?thesis
  proof (cases "int (length ns) < dq_capacity q")
    case True
    from linkFirst_spec [OF ns(1) True, of v] ns True show ?thesis
      by (auto simp del: dq_items_simps(2) simp: OfferFirst_def intro: dq_repI)
  next
    case False
    with link_full(1) [OF ns(1)] ns show ?thesis by (auto simp: OfferFirst_def intro: dq_repI)
  qed
qed

lemma OfferLast_rep:
  assumes "dq_rep q xs"
  shows "\<exists>q'. OfferLast (Some v) q = Some (int (length xs) < dq_capacity q, q') \<and>
    dq_rep q' (if int (length xs) < dq_capacity q then xs @ [v] else xs) \<and>
    dq_capacity q' = dq_capacity q"
proof -
  from assms obtain ns where ns: "dq_inv q ns" "xs = dq_items q ns" by (rule dq_repE)
  show ?thesis
  proof (cases "int (length ns) < dq_capacity q")
    case True
    from linkLast_spec [OF ns(1) True, of v] ns True show ?thesis
      by (auto simp del: dq_items_simps(3) simp: OfferLast_def intro: dq_repI)
  next
    case False
    with link_full(2) [OF ns(1)] ns show ?thesis by (auto simp: OfferLast_def intro: dq_repI)
  qed
qed

lemma dq_inv_item_Some: "dq_inv q ns \<Longrightarrow> a \<in> set ns \<Longrightarrow> item (nodes q a) = Some (the (item (nodes q a)))"
  by (auto simp: dq_inv_def)

lemma PollFirst_rep:
  assumes "dq_rep q xs"
  shows "\<exists>q'. PollFirst q = Some (hd_opt xs None, q') \<and> dq_rep q' (tl xs) \<and>
    dq_capacity q' = dq_capacity q"
proof -
  from assms obtain ns where ns: "dq_inv q ns" "xs = dq_items q ns" by (rule dq_repE)
  show ?thesis
  proof (cases ns)
    case Nil
    with ns unlinkFirst_Nil [of q] show ?thesis by (auto simp: PollFirst_def intro: dq_repI)
  next
    case (Cons a as)
    from unlinkFirst_Cons [of q a as] ns Cons dq_inv_item_Some [OF ns(1), of a]
    show ?thesis by (auto simp: PollFirst_def intro: dq_repI)
  qed
qed

lemma PollLast_rep:
  assumes "dq_rep q xs"
  shows "\<exists>q'. PollLast q = Some (last_opt xs None, q') \<and> dq_rep q' (butlast xs) \<and>
    dq_capacity q' = dq_capacity q"
proof -
  from assms obtain ns where ns: "dq_inv q ns" "xs = dq_items q ns" by (rule dq_repE)
  show ?thesis
  proof (cases ns rule: rev_cases)
    case Nil
    with ns unlinkLast_Nil [of q] show ?thesis by (auto simp: PollLast_def intro: dq_repI)
  next
    case (snoc as a)
    from unlinkLast_snoc [of q as a] ns snoc dq_inv_item_Some [OF ns(1), of a]
    show ?thesis by (auto simp: PollLast_def intro: dq_repI)
  qed
qed

lemma Peek_rep:
  assumes "dq_rep q xs"
  shows "PeekFirst q = Some (hd_opt xs None)" and "PeekLast q = Some (last_opt xs None)"
proof -
  from assms obtain ns where ns: "dq_inv q ns" "xs = dq_items q ns" by (rule dq_repE)
  have hd: "hd_opt xs None = (if ns = [] then None else item (nodes q (hd ns)))"
    using ns dq_inv_item_Some [OF ns(1), of "hd ns"] by (auto simp: hd_opt_def dq_items_def hd_map)
  have last: "last_opt xs None = (if ns = [] then None else item (nodes q (last ns)))"
    using ns dq_inv_item_Some [OF ns(1), of "last ns"] by (auto simp: last_opt_def dq_items_def last_map)
  from ns(1) have "dq_first q = hd_opt ns None" "dq_last q = last_opt ns None"
    by (simp_all add: dq_inv_def)
  then show "PeekFirst q = Some (hd_opt xs None)" "PeekLast q = Some (last_opt xs None)"
    unfolding hd last by (simp_all add: PeekFirst_def PeekLast_def get_node_def hd_opt_def last_opt_def)
qed

text \<open>A search changes nothing but what \<open>unlink\<close> of one live node changes.\<close>

definition unlinks_one :: "'a deque \<Rightarrow> 'a deque \<Rightarrow> bool" where
  "unlinks_one q q' \<longleftrightarrow> q' = q \<or> (\<exists>a. item (nodes q a) \<noteq> None \<and> unlink (Some a) q = Some q')"

lemma iface_eq_live: "iface_eq eq (Some v) y = Some True \<Longrightarrow> \<exists>w. y = Some w"
  by (cases y) (simp_all add: iface_eq_def)

lemma removeFirst_loop_unlinks:
  "removeFirst_loop eq x p q = Some r \<Longrightarrow> x \<noteq> None \<longrightarrow> unlinks_one q (snd r) \<and> (fst r = None \<longrightarrow> snd r = q)"
proof (erule removeFirst_loop.raw_induct [where P = "\<lambda>eq x p q r. x \<noteq> None \<longrightarrow> unlinks_one q (snd r) \<and> (fst r = None \<longrightarrow> snd r = q)" and
      xa = "(((eq, x), p), q)", unfolded prod.case, rotated])
  fix f and eq :: "'a \<Rightarrow> 'a \<Rightarrow> bool option" and x p and q :: "'a deque" and r
  assume IH: "\<And>eq x p q r. f eq x p q = Some r \<Longrightarrow> x \<noteq> None \<longrightarrow> unlinks_one q (snd r) \<and> (fst r = None \<longrightarrow> snd r = q)"
    and "(case p of None \<Rightarrow> Some (Some False, q)
      | Some a \<Rightarrow> (case iface_eq eq x (item (nodes q a)) of
          None \<Rightarrow> Some (None, q)
        | Some same \<Rightarrow> if same then map_option (\<lambda>q. (Some True, q)) (unlink p q) else f eq x (nxt (nodes q a)) q)) = Some r"
  then show "x \<noteq> None \<longrightarrow> unlinks_one q (snd r) \<and> (fst r = None \<longrightarrow> snd r = q)"
    by (auto simp: unlinks_one_def split: option.splits if_splits) (metis iface_eq_live option.distinct(1))
qed

lemma removeLast_loop_unlinks:
  "removeLast_loop eq x p q = Some r \<Longrightarrow> x \<noteq> None \<longrightarrow> unlinks_one q (snd r) \<and> (fst r = None \<longrightarrow> snd r = q)"
proof (erule removeLast_loop.raw_induct [where P = "\<lambda>eq x p q r. x \<noteq> None \<longrightarrow> unlinks_one q (snd r) \<and> (fst r = None \<longrightarrow> snd r = q)" and
      xa = "(((eq, x), p), q)", unfolded prod.case, rotated])
  fix f and eq :: "'a \<Rightarrow> 'a \<Rightarrow> bool option" and x p and q :: "'a deque" and r
  assume IH: "\<And>eq x p q r. f eq x p q = Some r \<Longrightarrow> x \<noteq> None \<longrightarrow> unlinks_one q (snd r) \<and> (fst r = None \<longrightarrow> snd r = q)"
    and "(case p of None \<Rightarrow> Some (Some False, q)
      | Some a \<Rightarrow> (case iface_eq eq x (item (nodes q a)) of
          None \<Rightarrow> Some (None, q)
        | Some same \<Rightarrow> if same then map_option (\<lambda>q. (Some True, q)) (unlink p q) else f eq x (prev (nodes q a)) q)) = Some r"
  then show "x \<noteq> None \<longrightarrow> unlinks_one q (snd r) \<and> (fst r = None \<longrightarrow> snd r = q)"
    by (auto simp: unlinks_one_def split: option.splits if_splits) (metis iface_eq_live option.distinct(1))
qed

lemma RemoveOccurrence_unlinks:
  "RemoveFirstOccurrence eq x q = Some (b, q') \<Longrightarrow> unlinks_one q q'"
  "RemoveLastOccurrence eq x q = Some (b, q') \<Longrightarrow> unlinks_one q q'"
  "RemoveFirstOccurrence eq x q = Some (None, q') \<Longrightarrow> q' = q"
  "RemoveLastOccurrence eq x q = Some (None, q') \<Longrightarrow> q' = q"
  using removeFirst_loop_unlinks [of eq x _ q "(b, q')"] removeLast_loop_unlinks [of eq x _ q "(b, q')"]
    removeFirst_loop_unlinks [of eq x _ q "(None, q')"] removeLast_loop_unlinks [of eq x _ q "(None, q')"]
  by (auto simp: RemoveFirstOccurrence_def RemoveLastOccurrence_def unlinks_one_def split: if_splits)

text \<open>
  The search on a list: the elements before the first that is not told apart from what is
  searched for, and what comes of that one.
\<close>

definition remove_match :: "('a \<Rightarrow> bool option) \<Rightarrow> 'a list \<Rightarrow> bool option \<times> 'a list" where
  "remove_match same xs =
     (case dropWhile (\<lambda>x. same x = Some False) xs of
        [] \<Rightarrow> (Some False, xs)
      | x # after \<Rightarrow>
          (case same x of
             None \<Rightarrow> (None, xs)
           | Some _ \<Rightarrow> (Some True, takeWhile (\<lambda>x. same x = Some False) xs @ after)))"

definition remove_match_last :: "('a \<Rightarrow> bool option) \<Rightarrow> 'a list \<Rightarrow> bool option \<times> 'a list" where
  "remove_match_last same xs = apsnd rev (remove_match same (rev xs))"

lemma remove_match_Nil [simp]: "remove_match same [] = (Some False, [])"
  by (simp add: remove_match_def)

lemma remove_match_Cons:
  "remove_match same (x # xs) =
     (case same x of None \<Rightarrow> (None, x # xs) | Some True \<Rightarrow> (Some True, xs)
      | Some False \<Rightarrow> apsnd ((#) x) (remove_match same xs))"
proof (cases "same x = Some False")
  case True
  then show ?thesis
    by (cases "dropWhile (\<lambda>x. same x = Some False) xs")
      (simp_all add: remove_match_def split: option.split del: dropWhile_eq_Nil_conv)
qed (auto simp: remove_match_def split: option.split bool.split)

lemma remove_match_last_Nil [simp]: "remove_match_last same [] = (Some False, [])"
  by (simp add: remove_match_last_def)

lemma remove_match_last_snoc:
  "remove_match_last same (xs @ [x]) =
     (case same x of None \<Rightarrow> (None, xs @ [x]) | Some True \<Rightarrow> (Some True, xs)
      | Some False \<Rightarrow> apsnd (\<lambda>ys. ys @ [x]) (remove_match_last same xs))"
  by (cases "remove_match same (rev xs)")
    (simp add: remove_match_last_def remove_match_Cons split: option.split bool.split)

text \<open>A comparison that is the equality of the values.\<close>

definition plain_eq :: "'a \<Rightarrow> 'a \<Rightarrow> bool option" where
  "plain_eq x y = Some (x = y)"

lemma remove_match_plain: "remove_match (plain_eq v) xs = (Some (v \<in> set xs), remove1 v xs)"
  by (induction xs) (auto simp: remove_match_Cons plain_eq_def)

lemma removeFirst_loop_rep:
  assumes "dq_inv q (as @ bs)"
  shows "\<exists>q'. removeFirst_loop eq (Some v) (hd_opt bs None) q = Some (fst (remove_match (eq v) (dq_items q bs)), q') \<and>
    dq_rep q' (dq_items q as @ snd (remove_match (eq v) (dq_items q bs))) \<and> dq_capacity q' = dq_capacity q"
  using assms
proof (induction bs arbitrary: as)
  case Nil
  then show ?case by (auto simp: removeFirst_loop.simps intro: dq_repI)
next
  case (Cons b bs)
  have b: "item (nodes q b) = Some (the (item (nodes q b)))"
    using Cons.prems by (rule dq_inv_item_Some) simp
  have n: "nxt (nodes q b) = hd_opt bs None" using Cons.prems by (simp add: dq_inv_def)
  have e: "iface_eq eq (Some v) (item (nodes q b)) = eq v (the (item (nodes q b)))"
    by (subst b) (simp add: iface_eq_def)
  show ?case
  proof (cases "eq v (the (item (nodes q b)))")
    case None
    with Cons.prems e show ?thesis
      by (auto simp: removeFirst_loop.simps remove_match_Cons intro: dq_repI)
  next
    case (Some r)
    show ?thesis
    proof (cases r)
      case True
      from unlink_spec [OF Cons.prems] True Some e show ?thesis
        by (auto simp: removeFirst_loop.simps remove_match_Cons intro!: dq_repI [of _ "as @ bs"])
    next
      case False
      with Cons.IH [of "as @ [b]"] Cons.prems Some n e show ?thesis
        by (subst removeFirst_loop.simps) (auto simp: remove_match_Cons)
    qed
  qed
qed

lemma removeLast_loop_rep:
  assumes "dq_inv q (as @ bs)"
  shows "\<exists>q'. removeLast_loop eq (Some v) (last_opt as None) q = Some (fst (remove_match_last (eq v) (dq_items q as)), q') \<and>
    dq_rep q' (snd (remove_match_last (eq v) (dq_items q as)) @ dq_items q bs) \<and> dq_capacity q' = dq_capacity q"
  using assms
proof (induction as arbitrary: bs rule: rev_induct)
  case Nil
  then show ?case by (auto simp: removeLast_loop.simps intro: dq_repI)
next
  case (snoc a as)
  have a: "item (nodes q a) = Some (the (item (nodes q a)))"
    using snoc.prems by (rule dq_inv_item_Some) simp
  have p: "prev (nodes q a) = last_opt as None" using snoc.prems by (simp add: dq_inv_def)
  have e: "iface_eq eq (Some v) (item (nodes q a)) = eq v (the (item (nodes q a)))"
    by (subst a) (simp add: iface_eq_def)
  show ?case
  proof (cases "eq v (the (item (nodes q a)))")
    case None
    with snoc.prems e show ?thesis
      by (auto simp: removeLast_loop.simps remove_match_last_snoc intro: dq_repI)
  next
    case (Some r)
    show ?thesis
    proof (cases r)
      case True
      from unlink_spec [of q as a bs] snoc.prems True Some e show ?thesis
        by (auto simp: removeLast_loop.simps remove_match_last_snoc intro!: dq_repI [of _ "as @ bs"])
    next
      case False
      with snoc.IH [of "a # bs"] snoc.prems Some p e show ?thesis
        by (subst removeLast_loop.simps) (auto simp: remove_match_last_snoc)
    qed
  qed
qed

lemma RemoveFirstOccurrence_rep:
  assumes "dq_rep q xs"
  shows "\<exists>q'. RemoveFirstOccurrence eq (Some v) q = Some (fst (remove_match (eq v) xs), q') \<and>
    dq_rep q' (snd (remove_match (eq v) xs)) \<and> dq_capacity q' = dq_capacity q"
proof -
  from assms obtain ns where ns: "dq_inv q ns" "xs = dq_items q ns" by (rule dq_repE)
  from ns removeFirst_loop_rep [of q "[]" ns eq v] show ?thesis
    by (auto simp: RemoveFirstOccurrence_def dq_inv_def)
qed

lemma RemoveLastOccurrence_rep:
  assumes "dq_rep q xs"
  shows "\<exists>q'. RemoveLastOccurrence eq (Some v) q = Some (fst (remove_match_last (eq v) xs), q') \<and>
    dq_rep q' (snd (remove_match_last (eq v) xs)) \<and> dq_capacity q' = dq_capacity q"
proof -
  from assms obtain ns where ns: "dq_inv q ns" "xs = dq_items q ns" by (rule dq_repE)
  from ns removeLast_loop_rep [of q ns "[]" eq v] show ?thesis
    by (auto simp: RemoveLastOccurrence_def dq_inv_def)
qed

lemma toSlice_loop_items:
  assumes "dq_inv q (as @ bs)"
  shows "toSlice_loop (hd_opt bs None) (int (length as)) q
      (map Some (dq_items q as) @ replicate (length bs) None) = Some (map Some (dq_items q (as @ bs)))"
  using assms
proof (induction bs arbitrary: as)
  case Nil
  then show ?case by (simp add: toSlice_loop.simps)
next
  case (Cons b bs)
  have b: "item (nodes q b) = Some (the (item (nodes q b)))"
    using Cons.prems by (rule dq_inv_item_Some) simp
  have n: "nxt (nodes q b) = hd_opt bs None" using Cons.prems by (simp add: dq_inv_def)
  have upd: "slice_set (map Some (dq_items q as) @ replicate (length (b # bs)) None) (int (length as))
      (item (nodes q b)) = Some (map Some (dq_items q (as @ [b])) @ replicate (length bs) None)"
    using b list_update_append_here [of "map Some (dq_items q as)" None "replicate (length bs) None"]
    by (simp add: slice_set_def)
  have k: "int (length as) + 1 = int (length (as @ [b]))" by simp
  from Cons.IH [of "as @ [b]"] Cons.prems show ?case
    by (subst toSlice_loop.simps) (simp only: hd_opt_simps option.case upd n k append_assoc append_Cons append_Nil)
qed

lemma ToSlice_rep:
  assumes "dq_rep q xs"
  shows "ToSlice q = Some (map Some xs)"
proof -
  from assms obtain ns where ns: "dq_inv q ns" "xs = dq_items q ns" by (rule dq_repE)
  from ns(1) have "dq_count q = int (length ns)" "dq_first q = hd_opt ns None"
    by (simp_all add: dq_inv_def)
  with ns toSlice_loop_items [of q "[]" ns] show ?thesis
    by (simp add: ToSlice_def go_make_def)
qed

lemma dq_Size_rep: "dq_rep q xs \<Longrightarrow> dq_Size q = int (length xs)"
  by (auto simp: dq_rep_def dq_Size_def dq_inv_def)

lemma Interrupt_rep: "dq_rep q xs \<Longrightarrow> dq_rep (InterruptTakeWaiters q) xs"
  by (auto simp: dq_rep_def dq_inv_def InterruptTakeWaiters_def dq_items_def)


end
