(* ===== verification/DequeSpec.thy ===== *)
theory DequeSpec
  imports Deque
begin

text \<open>
  What the deque promises: a bounded double-ended queue over plain lists, the interface of
  its clients as a locale, and the refinement that the linked implementation of
  \<open>gcollection/queue.go\<close> answers every sequence of calls as the list does.
\<close>

section \<open>Calls, answers, and the list specification\<close>

text \<open>
  A removal by value comes with the comparison \<open>==\<close> of the run-time on the values of the
  client. \<open>AnsPanic\<close>: the comparison panicked.
\<close>

datatype 'a dq_op =
    CAddFirst "'a option" | CAddLast "'a option"
  | COfferFirst "'a option" | COfferLast "'a option"
  | CPollFirst | CPollLast | CPeekFirst | CPeekLast
  | CRemoveFirstOccurrence "'a \<Rightarrow> 'a \<Rightarrow> bool option" "'a option"
  | CRemoveLastOccurrence "'a \<Rightarrow> 'a \<Rightarrow> bool option" "'a option"
  | CToSlice | CSize | CInterruptTakeWaiters

datatype 'a dq_answer =
    AnsError "dq_error option" | AnsBool bool | AnsItem "'a option"
  | AnsSlice "'a option list" | AnsInt int | AnsUnit | AnsPanic

definition AnsFound :: "bool option \<Rightarrow> 'a dq_answer" where
  "AnsFound r = (case r of None \<Rightarrow> AnsPanic | Some b \<Rightarrow> AnsBool b)"

lemma AnsFound_simps [simp]: "AnsFound None = AnsPanic" "AnsFound (Some b) = AnsBool b"
  by (simp_all add: AnsFound_def)

fun dq_call :: "'a dq_op \<Rightarrow> 'a deque \<Rightarrow> ('a dq_answer \<times> 'a deque) option" where
  "dq_call (CAddFirst e) q = map_option (apfst AnsError) (AddFirst e q)"
| "dq_call (CAddLast e) q = map_option (apfst AnsError) (AddLast e q)"
| "dq_call (COfferFirst e) q = map_option (apfst AnsBool) (OfferFirst e q)"
| "dq_call (COfferLast e) q = map_option (apfst AnsBool) (OfferLast e q)"
| "dq_call CPollFirst q = map_option (apfst AnsItem) (PollFirst q)"
| "dq_call CPollLast q = map_option (apfst AnsItem) (PollLast q)"
| "dq_call CPeekFirst q = map_option (\<lambda>x. (AnsItem x, q)) (PeekFirst q)"
| "dq_call CPeekLast q = map_option (\<lambda>x. (AnsItem x, q)) (PeekLast q)"
| "dq_call (CRemoveFirstOccurrence eq e) q = map_option (apfst AnsFound) (RemoveFirstOccurrence eq e q)"
| "dq_call (CRemoveLastOccurrence eq e) q = map_option (apfst AnsFound) (RemoveLastOccurrence eq e q)"
| "dq_call CToSlice q = map_option (\<lambda>s. (AnsSlice s, q)) (ToSlice q)"
| "dq_call CSize q = Some (AnsInt (dq_Size q), q)"
| "dq_call CInterruptTakeWaiters q = Some (AnsUnit, InterruptTakeWaiters q)"

fun dq_calls :: "'a dq_op list \<Rightarrow> 'a deque \<Rightarrow> ('a dq_answer list \<times> 'a deque) option" where
  "dq_calls [] q = Some ([], q)"
| "dq_calls (c # cs) q = do {
     (r, q) \<leftarrow> dq_call c q;
     (rs, q) \<leftarrow> dq_calls cs q;
     Some (r # rs, q)
   }"

text \<open>The specification on lists; \<open>room\<close> is whether one more element fits.\<close>

fun list_call :: "int \<Rightarrow> 'a dq_op \<Rightarrow> 'a list \<Rightarrow> 'a dq_answer \<times> 'a list" where
  "list_call cap (CAddFirst None) xs = (AnsError (Some ErrNilElement), xs)"
| "list_call cap (CAddLast None) xs = (AnsError (Some ErrNilElement), xs)"
| "list_call cap (CAddFirst (Some v)) xs =
     (if int (length xs) < cap then (AnsError None, v # xs) else (AnsError (Some ErrDequeFull), xs))"
| "list_call cap (CAddLast (Some v)) xs =
     (if int (length xs) < cap then (AnsError None, xs @ [v]) else (AnsError (Some ErrDequeFull), xs))"
| "list_call cap (COfferFirst None) xs = (AnsBool False, xs)"
| "list_call cap (COfferLast None) xs = (AnsBool False, xs)"
| "list_call cap (COfferFirst (Some v)) xs =
     (if int (length xs) < cap then (AnsBool True, v # xs) else (AnsBool False, xs))"
| "list_call cap (COfferLast (Some v)) xs =
     (if int (length xs) < cap then (AnsBool True, xs @ [v]) else (AnsBool False, xs))"
| "list_call cap CPollFirst xs = (AnsItem (hd_opt xs None), tl xs)"
| "list_call cap CPollLast xs = (AnsItem (last_opt xs None), butlast xs)"
| "list_call cap CPeekFirst xs = (AnsItem (hd_opt xs None), xs)"
| "list_call cap CPeekLast xs = (AnsItem (last_opt xs None), xs)"
| "list_call cap (CRemoveFirstOccurrence eq None) xs = (AnsBool False, xs)"
| "list_call cap (CRemoveLastOccurrence eq None) xs = (AnsBool False, xs)"
| "list_call cap (CRemoveFirstOccurrence eq (Some v)) xs = apfst AnsFound (remove_match (eq v) xs)"
| "list_call cap (CRemoveLastOccurrence eq (Some v)) xs = apfst AnsFound (remove_match_last (eq v) xs)"
| "list_call cap CToSlice xs = (AnsSlice (map Some xs), xs)"
| "list_call cap CSize xs = (AnsInt (int (length xs)), xs)"
| "list_call cap CInterruptTakeWaiters xs = (AnsUnit, xs)"

fun list_calls :: "int \<Rightarrow> 'a dq_op list \<Rightarrow> 'a list \<Rightarrow> 'a dq_answer list \<times> 'a list" where
  "list_calls cap [] xs = ([], xs)"
| "list_calls cap (c # cs) xs =
     (let (r, ys) = list_call cap c xs; (rs, zs) = list_calls cap cs ys in (r # rs, zs))"

section \<open>Refinement\<close>

lemma AddFirst_rep:
  assumes "dq_rep q xs"
  shows "\<exists>q'. AddFirst (Some v) q =
      Some (if int (length xs) < dq_capacity q then None else Some ErrDequeFull, q') \<and>
    dq_rep q' (if int (length xs) < dq_capacity q then v # xs else xs) \<and>
    dq_capacity q' = dq_capacity q"
  using OfferFirst_rep [OF assms, of v] by (auto simp: AddFirst_def)

lemma AddLast_rep:
  assumes "dq_rep q xs"
  shows "\<exists>q'. AddLast (Some v) q =
      Some (if int (length xs) < dq_capacity q then None else Some ErrDequeFull, q') \<and>
    dq_rep q' (if int (length xs) < dq_capacity q then xs @ [v] else xs) \<and>
    dq_capacity q' = dq_capacity q"
  using OfferLast_rep [OF assms, of v] by (auto simp: AddLast_def)

lemma nil_calls:
  "AddFirst None q = Some (Some ErrNilElement, q)" "AddLast None q = Some (Some ErrNilElement, q)"
  "OfferFirst None q = Some (False, q)" "OfferLast None q = Some (False, q)"
  "RemoveFirstOccurrence eq None q = Some (Some False, q)" "RemoveLastOccurrence eq None q = Some (Some False, q)"
  by (simp_all add: AddFirst_def AddLast_def OfferFirst_def OfferLast_def
      RemoveFirstOccurrence_def RemoveLastOccurrence_def)

lemma dq_call_refines:
  assumes rep: "dq_rep q xs"
  shows "\<exists>q'. dq_call c q = Some (fst (list_call (dq_capacity q) c xs), q') \<and>
    dq_rep q' (snd (list_call (dq_capacity q) c xs)) \<and> dq_capacity q' = dq_capacity q"
proof (cases c)
  case (CAddFirst e)
  with rep AddFirst_rep [OF rep, of "the e"] show ?thesis
    by (cases e) (auto simp: nil_calls)
next
  case (CAddLast e)
  with rep AddLast_rep [OF rep, of "the e"] show ?thesis
    by (cases e) (auto simp: nil_calls)
next
  case (COfferFirst e)
  with rep OfferFirst_rep [OF rep, of "the e"] show ?thesis
    by (cases e) (auto simp: nil_calls)
next
  case (COfferLast e)
  with rep OfferLast_rep [OF rep, of "the e"] show ?thesis
    by (cases e) (auto simp: nil_calls)
next
  case CPollFirst
  with PollFirst_rep [OF rep] show ?thesis by auto
next
  case CPollLast
  with PollLast_rep [OF rep] show ?thesis by auto
next
  case CPeekFirst
  with rep show ?thesis by (simp add: Peek_rep [OF rep])
next
  case CPeekLast
  with rep show ?thesis by (simp add: Peek_rep [OF rep])
next
  case (CRemoveFirstOccurrence eq e)
  with rep RemoveFirstOccurrence_rep [OF rep, of eq "the e"] show ?thesis
    by (cases e) (auto simp: nil_calls)
next
  case (CRemoveLastOccurrence eq e)
  with rep RemoveLastOccurrence_rep [OF rep, of eq "the e"] show ?thesis
    by (cases e) (auto simp: nil_calls)
next
  case CToSlice
  with rep show ?thesis by (simp add: ToSlice_rep [OF rep])
next
  case CSize
  with rep show ?thesis by (simp add: dq_Size_rep [OF rep])
next
  case CInterruptTakeWaiters
  with Interrupt_rep [OF rep] show ?thesis by (simp add: InterruptTakeWaiters_def)
qed

text \<open>When a call panics.\<close>

fun cannot_compare :: "'a dq_op \<Rightarrow> 'a list \<Rightarrow> bool" where
  "cannot_compare (CRemoveFirstOccurrence eq (Some v)) xs = (\<exists>x \<in> set xs. eq v x = None)"
| "cannot_compare (CRemoveLastOccurrence eq (Some v)) xs = (\<exists>x \<in> set xs. eq v x = None)"
| "cannot_compare c xs = False"

lemma remove_match_panics: "fst (remove_match same xs) = None \<Longrightarrow> \<exists>x \<in> set xs. same x = None"
  by (induction xs) (auto simp: remove_match_Cons split: option.splits bool.splits)

lemma AnsFound_panic [simp]: "AnsFound r = AnsPanic \<longleftrightarrow> r = None"
  by (cases r) simp_all

lemma list_call_panics: "fst (list_call cap c xs) = AnsPanic \<Longrightarrow> cannot_compare c xs"
  by (induction cap c xs rule: list_call.induct)
    (auto simp: remove_match_last_def split: if_splits, (metis remove_match_panics set_rev)+)

lemma dq_call_panics:
  assumes "dq_rep q xs" "dq_call c q = Some (AnsPanic, q')"
  shows "cannot_compare c xs \<and> q' = q"
proof -
  from dq_call_refines [OF assms(1), of c] assms(2) have "fst (list_call (dq_capacity q) c xs) = AnsPanic" by simp
  then have c: "cannot_compare c xs" by (rule list_call_panics)
  moreover have "q' = q" using assms(2) c
    by (cases "(c, xs)" rule: cannot_compare.cases) (auto dest: RemoveOccurrence_unlinks(3,4))
  ultimately show ?thesis ..
qed

lemma dq_calls_refines:
  assumes "dq_rep q xs"
  shows "\<exists>q'. dq_calls cs q = Some (fst (list_calls (dq_capacity q) cs xs), q') \<and>
    dq_rep q' (snd (list_calls (dq_capacity q) cs xs)) \<and> dq_capacity q' = dq_capacity q"
  using assms
proof (induction cs arbitrary: q xs)
  case Nil
  then show ?case by simp
next
  case (Cons c cs)
  from dq_call_refines [OF Cons.prems, of c] obtain q1 where
    q1: "dq_call c q = Some (fst (list_call (dq_capacity q) c xs), q1)"
      "dq_rep q1 (snd (list_call (dq_capacity q) c xs))" "dq_capacity q1 = dq_capacity q"
    by blast
  from Cons.IH [OF q1(2)] q1 show ?case by (auto simp: split_beta Let_def)
qed

section \<open>The interfaces of the deque's clients\<close>

text \<open>
  A client sees either a queue (elements offered at one end, polled at the other) or a
  stack (both at the same end). \<open>rep q xs\<close> is what the state represents, in the order
  in which it will be polled, and \<open>cap\<close> is the bound.
\<close>

fun offer_all :: "('a \<Rightarrow> 'q \<Rightarrow> (bool \<times> 'q) option) \<Rightarrow> 'a list \<Rightarrow> 'q \<Rightarrow> (bool list \<times> 'q) option" where
  "offer_all offer [] q = Some ([], q)"
| "offer_all offer (v # vs) q = do {
     (b, q) \<leftarrow> offer v q;
     (bs, q) \<leftarrow> offer_all offer vs q;
     Some (b # bs, q)
   }"

fun poll_n :: "('q \<Rightarrow> ('a option \<times> 'q) option) \<Rightarrow> nat \<Rightarrow> 'q \<Rightarrow> ('a option list \<times> 'q) option" where
  "poll_n poll 0 q = Some ([], q)"
| "poll_n poll (Suc n) q = do {
     (x, q) \<leftarrow> poll q;
     (xs, q) \<leftarrow> poll_n poll n q;
     Some (x # xs, q)
   }"

locale bounded_poll =
  fixes rep :: "'q \<Rightarrow> 'a list \<Rightarrow> bool"
    and cap :: "'q \<Rightarrow> int"
    and poll :: "'q \<Rightarrow> ('a option \<times> 'q) option"
  assumes poll_law: "rep q xs \<Longrightarrow>
    \<exists>q'. poll q = Some (hd_opt xs None, q') \<and> rep q' (tl xs) \<and> cap q' = cap q"
begin

lemma poll_all:
  assumes "rep q xs"
  shows "\<exists>q'. poll_n poll (length xs) q = Some (map Some xs, q') \<and> rep q' [] \<and> cap q' = cap q"
  using assms
proof (induction xs arbitrary: q)
  case Nil
  then show ?case by simp
next
  case (Cons x xs)
  from poll_law [OF Cons.prems] obtain q1 where
    q1: "poll q = Some (Some x, q1)" "rep q1 xs" "cap q1 = cap q" by auto
  from Cons.IH [OF q1(2)] q1 show ?case by auto
qed

end

locale bounded_fifo = bounded_poll +
  fixes offer :: "'b \<Rightarrow> 'a \<Rightarrow> (bool \<times> 'a) option"
  assumes offer_law: "rep q xs \<Longrightarrow>
    \<exists>q'. offer v q = Some (int (length xs) < cap q, q') \<and>
      rep q' (if int (length xs) < cap q then xs @ [v] else xs) \<and> cap q' = cap q"
begin

lemma offer_all_room:
  assumes "rep q xs" and "int (length xs + length vs) \<le> cap q"
  shows "\<exists>q'. offer_all offer vs q = Some (replicate (length vs) True, q') \<and>
    rep q' (xs @ vs) \<and> cap q' = cap q"
  using assms
proof (induction vs arbitrary: q xs)
  case Nil
  then show ?case by simp
next
  case (Cons v vs)
  from offer_law [OF Cons.prems(1), of v] Cons.prems(2) obtain q1 where
    q1: "offer v q = Some (True, q1)" "rep q1 (xs @ [v])" "cap q1 = cap q" by auto
  with Cons.prems(2) Cons.IH [OF q1(2)] show ?case by auto
qed

lemma fifo:
  assumes "rep q xs" and "int (length xs + length vs) \<le> cap q"
  shows "\<exists>q1 q2. offer_all offer vs q = Some (replicate (length vs) True, q1) \<and>
    poll_n poll (length xs + length vs) q1 = Some (map Some (xs @ vs), q2) \<and> rep q2 []"
  using offer_all_room [OF assms] poll_all [of _ "xs @ vs"] by fastforce

end

locale bounded_lifo = bounded_poll +
  fixes push :: "'b \<Rightarrow> 'a \<Rightarrow> (bool \<times> 'a) option"
  assumes push_law: "rep q xs \<Longrightarrow>
    \<exists>q'. push v q = Some (int (length xs) < cap q, q') \<and>
      rep q' (if int (length xs) < cap q then v # xs else xs) \<and> cap q' = cap q"
begin

lemma push_all_room:
  assumes "rep q xs" and "int (length xs + length vs) \<le> cap q"
  shows "\<exists>q'. offer_all push vs q = Some (replicate (length vs) True, q') \<and>
    rep q' (rev vs @ xs) \<and> cap q' = cap q"
  using assms
proof (induction vs arbitrary: q xs)
  case Nil
  then show ?case by simp
next
  case (Cons v vs)
  from push_law [OF Cons.prems(1), of v] Cons.prems(2) obtain q1 where
    q1: "push v q = Some (True, q1)" "rep q1 (v # xs)" "cap q1 = cap q" by auto
  with Cons.prems(2) Cons.IH [OF q1(2)] show ?case by auto
qed

lemma lifo:
  assumes "rep q xs" and "int (length xs + length vs) \<le> cap q"
  shows "\<exists>q1 q2. offer_all push vs q = Some (replicate (length vs) True, q1) \<and>
    poll_n poll (length vs + length xs) q1 = Some (map Some (rev vs @ xs), q2) \<and> rep q2 []"
  using push_all_room [OF assms] poll_all [of _ "rev vs @ xs"] by fastforce

end

text \<open>The linked deque provides each interface at both ends.\<close>

interpretation back_front: bounded_fifo dq_rep dq_capacity PollFirst "\<lambda>v. OfferLast (Some v)"
  by unfold_locales (rule PollFirst_rep OfferLast_rep, assumption)+

lemma PollLast_rev:
  assumes "dq_rep q (rev xs)"
  shows "\<exists>q'. PollLast q = Some (hd_opt xs None, q') \<and> dq_rep q' (rev (tl xs)) \<and>
    dq_capacity q' = dq_capacity q"
  using PollLast_rep [OF assms] by (cases xs) auto

lemma OfferFirst_rev:
  assumes "dq_rep q (rev xs)"
  shows "\<exists>q'. OfferFirst (Some v) q = Some (int (length xs) < dq_capacity q, q') \<and>
    dq_rep q' (rev (if int (length xs) < dq_capacity q then xs @ [v] else xs)) \<and>
    dq_capacity q' = dq_capacity q"
  using OfferFirst_rep [OF assms, of v] by auto

lemma OfferLast_rev:
  assumes "dq_rep q (rev xs)"
  shows "\<exists>q'. OfferLast (Some v) q = Some (int (length xs) < dq_capacity q, q') \<and>
    dq_rep q' (rev (if int (length xs) < dq_capacity q then v # xs else xs)) \<and>
    dq_capacity q' = dq_capacity q"
  using OfferLast_rep [OF assms, of v] by auto

interpretation front_back: bounded_fifo "\<lambda>q xs. dq_rep q (rev xs)" dq_capacity PollLast
  "\<lambda>v. OfferFirst (Some v)"
  by unfold_locales (rule PollLast_rev OfferFirst_rev, assumption)+

interpretation front_stack: bounded_lifo dq_rep dq_capacity PollFirst "\<lambda>v. OfferFirst (Some v)"
  by unfold_locales (rule OfferFirst_rep, assumption)

interpretation back_stack: bounded_lifo "\<lambda>q xs. dq_rep q (rev xs)" dq_capacity PollLast
  "\<lambda>v. OfferLast (Some v)"
  by unfold_locales (rule OfferLast_rev, assumption)

section \<open>Properties\<close>

lemma NewDeque_rep:
  assumes "0 \<le> cap"
  shows "\<exists>q :: 'a deque. NewDeque cap = Some q \<and> dq_rep q [] \<and> dq_capacity q = cap"
proof -
  from assms obtain q :: "'a deque" where q: "NewDeque cap = Some q" by (simp add: NewDeque_def)
  from NewDeque_inv [OF q] have "dq_inv q []" "dq_capacity q = cap" by simp_all
  with q dq_repI [of q "[]" "[]"] show ?thesis by auto
qed

text \<open>
  C1. A new deque of capacity \<open>cap\<close> answers every sequence of calls (insertions at both
  ends with nil or not, polls, peeks, removals by value, \<open>ToSlice\<close>, \<open>Size\<close>,
  interrupts) exactly as the bounded list does, no call loops, and none panics but for one
  case: a removal by value takes the first element from its end that compares equal, and when it
  comes before that to an element with which the comparison panics, the call panics too and
  changes nothing. That holds for any comparison, with values not equal to themselves as well.
\<close>

theorem deque_refines_list:
  assumes "0 \<le> cap"
  shows "\<exists>q q'. NewDeque cap = Some q \<and>
    dq_calls cs q = Some (fst (list_calls cap cs []), q') \<and>
    dq_rep q' (snd (list_calls cap cs []))"
  using NewDeque_rep [OF assms] dq_calls_refines [of _ "[]" cs] by fastforce

text \<open>Three kinds of values in an interface: a string, a NaN, a slice of integers.\<close>

datatype go_value = GString string | GNaN | GInts "int list"

fun go_eq :: "go_value \<Rightarrow> go_value \<Rightarrow> bool option" where
  "go_eq (GString s) (GString t) = Some (s = t)"
| "go_eq (GInts xs) (GInts ys) = None"
| "go_eq v w = Some False"

theorem deque_refines_list_witness:
  "\<exists>q q'. NewDeque 3 = Some q \<and>
    dq_calls [COfferLast (Some GNaN), CAddFirst (Some (GString ''a'')), CAddLast (Some (GInts [1])), CAddLast (Some GNaN),
        CRemoveFirstOccurrence go_eq (Some GNaN), CRemoveLastOccurrence go_eq (Some (GString ''a'')),
        CRemoveFirstOccurrence go_eq (Some (GInts [1])), CToSlice, CPollLast, CPollFirst, CAddFirst None] q =
      Some ([AnsBool True, AnsError None, AnsError None, AnsError (Some ErrDequeFull), AnsBool False, AnsBool True, AnsPanic,
        AnsSlice [Some GNaN, Some (GInts [1])], AnsItem (Some (GInts [1])), AnsItem (Some GNaN),
        AnsError (Some ErrNilElement)], q') \<and> dq_rep q' []"
  using deque_refines_list [of 3 "[COfferLast (Some GNaN), CAddFirst (Some (GString ''a'')), CAddLast (Some (GInts [1])), CAddLast (Some GNaN),
        CRemoveFirstOccurrence go_eq (Some GNaN), CRemoveLastOccurrence go_eq (Some (GString ''a'')),
        CRemoveFirstOccurrence go_eq (Some (GInts [1])), CToSlice, CPollLast, CPollFirst, CAddFirst None]"]
  by (simp add: remove_match_last_def remove_match_Cons)

text \<open>
  First in, first out through both pairs of ends: what is offered at the back of a
  deque with room is polled from the front after the elements already there, in order, and
  the deque is empty afterwards; and the same offering at the front and polling the back.
\<close>

lemma deque_fifo:
  assumes "dq_rep q xs" and "int (length xs + length vs) \<le> dq_capacity q"
  shows "(\<exists>q1 q2. offer_all (\<lambda>v. OfferLast (Some v)) vs q = Some (replicate (length vs) True, q1) \<and>
      poll_n PollFirst (length xs + length vs) q1 = Some (map Some (xs @ vs), q2) \<and> dq_rep q2 []) \<and>
    (\<exists>q1 q2. offer_all (\<lambda>v. OfferFirst (Some v)) vs q = Some (replicate (length vs) True, q1) \<and>
      poll_n PollLast (length xs + length vs) q1 = Some (map Some (rev xs @ vs), q2) \<and> dq_rep q2 [])"
  using back_front.fifo [OF assms] front_back.fifo [of q "rev xs" vs] assms by simp

lemma deque_fifo_witness:
  "\<exists>q :: nat deque. NewDeque 3 = Some q \<and>
    (\<exists>q1 q2. offer_all (\<lambda>v. OfferLast (Some v)) [1, 2, 3] q = Some ([True, True, True], q1) \<and>
      poll_n PollFirst 3 q1 = Some ([Some 1, Some 2, Some 3], q2) \<and> dq_rep q2 [])"
proof -
  obtain q :: "nat deque" where q: "NewDeque 3 = Some q" "dq_rep q []" "dq_capacity q = 3"
    using NewDeque_rep [of 3] by auto
  with deque_fifo [of q "[]" "[1, 2, 3]"] show ?thesis by (auto simp: numeral_3_eq_3)
qed

text \<open>
  Last in, first out at each end: what is offered at one end is polled from the same
  end in reverse order, before the elements already there.
\<close>

lemma deque_lifo:
  assumes "dq_rep q xs" and "int (length xs + length vs) \<le> dq_capacity q"
  shows "(\<exists>q1 q2. offer_all (\<lambda>v. OfferFirst (Some v)) vs q = Some (replicate (length vs) True, q1) \<and>
      poll_n PollFirst (length vs + length xs) q1 = Some (map Some (rev vs @ xs), q2) \<and> dq_rep q2 []) \<and>
    (\<exists>q1 q2. offer_all (\<lambda>v. OfferLast (Some v)) vs q = Some (replicate (length vs) True, q1) \<and>
      poll_n PollLast (length vs + length xs) q1 = Some (map Some (rev vs @ rev xs), q2) \<and> dq_rep q2 [])"
  using front_stack.lifo [OF assms] back_stack.lifo [of q "rev xs" vs] assms by simp

lemma deque_lifo_witness:
  "\<exists>q :: nat deque. NewDeque 3 = Some q \<and>
    (\<exists>q1 q2. offer_all (\<lambda>v. OfferFirst (Some v)) [1, 2, 3] q = Some ([True, True, True], q1) \<and>
      poll_n PollFirst 3 q1 = Some ([Some 3, Some 2, Some 1], q2) \<and> dq_rep q2 [])"
proof -
  obtain q :: "nat deque" where q: "NewDeque 3 = Some q" "dq_rep q []" "dq_capacity q = 3"
    using NewDeque_rep [of 3] by auto
  with deque_lifo [of q "[]" "[1, 2, 3]"] show ?thesis by (auto simp: numeral_3_eq_3)
qed

text \<open>
  The order of the elements. First in, first out through both pairs of ends: what is
  offered at one end of a deque with room is polled from the other after the elements
  already there, in order, and the deque is empty afterwards. Last in, first out at each
  end: what is offered at one end is polled from the same end in reverse order, before the
  elements already there.
\<close>

lemma deque_order:
  assumes "dq_rep q xs" and "int (length xs + length vs) \<le> dq_capacity q"
  shows "(\<exists>q1 q2. offer_all (\<lambda>v. OfferLast (Some v)) vs q = Some (replicate (length vs) True, q1) \<and>
      poll_n PollFirst (length xs + length vs) q1 = Some (map Some (xs @ vs), q2) \<and> dq_rep q2 []) \<and>
    (\<exists>q1 q2. offer_all (\<lambda>v. OfferFirst (Some v)) vs q = Some (replicate (length vs) True, q1) \<and>
      poll_n PollLast (length xs + length vs) q1 = Some (map Some (rev xs @ vs), q2) \<and> dq_rep q2 []) \<and>
    (\<exists>q1 q2. offer_all (\<lambda>v. OfferFirst (Some v)) vs q = Some (replicate (length vs) True, q1) \<and>
      poll_n PollFirst (length vs + length xs) q1 = Some (map Some (rev vs @ xs), q2) \<and> dq_rep q2 []) \<and>
    (\<exists>q1 q2. offer_all (\<lambda>v. OfferLast (Some v)) vs q = Some (replicate (length vs) True, q1) \<and>
      poll_n PollLast (length vs + length xs) q1 = Some (map Some (rev vs @ rev xs), q2) \<and> dq_rep q2 [])"
  using deque_fifo [OF assms] deque_lifo [OF assms] by (elim conjE) (intro conjI)

lemma deque_order_witness:
  "\<exists>q :: nat deque. NewDeque 3 = Some q \<and>
    (\<exists>q1 q2. offer_all (\<lambda>v. OfferLast (Some v)) [1, 2, 3] q = Some ([True, True, True], q1) \<and>
      poll_n PollFirst 3 q1 = Some ([Some 1, Some 2, Some 3], q2) \<and> dq_rep q2 []) \<and>
    (\<exists>q1 q2. offer_all (\<lambda>v. OfferFirst (Some v)) [1, 2, 3] q = Some ([True, True, True], q1) \<and>
      poll_n PollFirst 3 q1 = Some ([Some 3, Some 2, Some 1], q2) \<and> dq_rep q2 [])"
proof -
  obtain q :: "nat deque" where q: "NewDeque 3 = Some q" "dq_rep q []" "dq_capacity q = 3"
    using NewDeque_rep [of 3] by auto
  with deque_order [of q "[]" "[1, 2, 3]"] show ?thesis by (simp add: numeral_3_eq_3)
qed

end
