(* ===== verification/DequeIter.thy ===== *)
theory DequeIter
  imports DequeSpec
begin

text \<open>
  \<open>gcollection/queue.go\<close>: the iterators over the deque. An iterator keeps a pointer
  into the node heap between calls, and the nodes it points to may be removed meanwhile, so
  the walk of \<open>succ\<close> goes through dead nodes; the rank of a node (its place among all
  nodes ever linked) shows that the walk ends.
\<close>

section \<open>The iterator\<close>

record 'a iter =
  it_next :: "addr option"
  nextItem :: "'a option"
  lastRet :: "addr option"
  it_desc :: bool

definition firstNode :: "bool \<Rightarrow> 'a deque \<Rightarrow> addr option" where
  "firstNode d q = (if d then dq_last q else dq_first q)"

definition nextNode :: "bool \<Rightarrow> addr \<Rightarrow> 'a deque \<Rightarrow> addr option" where
  "nextNode d n q = (if d then prev (nodes q n) else nxt (nodes q n))"

definition point_at :: "addr option \<Rightarrow> 'a deque \<Rightarrow> 'a iter \<Rightarrow> 'a iter" where
  "point_at p q it =
     it\<lparr>it_next := p,
        nextItem := (case p of None \<Rightarrow> None | Some a \<Rightarrow> item (nodes q a))\<rparr>"

definition newIterator :: "bool \<Rightarrow> 'a deque \<Rightarrow> 'a iter" where
  "newIterator d q =
     point_at (firstNode d q) q \<lparr>it_next = None, nextItem = None, lastRet = None, it_desc = d\<rparr>"

definition HasNext :: "'a iter \<Rightarrow> bool" where
  "HasNext it \<longleftrightarrow> it_next it \<noteq> None"

partial_function (option) succ_node :: "bool \<Rightarrow> addr \<Rightarrow> 'a deque \<Rightarrow> addr option option" where
  "succ_node d n q =
     (case nextNode d n q of
        None \<Rightarrow> Some None
      | Some s \<Rightarrow>
          if item (nodes q s) \<noteq> None then Some (Some s)
          else if s = n then Some (firstNode d q)
          else succ_node d s q)"

definition advance :: "'a deque \<Rightarrow> 'a iter \<Rightarrow> 'a iter option" where
  "advance q it = do {
     n \<leftarrow> it_next it;
     s \<leftarrow> succ_node (it_desc it) n q;
     Some (point_at s q it)
   }"

definition Next :: "'a deque \<Rightarrow> 'a iter \<Rightarrow> ('a option \<times> 'a iter) option" where
  "Next q it =
     (if it_next it = None then Some (None, it)
      else do {
        let it = it\<lparr>lastRet := it_next it\<rparr>;
        let x = nextItem it;
        it \<leftarrow> advance q it;
        Some (x, it)
      })"

text \<open>\<open>Remove\<close> panics when no element was returned since the last removal.\<close>

definition Remove :: "'a deque \<Rightarrow> 'a iter \<Rightarrow> ('a deque \<times> 'a iter) option" where
  "Remove q it = do {
     n \<leftarrow> lastRet it;
     let it = it\<lparr>lastRet := None\<rparr>;
     q \<leftarrow> (if item (nodes q n) \<noteq> None then unlink (Some n) q else Some q);
     Some (q, it)
   }"

section \<open>Iteration without interference\<close>

fun next_n :: "nat \<Rightarrow> 'a deque \<Rightarrow> 'a iter \<Rightarrow> ('a option list \<times> 'a iter) option" where
  "next_n 0 q it = Some ([], it)"
| "next_n (Suc k) q it = do {
     (x, it) \<leftarrow> Next q it;
     (xs, it) \<leftarrow> next_n k q it;
     Some (x # xs, it)
   }"

lemma succ_node_live:
  assumes "dq_inv q ns" "nextNode d n q = p" "\<And>s. p = Some s \<Longrightarrow> s \<in> set ns"
  shows "succ_node d n q = Some p"
  using assms by (cases p) (auto simp: succ_node.simps dq_inv_def)

lemma Next_asc:
  assumes inv: "dq_inv q (as @ a # bs)" and it: "it = point_at (Some a) q it0" "\<not> it_desc it0"
  shows "\<exists>it1. Next q it = Some (item (nodes q a), point_at (hd_opt bs None) q it1) \<and> \<not> it_desc it1 \<and>
    lastRet it1 = Some a"
proof -
  have "nextNode False a q = hd_opt bs None" using inv by (simp add: nextNode_def dq_inv_def)
  then have "succ_node False a q = Some (hd_opt bs None)"
    by (rule succ_node_live [OF inv]) (auto simp: hd_opt_def split: if_splits)
  with it show ?thesis
    by (auto simp: Next_def advance_def point_at_def intro!: exI [of _ "it0\<lparr>lastRet := Some a\<rparr>"])
qed

lemma Next_desc:
  assumes inv: "dq_inv q (as @ a # bs)" and it: "it = point_at (Some a) q it0" "it_desc it0"
  shows "\<exists>it1. Next q it = Some (item (nodes q a), point_at (last_opt as None) q it1) \<and> it_desc it1 \<and>
    lastRet it1 = Some a"
proof -
  have "nextNode True a q = last_opt as None" using inv by (simp add: nextNode_def dq_inv_def)
  then have "succ_node True a q = Some (last_opt as None)"
    by (rule succ_node_live [OF inv]) (auto simp: last_opt_def split: if_splits)
  with it show ?thesis
    by (auto simp: Next_def advance_def point_at_def intro!: exI [of _ "it0\<lparr>lastRet := Some a\<rparr>"])
qed

lemma next_n_asc:
  assumes "dq_inv q (as @ bs)" "it = point_at (hd_opt bs None) q it0" "\<not> it_desc it0"
  shows "\<exists>it1. next_n (length bs) q it = Some (map Some (dq_items q bs), it1) \<and> \<not> HasNext it1"
  using assms
proof (induction bs arbitrary: as it it0)
  case Nil
  then show ?case by (simp add: HasNext_def point_at_def)
next
  case (Cons b bs)
  from Next_asc [OF Cons.prems(1), of it it0] Cons.prems obtain it1 where
    it1: "Next q it = Some (item (nodes q b), point_at (hd_opt bs None) q it1)" "\<not> it_desc it1"
    by auto
  have "item (nodes q b) = Some (the (item (nodes q b)))"
    using Cons.prems(1) by (rule dq_inv_item_Some) simp
  with Cons.IH [of "as @ [b]" _ it1, OF _ refl it1(2)] Cons.prems(1) it1(1) show ?case by auto
qed

lemma next_n_desc:
  assumes "dq_inv q (as @ bs)" "it = point_at (last_opt as None) q it0" "it_desc it0"
  shows "\<exists>it1. next_n (length as) q it = Some (map Some (rev (dq_items q as)), it1) \<and> \<not> HasNext it1"
  using assms
proof (induction as arbitrary: bs it it0 rule: rev_induct)
  case Nil
  then show ?case by (simp add: HasNext_def point_at_def)
next
  case (snoc a as)
  have inv: "dq_inv q (as @ a # bs)" using snoc.prems(1) by simp
  from Next_desc [OF inv, of it it0] snoc.prems obtain it1 where
    it1: "Next q it = Some (item (nodes q a), point_at (last_opt as None) q it1)" "it_desc it1"
    by auto
  have "item (nodes q a) = Some (the (item (nodes q a)))"
    using inv by (rule dq_inv_item_Some) simp
  with snoc.IH [of "a # bs" _ it1, OF inv refl it1(2)] it1(1) show ?case by auto
qed

text \<open>After any number of elements: what they were, and the node of the last one.\<close>

lemma next_n_asc_at:
  assumes "dq_inv q (as @ bs)" "it = point_at (hd_opt bs None) q it0" "\<not> it_desc it0" "i < length bs"
  shows "\<exists>it1. next_n (Suc i) q it = Some (map Some (take (Suc i) (dq_items q bs)), it1) \<and> lastRet it1 = Some (bs ! i)"
  using assms
proof (induction bs arbitrary: as it it0 i)
  case (Cons b bs)
  from Next_asc [OF Cons.prems(1), of it it0] Cons.prems obtain it1 where
    it1: "Next q it = Some (item (nodes q b), point_at (hd_opt bs None) q it1)" "\<not> it_desc it1" "lastRet it1 = Some b"
    by auto
  have b: "item (nodes q b) = Some (the (item (nodes q b)))"
    using Cons.prems(1) by (rule dq_inv_item_Some) simp
  show ?case
  proof (cases i)
    case 0
    with it1 b show ?thesis by (simp add: point_at_def)
  next
    case (Suc j)
    with Cons.IH [of "as @ [b]" _ it1 j, OF _ refl it1(2)] Cons.prems(1,4) obtain it2 where
      "next_n (Suc j) q (point_at (hd_opt bs None) q it1) = Some (map Some (take (Suc j) (dq_items q bs)), it2)"
      "lastRet it2 = Some (bs ! j)" by auto
    with it1(1) b Suc show ?thesis by (subst next_n.simps(2)) (simp del: next_n.simps)
  qed
qed simp

lemma next_n_desc_at:
  assumes "dq_inv q (as @ bs)" "it = point_at (last_opt as None) q it0" "it_desc it0" "i < length as"
  shows "\<exists>it1. next_n (Suc i) q it = Some (map Some (take (Suc i) (rev (dq_items q as))), it1) \<and> lastRet it1 = Some (rev as ! i)"
  using assms
proof (induction as arbitrary: bs it it0 i rule: rev_induct)
  case (snoc a as)
  have inv: "dq_inv q (as @ a # bs)" using snoc.prems(1) by simp
  from Next_desc [OF inv, of it it0] snoc.prems obtain it1 where
    it1: "Next q it = Some (item (nodes q a), point_at (last_opt as None) q it1)" "it_desc it1" "lastRet it1 = Some a"
    by auto
  have a: "item (nodes q a) = Some (the (item (nodes q a)))"
    using inv by (rule dq_inv_item_Some) simp
  show ?case
  proof (cases i)
    case 0
    with it1 a show ?thesis by (simp add: point_at_def)
  next
    case (Suc j)
    with snoc.IH [of "a # bs" _ it1 j, OF inv refl it1(2)] snoc.prems(4) obtain it2 where
      "next_n (Suc j) q (point_at (last_opt as None) q it1) = Some (map Some (take (Suc j) (rev (dq_items q as))), it2)"
      "lastRet it2 = Some (rev as ! j)" by auto
    with it1(1) a Suc show ?thesis by (subst next_n.simps(2)) (simp del: next_n.simps)
  qed
qed simp

section \<open>Ranks\<close>

text \<open>
  \<open>ranked q\<close>: the nodes can be numbered so that every forward pointer leads to a higher
  number and every backward pointer to a lower one, except the self-links of removed ends.
\<close>

definition fwd_ok :: "(addr \<Rightarrow> int) \<Rightarrow> addr \<Rightarrow> addr \<Rightarrow> addr option \<Rightarrow> bool" where
  "fwd_ok rk fr a p \<longleftrightarrow> (case p of None \<Rightarrow> True | Some b \<Rightarrow> b < fr \<and> (b = a \<or> rk a < rk b))"

definition bwd_ok :: "(addr \<Rightarrow> int) \<Rightarrow> addr \<Rightarrow> addr \<Rightarrow> addr option \<Rightarrow> bool" where
  "bwd_ok rk fr a p \<longleftrightarrow> (case p of None \<Rightarrow> True | Some b \<Rightarrow> b < fr \<and> (b = a \<or> rk b < rk a))"

definition rank_heap :: "(addr \<Rightarrow> int) \<Rightarrow> addr \<Rightarrow> (addr \<Rightarrow> 'a node) \<Rightarrow> bool" where
  "rank_heap rk fr h \<longleftrightarrow> (\<forall>a < fr. fwd_ok rk fr a (nxt (h a)) \<and> bwd_ok rk fr a (prev (h a)))"

definition ranked :: "'a deque \<Rightarrow> bool" where
  "ranked q \<longleftrightarrow> (\<exists>rk. rank_heap rk (fresh q) (nodes q))"

lemma ptr_ok_simps [simp]:
  "fwd_ok rk fr a None" "bwd_ok rk fr a None"
  "fwd_ok rk fr a (Some b) \<longleftrightarrow> b < fr \<and> (b = a \<or> rk a < rk b)"
  "bwd_ok rk fr a (Some b) \<longleftrightarrow> b < fr \<and> (b = a \<or> rk b < rk a)"
  by (simp_all add: fwd_ok_def bwd_ok_def)

lemma rank_heapD: "rank_heap rk fr h \<Longrightarrow> a < fr \<Longrightarrow> fwd_ok rk fr a (nxt (h a)) \<and> bwd_ok rk fr a (prev (h a))"
  by (simp add: rank_heap_def)

lemma rank_heap_upd:
  "rank_heap rk fr h \<Longrightarrow> fwd_ok rk fr a (nxt n) \<Longrightarrow> bwd_ok rk fr a (prev n) \<Longrightarrow>
    rank_heap rk fr (h(a := n))"
  by (simp add: rank_heap_def)

lemma rank_heap_grow:
  assumes "rank_heap rk fr h" "fwd_ok (rk(fr := m)) (Suc fr) fr (nxt n)"
    "bwd_ok (rk(fr := m)) (Suc fr) fr (prev n)"
  shows "rank_heap (rk(fr := m)) (Suc fr) (h(fr := n))"
  using assms unfolding rank_heap_def
  by (auto simp: fwd_ok_def bwd_ok_def less_Suc_eq split: option.splits)

lemma rank_below: "\<exists>m :: int. \<forall>a < (n :: nat). m < rk a"
proof (intro exI allI impI)
  fix a assume "a < n"
  then have "Min (insert 0 (rk ` {..<n})) \<le> rk a" by (auto intro: Min_le)
  then show "Min (insert 0 (rk ` {..<n})) - 1 < rk a" by simp
qed

lemma rank_above: "\<exists>m :: int. \<forall>a < (n :: nat). rk a < m"
proof -
  obtain m where "\<forall>a < n. m < - rk a" using rank_below [of n "\<lambda>a. - rk a"] by blast
  then have "\<forall>a < n. rk a < - m" by (simp add: less_minus_iff)
  then show ?thesis by blast
qed

lemma rankedI: "rank_heap rk (fresh q) (nodes q) \<Longrightarrow> ranked q"
  by (auto simp: ranked_def)

lemma linkFirst_ranked:
  assumes inv: "dq_inv q ns" and r: "ranked q" and l: "linkFirst e q = Some (b, q')"
  shows "ranked q' \<and> fresh q \<le> fresh q'"
proof (cases "dq_count q \<ge> dq_capacity q")
  case True
  with l r show ?thesis by (simp add: linkFirst_def)
next
  case False
  from r obtain rk where rk: "rank_heap rk (fresh q) (nodes q)" by (auto simp: ranked_def)
  obtain m where m: "\<forall>a < fresh q. m < rk a" using rank_below by blast
  let ?h = "(nodes q)(fresh q := \<lparr>item = e, prev = None, nxt = dq_first q\<rparr>)"
  have h: "rank_heap (rk(fresh q := m)) (Suc (fresh q)) ?h"
    using rk m inv by (cases ns) (auto simp: dq_inv_def intro!: rank_heap_grow)
  show ?thesis
  proof (cases ns)
    case Nil
    with inv False l have "fresh q' = Suc (fresh q)" "nodes q' = ?h"
      by (auto simp: linkFirst_def node_access dq_inv_def)
    with h show ?thesis by (auto intro: rankedI)
  next
    case (Cons a as)
    with inv False l have q': "fresh q' = Suc (fresh q)"
      "nodes q' = ?h(a := (?h a)\<lparr>prev := Some (fresh q)\<rparr>)" and a: "a < fresh q"
      by (auto simp: linkFirst_def node_access dq_inv_def)
    have "rank_heap (rk(fresh q := m)) (Suc (fresh q)) (nodes q')"
      unfolding q' by (rule rank_heap_upd [OF h]) (use a m rank_heapD [OF h, of a] in auto)
    with q' show ?thesis by (auto intro: rankedI)
  qed
qed

lemma linkLast_ranked:
  assumes inv: "dq_inv q ns" and r: "ranked q" and l: "linkLast e q = Some (b, q')"
  shows "ranked q' \<and> fresh q \<le> fresh q'"
proof (cases "dq_count q \<ge> dq_capacity q")
  case True
  with l r show ?thesis by (simp add: linkLast_def)
next
  case False
  from r obtain rk where rk: "rank_heap rk (fresh q) (nodes q)" by (auto simp: ranked_def)
  obtain m where m: "\<forall>a < fresh q. rk a < m" using rank_above by blast
  let ?h = "(nodes q)(fresh q := \<lparr>item = e, prev = dq_last q, nxt = None\<rparr>)"
  have h: "rank_heap (rk(fresh q := m)) (Suc (fresh q)) ?h"
    using rk m inv by (cases ns rule: rev_cases) (auto simp: dq_inv_def intro!: rank_heap_grow)
  show ?thesis
  proof (cases ns rule: rev_cases)
    case Nil
    with inv False l have "fresh q' = Suc (fresh q)" "nodes q' = ?h"
      by (auto simp: linkLast_def node_access dq_inv_def)
    with h show ?thesis by (auto intro: rankedI)
  next
    case (snoc as a)
    with inv False l have q': "fresh q' = Suc (fresh q)"
      "nodes q' = ?h(a := (?h a)\<lparr>nxt := Some (fresh q)\<rparr>)" and a: "a < fresh q"
      by (auto simp: linkLast_def node_access dq_inv_def)
    have "rank_heap (rk(fresh q := m)) (Suc (fresh q)) (nodes q')"
      unfolding q' by (rule rank_heap_upd [OF h]) (use a m rank_heapD [OF h, of a] in auto)
    with q' show ?thesis by (auto intro: rankedI)
  qed
qed

lemma unlinkFirst_ranked:
  assumes inv: "dq_inv q (a # as)" and r: "ranked q" and u: "unlinkFirst q = Some (x, q')"
  shows "ranked q' \<and> fresh q' = fresh q"
proof -
  from r obtain rk where rk: "rank_heap rk (fresh q) (nodes q)" by (auto simp: ranked_def)
  let ?h = "(nodes q)(a := (nodes q a)\<lparr>item := None, nxt := Some a\<rparr>)"
  have a: "a < fresh q" using inv by (simp add: dq_inv_def)
  have h: "rank_heap rk (fresh q) ?h"
    by (rule rank_heap_upd [OF rk]) (use rank_heapD [OF rk a] a in auto)
  show ?thesis
  proof (cases as)
    case Nil
    with inv u have "fresh q' = fresh q" "nodes q' = ?h"
      by (auto simp: unlinkFirst_def node_access dq_inv_def)
    with h show ?thesis by (auto intro: rankedI)
  next
    case (Cons b bs)
    with inv u have q': "fresh q' = fresh q" "nodes q' = ?h(b := (?h b)\<lparr>prev := None\<rparr>)"
      and b: "b < fresh q"
      by (auto simp: unlinkFirst_def node_access dq_inv_def)
    have "rank_heap rk (fresh q) (nodes q')"
      unfolding q' by (rule rank_heap_upd [OF h]) (use b rank_heapD [OF h b] in auto)
    with q' show ?thesis by (auto intro: rankedI)
  qed
qed

lemma unlinkLast_ranked:
  assumes inv: "dq_inv q (as @ [a])" and r: "ranked q" and u: "unlinkLast q = Some (x, q')"
  shows "ranked q' \<and> fresh q' = fresh q"
proof -
  from r obtain rk where rk: "rank_heap rk (fresh q) (nodes q)" by (auto simp: ranked_def)
  let ?h = "(nodes q)(a := (nodes q a)\<lparr>item := None, prev := Some a\<rparr>)"
  have a: "a < fresh q" using inv by (simp add: dq_inv_def)
  have h: "rank_heap rk (fresh q) ?h"
    by (rule rank_heap_upd [OF rk]) (use rank_heapD [OF rk a] a in auto)
  show ?thesis
  proof (cases as rule: rev_cases)
    case Nil
    with inv u have "fresh q' = fresh q" "nodes q' = ?h"
      by (auto simp: unlinkLast_def node_access dq_inv_def)
    with h show ?thesis by (auto intro: rankedI)
  next
    case (snoc bs b)
    with inv u have q': "fresh q' = fresh q" "nodes q' = ?h(b := (?h b)\<lparr>nxt := None\<rparr>)"
      and b: "b < fresh q"
      by (auto simp: unlinkLast_def node_access dq_inv_def)
    have "rank_heap rk (fresh q) (nodes q')"
      unfolding q' by (rule rank_heap_upd [OF h]) (use b rank_heapD [OF h b] in auto)
    with q' show ?thesis by (auto intro: rankedI)
  qed
qed

lemma unlink_middle_ranked:
  assumes inv: "dq_inv q (as @ [p] @ x # n # bs)" and r: "ranked q"
    and u: "unlink (Some x) q = Some q'"
  shows "ranked q' \<and> fresh q' = fresh q"
proof -
  from r obtain rk where rk: "rank_heap rk (fresh q) (nodes q)" by (auto simp: ranked_def)
  let ?h1 = "(nodes q)(p := (nodes q p)\<lparr>nxt := Some n\<rparr>)"
  let ?h2 = "?h1(n := (?h1 n)\<lparr>prev := Some p\<rparr>)"
  have l: "p < fresh q" "x < fresh q" "n < fresh q" "p \<noteq> x" "n \<noteq> x" "p \<noteq> n"
    "prev (nodes q x) = Some p" "nxt (nodes q x) = Some n"
    using inv by (auto simp: dq_inv_def)
  then have pn: "rk p < rk x" "rk x < rk n" using rank_heapD [OF rk, of x] by auto
  have h1: "rank_heap rk (fresh q) ?h1"
    by (rule rank_heap_upd [OF rk]) (use rank_heapD [OF rk, of p] l pn in auto)
  have h2: "rank_heap rk (fresh q) ?h2"
    by (rule rank_heap_upd [OF h1]) (use rank_heapD [OF h1, of n] l pn in auto)
  have q': "fresh q' = fresh q" "nodes q' = ?h2(x := (?h2 x)\<lparr>item := None\<rparr>)"
    using u l by (auto simp: unlink_def node_access)
  have "rank_heap rk (fresh q) (nodes q')"
    unfolding q' by (rule rank_heap_upd [OF h2]) (use rank_heapD [OF h2, of x] l in auto)
  with q' show ?thesis by (auto intro: rankedI)
qed

lemma unlink_ranked:
  assumes inv: "dq_inv q (as @ x # bs)" and r: "ranked q" and u: "unlink (Some x) q = Some q'"
  shows "ranked q' \<and> fresh q' = fresh q"
proof (cases as rule: rev_cases)
  case Nil
  with inv have "prev (nodes q x) = None" by (simp add: dq_inv_def)
  with Nil u unlinkFirst_ranked [of q x bs] inv r show ?thesis
    by (auto simp: unlink_def get_node_def)
next
  case (snoc as' p)
  show ?thesis
  proof (cases bs)
    case Nil
    with inv snoc have "prev (nodes q x) = Some p" "nxt (nodes q x) = None"
      by (simp_all add: dq_inv_def)
    with Nil u unlinkLast_ranked [of q as x] inv r show ?thesis
      by (auto simp: unlink_def get_node_def)
  next
    case (Cons n bs')
    with unlink_middle_ranked [of q as' p x n bs'] inv r u snoc show ?thesis by simp
  qed
qed

section \<open>Well-formed states, and calls that keep them\<close>

definition dq_ok :: "'a deque \<Rightarrow> bool" where
  "dq_ok q \<longleftrightarrow> (\<exists>ns. dq_inv q ns) \<and> ranked q"

lemma Poll_ranked:
  assumes "dq_inv q ns" "ranked q"
  shows "PollFirst q = Some (x, q') \<Longrightarrow> ranked q' \<and> fresh q' = fresh q"
    and "PollLast q = Some (x, q') \<Longrightarrow> ranked q' \<and> fresh q' = fresh q"
proof -
  show "PollFirst q = Some (x, q') \<Longrightarrow> ranked q' \<and> fresh q' = fresh q"
    using assms unlinkFirst_Nil [of q] unlinkFirst_ranked [of q]
    by (cases ns) (auto simp: PollFirst_def)
  show "PollLast q = Some (x, q') \<Longrightarrow> ranked q' \<and> fresh q' = fresh q"
    using assms unlinkLast_Nil [of q] unlinkLast_ranked [of q]
    by (cases ns rule: rev_cases) (auto simp: PollLast_def)
qed

lemma Offer_ranked:
  assumes "dq_inv q ns" "ranked q"
  shows "OfferFirst e q = Some (b, q') \<Longrightarrow> ranked q' \<and> fresh q \<le> fresh q'"
    and "OfferLast e q = Some (b, q') \<Longrightarrow> ranked q' \<and> fresh q \<le> fresh q'"
  using assms linkFirst_ranked [of q ns e b q'] linkLast_ranked [of q ns e b q']
  by (auto simp: OfferFirst_def OfferLast_def split: if_splits)

lemma RemoveOccurrence_ranked:
  assumes inv: "dq_inv q ns" and r: "ranked q"
  shows "RemoveFirstOccurrence eq e q = Some (b, q') \<Longrightarrow> ranked q' \<and> fresh q' = fresh q"
    and "RemoveLastOccurrence eq e q = Some (b, q') \<Longrightarrow> ranked q' \<and> fresh q' = fresh q"
proof -
  have "ranked q' \<and> fresh q' = fresh q" if "unlinks_one q q'"
    using that unfolding unlinks_one_def
  proof
    assume "\<exists>a. item (nodes q a) \<noteq> None \<and> unlink (Some a) q = Some q'"
    then obtain a where a: "item (nodes q a) \<noteq> None" "unlink (Some a) q = Some q'" by blast
    with inv have "a \<in> set ns" by (auto simp: dq_inv_def)
    then obtain as bs where "ns = as @ a # bs" by (meson split_list)
    with inv r a(2) show ?thesis using unlink_ranked by blast
  qed (use r in simp)
  then show "RemoveFirstOccurrence eq e q = Some (b, q') \<Longrightarrow> ranked q' \<and> fresh q' = fresh q"
    "RemoveLastOccurrence eq e q = Some (b, q') \<Longrightarrow> ranked q' \<and> fresh q' = fresh q"
    using RemoveOccurrence_unlinks by blast+
qed

lemma Interrupt_ranked [simp]:
  "ranked (InterruptTakeWaiters q) = ranked q" "fresh (InterruptTakeWaiters q) = fresh q"
  by (simp_all add: InterruptTakeWaiters_def ranked_def)

lemma dq_call_ranked:
  assumes inv: "dq_inv q ns" and r: "ranked q" and c: "dq_call c q = Some (x, q')"
  shows "ranked q' \<and> fresh q \<le> fresh q'"
proof (cases c)
  case (CAddFirst e)
  with c r Offer_ranked(1) [OF inv r] show ?thesis
    by (auto simp: AddFirst_def split: if_splits bind_splits)
next
  case (CAddLast e)
  with c r Offer_ranked(2) [OF inv r] show ?thesis
    by (auto simp: AddLast_def split: if_splits bind_splits)
qed (use c r Offer_ranked [OF inv r] Poll_ranked [OF inv r] RemoveOccurrence_ranked [OF inv r]
    in \<open>auto dest!: eq_refl\<close>)

lemma dq_call_ok:
  assumes ok: "dq_ok q" and c: "dq_call c q = Some (x, q')"
  shows "dq_ok q' \<and> fresh q \<le> fresh q'"
proof -
  from ok obtain ns where inv: "dq_inv q ns" and r: "ranked q" by (auto simp: dq_ok_def)
  from dq_repI [OF inv refl] have "dq_rep q (dq_items q ns)" .
  from dq_call_refines [OF this, of c] c obtain ns' where "dq_inv q' ns'"
    by (auto elim: dq_repE)
  with dq_call_ranked [OF inv r c] show ?thesis by (auto simp: dq_ok_def)
qed

lemma dq_calls_ok: "dq_ok q \<Longrightarrow> dq_calls cs q = Some (rs, q') \<Longrightarrow> dq_ok q'"
proof (induction cs arbitrary: q rs)
  case (Cons c cs)
  from Cons.prems(2) obtain r q1 rs1 where
    "dq_call c q = Some (r, q1)" "dq_calls cs q1 = Some (rs1, q')"
    by (auto simp: bind_eq_Some_conv)
  with Cons.IH dq_call_ok [OF Cons.prems(1)] show ?case by blast
qed simp

lemma NewDeque_ok:
  assumes "NewDeque cap = Some q"
  shows "dq_ok q"
proof -
  from assms have "fresh q = 0" by (auto simp: NewDeque_def split: if_splits)
  then have "ranked q" by (simp add: ranked_def rank_heap_def)
  with NewDeque_inv [OF assms] show ?thesis by (auto simp: dq_ok_def)
qed

lemma unlink_ok:
  assumes ok: "dq_ok q" and live: "item (nodes q a) \<noteq> None" and u: "unlink (Some a) q = Some q'"
  shows "dq_ok q' \<and> fresh q' = fresh q"
proof -
  from ok obtain ns where inv: "dq_inv q ns" and r: "ranked q" by (auto simp: dq_ok_def)
  from inv live have "a \<in> set ns" by (auto simp: dq_inv_def)
  then obtain as bs where "ns = as @ a # bs" by (meson split_list)
  with inv have inv': "dq_inv q (as @ a # bs)" by simp
  from unlink_spec [OF inv'] unlink_ranked [OF inv' r u] u show ?thesis
    by (auto simp: dq_ok_def)
qed

section \<open>The walk over dead nodes ends\<close>

text \<open>The nodes still ahead of \<open>n\<close> in the direction of the walk: what shrinks at each step.\<close>

definition ahead :: "(addr \<Rightarrow> int) \<Rightarrow> addr \<Rightarrow> bool \<Rightarrow> addr \<Rightarrow> addr set" where
  "ahead rk fr d n = {b. b < fr \<and> (if d then rk b < rk n else rk n < rk b)}"

lemma ahead_shrinks:
  assumes "rank_heap rk (fresh q) (nodes q)" "n < fresh q" "nextNode d n q = Some s" "s \<noteq> n"
  shows "s < fresh q \<and> card (ahead rk (fresh q) d s) < card (ahead rk (fresh q) d n)"
proof -
  from rank_heapD [OF assms(1,2)] assms(3,4) have s: "s < fresh q"
    and lt: "if d then rk s < rk n else rk n < rk s"
    by (auto simp: nextNode_def split: if_splits)
  have "ahead rk (fresh q) d s \<subset> ahead rk (fresh q) d n"
    using s lt by (auto simp: ahead_def split: if_splits)
  moreover have "finite (ahead rk (fresh q) d n)" by (simp add: ahead_def)
  ultimately show ?thesis using s by (simp add: psubset_card_mono)
qed

lemma firstNode_live: "dq_inv q ns \<Longrightarrow> firstNode d q = Some s \<Longrightarrow> s \<in> set ns"
  by (auto simp: firstNode_def dq_inv_def hd_opt_def last_opt_def split: if_splits)

lemma succ_node_returns:
  assumes inv: "dq_inv q ns" and rk: "rank_heap rk (fresh q) (nodes q)" and "n < fresh q"
  shows "\<exists>p. succ_node d n q = Some p \<and> (\<forall>s. p = Some s \<longrightarrow> s \<in> set ns)"
  using assms(3)
proof (induction n rule: measure_induct_rule [where f = "\<lambda>n. card (ahead rk (fresh q) d n)"])
  case (less n)
  show ?case
  proof (cases "nextNode d n q")
    case None
    then show ?thesis by (simp add: succ_node.simps)
  next
    case (Some s)
    show ?thesis
    proof (cases "item (nodes q s) = None \<and> s \<noteq> n")
      case True
      with less ahead_shrinks [OF rk less.prems Some] have "\<exists>p. succ_node d s q = Some p \<and>
        (\<forall>s. p = Some s \<longrightarrow> s \<in> set ns)" by blast
      with Some True show ?thesis by (subst succ_node.simps) simp
    next
      case False
      with Some inv firstNode_live [OF inv] show ?thesis
        by (subst succ_node.simps) (auto simp: dq_inv_def)
    qed
  qed
qed

section \<open>Iterators under interference\<close>

definition iter_ok :: "'a deque \<Rightarrow> 'a iter \<Rightarrow> bool" where
  "iter_ok q it \<longleftrightarrow>
     (\<forall>a. it_next it = Some a \<longrightarrow> a < fresh q) \<and> (it_next it = None \<longleftrightarrow> nextItem it = None) \<and>
     (\<forall>a. lastRet it = Some a \<longrightarrow> a < fresh q)"

text \<open>
  What can happen to a deque and one iterator over it: calls of the deque's methods by
  anyone, removals through other iterators (\<open>other_remove\<close>), and the iterator's own
  operations. Everything that touches shared state does so under the deque's lock, so the
  steps are atomic.
\<close>

inductive iter_reach :: "'a deque \<Rightarrow> 'a iter \<Rightarrow> bool" where
  create: "NewDeque cap = Some q0 \<Longrightarrow> dq_calls cs q0 = Some (rs, q) \<Longrightarrow> iter_reach q (newIterator d q)"
| call: "iter_reach q it \<Longrightarrow> dq_call c q = Some (x, q') \<Longrightarrow> iter_reach q' it"
| other_remove: "iter_reach q it \<Longrightarrow> item (nodes q a) \<noteq> None \<Longrightarrow> unlink (Some a) q = Some q' \<Longrightarrow>
    iter_reach q' it"
| next_step: "iter_reach q it \<Longrightarrow> Next q it = Some (y, it') \<Longrightarrow> iter_reach q it'"
| remove: "iter_reach q it \<Longrightarrow> Remove q it = Some (q', it') \<Longrightarrow> iter_reach q' it'"

lemma iter_ok_mono: "iter_ok q it \<Longrightarrow> fresh q \<le> fresh q' \<Longrightarrow> iter_ok q' it"
  by (auto simp: iter_ok_def)

lemma point_at_ok:
  assumes inv: "dq_inv q ns" and p: "\<And>s. p = Some s \<Longrightarrow> s \<in> set ns"
    and l: "\<And>a. lastRet it = Some a \<Longrightarrow> a < fresh q"
  shows "iter_ok q (point_at p q it)"
  using inv p l by (cases p) (auto simp: iter_ok_def point_at_def dq_inv_def)

lemma Next_ok:
  assumes ok: "dq_ok q" and it: "iter_ok q it"
  shows "\<exists>y it'. Next q it = Some (y, it') \<and> (y \<noteq> None \<longleftrightarrow> HasNext it) \<and> iter_ok q it'"
proof (cases "it_next it")
  case None
  with it show ?thesis by (auto simp: Next_def HasNext_def iter_ok_def)
next
  case (Some n)
  from ok obtain ns rk where inv: "dq_inv q ns" and rk: "rank_heap rk (fresh q) (nodes q)"
    by (auto simp: dq_ok_def ranked_def)
  from it Some have n: "n < fresh q" by (simp add: iter_ok_def)
  from succ_node_returns [OF inv rk n, of "it_desc it"] obtain p where
    p: "succ_node (it_desc it) n q = Some p" "\<forall>s. p = Some s \<longrightarrow> s \<in> set ns" by blast
  have "iter_ok q (point_at p q (it\<lparr>lastRet := Some n\<rparr>))"
    by (rule point_at_ok [OF inv]) (use p n in auto)
  with Some p it show ?thesis by (auto simp: Next_def HasNext_def advance_def iter_ok_def)
qed

lemma Remove_ok:
  assumes ok: "dq_ok q" and it: "iter_ok q it" and r: "Remove q it = Some (q', it')"
  shows "dq_ok q' \<and> fresh q' = fresh q \<and> iter_ok q' it'"
proof -
  from r obtain n where n: "lastRet it = Some n" "it' = it\<lparr>lastRet := None\<rparr>"
    and q': "(if item (nodes q n) \<noteq> None then unlink (Some n) q else Some q) = Some q'"
    by (auto simp: Remove_def bind_eq_Some_conv)
  have "dq_ok q' \<and> fresh q' = fresh q"
    using q' ok unlink_ok [OF ok, of n q'] by (auto split: if_splits)
  with n it show ?thesis by (auto simp: iter_ok_def)
qed

lemma iter_reach_ok: "iter_reach q it \<Longrightarrow> dq_ok q \<and> iter_ok q it"
proof (induction rule: iter_reach.induct)
  case (create cap q0 cs rs q d)
  then have ok: "dq_ok q" using NewDeque_ok dq_calls_ok by blast
  then obtain ns where inv: "dq_inv q ns" by (auto simp: dq_ok_def)
  have "iter_ok q (newIterator d q)" unfolding newIterator_def
    by (rule point_at_ok [OF inv]) (auto intro: firstNode_live [OF inv])
  with ok show ?case by simp
next
  case (call q it c x q')
  with dq_call_ok [of q c x q'] iter_ok_mono show ?case by blast
next
  case (other_remove q it a q')
  with unlink_ok [of q a q'] iter_ok_mono show ?case by (metis order_refl)
next
  case (next_step q it y it')
  with Next_ok [of q it] show ?case by auto
next
  case (remove q it q' it')
  with Remove_ok [of q it q' it'] show ?case by blast
qed

section \<open>Properties\<close>

text \<open>
  C3. An iterator always makes progress: whatever calls and removals happened since it was
  created (so that it may stand on a node that was removed long ago), \<open>Next\<close> returns, and it
  returns an element exactly when \<open>HasNext\<close> said so. The deque stays well-formed.
\<close>

theorem iterator_next_returns:
  assumes "iter_reach q it"
  shows "\<exists>y it'. Next q it = Some (y, it') \<and> (y \<noteq> None \<longleftrightarrow> HasNext it) \<and> (\<exists>xs. dq_rep q xs)"
proof -
  from iter_reach_ok [OF assms] have ok: "dq_ok q" "iter_ok q it" by simp_all
  then obtain ns where "dq_inv q ns" by (auto simp: dq_ok_def)
  then have "dq_rep q (dq_items q ns)" by (rule dq_repI) simp
  with Next_ok [OF ok] show ?thesis by blast
qed

text \<open>The witness: an iterator created on \<open>[1, 2]\<close> whose node is then polled away.\<close>

definition two_deque :: "nat deque" where
  "two_deque = snd (the (dq_calls [COfferLast (Some 1), COfferLast (Some 2)] (the (NewDeque 2))))"

lemma two_deque_made:
  "\<exists>q. NewDeque 2 = Some q \<and> dq_rep two_deque [1, 2] \<and>
    dq_calls [COfferLast (Some 1), COfferLast (Some 2)] q = Some ([AnsBool True, AnsBool True], two_deque)"
proof -
  obtain q :: "nat deque" where q: "NewDeque 2 = Some q" "dq_rep q []" "dq_capacity q = 2"
    using NewDeque_rep [of 2] by auto
  from dq_calls_refines [OF q(2), of "[COfferLast (Some 1), COfferLast (Some 2)]"] q(3)
  obtain q' where q': "dq_calls [COfferLast (Some 1), COfferLast (Some 2)] q =
      Some ([AnsBool True, AnsBool True], q')" "dq_rep q' [1, 2]" by auto
  then have "two_deque = q'" by (simp add: two_deque_def q(1))
  with q q' show ?thesis by blast
qed

lemma two_deque_polled:
  "iter_reach (snd (the (dq_call CPollFirst two_deque))) (newIterator False two_deque)"
proof -
  from two_deque_made have c: "iter_reach two_deque (newIterator False two_deque)"
    by (blast intro: iter_reach.create)
  from two_deque_made have rep: "dq_rep two_deque [1, 2]" by blast
  from dq_call_refines [OF rep, of CPollFirst] obtain r q' where
    p: "dq_call CPollFirst two_deque = Some (r, q')" by blast
  from iter_reach.call [OF c p] show ?thesis by (simp only: p option.sel snd_conv)
qed

theorem iterator_next_returns_witness:
  "\<exists>y it'. Next (snd (the (dq_call CPollFirst two_deque))) (newIterator False two_deque) = Some (y, it') \<and>
    (y \<noteq> None \<longleftrightarrow> HasNext (newIterator False two_deque)) \<and>
    (\<exists>xs. dq_rep (snd (the (dq_call CPollFirst two_deque))) xs)"
  by (rule iterator_next_returns [OF two_deque_polled])

text \<open>
  Without interference an iterator yields every element once: the elements first to
  last (\<open>Iterator\<close>) or last to first (\<open>DescendingIterator\<close>), and then it has no next.
\<close>

lemma iterator_complete:
  assumes "dq_rep q xs"
  shows "\<exists>it. next_n (length xs) q (newIterator d q) = Some (map Some (if d then rev xs else xs), it) \<and>
    \<not> HasNext it"
proof -
  from assms obtain ns where inv: "dq_inv q ns" and xs: "xs = dq_items q ns" by (rule dq_repE)
  then have ends: "dq_first q = hd_opt ns None" "dq_last q = last_opt ns None"
    by (simp_all add: dq_inv_def)
  show ?thesis
  proof (cases d)
    case True
    with next_n_desc [of q ns "[]" "newIterator d q", OF _ _] inv xs ends show ?thesis
      by (auto simp: newIterator_def firstNode_def)
  next
    case False
    with next_n_asc [of q "[]" ns "newIterator d q", OF _ _] inv xs ends show ?thesis
      by (auto simp: newIterator_def firstNode_def)
  qed
qed

text \<open>
  \<open>Remove\<close> takes out exactly the node last returned if it is still in the deque, leaves the
  deque alone if it is gone, and can be used once per returned element.
\<close>

lemma iterator_remove_exact:
  assumes inv: "dq_inv q ns" and n: "lastRet it = Some n"
  shows "\<exists>q' it'. Remove q it = Some (q', it') \<and> Remove q' it' = None \<and>
    (if n \<in> set ns
     then dq_inv q' (remove1 n ns) \<and> dq_items q' (remove1 n ns) = dq_items q (remove1 n ns)
     else q' = q)"
proof (cases "n \<in> set ns")
  case True
  then obtain as bs where ns: "ns = as @ n # bs" by (meson split_list)
  then have "remove1 n ns = as @ bs" using dq_inv_distinct [OF inv] by (simp add: remove1_append)
  moreover have "item (nodes q n) \<noteq> None" using True inv by (simp add: dq_inv_def)
  ultimately show ?thesis
    using unlink_spec [of q as n bs] inv ns n by (auto simp: Remove_def)
next
  case False
  then have "item (nodes q n) = None" using inv by (simp add: dq_inv_def)
  with False n show ?thesis by (simp add: Remove_def)
qed

section \<open>The element last returned\<close>

text \<open>Nodes keep their item until they are removed.\<close>

definition items_kept :: "'a deque \<Rightarrow> 'a deque \<Rightarrow> bool" where
  "items_kept q q' \<longleftrightarrow> fresh q \<le> fresh q' \<and>
     (\<forall>a < fresh q. item (nodes q' a) = item (nodes q a) \<or> item (nodes q' a) = None)"

lemma items_kept_refl [simp]: "items_kept q q"
  by (simp add: items_kept_def)

lemma link_keeps:
  "linkFirst e q = Some (b, q') \<Longrightarrow> items_kept q q'"
  "linkLast e q = Some (b, q') \<Longrightarrow> items_kept q q'"
  by (auto simp: linkFirst_def linkLast_def node_access items_kept_def Let_def bind_eq_Some_conv
      split: if_splits option.splits)

lemma unlink_end_keeps:
  "unlinkFirst q = Some (x, q') \<Longrightarrow> items_kept q q'"
  "unlinkLast q = Some (x, q') \<Longrightarrow> items_kept q q'"
  by (auto simp: unlinkFirst_def unlinkLast_def node_access items_kept_def Let_def bind_eq_Some_conv
      split: if_splits option.splits)

lemma unlink_keeps: "unlink p q = Some q' \<Longrightarrow> items_kept q q'"
  by (auto simp: unlink_def Let_def bind_eq_Some_conv split: if_splits intro: unlink_end_keeps)
    (auto simp: node_access items_kept_def split: option.splits if_splits)

lemma unlinks_one_keeps: "unlinks_one q q' \<Longrightarrow> items_kept q q'"
  by (auto simp: unlinks_one_def intro: unlink_keeps)

lemma dq_call_keeps:
  assumes "dq_call c q = Some (a, q')"
  shows "items_kept q q'"
  using assms
proof (cases c)
  case (CRemoveFirstOccurrence eq e)
  with assms show ?thesis by (auto dest: RemoveOccurrence_unlinks intro: unlinks_one_keeps)
next
  case (CRemoveLastOccurrence eq e)
  with assms show ?thesis by (auto dest: RemoveOccurrence_unlinks intro: unlinks_one_keeps)
next
  case CInterruptTakeWaiters
  with assms show ?thesis by (auto simp: InterruptTakeWaiters_def items_kept_def)
qed (auto simp: AddFirst_def AddLast_def OfferFirst_def OfferLast_def PollFirst_def PollLast_def
    bind_eq_Some_conv split: if_splits intro: link_keeps unlink_end_keeps)

text \<open>
  The runs of \<open>iter_reach\<close> with the element that the iterator returned last, as long as it has
  not been removed through the iterator.
\<close>

inductive iter_run :: "'a deque \<Rightarrow> 'a iter \<Rightarrow> 'a option \<Rightarrow> bool" where
  create: "NewDeque cap = Some q0 \<Longrightarrow> dq_calls cs q0 = Some (rs, q) \<Longrightarrow> iter_run q (newIterator d q) None"
| call: "iter_run q it v \<Longrightarrow> dq_call c q = Some (x, q') \<Longrightarrow> iter_run q' it v"
| other_remove: "iter_run q it v \<Longrightarrow> item (nodes q a) \<noteq> None \<Longrightarrow> unlink (Some a) q = Some q' \<Longrightarrow> iter_run q' it v"
| next_step: "iter_run q it v \<Longrightarrow> Next q it = Some (y, it') \<Longrightarrow> iter_run q it' (if y = None then v else y)"
| remove: "iter_run q it v \<Longrightarrow> Remove q it = Some (q', it') \<Longrightarrow> iter_run q' it' None"

lemma iter_run_reach: "iter_run q it v \<Longrightarrow> iter_reach q it"
  by (induction rule: iter_run.induct) (auto intro: iter_reach.intros)

definition holds :: "'a deque \<Rightarrow> addr option \<Rightarrow> 'a option \<Rightarrow> bool" where
  "holds q p v \<longleftrightarrow> (case p of None \<Rightarrow> v = None | Some a \<Rightarrow> v \<noteq> None \<and> (item (nodes q a) = None \<or> item (nodes q a) = v))"

lemma holds_kept: "holds q p v \<Longrightarrow> items_kept q q' \<Longrightarrow> (\<And>a. p = Some a \<Longrightarrow> a < fresh q) \<Longrightarrow> holds q' p v"
  by (fastforce simp: holds_def items_kept_def split: option.splits)

lemma point_at_holds:
  "dq_inv q ns \<Longrightarrow> (\<And>s. p = Some s \<Longrightarrow> s \<in> set ns) \<Longrightarrow>
    holds q (it_next (point_at p q it)) (nextItem (point_at p q it)) \<and> lastRet (point_at p q it) = lastRet it"
  by (cases p) (auto simp: holds_def point_at_def dq_inv_def)

lemma Next_holds:
  assumes ok: "dq_ok q" "iter_ok q it" and h: "holds q (it_next it) (nextItem it)" "holds q (lastRet it) v"
    and n: "Next q it = Some (y, it')"
  shows "holds q (it_next it') (nextItem it') \<and> holds q (lastRet it') (if y = None then v else y)"
proof (cases "it_next it")
  case None
  with n h show ?thesis by (auto simp: Next_def)
next
  case (Some a)
  from ok obtain ns rk where inv: "dq_inv q ns" and rk: "rank_heap rk (fresh q) (nodes q)"
    by (auto simp: dq_ok_def ranked_def)
  from ok(2) Some have "a < fresh q" by (simp add: iter_ok_def)
  from succ_node_returns [OF inv rk this, of "it_desc it"] obtain p where
    p: "succ_node (it_desc it) a q = Some p" "\<And>s. p = Some s \<Longrightarrow> s \<in> set ns" by blast
  with n Some have it': "it' = point_at p q (it\<lparr>lastRet := Some a\<rparr>)" "y = nextItem it"
    by (auto simp: Next_def advance_def)
  from point_at_holds [OF inv p(2), of p "it\<lparr>lastRet := Some a\<rparr>"] h(1) Some it' show ?thesis
    by (auto simp: holds_def)
qed

lemma iter_run_holds: "iter_run q it v \<Longrightarrow> holds q (it_next it) (nextItem it) \<and> holds q (lastRet it) v"
proof (induction rule: iter_run.induct)
  case (create cap q0 cs rs q d)
  then obtain ns where inv: "dq_inv q ns" using NewDeque_ok dq_calls_ok by (metis dq_ok_def)
  from point_at_holds [OF inv firstNode_live [OF inv]] show ?case
    by (simp add: newIterator_def holds_def point_at_def)
next
  case (call q it v c x q')
  from iter_reach_ok [OF iter_run_reach [OF call.hyps(1)]] have "iter_ok q it" ..
  with call dq_call_keeps [OF call.hyps(2)] show ?case by (auto simp: iter_ok_def intro: holds_kept)
next
  case (other_remove q it v a q')
  from iter_reach_ok [OF iter_run_reach [OF other_remove.hyps(1)]] have "iter_ok q it" ..
  with other_remove unlink_keeps [OF other_remove.hyps(3)] show ?case by (auto simp: iter_ok_def intro: holds_kept)
next
  case (next_step q it v y it')
  from iter_reach_ok [OF iter_run_reach [OF next_step.hyps(1)]] have ok: "dq_ok q" "iter_ok q it" by simp_all
  from Next_holds [OF ok _ _ next_step.hyps(2)] next_step.IH show ?case by blast
next
  case (remove q it v q' it')
  from iter_reach_ok [OF iter_run_reach [OF remove.hyps(1)]] have ok: "iter_ok q it" ..
  from remove.hyps(2) have it': "it' = it\<lparr>lastRet := None\<rparr>" and k: "items_kept q q'"
    by (auto simp: Remove_def bind_eq_Some_conv split: if_splits intro: unlink_keeps)
  have "holds q' (it_next it) (nextItem it)"
    using remove.IH k ok by (auto simp: iter_ok_def intro: holds_kept)
  then show ?case by (simp add: it' holds_def)
qed

lemma iterator_records:
  assumes inv: "dq_inv q ns" and i: "i < length ns"
  shows "\<exists>it. next_n (Suc i) q (newIterator d q) =
      Some (map Some (take (Suc i) (if d then rev (dq_items q ns) else dq_items q ns)), it) \<and>
    lastRet it = Some ((if d then rev ns else ns) ! i)"
proof -
  from inv have ends: "dq_first q = hd_opt ns None" "dq_last q = last_opt ns None"
    by (simp_all add: dq_inv_def)
  show ?thesis
  proof (cases d)
    case True
    with next_n_desc_at [of q ns "[]" "newIterator d q" _ i, OF _ _] inv i ends show ?thesis
      by (auto simp: newIterator_def firstNode_def simp del: next_n.simps)
  next
    case False
    with next_n_asc_at [of q "[]" ns "newIterator d q" _ i, OF _ _] inv i ends show ?thesis
      by (auto simp: newIterator_def firstNode_def simp del: next_n.simps)
  qed
qed

text \<open>
  C4. An iterator yields every element once and removes the right one. Without interference
  it yields the elements first to last (\<open>Iterator\<close>) or last to first
  (\<open>DescendingIterator\<close>), after each it stands on the node of the element it has just
  returned, and then it has no next. Whatever happens to the deque meanwhile, \<open>Remove\<close> takes out
  exactly the node last returned, which still holds the element that \<open>Next\<close> gave, if that
  node is still in the deque, leaves the deque alone if it is gone, and panics when nothing was
  returned yet or the element was removed already.
\<close>

theorem iterator_walk:
  assumes inv: "dq_inv q ns"
  shows "(\<exists>it. next_n (length ns) q (newIterator d q) =
      Some (map Some (if d then rev (dq_items q ns) else dq_items q ns), it) \<and> \<not> HasNext it) \<and>
    (\<forall>i < length ns. \<exists>it. next_n (Suc i) q (newIterator d q) =
        Some (map Some (take (Suc i) (if d then rev (dq_items q ns) else dq_items q ns)), it) \<and>
      lastRet it = Some ((if d then rev ns else ns) ! i)) \<and>
    (iter_run q it0 v \<longrightarrow>
      (case v of
         None \<Rightarrow> Remove q it0 = None
       | Some x \<Rightarrow> \<exists>n q' it'. lastRet it0 = Some n \<and> Remove q it0 = Some (q', it') \<and> Remove q' it' = None \<and>
           (if n \<in> set ns
            then item (nodes q n) = Some x \<and> dq_inv q' (remove1 n ns) \<and>
              dq_items q' (remove1 n ns) = dq_items q (remove1 n ns)
            else q' = q)))"
proof (intro conjI)
  from inv have "dq_rep q (dq_items q ns)" unfolding dq_rep_def by blast
  moreover have "length (dq_items q ns) = length ns" by simp
  ultimately show "\<exists>it. next_n (length ns) q (newIterator d q) =
      Some (map Some (if d then rev (dq_items q ns) else dq_items q ns), it) \<and> \<not> HasNext it"
    using iterator_complete by metis
next
  show "\<forall>i < length ns. \<exists>it. next_n (Suc i) q (newIterator d q) =
        Some (map Some (take (Suc i) (if d then rev (dq_items q ns) else dq_items q ns)), it) \<and>
      lastRet it = Some ((if d then rev ns else ns) ! i)"
    using iterator_records [OF inv] by blast
next
  show "iter_run q it0 v \<longrightarrow>
      (case v of
         None \<Rightarrow> Remove q it0 = None
       | Some x \<Rightarrow> \<exists>n q' it'. lastRet it0 = Some n \<and> Remove q it0 = Some (q', it') \<and> Remove q' it' = None \<and>
           (if n \<in> set ns
            then item (nodes q n) = Some x \<and> dq_inv q' (remove1 n ns) \<and>
              dq_items q' (remove1 n ns) = dq_items q (remove1 n ns)
            else q' = q))"
  proof
    assume "iter_run q it0 v"
    then have h: "holds q (lastRet it0) v" using iter_run_holds by blast
    show "case v of
         None \<Rightarrow> Remove q it0 = None
       | Some x \<Rightarrow> \<exists>n q' it'. lastRet it0 = Some n \<and> Remove q it0 = Some (q', it') \<and> Remove q' it' = None \<and>
           (if n \<in> set ns
            then item (nodes q n) = Some x \<and> dq_inv q' (remove1 n ns) \<and>
              dq_items q' (remove1 n ns) = dq_items q (remove1 n ns)
            else q' = q)"
    proof (cases v)
      case None
      with h show ?thesis by (auto simp: holds_def Remove_def split: option.splits)
    next
      case (Some x)
      with h obtain n where n: "lastRet it0 = Some n" "item (nodes q n) = None \<or> item (nodes q n) = Some x"
        by (auto simp: holds_def split: option.splits)
      have "n \<in> set ns \<Longrightarrow> item (nodes q n) = Some x" using n(2) inv by (auto simp: dq_inv_def)
      with iterator_remove_exact [OF inv n(1)] n(1) Some show ?thesis by auto
    qed
  qed
qed

theorem iterator_walk_witness:
  "\<exists>ns q' it it0 it'. next_n 2 two_deque (newIterator True two_deque) = Some ([Some 2, Some 1], it) \<and> \<not> HasNext it \<and>
    Next two_deque (newIterator False two_deque) = Some (Some 1, it0) \<and>
    Remove two_deque it0 = Some (q', it') \<and> Remove q' it' = None \<and> dq_inv q' (remove1 (hd ns) ns) \<and>
    dq_items two_deque ns = [1, 2] \<and> dq_items q' (remove1 (hd ns) ns) = [2]"
proof -
  from two_deque_made have "dq_rep two_deque [1, 2]" by blast
  then obtain ns where ns: "dq_inv two_deque ns" "dq_items two_deque ns = [1, 2]"
    by (metis dq_repE)
  then have "length ns = 2" using dq_items_simps(4) [of two_deque ns] by simp
  then obtain a b where ab: "ns = [a, b]" by (auto simp: numeral_2_eq_2 length_Suc_conv)
  from two_deque_made have c: "iter_run two_deque (newIterator False two_deque) None"
    by (blast intro: iter_run.create)
  note w = iterator_walk [OF ns(1), unfolded \<open>length ns = 2\<close> ns(2)]
  from w [of True, THEN conjunct1] obtain it where
    i: "next_n 2 two_deque (newIterator True two_deque) = Some ([Some 2, Some 1], it)" "\<not> HasNext it" by auto
  from w [of False, THEN conjunct2, THEN conjunct1, rule_format, of 0] obtain it0 where
    n: "Next two_deque (newIterator False two_deque) = Some (Some 1, it0)" "lastRet it0 = Some a"
    by (auto simp: ab bind_eq_Some_conv)
  from iter_run.next_step [OF c n(1)] have r: "iter_run two_deque it0 (Some 1)" by simp
  have "a \<in> set ns" "hd ns = a" "remove1 a ns = [b]" using ab by simp_all
  with w [of False it0 "Some 1", THEN conjunct2, THEN conjunct2] r n(2) obtain q' it' where
    "Remove two_deque it0 = Some (q', it')" "Remove q' it' = None" "dq_inv q' (remove1 a ns)"
    "dq_items q' (remove1 a ns) = dq_items two_deque [b]" by auto
  moreover have "dq_items two_deque [b] = [2]" using ns(2) by (simp add: ab dq_items_def)
  ultimately show ?thesis using i n(1) ns(2) \<open>hd ns = a\<close> by metis
qed

end
