(* ===== verification/Blocking.thy ===== *)
theory Blocking
  imports DequeSpec
begin

text \<open>
  The blocking methods of \<open>gcollection/queue.go\<close> with \<open>gconcurrent/cond.go\<close> under
  them, run by any number of goroutines. What a goroutine does while it holds
  \<open>q.lock\<close> is one step; it stands between steps where the lock is free: before the
  first \<open>Lock\<close>, at the \<open>select\<close> of \<open>Wait\<close>, parked in it, and before the
  \<open>Lock\<close> that ends \<open>Wait\<close>.
\<close>

section \<open>The critical sections of the blocking methods\<close>

datatype 'a wres = RUnit | RItem "'a option" | RInterrupted

text \<open>
  Where a goroutine stands: \<open>Enter\<close> before its first \<open>Lock\<close>; \<open>Sel ch\<close> at the
  \<open>select\<close>, with the channel it copied; \<open>Park\<close> blocked in it; \<open>Woken r\<close> with
  the result of \<open>Wait\<close>, before it has the lock again; \<open>Ret\<close> returned.
\<close>

datatype 'a pc = Enter | Sel nat | Park | Woken bool | Ret "'a wres"

definition wait_full :: "'a deque \<Rightarrow> ('a pc \<times> 'a deque) option" where
  "wait_full q = do { (ch, c) \<leftarrow> wait_enter (notFull q); Some (Sel ch, q\<lparr>notFull := c\<rparr>) }"

definition wait_empty :: "'a deque \<Rightarrow> ('a pc \<times> 'a deque) option" where
  "wait_empty q = do { (ch, c) \<leftarrow> wait_enter (notEmpty q); Some (Sel ch, q\<lparr>notEmpty := c\<rparr>) }"

definition PutFirst :: "'a option \<Rightarrow> 'a deque \<Rightarrow> ('a pc \<times> 'a deque) option" where
  "PutFirst e q = do {
     (ok, q) \<leftarrow> linkFirst e q;
     if ok then Some (Ret RUnit, q) else wait_full q
   }"

definition PutLast :: "'a option \<Rightarrow> 'a deque \<Rightarrow> ('a pc \<times> 'a deque) option" where
  "PutLast e q = do {
     (ok, q) \<leftarrow> linkLast e q;
     if ok then Some (Ret RUnit, q) else wait_full q
   }"

definition TakeFirst :: "bool \<Rightarrow> 'a deque \<Rightarrow> ('a pc \<times> 'a deque) option" where
  "TakeFirst interrupt q = do {
     (x, q) \<leftarrow> unlinkFirst q;
     if x \<noteq> None then Some (Ret (RItem x), q)
     else if interrupt then Some (Ret RInterrupted, q)
     else wait_empty q
   }"

definition TakeLast :: "bool \<Rightarrow> 'a deque \<Rightarrow> ('a pc \<times> 'a deque) option" where
  "TakeLast interrupt q = do {
     (x, q) \<leftarrow> unlinkLast q;
     if x \<noteq> None then Some (Ret (RItem x), q)
     else if interrupt then Some (Ret RInterrupted, q)
     else wait_empty q
   }"

definition PollFirstWithContext :: "bool \<Rightarrow> bool \<Rightarrow> 'a deque \<Rightarrow> ('a pc \<times> 'a deque) option" where
  "PollFirstWithContext interrupt ctx_done q = do {
     (x, q) \<leftarrow> unlinkFirst q;
     if x \<noteq> None then Some (Ret (RItem x), q)
     else if interrupt then Some (Ret RInterrupted, q)
     else if ctx_done then Some (Ret (RItem None), q)
     else wait_empty q
   }"

definition PollLastWithContext :: "bool \<Rightarrow> bool \<Rightarrow> 'a deque \<Rightarrow> ('a pc \<times> 'a deque) option" where
  "PollLastWithContext interrupt ctx_done q = do {
     (x, q) \<leftarrow> unlinkLast q;
     if x \<noteq> None then Some (Ret (RItem x), q)
     else if interrupt then Some (Ret RInterrupted, q)
     else if ctx_done then Some (Ret (RItem None), q)
     else wait_empty q
   }"

section \<open>Goroutines\<close>

datatype 'a wop =
    WPutFirst "'a option" | WPutLast "'a option" | WTakeFirst | WTakeLast
  | WPollFirst | WPollLast

fun taker :: "'a wop \<Rightarrow> bool" where
  "taker (WPutFirst _) = False"
| "taker (WPutLast _) = False"
| "taker WTakeFirst = True"
| "taker WTakeLast = True"
| "taker WPollFirst = True"
| "taker WPollLast = True"

text \<open>Putting nil returns before the lock is taken; every other call goes for the lock.\<close>

fun begin_op :: "'a wop \<Rightarrow> 'a pc" where
  "begin_op (WPutFirst e) = (if e = None then Ret RUnit else Enter)"
| "begin_op (WPutLast e) = (if e = None then Ret RUnit else Enter)"
| "begin_op _ = Enter"

fun attempt :: "'a wop \<Rightarrow> bool \<Rightarrow> bool \<Rightarrow> 'a deque \<Rightarrow> ('a pc \<times> 'a deque) option" where
  "attempt (WPutFirst e) i d q = PutFirst e q"
| "attempt (WPutLast e) i d q = PutLast e q"
| "attempt WTakeFirst i d q = TakeFirst i q"
| "attempt WTakeLast i d q = TakeLast i q"
| "attempt WPollFirst i d q = PollFirstWithContext i d q"
| "attempt WPollLast i d q = PollLastWithContext i d q"

definition cond_of :: "bool \<Rightarrow> 'a deque \<Rightarrow> tcond" where
  "cond_of t q = (if t then notEmpty q else notFull q)"

definition set_cond :: "bool \<Rightarrow> tcond \<Rightarrow> 'a deque \<Rightarrow> 'a deque" where
  "set_cond t c q = (if t then q\<lparr>notEmpty := c\<rparr> else q\<lparr>notFull := c\<rparr>)"

text \<open>The end of \<open>Wait\<close> and the next turn of the method's loop, in one critical section.\<close>

definition relock :: "'a wop \<Rightarrow> bool \<Rightarrow> bool \<Rightarrow> 'a deque \<Rightarrow> ('a pc \<times> 'a deque) option" where
  "relock op i d q = do {
     c \<leftarrow> removeWaiter (cond_of (taker op) q);
     attempt op i d (set_cond (taker op) c q)
   }"

text \<open>
  A turn of the loop makes one call of the non-blocking deque; \<open>log\<close> collects these calls
  with their answers, and the plain calls of other goroutines, in the order of the lock.
\<close>

fun op_call :: "'a wop \<Rightarrow> 'a dq_op" where
  "op_call (WPutFirst e) = COfferFirst e"
| "op_call (WPutLast e) = COfferLast e"
| "op_call WTakeFirst = CPollFirst"
| "op_call WTakeLast = CPollLast"
| "op_call WPollFirst = CPollFirst"
| "op_call WPollLast = CPollLast"

fun op_answer :: "'a wop \<Rightarrow> 'a pc \<Rightarrow> 'a dq_answer" where
  "op_answer op (Ret (RItem x)) = AnsItem x"
| "op_answer op (Ret RUnit) = AnsBool True"
| "op_answer op _ = (if taker op then AnsItem None else AnsBool False)"

record 'a sys =
  dq :: "'a deque"
  thr :: "gid \<Rightarrow> ('a wop \<times> 'a pc) option"
  ctxd :: "gid set"
  log :: "(gid option \<times> 'a dq_op \<times> 'a dq_answer) list"

definition max_threads :: nat where
  "max_threads = 2 ^ 64 - 1"

text \<open>
  \<open>step_by (Some g)\<close> is a step of goroutine \<open>g\<close>; \<open>step_by None\<close> is one of the
  environment: a new goroutine, a context that becomes done, a non-blocking call.
\<close>

inductive step_by :: "gid option \<Rightarrow> 'a sys \<Rightarrow> 'a sys \<Rightarrow> bool" where
  spawn: "thr s g = None \<Longrightarrow> g < max_threads \<Longrightarrow>
    step_by None s (s\<lparr>thr := (thr s)(g \<mapsto> (op, begin_op op))\<rparr>)"
| ctx_done: "step_by None s (s\<lparr>ctxd := insert g (ctxd s)\<rparr>)"
| call: "dq_call c (dq s) = Some (a, q) \<Longrightarrow>
    step_by None s (s\<lparr>dq := q, log := log s @ [(None, c, a)]\<rparr>)"
| enter: "thr s g = Some (op, Enter) \<Longrightarrow> attempt op False (g \<in> ctxd s) (dq s) = Some (p, q) \<Longrightarrow>
    step_by (Some g) s (s\<lparr>dq := q, thr := (thr s)(g \<mapsto> (op, p)),
      log := log s @ [(Some g, op_call op, op_answer op p)]\<rparr>)"
| select: "thr s g = Some (op, Sel ch) \<Longrightarrow>
    wait_select g ch (g \<in> ctxd s) pick (cond_of (taker op) (dq s)) = (r, c) \<Longrightarrow>
    step_by (Some g) s (s\<lparr>dq := set_cond (taker op) c (dq s),
      thr := (thr s)(g \<mapsto> (op, case r of Parked \<Rightarrow> Park | Returned b \<Rightarrow> Woken b))\<rparr>)"
| resume: "thr s g = Some (op, Park) \<Longrightarrow>
    wait_resume g (cond_of (taker op) (dq s)) = Some (b, c) \<Longrightarrow>
    step_by (Some g) s (s\<lparr>dq := set_cond (taker op) c (dq s), thr := (thr s)(g \<mapsto> (op, Woken b))\<rparr>)"
| give_up: "thr s g = Some (op, Park) \<Longrightarrow> g \<in> ctxd s \<Longrightarrow>
    wait_ctx_done g (cond_of (taker op) (dq s)) = Some (b, c) \<Longrightarrow>
    step_by (Some g) s (s\<lparr>dq := set_cond (taker op) c (dq s), thr := (thr s)(g \<mapsto> (op, Woken b))\<rparr>)"
| again: "thr s g = Some (op, Woken i) \<Longrightarrow> relock op i (g \<in> ctxd s) (dq s) = Some (p, q) \<Longrightarrow>
    step_by (Some g) s (s\<lparr>dq := q, thr := (thr s)(g \<mapsto> (op, p)),
      log := log s @ [(Some g, op_call op, op_answer op p)]\<rparr>)"

inductive_cases step_byE: "step_by g s s'"

inductive reachable :: "'a deque \<Rightarrow> 'a sys \<Rightarrow> bool" for q0 where
  start: "reachable q0 \<lparr>dq = q0, thr = (\<lambda>_. None), ctxd = {}, log = []\<rparr>"
| step: "reachable q0 s \<Longrightarrow> step_by g s s' \<Longrightarrow> reachable q0 s'"

section \<open>What the calls do to the two conditions\<close>

text \<open>Every method leaves a condition as it was, or signals or interrupts it.\<close>

definition cond_moves :: "tcond \<Rightarrow> tcond \<Rightarrow> bool" where
  "cond_moves c c' \<longleftrightarrow> c' = c \<or> c' = Signal c \<or> c' = Interrupt c"

definition conds_move :: "'a deque \<Rightarrow> 'a deque \<Rightarrow> bool" where
  "conds_move q q' \<longleftrightarrow> cond_moves (notEmpty q) (notEmpty q') \<and> cond_moves (notFull q) (notFull q')"

lemma conds_move_refl [simp]: "conds_move q q"
  by (simp add: conds_move_def cond_moves_def)

lemma node_access_conds:
  "upd_node f p q = Some q' \<Longrightarrow> notEmpty q' = notEmpty q \<and> notFull q' = notFull q"
  by (auto simp: upd_node_def split: option.splits)

lemmas node_updates = set_prev_def set_nxt_def set_item_def newNode_def

lemma link_moves:
  "linkFirst e q = Some (ok, q') \<Longrightarrow> conds_move q q'"
  "linkLast e q = Some (ok, q') \<Longrightarrow> conds_move q q'"
  by (auto simp: linkFirst_def linkLast_def node_updates conds_move_def cond_moves_def Let_def bind_eq_Some_conv
      split: if_splits dest!: node_access_conds)

lemma unlink_end_moves:
  "unlinkFirst q = Some (x, q') \<Longrightarrow> conds_move q q'"
  "unlinkLast q = Some (x, q') \<Longrightarrow> conds_move q q'"
  by (auto simp: unlinkFirst_def unlinkLast_def node_updates conds_move_def cond_moves_def Let_def bind_eq_Some_conv
      split: if_splits dest!: node_access_conds)

lemma unlink_moves: "unlink p q = Some q' \<Longrightarrow> conds_move q q'"
  by (auto simp: unlink_def Let_def bind_eq_Some_conv split: if_splits intro: unlink_end_moves)
    (auto simp: node_updates conds_move_def cond_moves_def dest!: node_access_conds)

lemma unlinks_one_moves: "unlinks_one q q' \<Longrightarrow> conds_move q q'"
  by (auto simp: unlinks_one_def intro: unlink_moves)

lemma dq_call_moves:
  assumes "dq_call c q = Some (a, q')"
  shows "conds_move q q'"
  using assms
proof (cases c)
  case (CInterruptTakeWaiters)
  with assms show ?thesis by (auto simp: InterruptTakeWaiters_def conds_move_def cond_moves_def)
next
  case (CRemoveFirstOccurrence eq e)
  with assms show ?thesis
    by (auto dest: RemoveOccurrence_unlinks intro: unlinks_one_moves)
next
  case (CRemoveLastOccurrence eq e)
  with assms show ?thesis
    by (auto dest: RemoveOccurrence_unlinks intro: unlinks_one_moves)
qed (auto simp: AddFirst_def AddLast_def OfferFirst_def OfferLast_def PollFirst_def PollLast_def
    bind_eq_Some_conv split: if_splits intro: link_moves unlink_end_moves)

lemma cond_ok_moves: "cond_moves c c' \<Longrightarrow> cond_ok c n P chs \<Longrightarrow> cond_ok c' n P chs"
  by (auto simp: cond_moves_def cond_ok_Signal cond_ok_Interrupt)

section \<open>The invariant\<close>

fun waiting_pc :: "'a pc \<Rightarrow> bool" where
  "waiting_pc (Sel _) = True"
| "waiting_pc Park = True"
| "waiting_pc (Woken _) = True"
| "waiting_pc Enter = False"
| "waiting_pc (Ret _) = False"

fun pc_chan :: "'a pc \<Rightarrow> nat set" where
  "pc_chan (Sel ch) = {ch}"
| "pc_chan _ = {}"

fun turn_pc :: "'a pc \<Rightarrow> bool" where
  "turn_pc (Sel _) = True"
| "turn_pc (Ret _) = True"
| "turn_pc _ = False"

fun nil_op :: "'a wop \<Rightarrow> bool" where
  "nil_op (WPutFirst e) = (e = None)"
| "nil_op (WPutLast e) = (e = None)"
| "nil_op _ = False"

type_synonym 'a threads = "gid \<Rightarrow> ('a wop \<times> 'a pc) option"

definition waiters :: "'a threads \<Rightarrow> bool \<Rightarrow> gid set" where
  "waiters T t = {g. \<exists>op p. T g = Some (op, p) \<and> taker op = t \<and> waiting_pc p}"

definition parked :: "'a threads \<Rightarrow> bool \<Rightarrow> gid set" where
  "parked T t = {g. \<exists>op. T g = Some (op, Park) \<and> taker op = t}"

definition chans :: "'a threads \<Rightarrow> bool \<Rightarrow> nat set" where
  "chans T t = {ch. \<exists>g op. T g = Some (op, Sel ch) \<and> taker op = t}"

lemmas thread_sets = waiters_def parked_def chans_def

lemma waiters_upd:
  "waiters (T(g \<mapsto> (op, p))) t =
     (if taker op = t \<and> waiting_pc p then insert g (waiters T t) else waiters T t - {g})"
  by (auto simp: thread_sets)

lemma parked_upd:
  "parked (T(g \<mapsto> (op, p))) t =
     (if taker op = t \<and> p = Park then insert g (parked T t) else parked T t - {g})"
  by (auto simp: thread_sets)

lemma chans_upd:
  "chans (T(g \<mapsto> (op, p))) t \<subseteq> chans T t \<union> (if taker op = t then pc_chan p else {})"
  by (auto simp: thread_sets)

definition conds_ok :: "'a threads \<Rightarrow> 'a deque \<Rightarrow> bool" where
  "conds_ok T q \<longleftrightarrow>
     (\<forall>t. cond_ok (cond_of t q) (card (waiters T t)) (parked T t) (chans T t))"

definition log_ok :: "int \<Rightarrow> (gid option \<times> 'a dq_op \<times> 'a dq_answer) list \<Rightarrow> 'a deque \<Rightarrow> bool" where
  "log_ok cap l q \<longleftrightarrow> dq_capacity q = cap \<and>
     fst (list_calls cap (map (fst \<circ> snd) l) []) = map (snd \<circ> snd) l \<and>
     dq_rep q (snd (list_calls cap (map (fst \<circ> snd) l) []))"

definition calls_of :: "gid \<Rightarrow> (gid option \<times> 'b) list \<Rightarrow> 'b list" where
  "calls_of g l = map snd (filter (\<lambda>e. fst e = Some g) l)"

definition failed :: "'a wop \<Rightarrow> 'a dq_answer" where
  "failed op = (if taker op then AnsItem None else AnsBool False)"

text \<open>A goroutine's calls: failed ones, and if it has returned, one more with what it returned.\<close>

definition thread_log :: "'a wop \<Rightarrow> 'a pc \<Rightarrow> ('a dq_op \<times> 'a dq_answer) list \<Rightarrow> bool" where
  "thread_log op p es \<longleftrightarrow>
     (if nil_op op then p = Ret RUnit \<and> es = []
      else \<exists>n. es = replicate n (op_call op, failed op) @
        (case p of Ret _ \<Rightarrow> [(op_call op, op_answer op p)] | _ \<Rightarrow> []))"

definition logs_ok :: "'a threads \<Rightarrow> (gid option \<times> 'a dq_op \<times> 'a dq_answer) list \<Rightarrow> bool" where
  "logs_ok T l \<longleftrightarrow> (\<forall>g. case T g of
       None \<Rightarrow> calls_of g l = []
     | Some (op, p) \<Rightarrow> g < max_threads \<and> thread_log op p (calls_of g l))"

definition sys_inv :: "int \<Rightarrow> 'a sys \<Rightarrow> bool" where
  "sys_inv cap s \<longleftrightarrow>
     log_ok cap (log s) (dq s) \<and> logs_ok (thr s) (log s) \<and> conds_ok (thr s) (dq s)"

lemma calls_of_simps [simp]:
  "calls_of g [] = []"
  "calls_of g (l @ [(h, e)]) = calls_of g l @ (if h = Some g then [e] else [])"
  by (simp_all add: calls_of_def)

lemma list_calls_snoc:
  "list_calls cap (cs @ [c]) xs =
     (let (rs, ys) = list_calls cap cs xs; (r, zs) = list_call cap c ys in (rs @ [r], zs))"
  by (induction cs arbitrary: xs) (auto simp: split_beta Let_def)

lemma log_ok_snoc:
  assumes "log_ok cap l q" "snd (list_calls cap (map (fst \<circ> snd) l) []) = xs"
    and "dq_rep q' (snd (list_call cap c xs))" "dq_capacity q' = cap" "a = fst (list_call cap c xs)"
  shows "log_ok cap (l @ [(h, c, a)]) q'"
  using assms by (simp add: log_ok_def list_calls_snoc split_beta Let_def)

lemma set_cond_simps [simp]:
  "dq_rep (set_cond t c q) xs = dq_rep q xs" "dq_capacity (set_cond t c q) = dq_capacity q"
  "log_ok cap l (set_cond t c q) = log_ok cap l q"
  "cond_of t' (set_cond t c q) = (if t' = t then c else cond_of t' q)"
  by (simp_all add: set_cond_def cond_of_def log_ok_def dq_rep_def dq_inv_def dq_items_def)

lemma conds_move_of: "conds_move q q' \<Longrightarrow> cond_moves (cond_of t q) (cond_of t q')"
  by (simp add: conds_move_def cond_of_def)

lemma conds_move_ok:
  assumes "conds_move q q'" "conds_ok T q"
  shows "conds_ok T q'"
  unfolding conds_ok_def
proof
  fix t
  have "cond_ok (cond_of t q) (card (waiters T t)) (parked T t) (chans T t)"
    using assms(2) by (simp add: conds_ok_def)
  with conds_move_of [OF assms(1)] show "cond_ok (cond_of t q') (card (waiters T t)) (parked T t) (chans T t)"
    by (rule cond_ok_moves)
qed

lemma logs_okD: "logs_ok T l \<Longrightarrow> T g = Some (op, p) \<Longrightarrow> thread_log op p (calls_of g l)"
  unfolding logs_ok_def by (drule spec [of _ g]) simp

lemma conds_ok_finite: "logs_ok T l \<Longrightarrow> waiters T t \<subseteq> {..<max_threads}"
  by (fastforce simp: logs_ok_def waiters_def split: option.splits)

lemma waiters_card:
  assumes "logs_ok T l" "T g = Some (op, p)" "\<not> waiting_pc p"
  shows "card (waiters T t) < 2 ^ 64 - 1"
proof -
  have "g < max_threads" using assms(1,2) by (force simp: logs_ok_def split: option.splits)
  moreover have "g \<notin> waiters T t" using assms(2,3) by (auto simp: waiters_def)
  ultimately have "waiters T t \<subset> {..<max_threads}" using conds_ok_finite [OF assms(1), of t] by blast
  then have "card (waiters T t) < card {..<max_threads}" by (intro psubset_card_mono) simp_all
  then show ?thesis by (simp add: max_threads_def)
qed

section \<open>One turn of a blocking method\<close>

text \<open>What every blocking method does with its condition and the deque under it.\<close>

definition turn_ok :: "bool \<Rightarrow> 'a deque \<Rightarrow> 'a pc \<Rightarrow> 'a deque \<Rightarrow> bool" where
  "turn_ok t q1 p q' \<longleftrightarrow>
     (\<exists>r. p = Ret r \<and> q' = q1) \<or>
     (\<exists>ch c. p = Sel ch \<and> wait_enter (cond_of t q1) = Some (ch, c) \<and> q' = set_cond t c q1)"

lemma wait_turn:
  assumes "cond_ok (cond_of t q1) n P chs" "n < 2 ^ 64 - 1"
  shows "\<exists>p q'. (if t then wait_empty q1 else wait_full q1) = Some (p, q') \<and> turn_ok t q1 p q' \<and> (\<exists>ch. p = Sel ch)"
  using cond_ok_enter [OF assms]
  by (cases t) (auto simp: wait_empty_def wait_full_def cond_of_def turn_ok_def set_cond_def)

lemmas call_defs = PollFirst_def PollLast_def OfferFirst_def OfferLast_def

lemma attempt_turn:
  assumes c: "dq_call (op_call op) q = Some (a, q1)" and op: "\<not> nil_op op"
    and ok: "cond_ok (cond_of (taker op) q) n P chs" "n < 2 ^ 64 - 1"
  shows "\<exists>p q'. attempt op i d q = Some (p, q') \<and> op_answer op p = a \<and> turn_ok (taker op) q1 p q'"
proof -
  have "cond_ok (cond_of (taker op) q1) n P chs"
    using conds_move_of [OF dq_call_moves [OF c]] ok(1) by (rule cond_ok_moves)
  note wt = wait_turn [OF this ok(2)]
  show ?thesis
  proof (cases op)
    case (WPutFirst e)
    then obtain v where "e = Some v" using op by auto
    with WPutFirst c wt show ?thesis by (auto simp: call_defs PutFirst_def turn_ok_def)
  next
    case (WPutLast e)
    then obtain v where "e = Some v" using op by auto
    with WPutLast c wt show ?thesis by (auto simp: call_defs PutLast_def turn_ok_def)
  next
    case WTakeFirst
    with c wt show ?thesis by (auto simp: call_defs TakeFirst_def turn_ok_def)
  next
    case WTakeLast
    with c wt show ?thesis by (auto simp: call_defs TakeLast_def turn_ok_def)
  next
    case WPollFirst
    with c wt show ?thesis by (auto simp: call_defs PollFirstWithContext_def turn_ok_def)
  next
    case WPollLast
    with c wt show ?thesis by (auto simp: call_defs PollLastWithContext_def turn_ok_def)
  qed
qed

lemma thread_log_turn:
  assumes "thread_log op p0 es" "\<And>r. p0 \<noteq> Ret r" "turn_pc p"
  shows "thread_log op p (es @ [(op_call op, op_answer op p)])"
proof -
  from assms(1,2) have op: "\<not> nil_op op" by (auto simp: thread_log_def split: if_splits)
  with assms(1,2) obtain n where es: "es = replicate n (op_call op, failed op)"
    by (auto simp: thread_log_def split: pc.splits)
  show ?thesis
  proof (cases p)
    case (Sel ch)
    then have "op_answer op p = failed op" by (simp add: failed_def)
    then have "es @ [(op_call op, op_answer op p)] = replicate (Suc n) (op_call op, failed op)"
      using es by (simp add: replicate_append_same)
    then have "\<exists>m. es @ [(op_call op, op_answer op p)] = replicate m (op_call op, failed op)" by blast
    with op Sel show ?thesis by (simp add: thread_log_def)
  next
    case (Ret r)
    with op es show ?thesis by (auto simp: thread_log_def)
  qed (use assms(3) in simp_all)
qed

lemma logs_ok_upd:
  assumes "logs_ok T l" "g < max_threads" "thread_log op p (calls_of g (l @ l'))"
    and "\<And>h. h \<noteq> g \<Longrightarrow> calls_of h (l @ l') = calls_of h l"
  shows "logs_ok (T(g \<mapsto> (op, p))) (l @ l')"
  unfolding logs_ok_def
proof
  fix h
  show "case (T(g \<mapsto> (op, p))) h of None \<Rightarrow> calls_of h (l @ l') = []
    | Some (op, p) \<Rightarrow> h < max_threads \<and> thread_log op p (calls_of h (l @ l'))"
  proof (cases "h = g")
    case False
    then have "calls_of h (l @ l') = calls_of h l" by (rule assms(4))
    moreover have "case T h of None \<Rightarrow> calls_of h l = []
      | Some (op, p) \<Rightarrow> h < max_threads \<and> thread_log op p (calls_of h l)"
      using assms(1) by (simp add: logs_ok_def)
    ultimately show ?thesis using False by (cases "T h") (simp_all split: prod.splits)
  qed (use assms in simp)
qed

lemma turn_step:
  assumes l: "log_ok cap l q" and T: "logs_ok T l" "T g = Some (op, p0)" "p0 = Enter \<or> (\<exists>b. p0 = Woken b)"
    and c: "conds_ok (T(g \<mapsto> (op, Enter))) q"
  shows "\<exists>p q'. attempt op i d q = Some (p, q') \<and>
    log_ok cap (l @ [(Some g, op_call op, op_answer op p)]) q' \<and>
    logs_ok (T(g \<mapsto> (op, p))) (l @ [(Some g, op_call op, op_answer op p)]) \<and>
    conds_ok (T(g \<mapsto> (op, p))) q' \<and> turn_pc p"
proof -
  let ?xs = "snd (list_calls cap (map (fst \<circ> snd) l) [])" and ?t = "taker op"
  let ?T0 = "T(g \<mapsto> (op, Enter))"
  have gl: "g < max_threads" "thread_log op p0 (calls_of g l)" using T(1,2) by (auto simp: logs_ok_def split: option.splits)
  have op: "\<not> nil_op op" using gl(2) T(3) by (auto simp: thread_log_def)
  have "logs_ok ?T0 l"
    using T(1) gl T(3) by (auto simp: logs_ok_def thread_log_def split: if_splits)
  then have n: "card (waiters ?T0 t) < 2 ^ 64 - 1" for t by (rule waiters_card) auto
  from l dq_call_refines [of q ?xs "op_call op"] obtain q1 where
    q1: "dq_call (op_call op) q = Some (fst (list_call cap (op_call op) ?xs), q1)"
      "dq_rep q1 (snd (list_call cap (op_call op) ?xs))" "dq_capacity q1 = cap"
    by (auto simp: log_ok_def)
  have ok: "cond_ok (cond_of t q) (card (waiters ?T0 t)) (parked ?T0 t) (chans ?T0 t)" for t
    using c by (simp add: conds_ok_def)
  from attempt_turn [OF q1(1) op ok n, of i d] obtain p q' where
    a: "attempt op i d q = Some (p, q')" "op_answer op p = fst (list_call cap (op_call op) ?xs)" "turn_ok ?t q1 p q'"
    by blast
  have c1: "conds_ok ?T0 q1" using conds_move_ok [OF dq_call_moves [OF q1(1)] c] .
  from a(3) have p: "turn_pc p" and q': "dq_rep q' xs = dq_rep q1 xs" "dq_capacity q' = dq_capacity q1" for xs
    by (auto simp: turn_ok_def)
  have L: "log_ok cap (l @ [(Some g, op_call op, op_answer op p)]) q'"
    using l q1 a(2) q' by (intro log_ok_snoc [OF l refl]) simp_all
  have "thread_log op p (calls_of g l @ [(op_call op, op_answer op p)])"
    using gl(2) T(3) p by (intro thread_log_turn) auto
  then have LT: "logs_ok (T(g \<mapsto> (op, p))) (l @ [(Some g, op_call op, op_answer op p)])"
    by (intro logs_ok_upd [OF T(1) gl(1)]) auto
  have "conds_ok (T(g \<mapsto> (op, p))) q'"
    using a(3) unfolding turn_ok_def
  proof (elim disjE exE conjE)
    fix r assume "p = Ret r" "q' = q1"
    have "waiters (T(g \<mapsto> (op, p))) t = waiters ?T0 t" "parked (T(g \<mapsto> (op, p))) t = parked ?T0 t"
      "chans (T(g \<mapsto> (op, p))) t = chans ?T0 t" for t
      using \<open>p = Ret r\<close> by (auto simp: thread_sets)
    then show ?thesis using c1 \<open>q' = q1\<close> by (simp add: conds_ok_def)
  next
    fix ch c' assume s: "p = Sel ch" "wait_enter (cond_of ?t q1) = Some (ch, c')" "q' = set_cond ?t c' q1"
    have c1': "cond_ok (cond_of t q1) (card (waiters ?T0 t)) (parked ?T0 t) (chans ?T0 t)" for t
      using c1 by (simp add: conds_ok_def)
    from cond_ok_enter [OF c1' n, of ?t] s(2)
    have e: "cond_ok c' (Suc (card (waiters ?T0 ?t))) (parked ?T0 ?t) (insert ch (chans ?T0 ?t))" by auto
    have "finite (waiters ?T0 ?t)" "g \<notin> waiters ?T0 ?t"
      using finite_subset [OF conds_ok_finite [OF \<open>logs_ok ?T0 l\<close>, of ?t] finite_lessThan]
      by (simp_all add: waiters_upd)
    then have "card (insert g (waiters ?T0 ?t)) = Suc (card (waiters ?T0 ?t))" by simp
    moreover have "waiters (T(g \<mapsto> (op, p))) ?t = insert g (waiters ?T0 ?t)"
      using s(1) by (auto simp: waiters_upd)
    ultimately have card: "card (waiters (T(g \<mapsto> (op, p))) ?t) = Suc (card (waiters ?T0 ?t))" by (simp only:)
    have pk: "parked (T(g \<mapsto> (op, p))) ?t = parked ?T0 ?t" using s(1) by (auto simp: thread_sets)
    have "cond_ok c' (card (waiters (T(g \<mapsto> (op, p))) ?t)) (parked (T(g \<mapsto> (op, p))) ?t)
        (insert ch (chans ?T0 ?t))"
      unfolding card pk by (rule e)
    then have t: "cond_ok c' (card (waiters (T(g \<mapsto> (op, p))) ?t)) (parked (T(g \<mapsto> (op, p))) ?t)
        (chans (T(g \<mapsto> (op, p))) ?t)"
      by (rule cond_ok_subset) (use s(1) in \<open>auto simp: chans_def\<close>)
    have other: "cond_ok (cond_of t q1) (card (waiters (T(g \<mapsto> (op, p))) t)) (parked (T(g \<mapsto> (op, p))) t)
        (chans (T(g \<mapsto> (op, p))) t)" if "t \<noteq> ?t" for t
    proof -
      have "waiters (T(g \<mapsto> (op, p))) t = waiters ?T0 t" "parked (T(g \<mapsto> (op, p))) t = parked ?T0 t"
        "chans (T(g \<mapsto> (op, p))) t = chans ?T0 t"
        using that by (auto simp: thread_sets)
      with c1' [of t] show ?thesis by simp
    qed
    show ?thesis using t other s(3) by (simp add: conds_ok_def)
  qed
  with a(1) L LT p show ?thesis by blast
qed

section \<open>Every step keeps the invariant, and none panics\<close>

lemma conds_ok_change:
  assumes "conds_ok T q" "T g = Some (op, p0)"
    and "cond_ok c (card (waiters (T(g \<mapsto> (op, p))) (taker op))) (parked (T(g \<mapsto> (op, p))) (taker op))
      (chans (T(g \<mapsto> (op, p))) (taker op))"
  shows "conds_ok (T(g \<mapsto> (op, p))) (set_cond (taker op) c q)"
  unfolding conds_ok_def
proof
  fix t
  let ?T = "T(g \<mapsto> (op, p))"
  show "cond_ok (cond_of t (set_cond (taker op) c q)) (card (waiters ?T t)) (parked ?T t) (chans ?T t)"
  proof (cases "t = taker op")
    case True
    with assms(3) show ?thesis by simp
  next
    case False
    have "(\<exists>op'. ?T ga = Some (op', x) \<and> taker op' = t) = (\<exists>op'. T ga = Some (op', x) \<and> taker op' = t)"
      for ga x using False assms(2) by auto
    then have "chans ?T t = chans T t" "parked ?T t = parked T t" by (simp_all only: chans_def parked_def)
    moreover have "waiters ?T t = waiters T t" using False assms(2) by (auto simp: waiters_def)
    ultimately show ?thesis using False assms(1) by (simp add: conds_ok_def)
  qed
qed

lemma conds_ok_at:
  "conds_ok T q \<Longrightarrow> cond_ok (cond_of t q) (card (waiters T t)) (parked T t) (chans T t)"
  by (simp add: conds_ok_def)

lemma waiters_stay:
  "T g = Some (op, p0) \<Longrightarrow> waiting_pc p0 \<Longrightarrow> waiting_pc p \<Longrightarrow> waiters (T(g \<mapsto> (op, p))) t = waiters T t"
  by (auto simp: thread_sets)

lemma chans_less: "pc_chan p = {} \<Longrightarrow> chans (T(g \<mapsto> (op, p))) t \<subseteq> chans T t"
  by (force simp: chans_def split: if_splits)

lemma select_conds:
  assumes c: "conds_ok T q" and g: "T g = Some (op, Sel ch)"
    and s: "wait_select g ch d pick (cond_of (taker op) q) = (r, c)"
  shows "conds_ok (T(g \<mapsto> (op, case r of Parked \<Rightarrow> Park | Returned b \<Rightarrow> Woken b))) (set_cond (taker op) c q)"
proof (rule conds_ok_change [OF c g])
  let ?t = "taker op" and ?p = "case r of Parked \<Rightarrow> Park | Returned b \<Rightarrow> Woken b"
  have np: "g \<notin> parked T ?t" using g by (auto simp: parked_def)
  have p: "waiting_pc ?p" "pc_chan ?p = {}" "?p = Park \<longleftrightarrow> r = Parked" by (cases r; simp)+
  have "parked (T(g \<mapsto> (op, ?p))) ?t = (if r = Parked then insert g (parked T ?t) else parked T ?t)"
    using np by (cases r) (simp_all add: parked_upd)
  moreover have "waiters (T(g \<mapsto> (op, ?p))) ?t = waiters T ?t"
    by (rule waiters_stay [where ?p0.0 = "Sel ch"]) (simp_all add: g p(1))
  ultimately show "cond_ok c (card (waiters (T(g \<mapsto> (op, ?p))) ?t)) (parked (T(g \<mapsto> (op, ?p))) ?t)
      (chans (T(g \<mapsto> (op, ?p))) ?t)"
    using cond_ok_subset [OF cond_ok_select [OF conds_ok_at [OF c] np s] chans_less [OF p(2)]] by simp
qed

lemma woken_conds:
  assumes c: "conds_ok T q" and g: "T g = Some (op, Park)"
    and w: "cond_ok c (card (waiters T (taker op))) (parked T (taker op) - {g}) (chans T (taker op))"
  shows "conds_ok (T(g \<mapsto> (op, Woken b))) (set_cond (taker op) c q)"
proof (rule conds_ok_change [OF c g])
  let ?t = "taker op" and ?T = "T(g \<mapsto> (op, Woken b))"
  have "waiters ?T ?t = waiters T ?t" "parked ?T ?t = parked T ?t - {g}"
    using waiters_stay [of T g op Park "Woken b"] g by (simp_all add: parked_upd)
  with cond_ok_subset [OF w chans_less] show "cond_ok c (card (waiters ?T ?t)) (parked ?T ?t) (chans ?T ?t)"
    by simp
qed

lemma leave_conds:
  assumes c: "conds_ok T q" and T: "logs_ok T l" and g: "T g = Some (op, Woken b)"
  shows "\<exists>c. removeWaiter (cond_of (taker op) q) = Some c \<and>
    conds_ok (T(g \<mapsto> (op, Enter))) (set_cond (taker op) c q)"
proof -
  let ?t = "taker op" and ?T = "T(g \<mapsto> (op, Enter))"
  have sub: "waiters T ?t \<subseteq> {..<max_threads}" using conds_ok_finite [OF T] .
  then have fin: "finite (waiters T ?t)" by (rule finite_subset) simp
  have gw: "g \<in> waiters T ?t" using g by (auto simp: waiters_def)
  then have pos: "0 < card (waiters T ?t)" using fin by (auto simp: card_gt_0_iff)
  have "card (waiters T ?t) \<le> card {..<max_threads}" using sub by (intro card_mono) simp_all
  then have lt: "card (waiters T ?t) < 2 ^ 64" by (simp add: max_threads_def)
  from cond_ok_leave [OF conds_ok_at [OF c] pos lt] obtain c' where
    c': "removeWaiter (cond_of ?t q) = Some c'"
      "cond_ok c' (card (waiters T ?t) - 1) (parked T ?t) (chans T ?t)" by blast
  have "waiters ?T ?t = waiters T ?t - {g}" "parked ?T ?t = parked T ?t"
    using g by (auto simp: waiters_upd thread_sets)
  moreover have "card (waiters T ?t - {g}) = card (waiters T ?t) - 1" using gw by simp
  ultimately have "cond_ok c' (card (waiters ?T ?t)) (parked ?T ?t) (chans ?T ?t)"
    using cond_ok_subset [OF c'(2) chans_less] by simp
  from conds_ok_change [OF c g this] c'(1) show ?thesis by blast
qed

text \<open>The turn after \<open>Wait\<close>, and with it the turn after \<open>Lock\<close>, from the invariant.\<close>

lemma relock_step:
  assumes inv: "sys_inv cap s" and g: "thr s g = Some (op, Woken b)"
  shows "\<exists>p q. relock op i d (dq s) = Some (p, q) \<and>
    sys_inv cap (s\<lparr>dq := q, thr := (thr s)(g \<mapsto> (op, p)), log := log s @ [(Some g, op_call op, op_answer op p)]\<rparr>)"
proof -
  have inv': "log_ok cap (log s) (dq s)" "logs_ok (thr s) (log s)" "conds_ok (thr s) (dq s)"
    using inv by (simp_all add: sys_inv_def)
  from leave_conds [OF inv'(3,2) g] obtain c where
    c: "removeWaiter (cond_of (taker op) (dq s)) = Some c"
      "conds_ok ((thr s)(g \<mapsto> (op, Enter))) (set_cond (taker op) c (dq s))" by blast
  have l: "log_ok cap (log s) (set_cond (taker op) c (dq s))" using inv'(1) by simp
  from turn_step [OF l inv'(2) g _ c(2), of i d] c(1) show ?thesis
    by (auto simp: relock_def sys_inv_def)
qed

lemma enter_step:
  assumes inv: "sys_inv cap s" and g: "thr s g = Some (op, Enter)"
  shows "\<exists>p q. attempt op i d (dq s) = Some (p, q) \<and>
    sys_inv cap (s\<lparr>dq := q, thr := (thr s)(g \<mapsto> (op, p)), log := log s @ [(Some g, op_call op, op_answer op p)]\<rparr>)"
proof -
  have inv': "log_ok cap (log s) (dq s)" "logs_ok (thr s) (log s)" "conds_ok (thr s) (dq s)"
    using inv by (simp_all add: sys_inv_def)
  have "(thr s)(g \<mapsto> (op, Enter)) = thr s" using g by (simp add: fun_upd_idem)
  with turn_step [OF inv'(1,2) g, of i d] inv'(3) show ?thesis by (auto simp: sys_inv_def)
qed

lemma logs_ok_pc:
  assumes "logs_ok T l" "T g = Some (op, p0)" "waiting_pc p0" "waiting_pc p"
  shows "logs_ok (T(g \<mapsto> (op, p))) l"
proof -
  have g: "g < max_threads" "thread_log op p0 (calls_of g l)"
    using assms(1,2) by (auto simp: logs_ok_def split: option.splits)
  have "thread_log op p (calls_of g l)"
    using g(2) assms(3,4) by (cases p0; cases p) (simp_all add: thread_log_def split: if_splits)
  with logs_ok_upd [OF assms(1) g(1), of op p "[]"] show ?thesis by simp
qed

lemma spawn_step:
  assumes inv: "sys_inv cap s" and g: "thr s g = None" "g < max_threads"
  shows "sys_inv cap (s\<lparr>thr := (thr s)(g \<mapsto> (op, begin_op op))\<rparr>)"
proof -
  let ?T = "(thr s)(g \<mapsto> (op, begin_op op))"
  have p: "\<not> waiting_pc (begin_op op)" "begin_op op \<noteq> Park" "pc_chan (begin_op op) = {}"
    "thread_log op (begin_op op) []"
    by (cases op; simp add: thread_log_def)+
  have logs: "logs_ok (thr s) (log s)" using inv by (simp add: sys_inv_def)
  then have "case thr s g of None \<Rightarrow> calls_of g (log s) = []
    | Some (op, p) \<Rightarrow> g < max_threads \<and> thread_log op p (calls_of g (log s))" by (simp add: logs_ok_def)
  then have "calls_of g (log s) = []" using g(1) by simp
  then have "logs_ok ?T (log s)" using logs_ok_upd [OF logs g(2), of op "begin_op op" "[]"] p(4) by simp
  moreover have "conds_ok ?T (dq s)"
    unfolding conds_ok_def
  proof
    fix t
    have "waiters ?T t = waiters (thr s) t" "parked ?T t = parked (thr s) t"
      using g(1) p by (auto simp: waiters_upd parked_upd thread_sets)
    moreover have "cond_ok (cond_of t (dq s)) (card (waiters (thr s) t)) (parked (thr s) t) (chans (thr s) t)"
      using inv by (simp add: sys_inv_def conds_ok_def)
    ultimately show "cond_ok (cond_of t (dq s)) (card (waiters ?T t)) (parked ?T t) (chans ?T t)"
      using cond_ok_subset chans_less [OF p(3)] by simp
  qed
  ultimately show ?thesis using inv by (simp add: sys_inv_def)
qed

lemma call_step:
  assumes inv: "sys_inv cap s" and c: "dq_call c (dq s) = Some (a, q)"
  shows "sys_inv cap (s\<lparr>dq := q, log := log s @ [(None, c, a)]\<rparr>)"
proof -
  have l: "log_ok cap (log s) (dq s)" using inv by (simp add: sys_inv_def)
  let ?xs = "snd (list_calls cap (map (fst \<circ> snd) (log s)) [])"
  from l dq_call_refines [of "dq s" ?xs c] c have
    "a = fst (list_call cap c ?xs)" "dq_rep q (snd (list_call cap c ?xs))" "dq_capacity q = cap"
    by (auto simp: log_ok_def)
  with log_ok_snoc [OF l refl] have "log_ok cap (log s @ [(None, c, a)]) q" by blast
  moreover have "conds_ok (thr s) q"
    using inv conds_move_ok [OF dq_call_moves [OF c]] by (simp add: sys_inv_def)
  moreover have "logs_ok (thr s) (log s @ [(None, c, a)])"
  proof -
    have "calls_of g (log s @ [(None, c, a)]) = calls_of g (log s)" for g by simp
    then show ?thesis using inv by (simp only: sys_inv_def logs_ok_def simp_thms)
  qed
  ultimately show ?thesis by (simp add: sys_inv_def)
qed

lemma step_keeps:
  assumes "step_by h s s'" and inv: "sys_inv cap s"
  shows "sys_inv cap s'"
  using assms
proof cases
  case (spawn g op)
  with inv show ?thesis by (simp add: spawn_step)
next
  case (ctx_done g)
  with inv show ?thesis by (simp add: sys_inv_def)
next
  case (call c a q)
  with call_step [OF inv] show ?thesis by simp
next
  case (enter g op p q)
  with enter_step [OF inv enter(3), of False "g \<in> ctxd s"] show ?thesis by auto
next
  case (select g op ch pick r c)
  have "waiting_pc (case r of Parked \<Rightarrow> Park | Returned b \<Rightarrow> Woken b)" by (cases r) simp_all
  with inv select select_conds [of "thr s" "dq s" g op ch] logs_ok_pc [of "thr s" "log s" g op "Sel ch"]
  show ?thesis by (simp add: sys_inv_def)
next
  case (resume g op b c)
  then have "cond_ok c (card (waiters (thr s) (taker op))) (parked (thr s) (taker op) - {g}) (chans (thr s) (taker op))"
    using inv by (intro cond_ok_resume [OF conds_ok_at]) (simp_all add: sys_inv_def)
  with inv resume woken_conds [of "thr s" "dq s" g op] logs_ok_pc [of "thr s" "log s" g op Park] show ?thesis
    by (simp add: sys_inv_def)
next
  case (give_up g op b c)
  then have "cond_ok c (card (waiters (thr s) (taker op))) (parked (thr s) (taker op) - {g}) (chans (thr s) (taker op))"
    using inv by (intro cond_ok_ctx [OF conds_ok_at]) (simp_all add: sys_inv_def)
  with inv give_up woken_conds [of "thr s" "dq s" g op] logs_ok_pc [of "thr s" "log s" g op Park] show ?thesis
    by (simp add: sys_inv_def)
next
  case (again g op i p q)
  with relock_step [OF inv again(3), of i "g \<in> ctxd s"] show ?thesis by auto
qed

lemma reachable_inv:
  assumes "reachable q0 s" "NewDeque cap = Some q0"
  shows "sys_inv cap s"
  using assms(1)
proof induction
  case start
  have "dq_rep q0 []" "dq_capacity q0 = cap" "notEmpty q0 = NewTimeoutCond" "notFull q0 = NewTimeoutCond"
    using NewDeque_inv [OF assms(2)] assms(2)
    by (cases q0; auto simp: dq_rep_def dq_items_def NewDeque_def split: if_splits)+
  then show ?case
    by (auto simp: sys_inv_def log_ok_def logs_ok_def conds_ok_def cond_of_def thread_sets cond_ok_new)
qed (rule step_keeps)

end
