(* ===== verification/BlockingProps.thy ===== *)
theory BlockingProps
  imports Blocking
begin

text \<open>
  What the blocking deque promises to any number of goroutines, and where it does not keep
  it: linearizability, freedom from panics, a lost wakeup, what an interrupt does, and what a
  cancelled context does not.
\<close>

section \<open>The properties\<close>

text \<open>A concrete run for the witnesses: goroutine 0 takes, goroutine 1 puts 7 into room for one.\<close>

definition q_one :: "nat deque" where
  "q_one = the (NewDeque 1)"

definition fresh_sys :: "nat sys" where
  "fresh_sys = \<lparr>dq = q_one, thr = (\<lambda>_. None), ctxd = {}, log = []\<rparr>"

lemma q_one: "NewDeque 1 = Some q_one"
  by (simp add: q_one_def NewDeque_def)

lemma reach_fresh: "reachable q_one fresh_sys"
  unfolding fresh_sys_def by (rule start)

lemma max_threads_ex: "0 < max_threads" "1 < max_threads"
  by (simp_all add: max_threads_def)

definition sys_put :: "nat sys" where
  "sys_put = fresh_sys\<lparr>thr := (thr fresh_sys)(1 \<mapsto> (WPutFirst (Some 7), Enter))\<rparr>"

lemma reach_put: "reachable q_one sys_put"
  using reachable.step [OF reach_fresh spawn [of fresh_sys 1 "WPutFirst (Some 7)"]] max_threads_ex
  by (simp add: sys_put_def fresh_sys_def)

text \<open>
  The blocking deque is linearizable. Whatever goroutines run \<open>PutFirst\<close>,
  \<open>PutLast\<close>, \<open>TakeFirst\<close>, \<open>TakeLast\<close> and the two polls with a context, and
  whatever plain calls, interrupts and context cancellations happen between their steps: in
  the order in which they hold the lock, all calls get the answers of one bounded list, the
  deque holds what that list holds, and a goroutine that has returned made some failing
  attempts and then exactly one that succeeded with what it returned (or that found the
  deque empty, when it returned an interruption or a cancelled poll). So every element put
  is taken at most once, and none is lost or made up.
\<close>

lemma blocking_linearizable:
  assumes "NewDeque cap = Some q0" "reachable q0 s"
  shows "fst (list_calls cap (map (fst \<circ> snd) (log s)) []) = map (snd \<circ> snd) (log s) \<and>
    dq_rep (dq s) (snd (list_calls cap (map (fst \<circ> snd) (log s)) [])) \<and>
    (\<forall>g op r. thr s g = Some (op, Ret r) \<and> \<not> nil_op op \<longrightarrow>
      (\<exists>n. calls_of g (log s) =
        replicate n (op_call op, failed op) @ [(op_call op, op_answer op (Ret r))]))"
proof (intro conjI allI impI)
  have inv: "sys_inv cap s" using reachable_inv [OF assms(2,1)] .
  then show "fst (list_calls cap (map (fst \<circ> snd) (log s)) []) = map (snd \<circ> snd) (log s)"
    and "dq_rep (dq s) (snd (list_calls cap (map (fst \<circ> snd) (log s)) []))"
    by (simp_all add: sys_inv_def log_ok_def)
  fix g op r assume g: "thr s g = Some (op, Ret r) \<and> \<not> nil_op op"
  with inv have "thread_log op (Ret r) (calls_of g (log s))"
    by (auto simp: sys_inv_def intro: logs_okD)
  with g show "\<exists>n. calls_of g (log s) =
      replicate n (op_call op, failed op) @ [(op_call op, op_answer op (Ret r))]"
    by (simp add: thread_log_def)
qed

text \<open>
  No goroutine panics, and the waiter counts are right. In every reachable state
  every goroutine that is about to take the lock completes its critical section (no nil
  dereference, no overflow of \<open>hasWaiters\<close>, no \<open>removeWaiter\<close> below zero), so does
  every plain call, and \<open>hasWaiters\<close> is exactly the number of goroutines between
  \<open>addWaiter\<close> and \<open>removeWaiter\<close>, so \<open>HasTakeWaiters\<close> says whether there is one.
\<close>

lemma blocking_never_panics:
  assumes "NewDeque cap = Some q0" "reachable q0 s"
  shows "(\<forall>g op i d. thr s g = Some (op, Enter) \<longrightarrow> attempt op i d (dq s) \<noteq> None) \<and>
    (\<forall>g op i d b. thr s g = Some (op, Woken b) \<longrightarrow> relock op i d (dq s) \<noteq> None) \<and>
    (\<forall>c. \<exists>a q. dq_call c (dq s) = Some (a, q) \<and>
      (a = AnsPanic \<longrightarrow> cannot_compare c (snd (list_calls cap (map (fst \<circ> snd) (log s)) [])) \<and> q = dq s)) \<and>
    unat (hasWaiters (notEmpty (dq s))) = card (waiters (thr s) True) \<and>
    unat (hasWaiters (notFull (dq s))) = card (waiters (thr s) False) \<and>
    (HasTakeWaiters (dq s) \<longleftrightarrow> waiters (thr s) True \<noteq> {})"
proof -
  have inv: "sys_inv cap s" using reachable_inv [OF assms(2,1)] .
  have w: "unat (hasWaiters (cond_of t (dq s))) = card (waiters (thr s) t) \<and> finite (waiters (thr s) t)" for t
  proof -
    have "waiters (thr s) t \<subseteq> {..<max_threads}"
      using inv by (intro conds_ok_finite [of _ "log s"]) (simp add: sys_inv_def)
    from finite_subset [OF this finite_lessThan] card_mono [OF finite_lessThan this]
    have f: "finite (waiters (thr s) t)" "card (waiters (thr s) t) \<le> card {..<max_threads}" .
    then have "card (waiters (thr s) t) < 2 ^ 64" by (simp add: max_threads_def)
    then have "unat (of_nat (card (waiters (thr s) t)) :: 64 word) = card (waiters (thr s) t)"
      by (simp add: unat_of_nat)
    moreover have "hasWaiters (cond_of t (dq s)) = of_nat (card (waiters (thr s) t))"
      using inv conds_ok_at [of "thr s" "dq s" t] by (simp add: sys_inv_def cond_ok_def)
    ultimately show ?thesis using f by simp
  qed
  have "HasTakeWaiters (dq s) \<longleftrightarrow> 0 < unat (hasWaiters (notEmpty (dq s)))"
    by (simp add: HasTakeWaiters_def HasWaiters_def word_less_nat_alt)
  then have h: "HasTakeWaiters (dq s) \<longleftrightarrow> waiters (thr s) True \<noteq> {}"
    using w [of True] by (simp add: cond_of_def card_gt_0_iff)
  have rep: "dq_rep (dq s) (snd (list_calls cap (map (fst \<circ> snd) (log s)) []))"
    using inv by (simp add: sys_inv_def log_ok_def)
  have "\<exists>a q. dq_call c (dq s) = Some (a, q) \<and>
      (a = AnsPanic \<longrightarrow> cannot_compare c (snd (list_calls cap (map (fst \<circ> snd) (log s)) [])) \<and> q = dq s)" for c
  proof -
    obtain a q where "dq_call c (dq s) = Some (a, q)" using dq_call_refines [OF rep, of c] by blast
    with dq_call_panics [OF rep, of c] show ?thesis by blast
  qed
  moreover have "attempt op i d (dq s) \<noteq> None" if "thr s g = Some (op, Enter)" for g op i d
    using enter_step [OF inv that, of i d] by blast
  moreover have "relock op i d (dq s) \<noteq> None" if "thr s g = Some (op, Woken b)" for g op i d b
    using relock_step [OF inv that, of i d] by blast
  ultimately show ?thesis using w [of True] w [of False] h by (simp add: cond_of_def)
qed

text \<open>
  C2. The blocking deque is linearizable. Whatever goroutines run \<open>PutFirst\<close>,
  \<open>PutLast\<close>, \<open>TakeFirst\<close>, \<open>TakeLast\<close> and the two polls with a context, and
  whatever plain calls, interrupts and context cancellations happen between their steps: in
  the order in which they hold the lock, all calls get the answers of one bounded list, the
  deque holds what that list holds, and a goroutine that has returned made some failing
  attempts and then exactly one that succeeded with what it returned (or that found the
  deque empty, when it returned an interruption or a cancelled poll). So every element put
  is taken at most once, and none is lost or made up. No critical section of theirs panics (no nil
  dereference, no overflow of \<open>hasWaiters\<close>, no \<open>removeWaiter\<close> below zero), a plain call
  panics only when it is a removal by value that cannot be compared with an element of the
  deque, and then leaves the deque as it is, and
  \<open>hasWaiters\<close> is exactly the number of goroutines between \<open>addWaiter\<close> and
  \<open>removeWaiter\<close>, so \<open>HasTakeWaiters\<close> says whether there is one.
\<close>

theorem blocking_deque_safe:
  assumes "NewDeque cap = Some q0" "reachable q0 s"
  shows "fst (list_calls cap (map (fst \<circ> snd) (log s)) []) = map (snd \<circ> snd) (log s) \<and>
    dq_rep (dq s) (snd (list_calls cap (map (fst \<circ> snd) (log s)) [])) \<and>
    (\<forall>g op r. thr s g = Some (op, Ret r) \<and> \<not> nil_op op \<longrightarrow>
      (\<exists>n. calls_of g (log s) =
        replicate n (op_call op, failed op) @ [(op_call op, op_answer op (Ret r))])) \<and>
    (\<forall>g op i d. thr s g = Some (op, Enter) \<longrightarrow> attempt op i d (dq s) \<noteq> None) \<and>
    (\<forall>g op i d b. thr s g = Some (op, Woken b) \<longrightarrow> relock op i d (dq s) \<noteq> None) \<and>
    (\<forall>c. \<exists>a q. dq_call c (dq s) = Some (a, q) \<and>
      (a = AnsPanic \<longrightarrow> cannot_compare c (snd (list_calls cap (map (fst \<circ> snd) (log s)) [])) \<and> q = dq s)) \<and>
    unat (hasWaiters (notEmpty (dq s))) = card (waiters (thr s) True) \<and>
    unat (hasWaiters (notFull (dq s))) = card (waiters (thr s) False) \<and>
    (HasTakeWaiters (dq s) \<longleftrightarrow> waiters (thr s) True \<noteq> {})"
  using blocking_linearizable [OF assms] blocking_never_panics [OF assms]
  by (elim conjE) (intro conjI)

theorem blocking_deque_safe_witness:
  "(\<exists>s. reachable q_one s \<and> thr s 1 = Some (WPutFirst (Some 7), Ret RUnit) \<and>
     (\<exists>n. calls_of 1 (log s) = replicate n (COfferFirst (Some 7), AnsBool False) @ [(COfferFirst (Some 7), AnsBool True)])) \<and>
   attempt (WPutFirst (Some 7)) False False (dq sys_put) \<noteq> None \<and> \<not> HasTakeWaiters (dq sys_put)"
proof (intro conjI)
  have "waiters (thr sys_put) True = {}"
    by (simp add: sys_put_def fresh_sys_def waiters_def)
  moreover have p: "thr sys_put 1 = Some (WPutFirst (Some 7), Enter)" by (simp add: sys_put_def)
  ultimately show "attempt (WPutFirst (Some 7)) False False (dq sys_put) \<noteq> None" "\<not> HasTakeWaiters (dq sys_put)"
    using blocking_deque_safe [OF q_one reach_put] by blast+
  have "\<exists>q. attempt (WPutFirst (Some 7)) False (1 \<in> ctxd sys_put) (dq sys_put) = Some (Ret RUnit, q)"
    by (simp add: sys_put_def fresh_sys_def q_one_def NewDeque_def PutFirst_def linkFirst_def newNode_def)
  then obtain q where
    "attempt (WPutFirst (Some 7)) False (1 \<in> ctxd sys_put) (dq sys_put) = Some (Ret RUnit, q)" by blast
  with p have "step_by (Some 1) sys_put (sys_put\<lparr>dq := q, thr := (thr sys_put)(1 \<mapsto> (WPutFirst (Some 7), Ret RUnit)),
      log := log sys_put @ [(Some 1, op_call (WPutFirst (Some 7)), op_answer (WPutFirst (Some 7)) (Ret RUnit))]\<rparr>)"
    (is "step_by _ _ ?s") by (rule enter)
  with reach_put have r: "reachable q_one ?s" by (rule reachable.step)
  have t: "thr ?s 1 = Some (WPutFirst (Some 7), Ret RUnit)" by simp
  with blocking_deque_safe [OF q_one r]
  have "\<exists>n. calls_of 1 (log ?s) = replicate n (op_call (WPutFirst (Some 7)), failed (WPutFirst (Some 7))) @
    [(op_call (WPutFirst (Some 7)), op_answer (WPutFirst (Some 7)) (Ret RUnit))]"
    by (metis nil_op.simps(1) option.discI)
  with r t show "\<exists>s. reachable q_one s \<and> thr s 1 = Some (WPutFirst (Some 7), Ret RUnit) \<and>
     (\<exists>n. calls_of 1 (log s) = replicate n (COfferFirst (Some 7), AnsBool False) @ [(COfferFirst (Some 7), AnsBool True)])"
    by (auto simp: failed_def)
qed

text \<open>The first two steps of a take on an empty deque, by hand.\<close>

definition sys_sel :: "nat sys" where
  "sys_sel = \<lparr>dq = q_one\<lparr>notEmpty := NewTimeoutCond\<lparr>hasWaiters := 1\<rparr>\<rparr>,
     thr = [0 \<mapsto> (WTakeFirst, Sel 0)], ctxd = {}, log = [(Some 0, CPollFirst, AnsItem None)]\<rparr>"

lemma reach_sel: "reachable q_one sys_sel"
proof -
  have "reachable q_one (fresh_sys\<lparr>thr := (thr fresh_sys)(0 \<mapsto> (WTakeFirst, begin_op WTakeFirst))\<rparr>)"
    by (rule reachable.step [OF reach_fresh spawn]) (simp_all add: fresh_sys_def max_threads_ex)
  from reachable.step [OF this enter [of _ 0 WTakeFirst "Sel 0" "q_one\<lparr>notEmpty := NewTimeoutCond\<lparr>hasWaiters := 1\<rparr>\<rparr>"]]
  show ?thesis
    by (simp add: fresh_sys_def sys_sel_def TakeFirst_def unlinkFirst_def wait_empty_def wait_enter_def
        addWaiter_def q_one_def NewDeque_def NewTimeoutCond_def)
qed

text \<open>
  C8. A wakeup can be lost. On a deque of capacity one a \<open>TakeFirst\<close> finds it empty
  and leaves the lock for the \<open>select\<close> of \<open>Wait\<close>; an \<open>OfferFirst\<close> that comes
  in between succeeds, but its \<open>Signal\<close> meets no parked receiver and is dropped; the
  take then parks. In the state reached the deque holds the element, the goroutine waits for
  one, and no goroutine can take a step.
\<close>

theorem lost_wakeup:
  "\<exists>s. reachable q_one s \<and> dq_rep (dq s) [7] \<and> thr s 0 = Some (WTakeFirst, Park) \<and>
     (\<forall>g s'. \<not> step_by (Some g) s s')"
proof -
  have rep: "dq_rep (dq sys_sel) []" "dq_capacity (dq sys_sel) = 1"
    using NewDeque_inv [OF q_one] by (auto simp: sys_sel_def dq_rep_def dq_inv_def dq_items_def)
  from OfferFirst_rep [OF rep(1), of 7] rep(2) obtain q where
    q: "OfferFirst (Some 7) (dq sys_sel) = Some (True, q)" "dq_rep q [7]" by auto
  have q': "notEmpty q = notEmpty (dq sys_sel)"
    using q(1) by (auto simp: OfferFirst_def linkFirst_def newNode_def sys_sel_def q_one_def NewDeque_def
        NewTimeoutCond_def Signal_def)
  let ?s1 = "sys_sel\<lparr>dq := q, log := log sys_sel @ [(None, COfferFirst (Some 7), AnsBool True)]\<rparr>"
  have r1: "reachable q_one ?s1" by (rule reachable.step [OF reach_sel call]) (simp add: q(1))
  let ?c = "(notEmpty q)\<lparr>recvq := [0]\<rparr>"
  let ?s2 = "?s1\<lparr>dq := set_cond True ?c (dq ?s1), thr := (thr ?s1)(0 \<mapsto> (WTakeFirst, Park))\<rparr>"
  have "step_by (Some 0) ?s1 ?s2"
    using select [of ?s1 0 WTakeFirst 0 True Parked ?c]
    by (simp add: q' sys_sel_def wait_select_def cond_of_def NewTimeoutCond_def)
  with r1 have r2: "reachable q_one ?s2" by (rule reachable.step)
  have only: "\<not> step_by (Some g) ?s2 s'" for g s'
  proof
    assume "step_by (Some g) ?s2 s'"
    then show False
      by cases (auto simp: sys_sel_def wait_resume_def cond_of_def set_cond_def q' NewTimeoutCond_def split: if_splits)
  qed
  show ?thesis
    using r2 q(2) only by (intro exI [of _ ?s2]) (simp add: sys_sel_def)
qed

text \<open>Runs of one goroutine alone.\<close>

inductive solo :: "gid \<Rightarrow> 'a sys \<Rightarrow> 'a sys \<Rightarrow> bool" for g where
  solo_refl: "solo g s s"
| solo_step: "solo g s s' \<Longrightarrow> step_by (Some g) s' s'' \<Longrightarrow> solo g s s''"

lemma solo_one: "step_by (Some g) s s' \<Longrightarrow> solo g s s'"
  by (rule solo_step [OF solo_refl])

lemma interrupted_take:
  assumes "sys_inv cap s" "thr s g = Some (op, Woken True)" "taker op"
  shows "\<exists>s' r. step_by (Some g) s s' \<and> thr s' g = Some (op, Ret r) \<and>
    (r = RInterrupted \<or> (\<exists>v. r = RItem (Some v)))"
proof -
  from relock_step [OF assms(1,2), of True "g \<in> ctxd s"] obtain p q where
    r: "relock op True (g \<in> ctxd s) (dq s) = Some (p, q)" by blast
  then have "p = Ret RInterrupted \<or> (\<exists>v. p = Ret (RItem (Some v)))"
    using assms(3) by (cases op)
      (auto simp: relock_def bind_eq_Some_conv TakeFirst_def TakeLast_def PollFirstWithContext_def
        PollLastWithContext_def split: if_splits)
  then obtain r' where "p = Ret r'" "r' = RInterrupted \<or> (\<exists>v. r' = RItem (Some v))" by blast
  with again [OF assms(2) r] show ?thesis by fastforce
qed

lemma again_inv:
  assumes "sys_inv cap s" "step_by h s s'"
  shows "sys_inv cap s'"
  using step_keeps assms by blast

text \<open>
  C9. \<open>InterruptTakeWaiters\<close> frees every taker that is waiting. Once it has run, every
  goroutine that was parked in a take or poll, or was on its way to park, can finish by its
  own steps alone, with an element or with the interruption error.
\<close>

theorem interrupt_frees_takers:
  assumes "NewDeque cap = Some q0" "reachable q0 s" "thr s g = Some (op, p)" "taker op"
    and "(\<exists>ch. p = Sel ch) \<or> p = Park \<and> g \<in> set (recvq (notEmpty (dq s)))"
    and "dq_call CInterruptTakeWaiters (dq s) = Some (a, q)"
  shows "\<exists>s' r. solo g (s\<lparr>dq := q, log := log s @ [(None, CInterruptTakeWaiters, a)]\<rparr>) s' \<and>
    thr s' g = Some (op, Ret r) \<and> (r = RInterrupted \<or> (\<exists>v. r = RItem (Some v)))"
proof -
  let ?s1 = "s\<lparr>dq := q, log := log s @ [(None, CInterruptTakeWaiters, a)]\<rparr>"
  have inv: "sys_inv cap s" using reachable_inv [OF assms(2,1)] .
  have inv1: "sys_inv cap ?s1" by (rule call_step [OF inv assms(6)])
  have q: "cond_of True q = Interrupt (notEmpty (dq s))"
    using assms(6) by (auto simp: InterruptTakeWaiters_def cond_of_def)
  have ok: "cond_ok (notEmpty (dq s)) (card (waiters (thr s) True)) (parked (thr s) True) (chans (thr s) True)"
    using inv conds_ok_at [of "thr s" "dq s" True] by (simp add: sys_inv_def cond_of_def)
  have "\<exists>s2. step_by (Some g) ?s1 s2 \<and> thr s2 g = Some (op, Woken True)"
    using assms(5)
  proof
    assume "\<exists>ch. p = Sel ch"
    then obtain ch where p: "p = Sel ch" ..
    with assms(3,4) have "ch \<in> chans (thr s) True" by (auto simp: chans_def)
    with ok have "ch < signal (cond_of True q)" by (auto simp: q cond_ok_def Interrupt_def)
    then have "wait_select g ch (g \<in> ctxd ?s1) True (cond_of (taker op) (dq ?s1)) = (Returned True, cond_of True q)"
      using assms(4) by (simp add: wait_select_def)
    from select [OF _ this] assms(3) p show ?thesis by fastforce
  next
    assume p: "p = Park \<and> g \<in> set (recvq (notEmpty (dq s)))"
    have d: "distinct (recvq (notEmpty (dq s)) @ map fst (delivered (notEmpty (dq s))))"
      using ok by (simp add: cond_ok_def)
    have "map_of (delivered (notEmpty (dq s))) g = None"
      using p d by (auto simp: map_of_eq_None_iff)
    moreover have "map_of (map (\<lambda>g. (g, False)) xs) g = Some False" if "g \<in> set xs" for xs
      using that by (induction xs) auto
    ultimately have "map_of (delivered (cond_of True q)) g = Some False"
      using p by (simp add: q Interrupt_def map_add_def)
    then obtain c where "wait_resume g (cond_of (taker op) (dq ?s1)) = Some (True, c)"
      using assms(4) by (simp add: wait_resume_def)
    from resume [OF _ this] assms(3) p show ?thesis by fastforce
  qed
  then obtain s2 where s2: "step_by (Some g) ?s1 s2" "thr s2 g = Some (op, Woken True)" by blast
  from interrupted_take [OF again_inv [OF inv1 s2(1)] s2(2) assms(4)] obtain s' r where
    "step_by (Some g) s2 s'" "thr s' g = Some (op, Ret r)" "r = RInterrupted \<or> (\<exists>v. r = RItem (Some v))" by blast
  with solo_step [OF solo_one [OF s2(1)]] show ?thesis by blast
qed

theorem interrupt_frees_takers_witness:
  "\<exists>s' r. solo 0 (sys_sel\<lparr>dq := InterruptTakeWaiters (dq sys_sel),
      log := log sys_sel @ [(None, CInterruptTakeWaiters, AnsUnit)]\<rparr>) s' \<and>
    thr s' 0 = Some (WTakeFirst, Ret r) \<and> (r = RInterrupted \<or> (\<exists>v. r = RItem (Some v)))"
  by (rule interrupt_frees_takers [OF q_one reach_sel, where p = "Sel 0"]) (simp_all add: sys_sel_def)

text \<open>A goroutine that cannot succeed and does not look at its context keeps turning.\<close>

fun blind :: "'a wop \<Rightarrow> bool" where
  "blind (WPutFirst e) = (e \<noteq> None)"
| "blind (WPutLast e) = (e \<noteq> None)"
| "blind WTakeFirst = True"
| "blind WTakeLast = True"
| "blind WPollFirst = False"
| "blind WPollLast = False"

definition spinning :: "int \<Rightarrow> gid \<Rightarrow> 'a wop \<Rightarrow> 'a list \<Rightarrow> 'a sys \<Rightarrow> bool" where
  "spinning cap g op xs s \<longleftrightarrow> sys_inv cap s \<and> g \<in> ctxd s \<and> dq_rep (dq s) xs \<and>
     (\<exists>p. thr s g = Some (op, p) \<and>
       (p = Enter \<or> p = Sel (signal (cond_of (taker op) (dq s))) \<or> p = Woken False))"

lemma blind_attempt:
  assumes "blind op" "attempt op False d q = Some (p, q')" "op_answer op p = failed op"
  shows "\<exists>ch. p = Sel ch \<and> signal (cond_of (taker op) q') = ch"
  using assms
  by (cases op) (auto simp: failed_def PutFirst_def PutLast_def TakeFirst_def TakeLast_def wait_full_def
      wait_empty_def wait_enter_def cond_of_def bind_eq_Some_conv split: if_splits)

lemma log_ok_last:
  assumes "log_ok cap (l @ [(h, c, a)]) q'" "log_ok cap l q" "dq_rep q xs"
  shows "a = fst (list_call cap c xs) \<and> dq_rep q' (snd (list_call cap c xs))"
proof -
  let ?ys = "snd (list_calls cap (map (fst \<circ> snd) l) [])"
  have "ToSlice q = Some (map Some xs)" "ToSlice q = Some (map Some ?ys)"
    using assms(2,3) by (auto simp: log_ok_def intro: ToSlice_rep)
  then have "?ys = xs" by (auto dest: map_injective [OF _ inj_Some])
  with assms(1,2) show ?thesis by (simp add: log_ok_def list_calls_snoc split_beta Let_def)
qed

lemma turn_fails:
  assumes "sys_inv cap s" "dq_rep (dq s) xs" "blind op"
    and fails: "list_call cap (op_call op) xs = (failed op, xs)"
    and a: "attempt op False d q0 = Some (p, q)"
    and inv: "sys_inv cap (s\<lparr>dq := q, thr := (thr s)(g \<mapsto> (op, p)), log := log s @ [(Some g, op_call op, op_answer op p)]\<rparr>)"
      (is "sys_inv cap ?s'")
    and g: "g \<in> ctxd s"
  shows "spinning cap g op xs ?s'"
proof -
  have "log_ok cap (log s @ [(Some g, op_call op, op_answer op p)]) q" "log_ok cap (log s) (dq s)"
    using assms(1) inv by (simp_all add: sys_inv_def)
  from log_ok_last [OF this assms(2)] fails have f: "op_answer op p = failed op" "dq_rep q xs" by simp_all
  with blind_attempt [OF assms(3) a] inv g show ?thesis by (auto simp: spinning_def)
qed

lemma spinning_steps:
  assumes s: "spinning cap g op xs s" and b: "blind op" "list_call cap (op_call op) xs = (failed op, xs)"
  shows "(\<forall>s'. step_by (Some g) s s' \<longrightarrow> spinning cap g op xs s') \<and> (\<exists>s'. step_by (Some g) s s')"
proof -
  from s obtain p where p: "thr s g = Some (op, p)"
    "p = Enter \<or> p = Sel (signal (cond_of (taker op) (dq s))) \<or> p = Woken False" and
    inv: "sys_inv cap s" "g \<in> ctxd s" "dq_rep (dq s) xs" by (auto simp: spinning_def)
  from p(2) show ?thesis
  proof (elim disjE)
    assume e: "p = Enter"
    with p have g: "thr s g = Some (op, Enter)" by simp
    from enter_step [OF inv(1) g, of False "g \<in> ctxd s"] obtain p' q where
      a: "attempt op False (g \<in> ctxd s) (dq s) = Some (p', q)"
        "sys_inv cap (s\<lparr>dq := q, thr := (thr s)(g \<mapsto> (op, p')), log := log s @ [(Some g, op_call op, op_answer op p')]\<rparr>)"
      by blast
    note sp = turn_fails [OF inv(1,3) b a inv(2)]
    have "spinning cap g op xs s'" if "step_by (Some g) s s'" for s'
      using that by cases (use g a(1) sp in auto)
    with enter [OF g a(1)] show ?thesis by blast
  next
    assume e: "p = Sel (signal (cond_of (taker op) (dq s)))"
    with p have g: "thr s g = Some (op, Sel (signal (cond_of (taker op) (dq s))))" by simp
    have w: "wait_select g (signal (cond_of (taker op) (dq s))) (g \<in> ctxd s) pick (cond_of (taker op) (dq s)) =
        (Returned False, cond_of (taker op) (dq s))" for pick
      using inv(2) by (simp add: wait_select_def)
    have "spinning cap g op xs s'" if st: "step_by (Some g) s s'" for s'
      using st
    proof cases
      case (select op' ch pick r c)
      with g w [of pick] have "op' = op" "r = Returned False" "c = cond_of (taker op) (dq s)" by auto
      with select again_inv [OF inv(1) st] inv(2,3) show ?thesis
        by (simp add: spinning_def)
    qed (use g in auto)
    with select [OF g w] show ?thesis by blast
  next
    assume e: "p = Woken False"
    with p have g: "thr s g = Some (op, Woken False)" by simp
    from relock_step [OF inv(1) g, of False "g \<in> ctxd s"] obtain p' q where
      r: "relock op False (g \<in> ctxd s) (dq s) = Some (p', q)"
        "sys_inv cap (s\<lparr>dq := q, thr := (thr s)(g \<mapsto> (op, p')), log := log s @ [(Some g, op_call op, op_answer op p')]\<rparr>)"
      by blast
    from r(1) obtain q0 where "attempt op False (g \<in> ctxd s) q0 = Some (p', q)"
      by (auto simp: relock_def bind_eq_Some_conv)
    note sp = turn_fails [OF inv(1,3) b this r(2) inv(2)]
    have "spinning cap g op xs s'" if "step_by (Some g) s s'" for s'
      using that by cases (use g r(1) sp in auto)
    with again [OF g r(1)] show ?thesis by blast
  qed
qed

text \<open>
  C10. The puts and takes do not heed their context. A goroutine in \<open>TakeFirst\<close> or
  \<open>TakeLast\<close> on an empty deque, or in \<open>PutFirst\<close> or \<open>PutLast\<close> of an element on a
  full one, whose context is done, never returns by its own steps however many it takes, and
  never parks either: it can always take one more (a busy loop until another goroutine makes
  room or an element, or interrupts the takers).
\<close>

theorem cancelled_wait_spins:
  assumes "NewDeque cap = Some q0" "reachable q0 s" "thr s g = Some (op, Enter)" "g \<in> ctxd s"
    and "dq_rep (dq s) xs" "blind op" "if taker op then xs = [] else int (length xs) = cap"
    and "solo g s s'"
  shows "(\<forall>r. thr s' g \<noteq> Some (op, Ret r)) \<and> thr s' g \<noteq> Some (op, Park) \<and> (\<exists>s''. step_by (Some g) s' s'')"
proof -
  have f: "list_call cap (op_call op) xs = (failed op, xs)"
    using assms(6,7) by (cases op) (auto simp: failed_def)
  have "spinning cap g op xs s"
    using reachable_inv [OF assms(2,1)] assms(3-5) by (simp add: spinning_def)
  with assms(8) have "spinning cap g op xs s'"
  proof (induction rule: solo.induct)
    case (solo_step s1 s2 s3)
    with spinning_steps [OF _ assms(6) f] show ?case by blast
  qed
  with spinning_steps [OF this assms(6) f] show ?thesis by (auto simp: spinning_def)
qed

theorem cancelled_wait_spins_witness:
  "\<exists>s s'. reachable q_one s \<and> solo 0 s s' \<and> s' \<noteq> s \<and>
     (\<forall>r. thr s' 0 \<noteq> Some (WTakeFirst, Ret r)) \<and> (\<exists>s''. step_by (Some 0) s' s'')"
proof -
  let ?s = "fresh_sys\<lparr>thr := (thr fresh_sys)(0 \<mapsto> (WTakeFirst, Enter)), ctxd := {0}\<rparr>"
  have "reachable q_one (fresh_sys\<lparr>thr := (thr fresh_sys)(0 \<mapsto> (WTakeFirst, begin_op WTakeFirst))\<rparr>)"
    by (rule reachable.step [OF reach_fresh spawn]) (simp_all add: fresh_sys_def max_threads_ex)
  from reachable.step [OF this ctx_done [of _ 0]] have r: "reachable q_one ?s"
    by (simp add: fresh_sys_def)
  have rep: "dq_rep (dq ?s) []"
    using NewDeque_inv [OF q_one] by (auto simp: fresh_sys_def dq_rep_def dq_items_def)
  note spin = cancelled_wait_spins [OF q_one r _ _ rep, of 0 WTakeFirst]
  from spin [OF _ _ _ _ solo_refl] obtain s1 where s1: "step_by (Some 0) ?s s1" by auto
  have "thr s1 0 \<noteq> Some (WTakeFirst, Enter)"
    using s1 by cases (auto simp: TakeFirst_def wait_empty_def bind_eq_Some_conv split: if_splits)
  then have "s1 \<noteq> ?s" by auto
  with spin [OF _ _ _ _ solo_one [OF s1]] r solo_one [OF s1] show ?thesis by fastforce
qed

end
