(* ===== verification/TimerWheel.thy ===== *)
theory TimerWheel
  imports Prelude "HOL-Library.AList"
begin

text \<open>
  \<open>gtime/timerwheel.go\<close>: the hashed timer wheel. A slot is Go's map from timer ids to
  timers, as an association list whose order stands for the (arbitrary) iteration order; a
  nil slot is \<open>None\<close>. Durations are \<open>int64\<close> nanoseconds; the one product that can leave
  that range, \<open>tickDuration * wheelCount\<close>, is wrapped, and every division checks its
  divisor. One iteration of the goroutine of \<open>Start\<close> is \<open>tick\<close>. \<open>None\<close> is a panic.
\<close>

section \<open>State\<close>

record wheelTimeOut =
  wt_id :: string
  wt_delay :: int
  wt_index :: int
  wt_rounds :: int
  wt_task :: "nat option"
  wt_outCh :: "nat option"
  wt_times :: int
  wt_expTimes :: int

type_synonym slot = "(string \<times> wheelTimeOut) list"

record timer_wheel =
  tickDuration :: int
  roundDuration :: int
  wheelCount :: int
  wheel :: "slot option list"
  wheelCursor :: int

record tw_option =
  TickDuration :: int
  WheelCount :: int

datatype tw_error = ErrNilCallback | ErrInterval

text \<open>
  What a tick does to the outside, tagged with the timer's id: the callback started in its
  own goroutine, or the goroutine that sends on the timer's channel and, on the last
  expiration, closes it.
\<close>

datatype tw_event = RunTask string nat | SendOut string "nat option" bool

fun event_id :: "tw_event \<Rightarrow> string" where
  "event_id (RunTask k _) = k"
| "event_id (SendOut k _ _) = k"

section \<open>Operations\<close>

definition defaultTickDuration :: int where
  "defaultTickDuration = 100 * 1000000"

definition defaultWheelCount :: int where
  "defaultWheelCount = 512"

definition createWheel :: "int \<Rightarrow> slot option list option" where
  "createWheel n = go_make n (Some [])"

definition NewTimerWheel :: "tw_option list \<Rightarrow> timer_wheel option" where
  "NewTimerWheel opt =
     (let (td, wc) = (case opt of [] \<Rightarrow> (defaultTickDuration, defaultWheelCount)
                      | o1 # _ \<Rightarrow> (TickDuration o1, WheelCount o1))
      in do {
        w \<leftarrow> createWheel wc;
        Some \<lparr>tickDuration = td, roundDuration = wrap64 (td * wc), wheelCount = wc,
              wheel = w, wheelCursor = 0\<rparr>
      })"

text \<open>\<open>guid\<close> is the id drawn by \<open>grand.NewUUID\<close>, used when the timer has none yet.\<close>

definition scheduleTimeOut ::
  "string \<Rightarrow> wheelTimeOut \<Rightarrow> timer_wheel \<Rightarrow> (string \<times> timer_wheel) option" where
  "scheduleTimeOut guid to t = do {
     let to = (if wt_delay to < tickDuration t then to\<lparr>wt_delay := tickDuration t\<rparr> else to);
     lastRoundDelay \<leftarrow> go_mod (wt_delay to) (roundDuration t);
     lastTickDelay \<leftarrow> go_mod (wt_delay to) (tickDuration t);
     relativeIndex \<leftarrow> go_div lastRoundDelay (tickDuration t);
     let relativeIndex = (if lastTickDelay \<noteq> 0 then relativeIndex + 1 else relativeIndex);
     remainingRounds \<leftarrow> go_div (wt_delay to) (roundDuration t);
     let remainingRounds = (if lastRoundDelay = 0 then remainingRounds - 1 else remainingRounds);
     let stopIndex = wheelCursor t + relativeIndex;
     let (stopIndex, to) =
       (if stopIndex \<ge> wheelCount t
        then (stopIndex - wheelCount t, to\<lparr>wt_rounds := remainingRounds + 1\<rparr>)
        else (stopIndex, to\<lparr>wt_rounds := remainingRounds\<rparr>));
     let to = to\<lparr>wt_index := stopIndex\<rparr>;
     item \<leftarrow> slice_get (wheel t) stopIndex;
     let items = (case item of None \<Rightarrow> [] | Some m \<Rightarrow> m);
     let to = (if wt_id to = '''' then to\<lparr>wt_id := guid\<rparr> else to);
     w \<leftarrow> slice_set (wheel t) stopIndex (Some (AList.update (wt_id to) to items));
     Some (wt_id to, t\<lparr>wheel := w\<rparr>)
   }"

definition norm_times :: "int \<Rightarrow> int" where
  "norm_times n = (if n \<le> 0 then 0x0FFFFFFF else n)"

definition AfterFunc ::
  "string \<Rightarrow> int \<Rightarrow> int \<Rightarrow> nat option \<Rightarrow> timer_wheel \<Rightarrow> (tw_error + string \<times> timer_wheel) option" where
  "AfterFunc guid interval n f t =
     (if f = None then Some (Inl ErrNilCallback)
      else if interval \<le> 0 then Some (Inl ErrInterval)
      else map_option Inr (scheduleTimeOut guid
        \<lparr>wt_id = '''', wt_delay = interval, wt_index = 0, wt_rounds = 0, wt_task = f,
         wt_outCh = None, wt_times = norm_times n, wt_expTimes = 0\<rparr> t))"

text \<open>\<open>ch\<close> is the identity of the channel that \<open>After\<close> makes and returns.\<close>

definition After ::
  "string \<Rightarrow> nat \<Rightarrow> int \<Rightarrow> int \<Rightarrow> timer_wheel \<Rightarrow> (tw_error + nat \<times> string \<times> timer_wheel) option" where
  "After guid ch interval n t =
     (if interval \<le> 0 then Some (Inl ErrInterval)
      else map_option (\<lambda>(k, t). Inr (ch, k, t)) (scheduleTimeOut guid
        \<lparr>wt_id = '''', wt_delay = interval, wt_index = 0, wt_rounds = 0, wt_task = None,
         wt_outCh = Some ch, wt_times = norm_times n, wt_expTimes = 0\<rparr> t))"

fun cancel_slots :: "string \<Rightarrow> slot option list \<Rightarrow> slot option list option" where
  "cancel_slots k [] = Some []"
| "cancel_slots k (None # ss) = None"
| "cancel_slots k (Some m # ss) = map_option (\<lambda>ss. Some (AList.delete k m) # ss) (cancel_slots k ss)"

definition Cancel :: "string \<Rightarrow> timer_wheel \<Rightarrow> timer_wheel option" where
  "Cancel k t = map_option (\<lambda>w. t\<lparr>wheel := w\<rparr>) (cancel_slots k (wheel t))"

fun fetch_items :: "slot \<Rightarrow> wheelTimeOut list \<times> slot" where
  "fetch_items [] = ([], [])"
| "fetch_items ((k, v) # items) =
     (let (task, items) = fetch_items items
      in if wt_rounds v \<le> 0 then (v # task, items)
         else (task, (k, v\<lparr>wt_rounds := wt_rounds v - 1\<rparr>) # items))"

definition fetchExpiredTimeouts :: "int \<Rightarrow> timer_wheel \<Rightarrow> (wheelTimeOut list \<times> timer_wheel) option" where
  "fetchExpiredTimeouts i t = do {
     item \<leftarrow> slice_get (wheel t) i;
     items \<leftarrow> item;
     let (task, items) = fetch_items items;
     w \<leftarrow> slice_set (wheel t) i (Some items);
     Some (task, t\<lparr>wheel := w\<rparr>)
   }"

definition notify_one :: "string \<Rightarrow> wheelTimeOut \<Rightarrow> timer_wheel \<Rightarrow> (tw_event \<times> timer_wheel) option" where
  "notify_one guid to t = do {
     let to = to\<lparr>wt_expTimes := wt_expTimes to + 1\<rparr>;
     t \<leftarrow> (if wt_expTimes to < wt_times to then map_option snd (scheduleTimeOut guid to t) else Some t);
     Some (case wt_task to of
             Some f \<Rightarrow> RunTask (wt_id to) f
           | None \<Rightarrow> SendOut (wt_id to) (wt_outCh to) (wt_expTimes to = wt_times to), t)
   }"

fun notifyExpiredTimeOut ::
  "string \<Rightarrow> wheelTimeOut list \<Rightarrow> timer_wheel \<Rightarrow> (tw_event list \<times> timer_wheel) option" where
  "notifyExpiredTimeOut guid [] t = Some ([], t)"
| "notifyExpiredTimeOut guid (to # tasks) t = do {
     (e, t) \<leftarrow> notify_one guid to t;
     (es, t) \<leftarrow> notifyExpiredTimeOut guid tasks t;
     Some (e # es, t)
   }"

definition move_cursor :: "timer_wheel \<Rightarrow> timer_wheel" where
  "move_cursor t =
     (let c = wheelCursor t + 1 in t\<lparr>wheelCursor := if c = wheelCount t then 0 else c\<rparr>)"

definition tick :: "string \<Rightarrow> timer_wheel \<Rightarrow> (tw_event list \<times> timer_wheel) option" where
  "tick guid t = do {
     let t = move_cursor t;
     (tasks, t) \<leftarrow> fetchExpiredTimeouts (wheelCursor t) t;
     notifyExpiredTimeOut guid tasks t
   }"

fun ticks :: "string \<Rightarrow> nat \<Rightarrow> timer_wheel \<Rightarrow> (tw_event list list \<times> timer_wheel) option" where
  "ticks guid 0 t = Some ([], t)"
| "ticks guid (Suc n) t = do {
     (es, t) \<leftarrow> tick guid t;
     (ess, t) \<leftarrow> ticks guid n t;
     Some (es # ess, t)
   }"

section \<open>Invariant\<close>

definition entries :: "slot option list \<Rightarrow> slot" where
  "entries w = concat (map (\<lambda>s. case s of None \<Rightarrow> [] | Some m \<Rightarrow> m) w)"

definition tw_wf :: "timer_wheel \<Rightarrow> bool" where
  "tw_wf t \<longleftrightarrow>
     0 < tickDuration t \<and> 0 < wheelCount t \<and>
     roundDuration t = tickDuration t * wheelCount t \<and> roundDuration t < 2 ^ 63 \<and>
     int (length (wheel t)) = wheelCount t \<and> None \<notin> set (wheel t) \<and>
     0 \<le> wheelCursor t \<and> wheelCursor t < wheelCount t"

definition timer_ok :: "wheelTimeOut \<Rightarrow> bool" where
  "timer_ok to \<longleftrightarrow> wt_id to \<noteq> '''' \<and> 0 < wt_delay to \<and> wt_delay to < 2 ^ 63 \<and> 0 \<le> wt_rounds to"

definition tw_ok :: "timer_wheel \<Rightarrow> bool" where
  "tw_ok t \<longleftrightarrow>
     tw_wf t \<and> distinct (map fst (entries (wheel t))) \<and>
     (\<forall>i < length (wheel t). \<forall>m. wheel t ! i = Some m \<longrightarrow>
        (\<forall>(k, to) \<in> set m. k = wt_id to \<and> timer_ok to \<and> wt_index to = int i))"

text \<open>The number of ticks after which the timer \<open>to\<close> of the wheel fires.\<close>

definition ticks_left :: "timer_wheel \<Rightarrow> wheelTimeOut \<Rightarrow> int" where
  "ticks_left t to =
     (wt_index to - wheelCursor t - 1) mod wheelCount t + 1 + wt_rounds to * wheelCount t"

text \<open>The number of ticks that a delay asks for: the delay in ticks, rounded up, at least one.\<close>

definition ticks_of :: "timer_wheel \<Rightarrow> int \<Rightarrow> int" where
  "ticks_of t d = (max d (tickDuration t) + tickDuration t - 1) div tickDuration t"

text \<open>The slots ahead of the cursor that the delay asks for, in \<open>[0, wheelCount]\<close>.\<close>

definition rel_index :: "timer_wheel \<Rightarrow> int \<Rightarrow> int" where
  "rel_index t d =
     (let d = max d (tickDuration t)
      in (d mod roundDuration t) div tickDuration t + (if d mod tickDuration t \<noteq> 0 then 1 else 0))"

section \<open>Slots, divisions, and where a delay is placed\<close>

lemma entries_simps [simp]:
  "entries [] = []"
  "entries (None # w) = entries w"
  "entries (Some m # w) = m @ entries w"
  "entries (u @ w) = entries u @ entries w"
  by (simp_all add: entries_def)

lemma wheel_split:
  assumes "tw_wf t" "0 \<le> i" "i < wheelCount t"
  obtains A m B where "wheel t = A @ Some m # B" "length A = nat i" "slice_get (wheel t) i = Some (Some m)"
    "\<And>v. slice_set (wheel t) i v = Some (A @ v # B)"
proof -
  have i: "nat i < length (wheel t)" using assms by (simp add: tw_wf_def nat_less_iff)
  then have "wheel t ! nat i \<in> set (wheel t)" by (rule nth_mem)
  with assms(1) obtain m where m: "wheel t ! nat i = Some m"
    by (cases "wheel t ! nat i") (auto simp: tw_wf_def)
  let ?A = "take (nat i) (wheel t)" and ?B = "drop (Suc (nat i)) (wheel t)"
  have w: "wheel t = ?A @ Some m # ?B" using id_take_nth_drop [OF i] m by simp
  have "slice_get (wheel t) i = Some (Some m)" using m assms by (simp add: slice_get_def tw_wf_def)
  moreover have "\<And>v. slice_set (wheel t) i v = Some (?A @ v # ?B)"
    using i assms by (simp add: slice_set_def tw_wf_def upd_conv_take_nth_drop)
  ultimately show ?thesis using that [OF w] i by simp
qed

text \<open>The divisions of \<open>scheduleTimeOut\<close>, with the delay \<open>d \<ge> tick\<close> already clamped.\<close>

lemma rel_index_bounds:
  assumes "0 < k" "0 < n" "0 < (d :: int)"
  shows "0 \<le> (d mod (k * n)) div k" "(d mod (k * n)) div k \<le> n - 1"
proof -
  let ?a = "d mod (k * n)"
  have a: "0 \<le> ?a" "?a < n * k" using assms by (simp_all add: mult.commute)
  then show "0 \<le> ?a div k" using assms by (simp add: pos_imp_zdiv_nonneg_iff)
  have "?a div k * k \<le> ?a" using assms div_mult_mod_eq [of ?a k] pos_mod_sign [of k ?a] by linarith
  with a have "?a div k * k < n * k" by linarith
  with assms(1) have "?a div k < n" by (simp add: mult_less_cancel_right)
  then show "?a div k \<le> n - 1" by simp
qed

lemma ceil_small:
  assumes "0 < k" "0 \<le> m" "m < (k :: int)"
  shows "(m + k - 1) div k = (if m \<noteq> 0 then 1 else 0)"
proof (cases "m = 0")
  case False
  have "(m - 1 + 1 * k) div k = 1 + (m - 1) div k" using assms by (subst div_mult_self1) simp_all
  also have "(m - 1) div k = 0" using assms False by (simp add: div_pos_pos_trivial)
  finally show ?thesis using False by (simp add: algebra_simps)
qed (use assms in \<open>simp add: div_pos_pos_trivial\<close>)

lemma ceil_div_split:
  assumes "0 < k" "0 < n" "0 < (d :: int)"
  shows "(d + k - 1) div k =
    d div (k * n) * n + ((d mod (k * n)) div k + (if d mod k \<noteq> 0 then 1 else 0))"
proof -
  define Q R M where "Q = d div (k * n)" and "R = (d mod (k * n)) div k" and "M = d mod k"
  have "d mod (k * n) mod k = M" by (simp add: mod_mod_cancel M_def)
  then have "d mod (k * n) = R * k + M"
    using div_mult_mod_eq [of "d mod (k * n)" k] by (simp add: R_def)
  moreover have "d = Q * (k * n) + d mod (k * n)"
    unfolding Q_def by (rule div_mult_mod_eq [symmetric])
  ultimately have "d + k - 1 = (M + k - 1) + (Q * n + R) * k" by (simp add: algebra_simps)
  then have "(d + k - 1) div k = Q * n + R + (M + k - 1) div k"
    using assms by (simp only: div_mult_self1)
  also have "(M + k - 1) div k = (if M \<noteq> 0 then 1 else 0)"
    using assms by (intro ceil_small) (simp_all add: M_def)
  finally show ?thesis by (simp add: Q_def R_def M_def)
qed

lemma mod_pred:
  assumes "0 < n" "0 \<le> (a :: int)" "a \<le> n"
  shows "(a - 1) mod n + 1 = (if a = 0 then n else a)"
proof (cases "a = 0")
  case True
  then show ?thesis using assms by (simp add: zmod_minus1)
qed (use assms in \<open>simp add: mod_pos_pos_trivial\<close>)

text \<open>The timer as \<open>scheduleTimeOut\<close> stores it.\<close>

definition wraps :: "timer_wheel \<Rightarrow> int \<Rightarrow> bool" where
  "wraps t d \<longleftrightarrow> wheelCount t \<le> wheelCursor t + rel_index t d"

definition placed :: "timer_wheel \<Rightarrow> string \<Rightarrow> wheelTimeOut \<Rightarrow> wheelTimeOut" where
  "placed t guid to =
     (let d = max (wt_delay to) (tickDuration t); w = wraps t (wt_delay to);
          q = (if d mod roundDuration t = 0 then d div roundDuration t - 1 else d div roundDuration t)
      in to\<lparr>wt_delay := d,
            wt_rounds := (if w then q + 1 else q),
            wt_index := wheelCursor t + rel_index t (wt_delay to) - (if w then wheelCount t else 0),
            wt_id := (if wt_id to = '''' then guid else wt_id to)\<rparr>)"

lemma rel_index_range:
  assumes "tw_wf t" "0 < d"
  shows "0 \<le> rel_index t d" "rel_index t d \<le> wheelCount t"
proof -
  have "0 < tickDuration t" "0 < wheelCount t" "0 < max d (tickDuration t)"
    using assms by (auto simp: tw_wf_def)
  note b = rel_index_bounds [OF this]
  have "roundDuration t = tickDuration t * wheelCount t" using assms by (simp add: tw_wf_def)
  with b show "0 \<le> rel_index t d" "rel_index t d \<le> wheelCount t"
    unfolding rel_index_def Let_def by (simp_all split: if_split)
qed

lemma placed_index:
  assumes "tw_wf t" "0 < wt_delay to"
  shows "0 \<le> wt_index (placed t g to)" "wt_index (placed t g to) < wheelCount t"
  using rel_index_range [OF assms] assms(1)
  by (auto simp: placed_def wraps_def tw_wf_def Let_def)

text \<open>
  The cursor matters to \<open>scheduleTimeOut\<close> only through the index: between the increment
  and the reset of a tick it is past the end of the wheel.
\<close>

lemma schedule_eq:
  assumes wf: "tw_wf (t\<lparr>wheelCursor := 0\<rparr>)" and d: "0 < wt_delay to" "wt_delay to < 2 ^ 63"
  shows "scheduleTimeOut g to t = do {
    item \<leftarrow> slice_get (wheel t) (wt_index (placed t g to));
    w \<leftarrow> slice_set (wheel t) (wt_index (placed t g to)) (Some (AList.update (wt_id (placed t g to))
      (placed t g to) (case item of None \<Rightarrow> [] | Some m \<Rightarrow> m)));
    Some (wt_id (placed t g to), t\<lparr>wheel := w\<rparr>) }"
proof -
  let ?d = "max (wt_delay to) (tickDuration t)"
  have k: "0 < tickDuration t" "0 < wheelCount t" "0 < roundDuration t" "roundDuration t < 2 ^ 63"
    using wf by (auto simp: tw_wf_def)
  have "tickDuration t \<le> roundDuration t" using wf by (simp add: tw_wf_def mult_le_cancel_left1)
  with d k have dd: "0 < ?d" "?d < 2 ^ 63" by linarith+
  have m: "0 \<le> ?d mod roundDuration t" "?d mod roundDuration t < 2 ^ 63"
    using k dd pos_mod_bound [of "roundDuration t" ?d] by (simp, linarith)
  have to: "(if wt_delay to < tickDuration t then to\<lparr>wt_delay := tickDuration t\<rparr> else to) =
    to\<lparr>wt_delay := ?d\<rparr>" by (simp add: max_def)
  define D LR LT RI Q where "D = ?d" and "LR = D mod roundDuration t" and "LT = D mod tickDuration t"
    and "RI = LR div tickDuration t" and "Q = D div roundDuration t"
  have h: "go_mod D (roundDuration t) = Some LR" "go_mod D (tickDuration t) = Some LT"
    "go_div LR (tickDuration t) = Some RI" "go_div D (roundDuration t) = Some Q"
    unfolding LR_def LT_def RI_def Q_def using k dd m
    by (simp_all add: go_mod_nonneg go_div_nonneg D_def LR_def)
  have ri: "rel_index t (wt_delay to) = (if LT \<noteq> 0 then RI + 1 else RI)"
    by (simp add: rel_index_def Let_def D_def LR_def LT_def RI_def)
  have pl: "placed t g to =
    to\<lparr>wt_delay := D,
       wt_rounds := (if wraps t (wt_delay to) then (if LR = 0 then Q - 1 else Q) + 1
         else (if LR = 0 then Q - 1 else Q)),
       wt_index := wheelCursor t + rel_index t (wt_delay to) -
         (if wraps t (wt_delay to) then wheelCount t else 0),
       wt_id := (if wt_id to = '''' then g else wt_id to)\<rparr>"
    by (simp add: placed_def Let_def D_def LR_def Q_def)
  show ?thesis
    unfolding scheduleTimeOut_def to [folded D_def] pl ri wraps_def
    by (cases "LT = 0"; cases "wheelCount t \<le> wheelCursor t + (if LT \<noteq> 0 then RI + 1 else RI)";
      cases "wt_id to = ''''") (simp_all add: h Let_def)
qed

lemma schedule_placed_at:
  assumes wf: "tw_wf (t\<lparr>wheelCursor := 0\<rparr>)" and d: "0 < wt_delay to" "wt_delay to < 2 ^ 63"
    and idx: "0 \<le> wt_index (placed t g to)" "wt_index (placed t g to) < wheelCount t"
  shows "\<exists>A m B. wheel t = A @ Some m # B \<and> int (length A) = wt_index (placed t g to) \<and>
    scheduleTimeOut g to t = Some (wt_id (placed t g to),
      t\<lparr>wheel := A @ Some (AList.update (wt_id (placed t g to)) (placed t g to) m) # B\<rparr>)"
proof -
  obtain A m B where s: "wheel t = A @ Some m # B" "length A = nat (wt_index (placed t g to))"
    "slice_get (wheel t) (wt_index (placed t g to)) = Some (Some m)"
    "\<And>v. slice_set (wheel t) (wt_index (placed t g to)) v = Some (A @ v # B)"
    using wheel_split [OF wf, of "wt_index (placed t g to)"] idx by auto
  then have "scheduleTimeOut g to t = Some (wt_id (placed t g to),
      t\<lparr>wheel := A @ Some (AList.update (wt_id (placed t g to)) (placed t g to) m) # B\<rparr>)"
    by (simp add: schedule_eq [OF wf d])
  moreover have "int (length A) = wt_index (placed t g to)" using s(2) idx by simp
  ultimately show ?thesis using s(1) by blast
qed

lemma tw_wf_cursor: "tw_wf t \<longleftrightarrow> tw_wf (t\<lparr>wheelCursor := 0\<rparr>) \<and> 0 \<le> wheelCursor t \<and> wheelCursor t < wheelCount t"
  by (auto simp: tw_wf_def)

lemma rounds_arith:
  "(if r = 0 then n else r) + (q - (if r = 0 then 1 else 0) + (if w then 1 else 0)) * n =
    q * n + r + (if w then n else (0 :: int))"
  by (cases "r = 0"; cases w) (simp_all add: algebra_simps)

lemma placed_ticks_left:
  assumes wf: "tw_wf t" and d: "0 < wt_delay to"
  shows "ticks_left t (placed t g to) =
    ticks_of t (wt_delay to) + (if wraps t (wt_delay to) then wheelCount t else 0)"
proof -
  let ?d = "max (wt_delay to) (tickDuration t)" and ?n = "wheelCount t" and ?r = "rel_index t (wt_delay to)"
  let ?q = "?d div roundDuration t" and ?w = "wraps t (wt_delay to)"
  have k: "0 < tickDuration t" "0 < ?n" "roundDuration t = tickDuration t * ?n" "0 < ?d"
    using wf d by (auto simp: tw_wf_def)
  have of: "ticks_of t (wt_delay to) = ?q * ?n + ?r"
    unfolding ticks_of_def rel_index_def Let_def k(3) by (rule ceil_div_split [OF k(1,2,4)])
  have r: "0 \<le> ?r" "?r \<le> ?n" using rel_index_range [OF wf d] by simp_all
  have r0: "?d mod roundDuration t = 0 \<longleftrightarrow> ?r = 0"
  proof -
    let ?a = "?d mod roundDuration t" and ?k = "tickDuration t"
    have x: "0 \<le> ?a div ?k" using rel_index_bounds(1) [OF k(1,2,4)] k(3) by simp
    have a: "?a = ?a div ?k * ?k + ?d mod ?k"
      using div_mult_mod_eq [of ?a ?k] k(3) by (simp add: mod_mod_cancel)
    have "?d mod ?k \<noteq> 0 \<Longrightarrow> ?a \<noteq> 0" using a by fastforce
    moreover have "?d mod ?k = 0 \<Longrightarrow> ?a = 0 \<longleftrightarrow> ?a div ?k = 0"
      using a k(1) by (metis add.right_neutral div_0 mult_zero_left)
    ultimately show ?thesis using x unfolding rel_index_def Let_def by (cases "?d mod ?k = 0") auto
  qed
  have idx: "(wt_index (placed t g to) - wheelCursor t - 1) mod ?n + 1 = (if ?r = 0 then ?n else ?r)"
  proof -
    have "wt_index (placed t g to) - wheelCursor t - 1 = (?r - 1) + (if ?w then - 1 else 0) * ?n"
      by (simp add: placed_def Let_def)
    then have "(wt_index (placed t g to) - wheelCursor t - 1) mod ?n = (?r - 1) mod ?n"
      by (simp only: mod_mult_self1)
    with mod_pred [OF k(2) r] show ?thesis by simp
  qed
  have rounds: "wt_rounds (placed t g to) = ?q - (if ?r = 0 then 1 else 0) + (if ?w then 1 else 0)"
    using r0 by (simp add: placed_def Let_def)
  show ?thesis
    unfolding ticks_left_def idx rounds of by (rule rounds_arith)
qed

section \<open>Every operation keeps the invariant\<close>

lemma entries_dist: "entries (A @ Some m # B) = entries A @ m @ entries B"
  by simp

definition slot_ok :: "int \<Rightarrow> slot \<Rightarrow> bool" where
  "slot_ok i m \<longleftrightarrow> (\<forall>(k, to) \<in> set m. k = wt_id to \<and> timer_ok to \<and> wt_index to = i)"

lemma tw_ok_slots:
  "tw_ok t \<longleftrightarrow> tw_wf t \<and> distinct (map fst (entries (wheel t))) \<and>
     (\<forall>i < length (wheel t). \<forall>m. wheel t ! i = Some m \<longrightarrow> slot_ok (int i) m)"
  by (simp add: tw_ok_def slot_ok_def)

lemma slots_replace:
  assumes "\<forall>i < length (A @ x # B). \<forall>m. (A @ x # B) ! i = Some m \<longrightarrow> P i m" and "P (length A) m'"
  shows "\<forall>i < length (A @ Some m' # B). \<forall>m. (A @ Some m' # B) ! i = Some m \<longrightarrow> P i m"
  using assms by (auto simp: nth_append nth_Cons' split: if_splits)

lemma tw_ok_slotD:
  assumes "tw_ok t" "wheel t = A @ Some m # B"
  shows "slot_ok (int (length A)) m"
proof -
  have "wheel t ! length A = Some m" "length A < length (wheel t)" using assms(2) by simp_all
  with assms(1) show ?thesis unfolding tw_ok_slots by blast
qed

lemma tw_ok_replace:
  assumes ok: "tw_ok t" and w: "wheel t = A @ Some m # B"
    and d: "distinct (map fst m')" "fst ` set m' \<inter> fst ` set (entries A @ entries B) = {}"
    and s: "slot_ok (int (length A)) m'"
  shows "tw_ok (t\<lparr>wheel := A @ Some m' # B\<rparr>)"
proof -
  from ok w have "\<forall>i < length (A @ Some m # B). \<forall>m'. (A @ Some m # B) ! i = Some m' \<longrightarrow> slot_ok (int i) m'"
    by (simp add: tw_ok_slots)
  then
  have "\<forall>i < length (A @ Some m' # B). \<forall>m. (A @ Some m' # B) ! i = Some m \<longrightarrow> slot_ok (int i) m"
    using s by (rule slots_replace)
  moreover have "tw_wf (t\<lparr>wheel := A @ Some m' # B\<rparr>)"
    using ok w by (auto simp: tw_ok_slots tw_wf_def)
  moreover have "distinct (map fst (entries (A @ Some m' # B)))"
    using ok w d by (auto simp: tw_ok_slots)
  ultimately show ?thesis by (simp add: tw_ok_slots)
qed

lemma update_new: "k \<notin> fst ` set m \<Longrightarrow> AList.update k v m = m @ [(k, v)]"
  by (induction m) auto

lemma timer_ok_placed:
  assumes "tw_wf (t\<lparr>wheelCursor := 0\<rparr>)" "0 < wt_delay to" "wt_delay to < 2 ^ 63" "wt_id to \<noteq> '''' \<or> g \<noteq> ''''"
  shows "timer_ok (placed t g to)"
proof -
  let ?d = "max (wt_delay to) (tickDuration t)"
  have k: "0 < roundDuration t" "tickDuration t \<le> roundDuration t" "roundDuration t < 2 ^ 63" "0 < ?d"
    using assms by (auto simp: tw_wf_def mult_le_cancel_left1)
  have "0 \<le> ?d div roundDuration t" using k by (simp add: pos_imp_zdiv_nonneg_iff)
  moreover have "?d mod roundDuration t = 0 \<Longrightarrow> 0 < ?d div roundDuration t"
    using k by (auto simp: dvd_imp_le pos_imp_zdiv_pos_iff zdvd_imp_le mod_eq_0_iff_dvd)
  ultimately show ?thesis using k assms by (auto simp: timer_ok_def placed_def Let_def)
qed

lemma tw_ok_cursor: "tw_ok t \<longleftrightarrow> tw_ok (t\<lparr>wheelCursor := 0\<rparr>) \<and> 0 \<le> wheelCursor t \<and> wheelCursor t < wheelCount t"
  by (auto simp: tw_ok_slots tw_wf_def)

text \<open>Scheduling a timer whose id is not in the wheel adds one entry and changes no other.\<close>

lemma schedule_ok_at:
  assumes ok: "tw_ok (t\<lparr>wheelCursor := 0\<rparr>)" and d: "0 < wt_delay to" "wt_delay to < 2 ^ 63"
    and k: "k = (if wt_id to = '''' then g else wt_id to)" "k \<noteq> ''''"
    and new: "k \<notin> fst ` set (entries (wheel t))"
    and idx: "0 \<le> wt_index (placed t g to)" "wt_index (placed t g to) < wheelCount t"
  shows "\<exists>t'. scheduleTimeOut g to t = Some (k, t') \<and> tw_ok (t'\<lparr>wheelCursor := 0\<rparr>) \<and>
    set (entries (wheel t')) = insert (k, placed t g to) (set (entries (wheel t))) \<and>
    wheelCursor t' = wheelCursor t \<and> tickDuration t' = tickDuration t \<and> wheelCount t' = wheelCount t"
proof -
  let ?t = "t\<lparr>wheelCursor := 0\<rparr>"
  have wf: "tw_wf ?t" using ok by (simp add: tw_ok_def)
  have pid: "wt_id (placed t g to) = k" using k by (simp add: placed_def Let_def)
  from schedule_placed_at [OF wf d idx] obtain A m B where
    w: "wheel t = A @ Some m # B" "int (length A) = wt_index (placed t g to)" and
    s: "scheduleTimeOut g to t = Some (k, t\<lparr>wheel := A @ Some (AList.update k (placed t g to) m) # B\<rparr>)"
    unfolding pid by blast
  have w': "wheel ?t = A @ Some m # B" using w(1) by simp
  have km: "k \<notin> fst ` set m" using new w by auto
  have m: "slot_ok (int (length A)) m" "distinct (map fst (entries A @ m @ entries B))"
    using tw_ok_slotD [OF ok w'] ok w by (simp_all add: tw_ok_slots)
  let ?m = "m @ [(k, placed t g to)]"
  have "timer_ok (placed t g to)"
    using k by (intro timer_ok_placed [OF wf d]) auto
  then have "slot_ok (int (length A)) ?m" using m(1) pid w(2) by (simp add: slot_ok_def)
  then have "tw_ok (?t\<lparr>wheel := A @ Some ?m # B\<rparr>)"
    using m(2) new w(1) by (intro tw_ok_replace [OF ok w']) auto
  moreover have "?t\<lparr>wheel := x\<rparr> = t\<lparr>wheel := x, wheelCursor := 0\<rparr>" for x by (cases t) simp
  ultimately have "tw_ok (t\<lparr>wheel := A @ Some ?m # B, wheelCursor := 0\<rparr>)" by simp
  with s w(1) update_new [OF km] show ?thesis by (simp add: Un_commute)
qed

lemma schedule_ok:
  assumes ok: "tw_ok t" and d: "0 < wt_delay to" "wt_delay to < 2 ^ 63"
    and k: "k = (if wt_id to = '''' then g else wt_id to)" "k \<noteq> ''''"
    and new: "k \<notin> fst ` set (entries (wheel t))"
  shows "\<exists>t'. scheduleTimeOut g to t = Some (k, t') \<and> tw_ok t' \<and>
    set (entries (wheel t')) = insert (k, placed t g to) (set (entries (wheel t))) \<and>
    wheelCursor t' = wheelCursor t \<and> tickDuration t' = tickDuration t \<and> wheelCount t' = wheelCount t"
proof -
  have ok0: "tw_ok (t\<lparr>wheelCursor := 0\<rparr>)" and wf: "tw_wf t"
    using ok tw_ok_cursor [of t] by (simp_all add: tw_ok_def)
  from schedule_ok_at [OF ok0 d k new placed_index [OF wf d(1)]] obtain t' where
    "scheduleTimeOut g to t = Some (k, t')" "tw_ok (t'\<lparr>wheelCursor := 0\<rparr>)"
    "set (entries (wheel t')) = insert (k, placed t g to) (set (entries (wheel t)))"
    "wheelCursor t' = wheelCursor t" "tickDuration t' = tickDuration t" "wheelCount t' = wheelCount t"
    by blast
  with ok show ?thesis using tw_ok_cursor [of t] tw_ok_cursor [of t'] by auto
qed

end
