(* ===== verification/TimerRuns.thy ===== *)
theory TimerRuns
  imports TimerWheel
begin

text \<open>
  The behaviour of the timer wheel over time (\<open>gtime/timerwheel.go\<close>): what one tick does to
  every timer, when a timer first fires and how often, what \<open>Cancel\<close> leaves, and the
  invariant over any history of calls and ticks.
\<close>

section \<open>One tick\<close>

lemma fetch_items_conv:
  "fetch_items m =
     (map snd (filter (\<lambda>(k, v). wt_rounds v \<le> 0) m),
      map (\<lambda>(k, v). (k, v\<lparr>wt_rounds := wt_rounds v - 1\<rparr>)) (filter (\<lambda>(k, v). \<not> wt_rounds v \<le> 0) m))"
  by (induction m) (auto simp: Let_def)

text \<open>What one tick does to a timer that it does not fire.\<close>

definition aged :: "int \<Rightarrow> wheelTimeOut \<Rightarrow> wheelTimeOut" where
  "aged c to = (if wt_index to = c then to\<lparr>wt_rounds := wt_rounds to - 1\<rparr> else to)"

lemma move_cursor_mod: "tw_wf t \<Longrightarrow> wheelCursor (move_cursor t) = (wheelCursor t + 1) mod wheelCount t"
  by (auto simp: move_cursor_def Let_def tw_wf_def)

lemma move_cursor_same [simp]:
  "wheelCount (move_cursor t) = wheelCount t" "tickDuration (move_cursor t) = tickDuration t"
  "roundDuration (move_cursor t) = roundDuration t" "wheel (move_cursor t) = wheel t"
  by (simp_all add: move_cursor_def Let_def)

lemma move_cursor_ok: "tw_ok t \<Longrightarrow> tw_ok (move_cursor t)"
  unfolding tw_ok_slots by (auto simp: tw_wf_def move_cursor_def Let_def)

lemma dist_step:
  assumes "0 < n" "0 \<le> i" "i < (n :: int)" "0 \<le> c" "c < n"
  shows "(i - c - 1) mod n = 0 \<longleftrightarrow> i = (c + 1) mod n"
    and "i \<noteq> (c + 1) mod n \<Longrightarrow> (i - (c + 1) mod n - 1) mod n = (i - c - 1) mod n - 1"
    and "((c + 1) mod n - (c + 1) mod n - 1) mod n = n - 1"
proof -
  have m: "(c + 1) mod n = (if c + 1 = n then 0 else c + 1)"
    using assms by (auto simp: mod_pos_pos_trivial)
  have w: "(i - c - 1) mod n = (if i < c + 1 then i - c - 1 + n else i - c - 1)"
  proof (cases "i < c + 1")
    case True
    have "(i - c - 1 + n) mod n = i - c - 1 + n"
      using assms True by (intro mod_pos_pos_trivial) auto
    with True show ?thesis by simp
  qed (use assms in \<open>simp add: mod_pos_pos_trivial\<close>)
  show "(i - c - 1) mod n = 0 \<longleftrightarrow> i = (c + 1) mod n"
    unfolding m w using assms by auto
  show "((c + 1) mod n - (c + 1) mod n - 1) mod n = n - 1"
    using assms by (simp add: zmod_minus1)
  assume ne: "i \<noteq> (c + 1) mod n"
  show "(i - (c + 1) mod n - 1) mod n = (i - c - 1) mod n - 1"
  proof (cases "c + 1 = n")
    case True
    with ne m have "i \<noteq> 0" by simp
    with True assms show ?thesis unfolding m w by (simp add: mod_pos_pos_trivial)
  next
    case False
    have "(i - (c + 1) - 1) mod n = (if i < c + 1 then i - c - 2 + n else i - c - 2)"
    proof (cases "i < c + 1")
      case True
      have "(i - c - 2 + n) mod n = i - c - 2 + n"
        using assms True False by (intro mod_pos_pos_trivial) auto
      moreover have "(i - (c + 1) - 1) mod n = (i - c - 2 + n) mod n"
        by (simp only: mod_add_self2) (simp add: algebra_simps)
      ultimately show ?thesis using True by simp
    qed (use assms ne m False in \<open>simp add: mod_pos_pos_trivial\<close>)
    with False show ?thesis unfolding m w by simp
  qed
qed

lemma ticks_left_step:
  assumes wf: "tw_wf t" and i: "0 \<le> wt_index to" "wt_index to < wheelCount t" "0 \<le> wt_rounds to"
  shows "1 \<le> ticks_left t to"
    and "ticks_left t to = 1 \<longleftrightarrow> wt_index to = wheelCursor (move_cursor t) \<and> wt_rounds to \<le> 0"
    and "ticks_left (move_cursor t) (aged (wheelCursor (move_cursor t)) to) = ticks_left t to - 1"
proof -
  let ?n = "wheelCount t" and ?c = "wheelCursor t" and ?d = "(wt_index to - wheelCursor t - 1) mod wheelCount t"
  have n: "0 < ?n" "0 \<le> ?c" "?c < ?n" using wf by (auto simp: tw_wf_def)
  have d: "0 \<le> ?d" using n by simp
  have r: "0 \<le> wt_rounds to * ?n" using i n by simp
  show "1 \<le> ticks_left t to" using d r by (simp add: ticks_left_def)
  have "wt_rounds to * ?n = 0 \<longleftrightarrow> wt_rounds to \<le> 0" using i n by auto
  with d r dist_step(1) [OF n(1) i(1,2) n(2,3)]
  show "ticks_left t to = 1 \<longleftrightarrow> wt_index to = wheelCursor (move_cursor t) \<and> wt_rounds to \<le> 0"
    unfolding ticks_left_def move_cursor_mod [OF wf] by auto
  show "ticks_left (move_cursor t) (aged (wheelCursor (move_cursor t)) to) = ticks_left t to - 1"
  proof (cases "wt_index to = (?c + 1) mod ?n")
    case True
    with dist_step(1,3) [OF n(1) i(1,2) n(2,3)] show ?thesis
      unfolding ticks_left_def move_cursor_mod [OF wf] by (simp add: aged_def algebra_simps)
  next
    case False
    with dist_step(2) [OF n(1) i(1,2) n(2,3)] show ?thesis
      unfolding ticks_left_def move_cursor_mod [OF wf] by (simp add: aged_def)
  qed
qed

lemma entriesE:
  assumes "(k, to) \<in> set (entries w)"
  obtains i m where "i < length w" "w ! i = Some m" "(k, to) \<in> set m"
proof -
  from assms obtain s where "s \<in> set w" "(k, to) \<in> set (case s of None \<Rightarrow> [] | Some m \<Rightarrow> m)"
    by (auto simp: entries_def)
  then obtain m where m: "Some m \<in> set w" "(k, to) \<in> set m" by (cases s) auto
  with that show ?thesis by (auto simp: in_set_conv_nth)
qed

lemma entries_other_slots:
  assumes ok: "tw_ok t" and w: "wheel t = A @ x # B" and e: "(k, to) \<in> set (entries A @ entries B)"
  shows "wt_index to \<noteq> int (length A)"
proof -
  have "\<exists>i m. i < length (wheel t) \<and> i \<noteq> length A \<and> wheel t ! i = Some m \<and> (k, to) \<in> set m"
  proof (cases "(k, to) \<in> set (entries A)")
    case True
    then obtain i m where "i < length A" "A ! i = Some m" "(k, to) \<in> set m" by (rule entriesE)
    with w show ?thesis by (intro exI [of _ i]) (auto simp: nth_append)
  next
    case False
    with e have "(k, to) \<in> set (entries B)" by simp
    then obtain i m where "i < length B" "B ! i = Some m" "(k, to) \<in> set m" by (rule entriesE)
    with w show ?thesis by (intro exI [of _ "Suc (length A + i)"]) (auto simp: nth_append)
  qed
  then obtain i m where "i < length (wheel t)" "i \<noteq> length A" "wheel t ! i = Some m" "(k, to) \<in> set m"
    by blast
  moreover from this ok have "slot_ok (int i) m" by (auto simp: tw_ok_slots)
  ultimately show ?thesis by (auto simp: slot_ok_def)
qed

lemma entry_bounds:
  assumes ok: "tw_ok t" and e: "(k, to) \<in> set (entries (wheel t))"
  shows "k = wt_id to" "timer_ok to" "0 \<le> wt_index to" "wt_index to < wheelCount t" "0 \<le> wt_rounds to"
proof -
  from e obtain i m where i: "i < length (wheel t)" "wheel t ! i = Some m" and m: "(k, to) \<in> set m"
    by (rule entriesE)
  with ok have s: "slot_ok (int i) m" and "int (length (wheel t)) = wheelCount t"
    by (auto simp: tw_ok_slots tw_wf_def)
  with i(1) m show "k = wt_id to" "timer_ok to" "0 \<le> wt_index to" "wt_index to < wheelCount t"
    "0 \<le> wt_rounds to"
    by (auto simp: slot_ok_def timer_ok_def)
qed

lemma fetch_ok:
  assumes ok: "tw_ok t" and t0: "t0 = move_cursor t"
  shows "\<exists>tasks t1. fetchExpiredTimeouts (wheelCursor t0) t0 = Some (tasks, t1) \<and> tw_ok t1 \<and>
    wheelCursor t1 = wheelCursor t0 \<and> tickDuration t1 = tickDuration t \<and>
    wheelCount t1 = wheelCount t \<and> distinct (map wt_id tasks) \<and>
    (\<forall>to. to \<in> set tasks \<longleftrightarrow> (wt_id to, to) \<in> set (entries (wheel t)) \<and> ticks_left t to = 1) \<and>
    (\<forall>k to'. (k, to') \<in> set (entries (wheel t1)) \<longleftrightarrow>
      (\<exists>to. (k, to) \<in> set (entries (wheel t)) \<and> ticks_left t to \<noteq> 1 \<and> to' = aged (wheelCursor t0) to))"
proof -
  have wf: "tw_wf t" and ok0: "tw_ok t0" and wf0: "tw_wf t0"
    using ok move_cursor_ok [OF ok] by (simp_all add: tw_ok_def t0)
  let ?c = "wheelCursor t0"
  obtain A m B where w: "wheel t0 = A @ Some m # B" "length A = nat ?c"
    "slice_get (wheel t0) ?c = Some (Some m)" "\<And>v. slice_set (wheel t0) ?c v = Some (A @ v # B)"
    using wheel_split [OF wf0, of ?c] wf0 unfolding tw_wf_def by metis
  have c: "int (length A) = ?c" using w(2) wf0 by (simp add: tw_wf_def)
  define m' where "m' = map (\<lambda>(k, v). (k, v\<lparr>wt_rounds := wt_rounds v - 1\<rparr>)) (filter (\<lambda>(k, v). \<not> wt_rounds v \<le> 0) m)"
  define tasks where "tasks = map snd (filter (\<lambda>(k, v). wt_rounds v \<le> 0) m)"
  have f: "fetchExpiredTimeouts ?c t0 = Some (tasks, t0\<lparr>wheel := A @ Some m' # B\<rparr>)"
    using w by (simp add: fetchExpiredTimeouts_def fetch_items_conv m'_def tasks_def)
  have so: "slot_ok ?c m" using tw_ok_slotD [OF ok0 w(1)] c by simp
  have dist: "distinct (map fst (entries A @ m @ entries B))"
    and we: "entries (wheel t) = entries A @ m @ entries B"
    using ok0 w(1) t0 by (simp_all add: tw_ok_slots)
  have fire: "ticks_left t to = 1 \<longleftrightarrow> wt_index to = ?c \<and> wt_rounds to \<le> 0"
    if "(k, to) \<in> set (entries (wheel t))" for k to
    using ticks_left_step(2) [OF wf entry_bounds(3,4,5) [OF ok that]] t0 by simp
  have "map fst m' = map fst (filter (\<lambda>(k, v). \<not> wt_rounds v \<le> 0) m)"
    by (simp add: m'_def split_beta)
  moreover have "fst ` set m' \<subseteq> fst ` set m" by (force simp: m'_def)
  ultimately have m'_keys: "fst ` set m' \<subseteq> fst ` set m" "distinct (map fst m')"
    using dist by (simp_all add: distinct_map_filter)
  have "slot_ok ?c m'" using so by (auto simp: m'_def slot_ok_def timer_ok_def)
  then have ok1: "tw_ok (t0\<lparr>wheel := A @ Some m' # B\<rparr>)"
  proof (intro tw_ok_replace [OF ok0 w(1) m'_keys(2)])
    have "fst ` set m \<inter> fst ` set (entries A @ entries B) = {}" using dist by auto
    with m'_keys(1) show "fst ` set m' \<inter> fst ` set (entries A @ entries B) = {}" by blast
  qed (simp add: c)
  have tdist: "distinct (map wt_id tasks)"
  proof -
    have "map wt_id tasks = map fst (filter (\<lambda>(k, v). wt_rounds v \<le> 0) m)"
      using so by (auto simp: tasks_def slot_ok_def)
    then show ?thesis using dist by (simp add: distinct_map_filter)
  qed
  have tasks_iff: "to \<in> set tasks \<longleftrightarrow> (wt_id to, to) \<in> set (entries (wheel t)) \<and> ticks_left t to = 1" for to
    using fire [of "wt_id to" to] entries_other_slots [OF ok0 w(1), of "wt_id to" to] c so
    unfolding we tasks_def by (force simp: slot_ok_def image_iff)
  have ent: "(k, to') \<in> set (entries (A @ Some m' # B)) \<longleftrightarrow>
      (\<exists>to. (k, to) \<in> set (entries (wheel t)) \<and> ticks_left t to \<noteq> 1 \<and> to' = aged ?c to)" for k to'
  proof
    assume "(k, to') \<in> set (entries (A @ Some m' # B))"
    then consider "(k, to') \<in> set (entries A @ entries B)" | "(k, to') \<in> set m'" by auto
    then show "\<exists>to. (k, to) \<in> set (entries (wheel t)) \<and> ticks_left t to \<noteq> 1 \<and> to' = aged ?c to"
    proof cases
      case 1
      moreover from entries_other_slots [OF ok0 w(1) 1] c have "wt_index to' \<noteq> ?c" by simp
      ultimately show ?thesis using fire [of k to']
        by (intro exI [of _ to']) (auto simp: we aged_def)
    next
      case 2
      then obtain to where to: "(k, to) \<in> set m" "\<not> wt_rounds to \<le> 0" "to' = to\<lparr>wt_rounds := wt_rounds to - 1\<rparr>"
        by (auto simp: m'_def)
      with so have "wt_index to = ?c" by (auto simp: slot_ok_def)
      with to fire [of k to] show ?thesis by (intro exI [of _ to]) (auto simp: we aged_def)
    qed
  next
    assume "\<exists>to. (k, to) \<in> set (entries (wheel t)) \<and> ticks_left t to \<noteq> 1 \<and> to' = aged ?c to"
    then obtain to where to: "(k, to) \<in> set (entries (wheel t))" "ticks_left t to \<noteq> 1" "to' = aged ?c to"
      by blast
    show "(k, to') \<in> set (entries (A @ Some m' # B))"
    proof (cases "(k, to) \<in> set m")
      case True
      with so have "wt_index to = ?c" by (auto simp: slot_ok_def)
      with True to fire [OF to(1)] show ?thesis by (force simp: aged_def m'_def)
    next
      case False
      with to(1) have e: "(k, to) \<in> set (entries A @ entries B)" by (auto simp: we)
      with entries_other_slots [OF ok0 w(1) e] c to(3) show ?thesis by (auto simp: aged_def)
    qed
  qed
  from f ok1 tdist tasks_iff ent show ?thesis using t0 by auto
qed

lemma placed_cong:
  assumes "wheelCursor t' = wheelCursor t" "tickDuration t' = tickDuration t"
    "wheelCount t' = wheelCount t" "tw_wf t" "tw_wf t'"
  shows "placed t' g to = placed t g to"
proof -
  have "roundDuration t' = roundDuration t" using assms by (simp add: tw_wf_def)
  with assms(1-3) show ?thesis by (simp only: placed_def wraps_def rel_index_def)
qed

text \<open>The event of an expiration, and the timer as it is scheduled again.\<close>

definition expired :: "wheelTimeOut \<Rightarrow> wheelTimeOut" where
  "expired to = to\<lparr>wt_expTimes := wt_expTimes to + 1\<rparr>"

definition expiry_event :: "wheelTimeOut \<Rightarrow> tw_event" where
  "expiry_event to =
     (case wt_task to of
        Some f \<Rightarrow> RunTask (wt_id to) f
      | None \<Rightarrow> SendOut (wt_id to) (wt_outCh to) (wt_expTimes to + 1 = wt_times to))"

definition again :: "wheelTimeOut \<Rightarrow> bool" where
  "again to \<longleftrightarrow> wt_expTimes to + 1 < wt_times to"

lemma event_id_expiry [simp]: "event_id (expiry_event to) = wt_id to"
  by (simp add: expiry_event_def split: option.split)

lemma notify_one_ok:
  assumes ok: "tw_ok t" and to: "timer_ok to" and new: "wt_id to \<notin> fst ` set (entries (wheel t))"
  shows "\<exists>t'. notify_one g to t = Some (expiry_event to, t') \<and> tw_ok t' \<and>
    set (entries (wheel t')) = set (entries (wheel t)) \<union>
      (if again to then {(wt_id to, placed t g (expired to))} else {}) \<and>
    wheelCursor t' = wheelCursor t \<and> tickDuration t' = tickDuration t \<and> wheelCount t' = wheelCount t"
proof (cases "again to")
  case True
  from to have to': "0 < wt_delay (expired to)" "wt_delay (expired to) < 2 ^ 63" "wt_id (expired to) \<noteq> ''''"
    by (simp_all add: timer_ok_def expired_def)
  have "wt_id to = (if wt_id (expired to) = '''' then g else wt_id (expired to))" "wt_id to \<noteq> ''''"
    using to by (simp_all add: timer_ok_def expired_def)
  from schedule_ok [OF ok to'(1,2) this new] obtain t' where
    "scheduleTimeOut g (expired to) t = Some (wt_id to, t')" "tw_ok t'"
    "set (entries (wheel t')) = insert (wt_id to, placed t g (expired to)) (set (entries (wheel t)))"
    "wheelCursor t' = wheelCursor t" "tickDuration t' = tickDuration t" "wheelCount t' = wheelCount t"
    by blast
  with True show ?thesis
    by (auto simp: notify_one_def again_def expired_def expiry_event_def Let_def split: option.split)
next
  case False
  with ok show ?thesis
    by (auto simp: notify_one_def again_def expiry_event_def Let_def split: option.split)
qed

lemma notify_ok:
  assumes "tw_ok t" "\<forall>to \<in> set tasks. timer_ok to \<and> wt_id to \<notin> fst ` set (entries (wheel t))"
    "distinct (map wt_id tasks)"
  shows "\<exists>t'. notifyExpiredTimeOut g tasks t = Some (map expiry_event tasks, t') \<and> tw_ok t' \<and>
    set (entries (wheel t')) = set (entries (wheel t)) \<union>
      {(wt_id to, placed t g (expired to)) | to. to \<in> set tasks \<and> again to} \<and>
    wheelCursor t' = wheelCursor t \<and> tickDuration t' = tickDuration t \<and> wheelCount t' = wheelCount t"
  using assms
proof (induction tasks arbitrary: t)
  case Nil
  then show ?case by simp
next
  case (Cons to tasks)
  have to: "timer_ok to" "wt_id to \<notin> fst ` set (entries (wheel t))" using Cons.prems(2) by simp_all
  from notify_one_ok [OF Cons.prems(1) to, of g] obtain t1 where
    n: "notify_one g to t = Some (expiry_event to, t1)" and ok1: "tw_ok t1" and
    e: "set (entries (wheel t1)) = set (entries (wheel t)) \<union>
      (if again to then {(wt_id to, placed t g (expired to))} else {})" and
    c: "wheelCursor t1 = wheelCursor t" "tickDuration t1 = tickDuration t" "wheelCount t1 = wheelCount t"
    by blast
  have k1: "fst ` set (entries (wheel t1)) \<subseteq> insert (wt_id to) (fst ` set (entries (wheel t)))"
    unfolding e by auto
  have tk: "\<forall>to' \<in> set tasks. timer_ok to' \<and> wt_id to' \<notin> fst ` set (entries (wheel t1))"
  proof
    fix to' assume to': "to' \<in> set tasks"
    have "wt_id to \<notin> wt_id ` set tasks" using Cons.prems(3) by simp
    with to' have "wt_id to' \<noteq> wt_id to" by (metis image_eqI)
    with to' Cons.prems(2) k1 show "timer_ok to' \<and> wt_id to' \<notin> fst ` set (entries (wheel t1))" by auto
  qed
  have "distinct (map wt_id tasks)" using Cons.prems(3) by simp
  from Cons.IH [OF ok1 tk this] obtain t' where
    t': "notifyExpiredTimeOut g tasks t1 = Some (map expiry_event tasks, t')" "tw_ok t'"
    "set (entries (wheel t')) = set (entries (wheel t1)) \<union>
      {(wt_id to, placed t1 g (expired to)) | to. to \<in> set tasks \<and> again to}"
    "wheelCursor t' = wheelCursor t1" "tickDuration t' = tickDuration t1" "wheelCount t' = wheelCount t1"
    by auto
  have p: "placed t1 g to' = placed t g to'" for to'
    using c Cons.prems(1) ok1 by (intro placed_cong) (simp_all add: tw_ok_def)
  have "set (entries (wheel t')) = set (entries (wheel t)) \<union>
      {(wt_id to', placed t g (expired to')) | to'. to' \<in> set (to # tasks) \<and> again to'}"
    unfolding t'(3) e p by auto
  with n t'(1,2,4,5,6) c show ?case by simp
qed

text \<open>A tick: who fires, who ages, who is scheduled again.\<close>

lemma tick_ok:
  assumes ok: "tw_ok t"
  shows "\<exists>tasks t'. tick g t = Some (map expiry_event tasks, t') \<and> tw_ok t' \<and>
    tickDuration t' = tickDuration t \<and> wheelCount t' = wheelCount t \<and>
    wheelCursor t' = wheelCursor (move_cursor t) \<and> distinct (map wt_id tasks) \<and>
    (\<forall>to. to \<in> set tasks \<longleftrightarrow> (wt_id to, to) \<in> set (entries (wheel t)) \<and> ticks_left t to = 1) \<and>
    (\<forall>k to'. (k, to') \<in> set (entries (wheel t')) \<longleftrightarrow>
      (\<exists>to. (k, to) \<in> set (entries (wheel t)) \<and>
        (if ticks_left t to = 1 then again to \<and> to' = placed t' g (expired to)
         else to' = aged (wheelCursor t') to)))"
proof -
  let ?t0 = "move_cursor t"
  from fetch_ok [OF ok refl] obtain tasks t1 where
    f: "fetchExpiredTimeouts (wheelCursor ?t0) ?t0 = Some (tasks, t1)" and ok1: "tw_ok t1" and
    c1: "wheelCursor t1 = wheelCursor ?t0" "tickDuration t1 = tickDuration t" "wheelCount t1 = wheelCount t" and
    d: "distinct (map wt_id tasks)" and
    tasks: "\<forall>to. to \<in> set tasks \<longleftrightarrow> (wt_id to, to) \<in> set (entries (wheel t)) \<and> ticks_left t to = 1" and
    e1: "\<forall>k to'. (k, to') \<in> set (entries (wheel t1)) \<longleftrightarrow>
      (\<exists>to. (k, to) \<in> set (entries (wheel t)) \<and> ticks_left t to \<noteq> 1 \<and> to' = aged (wheelCursor ?t0) to)"
    by blast
  have uniq: "to = to'" if "(k, to) \<in> set (entries (wheel t))" "(k, to') \<in> set (entries (wheel t))" for k to to'
    using that ok by (metis tw_ok_def eq_key_imp_eq_value)
  have "\<forall>to \<in> set tasks. timer_ok to \<and> wt_id to \<notin> fst ` set (entries (wheel t1))"
  proof
    fix to assume "to \<in> set tasks"
    then have to: "(wt_id to, to) \<in> set (entries (wheel t))" "ticks_left t to = 1"
      using tasks by simp_all
    have "wt_id to \<notin> fst ` set (entries (wheel t1))"
    proof
      assume "wt_id to \<in> fst ` set (entries (wheel t1))"
      then obtain to' where "(wt_id to, to') \<in> set (entries (wheel t1))" by auto
      with e1 uniq [OF to(1)] to(2) show False by blast
    qed
    with entry_bounds(2) [OF ok to(1)] show "timer_ok to \<and> wt_id to \<notin> fst ` set (entries (wheel t1))"
      by simp
  qed
  from notify_ok [OF ok1 this d, of g] obtain t' where
    n: "notifyExpiredTimeOut g tasks t1 = Some (map expiry_event tasks, t')" and ok': "tw_ok t'" and
    e': "set (entries (wheel t')) = set (entries (wheel t1)) \<union>
      {(wt_id to, placed t1 g (expired to)) | to. to \<in> set tasks \<and> again to}" and
    c': "wheelCursor t' = wheelCursor t1" "tickDuration t' = tickDuration t1" "wheelCount t' = wheelCount t1"
    by blast
  have p: "placed t1 g to = placed t' g to" for to
    using c' ok1 ok' by (intro placed_cong) (simp_all add: tw_ok_def)
  have ent: "(k, to') \<in> set (entries (wheel t')) \<longleftrightarrow>
      (\<exists>to. (k, to) \<in> set (entries (wheel t)) \<and>
        (if ticks_left t to = 1 then again to \<and> to' = placed t' g (expired to)
         else to' = aged (wheelCursor t') to))" for k to'
  proof -
    have "(\<exists>to. k = wt_id to \<and> to' = placed t1 g (expired to) \<and> to \<in> set tasks \<and> again to) \<longleftrightarrow>
        (\<exists>to. (k, to) \<in> set (entries (wheel t)) \<and> ticks_left t to = 1 \<and> again to \<and> to' = placed t' g (expired to))"
      using tasks p entry_bounds(1) [OF ok] by metis
    moreover have "wheelCursor t' = wheelCursor ?t0" using c' c1 by simp
    ultimately show ?thesis unfolding e' using e1 by auto
  qed
  from f n have "tick g t = Some (map expiry_event tasks, t')" by (simp add: tick_def Let_def)
  with ok' c' c1 d tasks ent show ?thesis by auto
qed

section \<open>Runs of ticks\<close>

definition events_of :: "string \<Rightarrow> tw_event list \<Rightarrow> tw_event list" where
  "events_of k es = filter (\<lambda>e. event_id e = k) es"

lemma events_of_simps [simp]:
  "events_of k [] = []" "events_of k (es @ fs) = events_of k es @ events_of k fs"
  by (simp_all add: events_of_def)

lemma filter_key_singleton:
  assumes "distinct (map f xs)" "x \<in> set xs"
  shows "filter (\<lambda>y. f y = f x) xs = [x]"
  using assms
proof (induction xs)
  case (Cons a xs)
  show ?case
  proof (cases "x = a")
    case True
    have "\<forall>y \<in> set xs. f y \<noteq> f a" using Cons.prems(1) by (auto simp: image_iff)
    with True show ?thesis by (simp add: filter_empty_conv)
  next
    case False
    with Cons have "f a \<noteq> f x" by (auto simp: image_iff)
    with False Cons show ?thesis by simp
  qed
qed simp

lemma events_of_tasks:
  assumes "distinct (map wt_id tasks)"
  shows "to \<in> set tasks \<Longrightarrow> events_of (wt_id to) (map expiry_event tasks) = [expiry_event to]"
    and "k \<notin> wt_id ` set tasks \<Longrightarrow> events_of k (map expiry_event tasks) = []"
  using filter_key_singleton [OF assms]
  by (auto simp: events_of_def filter_map o_def filter_empty_conv)

text \<open>One timer across one tick: absent, not yet due, or due.\<close>

lemma tick_absent:
  assumes ok: "tw_ok t" and k: "k \<notin> fst ` set (entries (wheel t))"
  shows "\<exists>es t'. tick g t = Some (es, t') \<and> tw_ok t' \<and> events_of k es = [] \<and>
    k \<notin> fst ` set (entries (wheel t'))"
proof -
  from tick_ok [OF ok, of g] obtain tasks t' where
    t: "tick g t = Some (map expiry_event tasks, t')" and ok': "tw_ok t'" and d: "distinct (map wt_id tasks)" and
    tasks: "\<forall>to. to \<in> set tasks \<longleftrightarrow> (wt_id to, to) \<in> set (entries (wheel t)) \<and> ticks_left t to = 1" and
    e: "\<forall>k to'. (k, to') \<in> set (entries (wheel t')) \<longleftrightarrow>
      (\<exists>to. (k, to) \<in> set (entries (wheel t)) \<and>
        (if ticks_left t to = 1 then again to \<and> to' = placed t' g (expired to)
         else to' = aged (wheelCursor t') to))"
    by blast
  have "k \<notin> wt_id ` set tasks" using tasks k by force
  moreover have "k \<notin> fst ` set (entries (wheel t'))"
  proof
    assume "k \<in> fst ` set (entries (wheel t'))"
    then obtain to' where "(k, to') \<in> set (entries (wheel t'))" by auto
    with e obtain to where "(k, to) \<in> set (entries (wheel t))" by blast
    with k show False by force
  qed
  ultimately show ?thesis using t ok' events_of_tasks(2) [OF d] by blast
qed

lemma aged_fields [simp]:
  "wt_id (aged c to) = wt_id to" "wt_times (aged c to) = wt_times to"
  "wt_expTimes (aged c to) = wt_expTimes to" "wt_delay (aged c to) = wt_delay to"
  "expiry_event (aged c to) = expiry_event to" "again (aged c to) = again to"
  by (simp_all add: aged_def expiry_event_def again_def split: option.split)

lemma tick_waiting:
  assumes ok: "tw_ok t" and k: "(k, to) \<in> set (entries (wheel t))" and n: "ticks_left t to \<noteq> 1"
  shows "\<exists>es t' c. tick g t = Some (es, t') \<and> tw_ok t' \<and> events_of k es = [] \<and>
    (k, aged c to) \<in> set (entries (wheel t')) \<and> ticks_left t' (aged c to) = ticks_left t to - 1"
proof -
  from tick_ok [OF ok, of g] obtain tasks t' where
    t: "tick g t = Some (map expiry_event tasks, t')" and ok': "tw_ok t'" and d: "distinct (map wt_id tasks)" and
    c: "wheelCount t' = wheelCount t" "wheelCursor t' = wheelCursor (move_cursor t)" and
    tasks: "\<forall>to. to \<in> set tasks \<longleftrightarrow> (wt_id to, to) \<in> set (entries (wheel t)) \<and> ticks_left t to = 1" and
    e: "\<forall>k to'. (k, to') \<in> set (entries (wheel t')) \<longleftrightarrow>
      (\<exists>to. (k, to) \<in> set (entries (wheel t)) \<and>
        (if ticks_left t to = 1 then again to \<and> to' = placed t' g (expired to)
         else to' = aged (wheelCursor t') to))"
    by blast
  have uniq: "to = to'" if "(k, to') \<in> set (entries (wheel t))" for to'
    using that k ok by (metis tw_ok_def eq_key_imp_eq_value)
  have "k \<notin> wt_id ` set tasks" using tasks uniq n by auto
  with events_of_tasks(2) [OF d] have "events_of k (map expiry_event tasks) = []" by blast
  moreover have "(k, aged (wheelCursor t') to) \<in> set (entries (wheel t'))" using e k n by auto
  moreover have "ticks_left t' (aged (wheelCursor t') to) = ticks_left t to - 1"
    using ticks_left_step(3) [OF _ entry_bounds(3,4,5) [OF ok k]] ok c
    by (simp add: ticks_left_def tw_ok_def)
  ultimately show ?thesis using t ok' by blast
qed

lemma tick_due:
  assumes ok: "tw_ok t" and k: "(k, to) \<in> set (entries (wheel t))" and n: "ticks_left t to = 1"
  shows "\<exists>es t'. tick g t = Some (es, t') \<and> tw_ok t' \<and> events_of k es = [expiry_event to] \<and>
    (if again to then (k, placed t' g (expired to)) \<in> set (entries (wheel t'))
     else k \<notin> fst ` set (entries (wheel t')))"
proof -
  from tick_ok [OF ok, of g] obtain tasks t' where
    t: "tick g t = Some (map expiry_event tasks, t')" and ok': "tw_ok t'" and d: "distinct (map wt_id tasks)" and
    tasks: "\<forall>to. to \<in> set tasks \<longleftrightarrow> (wt_id to, to) \<in> set (entries (wheel t)) \<and> ticks_left t to = 1" and
    e: "\<forall>k to'. (k, to') \<in> set (entries (wheel t')) \<longleftrightarrow>
      (\<exists>to. (k, to) \<in> set (entries (wheel t)) \<and>
        (if ticks_left t to = 1 then again to \<and> to' = placed t' g (expired to)
         else to' = aged (wheelCursor t') to))"
    by blast
  have uniq: "to = to'" if "(k, to') \<in> set (entries (wheel t))" for to'
    using that k ok by (metis tw_ok_def eq_key_imp_eq_value)
  have id: "k = wt_id to" using entry_bounds(1) [OF ok k] .
  then have "to \<in> set tasks" using tasks k n by simp
  with events_of_tasks(1) [OF d] id have "events_of k (map expiry_event tasks) = [expiry_event to]" by simp
  moreover have "if again to then (k, placed t' g (expired to)) \<in> set (entries (wheel t'))
     else k \<notin> fst ` set (entries (wheel t'))"
  proof (cases "again to")
    case True
    with e k n show ?thesis by auto
  next
    case False
    have "k \<notin> fst ` set (entries (wheel t'))"
    proof
      assume "k \<in> fst ` set (entries (wheel t'))"
      then obtain to' where "(k, to') \<in> set (entries (wheel t'))" by auto
      with e uniq n False show False by metis
    qed
    with False show ?thesis by simp
  qed
  ultimately show ?thesis using t ok' by blast
qed

lemma ticks_absent:
  assumes "tw_ok t" "k \<notin> fst ` set (entries (wheel t))"
  shows "\<exists>ess t'. ticks g n t = Some (ess, t') \<and> tw_ok t' \<and> map (events_of k) ess = replicate n [] \<and>
    k \<notin> fst ` set (entries (wheel t'))"
  using assms
proof (induction n arbitrary: t)
  case (Suc n)
  from tick_absent [OF Suc.prems, of g] obtain es t1 where
    "tick g t = Some (es, t1)" "tw_ok t1" "events_of k es = []" "k \<notin> fst ` set (entries (wheel t1))"
    by blast
  with Suc.IH [of t1] show ?case by fastforce
qed simp

text \<open>The fields of a timer that say what it is, not when it fires.\<close>

definition same_timer :: "wheelTimeOut \<Rightarrow> wheelTimeOut \<Rightarrow> bool" where
  "same_timer to to' \<longleftrightarrow> wt_id to' = wt_id to \<and> wt_task to' = wt_task to \<and>
     wt_outCh to' = wt_outCh to \<and> wt_times to' = wt_times to"

lemma same_timer_intros [simp]:
  "same_timer (aged c to) to' \<longleftrightarrow> same_timer to to'"
  "wt_id to \<noteq> '''' \<Longrightarrow> same_timer to (placed t g (expired to))"
  by (simp_all add: same_timer_def aged_def placed_def expired_def Let_def)

text \<open>A timer with \<open>n + 1\<close> ticks left is silent for \<open>n\<close> ticks and fires once at the next.\<close>

lemma ticks_until_due:
  assumes "tw_ok t" "(k, to) \<in> set (entries (wheel t))" "ticks_left t to = int n + 1"
  shows "\<exists>ess t'. ticks g (Suc n) t = Some (ess, t') \<and> tw_ok t' \<and>
    map (events_of k) ess = replicate n [] @ [[expiry_event to]] \<and>
    (if again to then \<exists>to'. (k, to') \<in> set (entries (wheel t')) \<and> wt_expTimes to' = wt_expTimes to + 1 \<and>
        same_timer to to'
     else k \<notin> fst ` set (entries (wheel t')))"
  using assms
proof (induction n arbitrary: t to)
  case 0
  then have "ticks_left t to = 1" by simp
  from tick_due [OF 0(1,2) this, of g] obtain es t' where
    t': "tick g t = Some (es, t')" "tw_ok t'" "events_of k es = [expiry_event to]"
    "if again to then (k, placed t' g (expired to)) \<in> set (entries (wheel t'))
     else k \<notin> fst ` set (entries (wheel t'))" by blast
  have "wt_expTimes (placed t' g (expired to)) = wt_expTimes to + 1"
    by (simp add: placed_def expired_def Let_def)
  moreover have "same_timer to (placed t' g (expired to))"
    using entry_bounds(2) [OF 0(1,2)] by (simp add: timer_ok_def)
  ultimately show ?case using t' by (auto split: if_splits)
next
  case (Suc n)
  then have "ticks_left t to \<noteq> 1" by simp
  from tick_waiting [OF Suc.prems(1,2) this, of g] obtain es t1 c where
    t1: "tick g t = Some (es, t1)" "tw_ok t1" "events_of k es = []"
    "(k, aged c to) \<in> set (entries (wheel t1))" "ticks_left t1 (aged c to) = ticks_left t to - 1" by blast
  with Suc.prems(3) have "ticks_left t1 (aged c to) = int n + 1" by simp
  from Suc.IH [OF t1(2,4) this] obtain ess t' where
    "ticks g (Suc n) t1 = Some (ess, t')" "tw_ok t'"
    "map (events_of k) ess = replicate n [] @ [[expiry_event to]]"
    "if again to then \<exists>to'. (k, to') \<in> set (entries (wheel t')) \<and> wt_expTimes to' = wt_expTimes to + 1 \<and>
        same_timer to to'
     else k \<notin> fst ` set (entries (wheel t'))"
    unfolding aged_fields same_timer_intros by blast
  with t1(1,3) show ?case by (subst ticks.simps) (simp del: ticks.simps)
qed

lemma ticks_add:
  "ticks g (m + n) t = do {
     (ess, t) \<leftarrow> ticks g m t; (fss, t) \<leftarrow> ticks g n t; Some (ess @ fss, t) }"
  by (induction m arbitrary: t) (auto simp: bind_eq_Some_conv split: option.split bind_splits)

text \<open>The events that a timer still owes, in order.\<close>

definition nth_event :: "wheelTimeOut \<Rightarrow> int \<Rightarrow> tw_event" where
  "nth_event to j =
     (case wt_task to of
        Some f \<Rightarrow> RunTask (wt_id to) f
      | None \<Rightarrow> SendOut (wt_id to) (wt_outCh to) (j = wt_times to))"

lemma nth_event_expiry: "expiry_event to = nth_event to (wt_expTimes to + 1)"
  by (simp add: expiry_event_def nth_event_def)

lemma nth_event_same: "same_timer to to' \<Longrightarrow> nth_event to' = nth_event to"
  by (cases "wt_task to") (simp_all add: same_timer_def nth_event_def fun_eq_iff)

lemma events_of_concat: "events_of k (concat ess) = concat (map (events_of k) ess)"
  by (induction ess) auto

lemma concat_replicate_Nil [simp]: "concat (replicate n []) = []"
  by (induction n) auto

lemma fires_all:
  assumes "tw_ok t" "(k, to) \<in> set (entries (wheel t))" "wt_times to - wt_expTimes to = int n + 1"
  shows "\<exists>N ess t'. ticks g N t = Some (ess, t') \<and> tw_ok t' \<and>
    events_of k (concat ess) = map (nth_event to) [wt_expTimes to + 1..wt_times to] \<and>
    k \<notin> fst ` set (entries (wheel t'))"
  using assms
proof (induction n arbitrary: t to)
  case (0 t to)
  have wf: "tw_wf t" using 0 by (simp add: tw_ok_def)
  have "ticks_left t to = int (nat (ticks_left t to - 1)) + 1"
    using ticks_left_step(1) [OF wf entry_bounds(3,4,5) [OF 0(1,2)]] by simp
  from ticks_until_due [OF 0(1,2) this, of g] obtain ess t' where
    t': "ticks g (Suc (nat (ticks_left t to - 1))) t = Some (ess, t')" "tw_ok t'"
    "map (events_of k) ess = replicate (nat (ticks_left t to - 1)) [] @ [[expiry_event to]]"
    and "if again to then \<exists>to'. (k, to') \<in> set (entries (wheel t')) \<and> wt_expTimes to' = wt_expTimes to + 1 \<and>
        same_timer to to'
      else k \<notin> fst ` set (entries (wheel t'))" by blast
  moreover have "\<not> again to" using 0(3) by (simp add: again_def)
  ultimately have "k \<notin> fst ` set (entries (wheel t'))" by simp
  moreover have "events_of k (concat ess) = map (nth_event to) [wt_expTimes to + 1..wt_times to]"
    using 0(3) by (simp add: events_of_concat t'(3) nth_event_expiry upto_rec1)
  ultimately show ?case using t' by blast
next
  case (Suc n t to)
  have wf: "tw_wf t" using Suc.prems by (simp add: tw_ok_def)
  have "ticks_left t to = int (nat (ticks_left t to - 1)) + 1"
    using ticks_left_step(1) [OF wf entry_bounds(3,4,5) [OF Suc.prems(1,2)]] by simp
  from ticks_until_due [OF Suc.prems(1,2) this, of g] obtain ess t1 where
    t1: "ticks g (Suc (nat (ticks_left t to - 1))) t = Some (ess, t1)" "tw_ok t1"
    "map (events_of k) ess = replicate (nat (ticks_left t to - 1)) [] @ [[expiry_event to]]"
    and a: "if again to then \<exists>to'. (k, to') \<in> set (entries (wheel t1)) \<and> wt_expTimes to' = wt_expTimes to + 1 \<and>
        same_timer to to'
      else k \<notin> fst ` set (entries (wheel t1))" by blast
  have "again to" using Suc.prems(3) by (simp add: again_def)
  with a obtain to' where to': "(k, to') \<in> set (entries (wheel t1))" "wt_expTimes to' = wt_expTimes to + 1"
    "same_timer to to'" by auto
  then have times: "wt_times to' = wt_times to" by (simp add: same_timer_def)
  with to' Suc.prems(3) have "wt_times to' - wt_expTimes to' = int n + 1" by simp
  from Suc.IH [OF t1(2) to'(1) this] obtain N fss t' where
    N: "ticks g N t1 = Some (fss, t')" "tw_ok t'" "k \<notin> fst ` set (entries (wheel t'))"
    "events_of k (concat fss) = map (nth_event to') [wt_expTimes to' + 1..wt_times to']" by blast
  have "ticks g (Suc (nat (ticks_left t to - 1)) + N) t = Some (ess @ fss, t')"
    unfolding ticks_add using t1(1) N(1) by simp
  moreover have "events_of k (concat (ess @ fss)) = map (nth_event to) [wt_expTimes to + 1..wt_times to]"
    using Suc.prems(3) N(4) to'(2) times nth_event_same [OF to'(3)]
    by (simp add: events_of_concat t1(3) nth_event_expiry upto_rec1 [of "wt_expTimes to + 1"])
  ultimately show ?case using N(2,3) by blast
qed

section \<open>The other operations\<close>

lemma NewTimerWheel_ok:
  assumes "0 < TickDuration o1" "0 < WheelCount o1" "TickDuration o1 * WheelCount o1 < 2 ^ 63"
  shows "\<exists>t. NewTimerWheel [o1] = Some t \<and> tw_ok t \<and> entries (wheel t) = [] \<and>
    tickDuration t = TickDuration o1 \<and> wheelCount t = WheelCount o1 \<and> wheelCursor t = 0"
proof -
  have "0 < TickDuration o1 * WheelCount o1" using assms by simp
  then have "wrap64 (TickDuration o1 * WheelCount o1) = TickDuration o1 * WheelCount o1"
    using assms(3) by (intro wrap64_id) linarith+
  moreover have "entries (replicate n (Some [])) = []" for n by (induction n) auto
  ultimately show ?thesis using assms
    by (auto simp: NewTimerWheel_def createWheel_def go_make_def tw_ok_def tw_wf_def)
qed

text \<open>What a client asks for: a callback or a channel, with its interval and its number of times.\<close>

definition new_timer :: "int \<Rightarrow> int \<Rightarrow> nat option \<Rightarrow> nat option \<Rightarrow> wheelTimeOut" where
  "new_timer interval n f ch =
     \<lparr>wt_id = '''', wt_delay = interval, wt_index = 0, wt_rounds = 0, wt_task = f,
      wt_outCh = ch, wt_times = norm_times n, wt_expTimes = 0\<rparr>"

lemma AfterFunc_schedules:
  "0 < interval \<Longrightarrow> AfterFunc g interval n (Some f) t =
     map_option Inr (scheduleTimeOut g (new_timer interval n (Some f) None) t)"
  by (simp add: AfterFunc_def new_timer_def)

lemma After_schedules:
  "0 < interval \<Longrightarrow> After g ch interval n t =
     map_option (\<lambda>(k, t). Inr (ch, k, t)) (scheduleTimeOut g (new_timer interval n None (Some ch)) t)"
  by (simp add: After_def new_timer_def)

lemma new_timer_scheduled:
  assumes ok: "tw_ok t" and d: "0 < interval" "interval < 2 ^ 63"
    and g: "guid \<noteq> ''''" "guid \<notin> fst ` set (entries (wheel t))"
  shows "\<exists>t' to. scheduleTimeOut guid (new_timer interval n f ch) t = Some (guid, t') \<and> tw_ok t' \<and>
    set (entries (wheel t')) = insert (guid, to) (set (entries (wheel t))) \<and>
    ticks_left t' to = ticks_of t interval + (if wraps t interval then wheelCount t else 0) \<and>
    wt_id to = guid \<and> wt_task to = f \<and> wt_outCh to = ch \<and> wt_expTimes to = 0 \<and> wt_times to = norm_times n"
proof -
  let ?to = "new_timer interval n f ch"
  have "0 < wt_delay ?to" "wt_delay ?to < 2 ^ 63" using d by (simp_all add: new_timer_def)
  moreover have "guid = (if wt_id ?to = '''' then guid else wt_id ?to)" by (simp add: new_timer_def)
  ultimately obtain t' where t': "scheduleTimeOut guid ?to t = Some (guid, t')" "tw_ok t'"
    "set (entries (wheel t')) = insert (guid, placed t guid ?to) (set (entries (wheel t)))"
    "wheelCursor t' = wheelCursor t" "wheelCount t' = wheelCount t"
    using schedule_ok [OF ok _ _ _ g] by metis
  have "ticks_left t' (placed t guid ?to) = ticks_left t (placed t guid ?to)"
    using t' by (simp add: ticks_left_def)
  also have "\<dots> = ticks_of t interval + (if wraps t interval then wheelCount t else 0)"
    using placed_ticks_left [of t ?to guid] ok d by (simp add: tw_ok_def new_timer_def)
  finally show ?thesis using t' d
    by (intro exI [of _ t'] exI [of _ "placed t guid ?to"]) (simp add: placed_def Let_def new_timer_def)
qed

lemma cancel_slots_eq:
  "None \<notin> set w \<Longrightarrow> cancel_slots k w = Some (map (map_option (AList.delete k)) w)"
proof (induction w)
  case (Cons s w)
  then show ?case by (cases s) auto
qed simp

lemma entries_cancel: "entries (map (map_option (AList.delete k)) w) = AList.delete k (entries w)"
proof (induction w)
  case (Cons s w)
  then show ?case by (cases s) (auto simp: AList.delete_eq)
qed simp

lemma Cancel_ok:
  assumes ok: "tw_ok t"
  shows "\<exists>t'. Cancel k t = Some t' \<and> tw_ok t' \<and> entries (wheel t') = AList.delete k (entries (wheel t)) \<and>
    wheelCursor t' = wheelCursor t \<and> wheelCount t' = wheelCount t"
proof -
  let ?w = "map (map_option (AList.delete k)) (wheel t)"
  have c: "Cancel k t = Some (t\<lparr>wheel := ?w\<rparr>)"
    using ok by (simp add: Cancel_def cancel_slots_eq tw_ok_def tw_wf_def)
  have "tw_wf (t\<lparr>wheel := ?w\<rparr>)" using ok by (auto simp: tw_ok_def tw_wf_def)
  moreover have "distinct (map fst (entries ?w))"
    using ok by (simp add: entries_cancel tw_ok_def distinct_delete)
  moreover have "\<forall>i < length ?w. \<forall>m. ?w ! i = Some m \<longrightarrow> slot_ok (int i) m"
    using ok by (fastforce simp: tw_ok_slots slot_ok_def AList.delete_eq)
  ultimately show ?thesis using c by (simp add: tw_ok_slots entries_cancel)
qed

section \<open>Any history of calls\<close>

text \<open>
  The calls of the clients and the ticks of the goroutine, in the order in which the mutex
  serialises them. A tick is one step: its fetch and its rescheduling take the mutex
  separately, so a call can fall between the two: see \<open>TimerConc\<close>.
\<close>

datatype tw_op = OpAfterFunc string int int "nat option" | OpAfter string nat int int | OpCancel string | OpTick

fun tw_call :: "tw_op \<Rightarrow> timer_wheel \<Rightarrow> timer_wheel option" where
  "tw_call (OpAfterFunc g d n f) t =
     map_option (\<lambda>r. case r of Inl _ \<Rightarrow> t | Inr (_, t') \<Rightarrow> t') (AfterFunc g d n f t)"
| "tw_call (OpAfter g ch d n) t =
     map_option (\<lambda>r. case r of Inl _ \<Rightarrow> t | Inr (_, _, t') \<Rightarrow> t') (After g ch d n t)"
| "tw_call (OpCancel k) t = Cancel k t"
| "tw_call OpTick t = map_option snd (tick '''' t)"

fun tw_calls :: "tw_op list \<Rightarrow> timer_wheel \<Rightarrow> timer_wheel option" where
  "tw_calls [] t = Some t"
| "tw_calls (c # cs) t = do { t \<leftarrow> tw_call c t; tw_calls cs t }"

text \<open>The ids that \<open>grand.NewUUID\<close> gives are non-empty and never repeat.\<close>

fun op_ids :: "tw_op \<Rightarrow> string list" where
  "op_ids (OpAfterFunc g _ _ _) = [g]"
| "op_ids (OpAfter g _ _ _) = [g]"
| "op_ids (OpCancel _) = []"
| "op_ids OpTick = []"

fun op_int64 :: "tw_op \<Rightarrow> bool" where
  "op_int64 (OpAfterFunc _ d _ _) = (d < 2 ^ 63)"
| "op_int64 (OpAfter _ _ d _) = (d < 2 ^ 63)"
| "op_int64 (OpCancel _) = True"
| "op_int64 OpTick = True"

lemma tw_call_ok:
  assumes ok: "tw_ok t" and c: "op_int64 c" "\<forall>g \<in> set (op_ids c). g \<noteq> '''' \<and> g \<notin> fst ` set (entries (wheel t))"
  shows "\<exists>t'. tw_call c t = Some t' \<and> tw_ok t' \<and>
    fst ` set (entries (wheel t')) \<subseteq> fst ` set (entries (wheel t)) \<union> set (op_ids c)"
proof (cases c)
  case (OpAfterFunc g d n f)
  with c have g: "g \<noteq> ''''" "g \<notin> fst ` set (entries (wheel t))" and d: "d < 2 ^ 63" by simp_all
  show ?thesis
  proof (cases "f = None \<or> d \<le> 0")
    case True
    with OpAfterFunc ok show ?thesis by (auto simp: AfterFunc_def)
  next
    case False
    then obtain f' where "f = Some f'" "0 < d" by auto
    with new_timer_scheduled [OF ok _ d g, of n f None] OpAfterFunc show ?thesis
      by (auto simp: AfterFunc_schedules)
  qed
next
  case (OpAfter g ch d n)
  with c have g: "g \<noteq> ''''" "g \<notin> fst ` set (entries (wheel t))" and d: "d < 2 ^ 63" by simp_all
  show ?thesis
  proof (cases "d \<le> 0")
    case True
    with OpAfter ok show ?thesis by (auto simp: After_def)
  next
    case False
    with new_timer_scheduled [OF ok _ d g, of n None "Some ch"] OpAfter show ?thesis
      by (auto simp: After_schedules)
  qed
next
  case (OpCancel k)
  with Cancel_ok [OF ok, of k] show ?thesis by (auto simp: AList.delete_eq)
next
  case OpTick
  from tick_ok [OF ok, of "''''"] obtain es t' where
    t: "tick '''' t = Some (es, t')" and ok': "tw_ok t'" and
    e: "\<forall>k to'. (k, to') \<in> set (entries (wheel t')) \<longleftrightarrow>
      (\<exists>to. (k, to) \<in> set (entries (wheel t)) \<and>
        (if ticks_left t to = 1 then again to \<and> to' = placed t' '''' (expired to)
         else to' = aged (wheelCursor t') to))"
    by blast
  have "fst ` set (entries (wheel t')) \<subseteq> fst ` set (entries (wheel t))"
  proof
    fix k assume "k \<in> fst ` set (entries (wheel t'))"
    then obtain to' where "(k, to') \<in> set (entries (wheel t'))" by auto
    with e obtain to where "(k, to) \<in> set (entries (wheel t))" by blast
    then show "k \<in> fst ` set (entries (wheel t))" by force
  qed
  with OpTick t ok' show ?thesis by auto
qed

lemma tw_calls_ok:
  assumes "tw_ok t" "\<forall>c \<in> set cs. op_int64 c" "distinct (concat (map op_ids cs))"
    "'''' \<notin> set (concat (map op_ids cs))"
    "set (concat (map op_ids cs)) \<inter> fst ` set (entries (wheel t)) = {}"
  shows "\<exists>t'. tw_calls cs t = Some t' \<and> tw_ok t'"
  using assms
proof (induction cs arbitrary: t)
  case (Cons c cs)
  have "op_int64 c" "\<forall>g \<in> set (op_ids c). g \<noteq> '''' \<and> g \<notin> fst ` set (entries (wheel t))"
    using Cons.prems by auto
  from tw_call_ok [OF Cons.prems(1) this] obtain t' where
    t': "tw_call c t = Some t'" "tw_ok t'"
    "fst ` set (entries (wheel t')) \<subseteq> fst ` set (entries (wheel t)) \<union> set (op_ids c)" by blast
  let ?ids = "set (concat (map op_ids cs))"
  have "set (op_ids c) \<inter> ?ids = {}" "(set (op_ids c) \<union> ?ids) \<inter> fst ` set (entries (wheel t)) = {}"
    using Cons.prems(3,5) by simp_all
  with t'(3) have "?ids \<inter> fst ` set (entries (wheel t')) = {}" by blast
  then have "\<exists>t''. tw_calls cs t' = Some t'' \<and> tw_ok t''"
    using Cons.prems by (intro Cons.IH [OF t'(2)]) simp_all
  with t'(1) show ?case by simp
qed simp

section \<open>The properties\<close>

lemma aged_by_ticks:
  assumes "tw_ok t" "(k, to) \<in> set (entries (wheel t))" "ticks_left t to = N" "wt_task to = Some f"
  shows "\<exists>ess t'. ticks g (nat N) t = Some (ess, t') \<and> tw_ok t' \<and>
    map (events_of k) ess = replicate (nat N - 1) [] @ [[RunTask k f]]"
proof -
  have "tw_wf t" using assms(1) by (simp add: tw_ok_def)
  from ticks_left_step(1) [OF this entry_bounds(3,4,5) [OF assms(1,2)]]
  have N: "1 \<le> N" using assms(3) by simp
  then have "ticks_left t to = int (nat N - 1) + 1" "Suc (nat N - 1) = nat N" using assms(3) by simp_all
  with ticks_until_due [OF assms(1,2), of "nat N - 1" g] assms(4) entry_bounds(1) [OF assms(1,2)]
  show ?thesis by (auto simp: expiry_event_def)
qed

lemma timer_runs_out:
  assumes "tw_ok t" "0 < interval" "interval < 2 ^ 63"
    and "guid \<noteq> ''''" "guid \<notin> fst ` set (entries (wheel t))"
  shows "\<exists>t1 N ess t2 fss t3 to. scheduleTimeOut guid (new_timer interval n f c) t = Some (guid, t1) \<and>
      ticks g N t1 = Some (ess, t2) \<and> ticks g M t2 = Some (fss, t3) \<and>
      events_of guid (concat ess) = map (nth_event to) [1..norm_times n] \<and>
      events_of guid (concat fss) = [] \<and> guid \<notin> fst ` set (entries (wheel t2)) \<and>
      nth_event to = (\<lambda>j. case f of Some f \<Rightarrow> RunTask guid f | None \<Rightarrow> SendOut guid c (j = norm_times n))"
proof -
  have pos: "1 \<le> norm_times n" by (simp add: norm_times_def)
  from new_timer_scheduled [OF assms, of n f c] obtain t1 to where
    t1: "scheduleTimeOut guid (new_timer interval n f c) t = Some (guid, t1)" "tw_ok t1"
      "(guid, to) \<in> set (entries (wheel t1))" and
    to: "wt_id to = guid" "wt_task to = f" "wt_outCh to = c" "wt_times to = norm_times n" "wt_expTimes to = 0"
    by auto
  have "wt_times to - wt_expTimes to = int (nat (norm_times n - 1)) + 1" using to pos by simp
  from fires_all [OF t1(2,3) this, of g] obtain N ess t2 where
    N: "ticks g N t1 = Some (ess, t2)" "tw_ok t2" "guid \<notin> fst ` set (entries (wheel t2))"
      "events_of guid (concat ess) = map (nth_event to) [1..norm_times n]" unfolding to by auto
  from ticks_absent [OF N(2,3), of g M] obtain fss t3 where
    f: "ticks g M t2 = Some (fss, t3)" "map (events_of guid) fss = replicate M []" by blast
  then have "events_of guid (concat fss) = []" by (simp add: events_of_concat)
  moreover have "nth_event to = (\<lambda>j. case f of Some f \<Rightarrow> RunTask guid f | None \<Rightarrow> SendOut guid c (j = norm_times n))"
    using to by (cases f) (simp_all add: nth_event_def fun_eq_iff)
  ultimately show ?thesis using t1(1) N(1,3,4) f(1) by blast
qed

text \<open>
  When a timer first fires. A callback registered with a positive interval on a wheel in
  good order runs for the first time at a tick that the arithmetic of
  \<open>scheduleTimeOut\<close> fixes exactly: the interval in ticks, rounded up and at least one,
  plus one whole turn of the wheel when the slot lies past the wheel's end. It does not run
  before, and none of these ticks panics. (The extra turn is the code's: the witness has an
  interval of two ticks that fires at the sixth.)
\<close>

lemma timer_first_fire:
  assumes "tw_ok t" "0 < interval" "interval < 2 ^ 63"
    and "guid \<noteq> ''''" "guid \<notin> fst ` set (entries (wheel t))"
    and "N = nat (ticks_of t interval + (if wraps t interval then wheelCount t else 0))"
  shows "\<exists>t1 ess t2. AfterFunc guid interval n (Some f) t = Some (Inr (guid, t1)) \<and>
    ticks g N t1 = Some (ess, t2) \<and> tw_ok t2 \<and>
    map (events_of guid) ess = replicate (N - 1) [] @ [[RunTask guid f]]"
proof -
  from new_timer_scheduled [OF assms(1-5), of n "Some f" None] obtain t1 to where
    t1: "scheduleTimeOut guid (new_timer interval n (Some f) None) t = Some (guid, t1)" "tw_ok t1"
      "(guid, to) \<in> set (entries (wheel t1))" "wt_task to = Some f"
      "ticks_left t1 to = ticks_of t interval + (if wraps t interval then wheelCount t else 0)" by auto
  from aged_by_ticks [OF t1(2,3,5,4), of g] t1(1) assms(2,6) show ?thesis
    by (auto simp: AfterFunc_schedules)
qed

definition wheel_ex :: timer_wheel where
  "wheel_ex = \<lparr>tickDuration = 10, roundDuration = 40, wheelCount = 4,
     wheel = [Some [], Some [], Some [], Some []], wheelCursor = 3\<rparr>"

lemma wheel_ex_ok: "tw_ok wheel_ex" "fst ` set (entries (wheel wheel_ex)) = {}"
  by (simp_all add: wheel_ex_def tw_ok_def tw_wf_def nth_Cons')

text \<open>
  A timer fires exactly as often as it was asked to and is then gone. The channel of
  \<open>After\<close> gets exactly \<open>times\<close> sends (\<open>0x0FFFFFFF\<close> of them when
  \<open>times\<close> is not positive), only the last of them closes it, and after that the timer
  is in no slot and no later tick touches it; a callback of \<open>AfterFunc\<close> runs exactly
  \<open>times\<close> times. Some finite number of ticks is enough, and no tick panics.
\<close>

lemma timer_fires_exactly:
  assumes "tw_ok t" "0 < interval" "interval < 2 ^ 63"
    and "guid \<noteq> ''''" "guid \<notin> fst ` set (entries (wheel t))"
  shows "(\<exists>t1 N ess t2 fss t3. After guid ch interval n t = Some (Inr (ch, guid, t1)) \<and>
      ticks g N t1 = Some (ess, t2) \<and> ticks g M t2 = Some (fss, t3) \<and>
      events_of guid (concat ess) = map (\<lambda>j. SendOut guid (Some ch) (j = norm_times n)) [1..norm_times n] \<and>
      events_of guid (concat fss) = [] \<and> guid \<notin> fst ` set (entries (wheel t2))) \<and>
    (\<exists>t1 N ess t2 fss t3. AfterFunc guid interval n (Some f) t = Some (Inr (guid, t1)) \<and>
      ticks g N t1 = Some (ess, t2) \<and> ticks g M t2 = Some (fss, t3) \<and>
      events_of guid (concat ess) = replicate (nat (norm_times n)) (RunTask guid f) \<and>
      events_of guid (concat fss) = [] \<and> guid \<notin> fst ` set (entries (wheel t2)))"
proof (intro conjI)
  from timer_runs_out [OF assms, of n None "Some ch" g M] obtain t1 N ess t2 fss t3 to where
    "scheduleTimeOut guid (new_timer interval n None (Some ch)) t = Some (guid, t1)"
    "ticks g N t1 = Some (ess, t2)" "ticks g M t2 = Some (fss, t3)"
    "events_of guid (concat ess) = map (nth_event to) [1..norm_times n]" "events_of guid (concat fss) = []"
    "guid \<notin> fst ` set (entries (wheel t2))"
    "nth_event to = (\<lambda>j. SendOut guid (Some ch) (j = norm_times n))" by auto
  with assms(2) show "\<exists>t1 N ess t2 fss t3. After guid ch interval n t = Some (Inr (ch, guid, t1)) \<and>
      ticks g N t1 = Some (ess, t2) \<and> ticks g M t2 = Some (fss, t3) \<and>
      events_of guid (concat ess) = map (\<lambda>j. SendOut guid (Some ch) (j = norm_times n)) [1..norm_times n] \<and>
      events_of guid (concat fss) = [] \<and> guid \<notin> fst ` set (entries (wheel t2))"
    by (intro exI [of _ t1] exI [of _ N] exI [of _ ess] exI [of _ t2] exI [of _ fss] exI [of _ t3])
      (simp add: After_schedules)
next
  from timer_runs_out [OF assms, of n "Some f" None g M] obtain t1 N ess t2 fss t3 to where
    "scheduleTimeOut guid (new_timer interval n (Some f) None) t = Some (guid, t1)"
    "ticks g N t1 = Some (ess, t2)" "ticks g M t2 = Some (fss, t3)"
    "events_of guid (concat ess) = map (nth_event to) [1..norm_times n]" "events_of guid (concat fss) = []"
    "guid \<notin> fst ` set (entries (wheel t2))" "nth_event to = (\<lambda>j. RunTask guid f)" by auto
  with assms(2) show "\<exists>t1 N ess t2 fss t3. AfterFunc guid interval n (Some f) t = Some (Inr (guid, t1)) \<and>
      ticks g N t1 = Some (ess, t2) \<and> ticks g M t2 = Some (fss, t3) \<and>
      events_of guid (concat ess) = replicate (nat (norm_times n)) (RunTask guid f) \<and>
      events_of guid (concat fss) = [] \<and> guid \<notin> fst ` set (entries (wheel t2))"
    by (intro exI [of _ t1] exI [of _ N] exI [of _ ess] exI [of _ t2] exI [of _ fss] exI [of _ t3])
      (simp add: AfterFunc_schedules map_replicate_const)
qed

text \<open>
  \<open>Cancel\<close> takes a timer out for good and touches no other: it does not panic,
  every other timer keeps its place and the tick it is due at, the cancelled id is in no
  slot, and no later tick fires it.
\<close>

lemma timer_cancel:
  assumes "tw_ok t"
  shows "\<exists>t1 ess t2. Cancel k t = Some t1 \<and> tw_ok t1 \<and>
    set (entries (wheel t1)) = {(k', to) \<in> set (entries (wheel t)). k' \<noteq> k} \<and>
    (\<forall>to. ticks_left t1 to = ticks_left t to) \<and>
    ticks g M t1 = Some (ess, t2) \<and> map (events_of k) ess = replicate M []"
proof -
  from Cancel_ok [OF assms, of k] obtain t1 where
    t1: "Cancel k t = Some t1" "tw_ok t1" "entries (wheel t1) = AList.delete k (entries (wheel t))"
      "wheelCursor t1 = wheelCursor t" "wheelCount t1 = wheelCount t" by blast
  have "k \<notin> fst ` set (entries (wheel t1))" unfolding t1(3) by (auto simp: AList.delete_eq)
  from ticks_absent [OF t1(2) this, of g M] obtain ess t2 where
    "ticks g M t1 = Some (ess, t2)" "map (events_of k) ess = replicate M []" by blast
  moreover have "set (entries (wheel t1)) = {(k', to) \<in> set (entries (wheel t)). k' \<noteq> k}"
    unfolding t1(3) by (auto simp: AList.delete_eq)
  ultimately show ?thesis using t1 by (auto simp: ticks_left_def)
qed

text \<open>
  C5. When and how often a timer fires. A callback registered with a positive interval on a
  wheel in good order runs for the first time at a tick that the arithmetic of
  \<open>scheduleTimeOut\<close> fixes exactly: the interval in ticks, rounded up and at least one,
  plus one whole turn of the wheel when the slot lies past the wheel's end. (The extra turn is
  the code's: the witness has an interval of two ticks that fires at the sixth.) In all it
  runs exactly \<open>times\<close> times (\<open>0x0FFFFFFF\<close> when \<open>times\<close> is not positive);
  the channel of \<open>After\<close> gets exactly as many sends, only the last of them closes it. After
  that the timer is in no slot and no later tick touches it. Some finite number of ticks is
  enough, and no tick panics. \<open>Cancel\<close> takes a timer out before that, for good and without
  touching any other: every other timer keeps its place and the tick it is due at, the cancelled
  id is in no slot, and no later tick fires it.
\<close>

theorem timer_fires:
  assumes "tw_ok t" "0 < interval" "interval < 2 ^ 63"
    and "guid \<noteq> ''''" "guid \<notin> fst ` set (entries (wheel t))"
    and "K = nat (ticks_of t interval + (if wraps t interval then wheelCount t else 0))"
  shows "(\<exists>t1 ess t2. AfterFunc guid interval n (Some f) t = Some (Inr (guid, t1)) \<and>
      ticks g K t1 = Some (ess, t2) \<and> tw_ok t2 \<and>
      map (events_of guid) ess = replicate (K - 1) [] @ [[RunTask guid f]]) \<and>
    (\<exists>t1 N ess t2 fss t3. After guid ch interval n t = Some (Inr (ch, guid, t1)) \<and>
      ticks g N t1 = Some (ess, t2) \<and> ticks g M t2 = Some (fss, t3) \<and>
      events_of guid (concat ess) = map (\<lambda>j. SendOut guid (Some ch) (j = norm_times n)) [1..norm_times n] \<and>
      events_of guid (concat fss) = [] \<and> guid \<notin> fst ` set (entries (wheel t2))) \<and>
    (\<exists>t1 N ess t2 fss t3. AfterFunc guid interval n (Some f) t = Some (Inr (guid, t1)) \<and>
      ticks g N t1 = Some (ess, t2) \<and> ticks g M t2 = Some (fss, t3) \<and>
      events_of guid (concat ess) = replicate (nat (norm_times n)) (RunTask guid f) \<and>
      events_of guid (concat fss) = [] \<and> guid \<notin> fst ` set (entries (wheel t2))) \<and>
    (\<exists>t1 ess t2. Cancel k t = Some t1 \<and> tw_ok t1 \<and>
      set (entries (wheel t1)) = {(k', to) \<in> set (entries (wheel t)). k' \<noteq> k} \<and>
      (\<forall>to. ticks_left t1 to = ticks_left t to) \<and>
      ticks g M t1 = Some (ess, t2) \<and> map (events_of k) ess = replicate M [])"
  by (intro conjI timer_first_fire [OF assms] timer_fires_exactly [OF assms(1-5), THEN conjunct1]
      timer_fires_exactly [OF assms(1-5), THEN conjunct2] timer_cancel [OF assms(1)])

theorem timer_fires_witness:
  "ticks_of wheel_ex 20 = 2 \<and>
   (\<exists>t1 ess t2. AfterFunc ''a'' 20 1 (Some 7) wheel_ex = Some (Inr (''a'', t1)) \<and>
     ticks '''' 6 t1 = Some (ess, t2) \<and> tw_ok t2 \<and>
     map (events_of ''a'') ess = replicate 5 [] @ [[RunTask ''a'' 7]]) \<and>
   (\<exists>t1 N ess t2 fss t3. After ''a'' 5 20 2 wheel_ex = Some (Inr (5, ''a'', t1)) \<and>
     ticks '''' N t1 = Some (ess, t2) \<and> ticks '''' 9 t2 = Some (fss, t3) \<and>
     events_of ''a'' (concat ess) = [SendOut ''a'' (Some 5) False, SendOut ''a'' (Some 5) True] \<and>
     events_of ''a'' (concat fss) = [] \<and> ''a'' \<notin> fst ` set (entries (wheel t2))) \<and>
   (\<exists>t1 ess t2. Cancel ''b'' wheel_ex = Some t1 \<and> tw_ok t1 \<and>
     ticks '''' 9 t1 = Some (ess, t2) \<and> map (events_of ''b'') ess = replicate 9 [])"
proof -
  have N: "6 = nat (ticks_of wheel_ex 20 + (if wraps wheel_ex 20 then wheelCount wheel_ex else 0))"
    "ticks_of wheel_ex 20 = 2"
    by (simp_all add: wheel_ex_def ticks_of_def wraps_def rel_index_def)
  have e: "''a'' \<notin> fst ` set (entries (wheel wheel_ex))" unfolding wheel_ex_ok(2) by simp
  have m: "map (\<lambda>j. SendOut ''a'' (Some 5) (j = norm_times 2)) [1..norm_times 2] =
    [SendOut ''a'' (Some 5) False, SendOut ''a'' (Some 5) True]"
    by (simp add: norm_times_def upto.simps)
  show ?thesis
    using timer_fires [OF wheel_ex_ok(1) _ _ _ e N(1), of 1 7 "''''" 5 9, THEN conjunct1]
      timer_fires [OF wheel_ex_ok(1) _ _ _ e N(1), of 2 7 "''''" 5 9, THEN conjunct2, THEN conjunct1, unfolded m] N(2)
      timer_fires [OF wheel_ex_ok(1) _ _ _ e N(1), where M = 9 and g = "''''" and k = "''b''"]
    by simp blast
qed

text \<open>
  A wheel made by \<open>NewTimerWheel\<close> with a positive tick and slot count, whose round
  fits \<open>int64\<close>, survives every history: any interleaving of \<open>AfterFunc\<close>,
  \<open>After\<close>, \<open>Cancel\<close> and ticks, rejected calls included, runs without a panic
  and keeps the wheel in good order, as long as new ids are non-empty and do not repeat.
\<close>

lemma timer_wheel_never_panics:
  assumes "0 < TickDuration o1" "0 < WheelCount o1" "TickDuration o1 * WheelCount o1 < 2 ^ 63"
    and "\<forall>c \<in> set cs. op_int64 c" "distinct (concat (map op_ids cs))" "'''' \<notin> set (concat (map op_ids cs))"
  shows "\<exists>t t'. NewTimerWheel (o1 # os) = Some t \<and> tw_calls cs t = Some t' \<and> tw_ok t'"
proof -
  from NewTimerWheel_ok [OF assms(1-3)] obtain t where
    t: "NewTimerWheel [o1] = Some t" "tw_ok t" "entries (wheel t) = []" by blast
  from t(1) have "NewTimerWheel (o1 # os) = Some t" by (simp add: NewTimerWheel_def)
  with tw_calls_ok [OF t(2) assms(4-6)] t(3) show ?thesis by auto
qed

end
