(* ===== verification/TimerConc.thy ===== *)
theory TimerConc
  imports TimerRuns
begin

text \<open>
  The timer wheel with its goroutines (\<open>gtime/timerwheel.go\<close>). A tick of the goroutine of
  \<open>Start\<close> is not atomic: the cursor is moved without the mutex, in two stores, the
  expired timers are fetched under the mutex, and each of them is scheduled again under the
  mutex of its own, so that the calls of the clients fall between these steps. Every
  expiration of a timer with a channel starts a goroutine that sends on it and, after the last
  one, closes it.
\<close>

section \<open>The goroutines\<close>

text \<open>
  Where the goroutine of \<open>Start\<close> is: at the \<open>select\<close>, after the increment of the
  cursor, after its reset, in the loop of \<open>notifyExpiredTimeOut\<close> with the tasks still to
  do, or returned after \<open>Stop\<close>.
\<close>

datatype wheel_pc = AtSelect | Bumped | Moved | Notifying "wheelTimeOut list" | Returned

text \<open>A goroutine that waits to send (and closes afterwards if it is the last), or is about to close.\<close>

datatype sender = Sending "nat option" bool | Closing nat

record tw_sys =
  sys_tw :: timer_wheel
  sys_pc :: wheel_pc
  sys_senders :: "sender list"
  sys_closed :: "nat list"
  sys_log :: "tw_event list"

text \<open>
  One step: a call of a client, the parts of a tick, the rendezvous of \<open>Stop\<close> with the
  \<open>select\<close>, a client that receives from the \<open>i\<close>-th waiting sender, a sender that runs
  into a closed channel, and the close.
\<close>

datatype tw_act =
    ACall tw_op | ABump | AWrap | AFetch | ANotify | AStop
  | ARecv nat | ASend nat | AClose nat

datatype tw_result = Blocked | Panics | Runs tw_sys

definition remove_nth :: "nat \<Rightarrow> 'a list \<Rightarrow> 'a list" where
  "remove_nth i xs = take i xs @ drop (Suc i) xs"

fun spawn :: "tw_event \<Rightarrow> sender list" where
  "spawn (RunTask _ _) = []"
| "spawn (SendOut _ c last_one) = [Sending c last_one]"

definition sender_at :: "nat \<Rightarrow> tw_sys \<Rightarrow> sender option" where
  "sender_at i s = (if i < length (sys_senders s) then Some (sys_senders s ! i) else None)"

text \<open>The parts of the loop of \<open>Start\<close>.\<close>

definition bump :: "tw_sys \<Rightarrow> tw_result" where
  "bump s = (if sys_pc s = AtSelect
     then Runs (s\<lparr>sys_tw := (sys_tw s)\<lparr>wheelCursor := wheelCursor (sys_tw s) + 1\<rparr>, sys_pc := Bumped\<rparr>)
     else Blocked)"

definition wrap_cursor :: "tw_sys \<Rightarrow> tw_result" where
  "wrap_cursor s = (if sys_pc s = Bumped
     then Runs (s\<lparr>sys_tw := (if wheelCursor (sys_tw s) = wheelCount (sys_tw s)
                              then (sys_tw s)\<lparr>wheelCursor := 0\<rparr> else sys_tw s), sys_pc := Moved\<rparr>)
     else Blocked)"

definition fetch :: "tw_sys \<Rightarrow> tw_result" where
  "fetch s = (if sys_pc s = Moved
     then (case fetchExpiredTimeouts (wheelCursor (sys_tw s)) (sys_tw s) of
             None \<Rightarrow> Panics
           | Some (tasks, t) \<Rightarrow> Runs (s\<lparr>sys_tw := t, sys_pc := Notifying tasks\<rparr>))
     else Blocked)"

definition notify :: "tw_sys \<Rightarrow> tw_result" where
  "notify s = (case sys_pc s of
     Notifying [] \<Rightarrow> Runs (s\<lparr>sys_pc := AtSelect\<rparr>)
   | Notifying (to # tasks) \<Rightarrow>
       (case notify_one '''' to (sys_tw s) of
          None \<Rightarrow> Panics
        | Some (e, t) \<Rightarrow> Runs (s\<lparr>sys_tw := t, sys_pc := Notifying tasks, sys_log := sys_log s @ [e],
                                 sys_senders := sys_senders s @ spawn e\<rparr>))
   | _ \<Rightarrow> Blocked)"

text \<open>\<open>Stop\<close> waits until the goroutine is at its \<open>select\<close>; once that has returned it waits for ever.\<close>

definition Stop :: "tw_sys \<Rightarrow> tw_result" where
  "Stop s = (if sys_pc s = AtSelect then Runs (s\<lparr>sys_pc := Returned\<rparr>) else Blocked)"

text \<open>The sending goroutines. A send on a nil channel waits for ever.\<close>

definition recv :: "nat \<Rightarrow> tw_sys \<Rightarrow> tw_result" where
  "recv i s = (case sender_at i s of
     Some (Sending (Some c) last_one) \<Rightarrow>
       if c \<in> set (sys_closed s) then Blocked
       else Runs (s\<lparr>sys_senders := (if last_one then (sys_senders s)[i := Closing c]
                                     else remove_nth i (sys_senders s))\<rparr>)
   | _ \<Rightarrow> Blocked)"

definition send_fails :: "nat \<Rightarrow> tw_sys \<Rightarrow> tw_result" where
  "send_fails i s = (case sender_at i s of
     Some (Sending (Some c) _) \<Rightarrow> if c \<in> set (sys_closed s) then Panics else Blocked
   | _ \<Rightarrow> Blocked)"

definition close_out :: "nat \<Rightarrow> tw_sys \<Rightarrow> tw_result" where
  "close_out i s = (case sender_at i s of
     Some (Closing c) \<Rightarrow>
       if c \<in> set (sys_closed s) then Panics
       else Runs (s\<lparr>sys_closed := c # sys_closed s, sys_senders := remove_nth i (sys_senders s)\<rparr>)
   | _ \<Rightarrow> Blocked)"

fun sys_step :: "tw_act \<Rightarrow> tw_sys \<Rightarrow> tw_result" where
  "sys_step (ACall c) s =
     (if c = OpTick then Blocked
      else case tw_call c (sys_tw s) of None \<Rightarrow> Panics | Some t \<Rightarrow> Runs (s\<lparr>sys_tw := t\<rparr>))"
| "sys_step ABump s = bump s"
| "sys_step AWrap s = wrap_cursor s"
| "sys_step AFetch s = fetch s"
| "sys_step ANotify s = notify s"
| "sys_step AStop s = Stop s"
| "sys_step (ARecv i) s = recv i s"
| "sys_step (ASend i) s = send_fails i s"
| "sys_step (AClose i) s = close_out i s"

fun sys_run :: "tw_act list \<Rightarrow> tw_sys \<Rightarrow> tw_result" where
  "sys_run [] s = Runs s"
| "sys_run (a # as) s = (case sys_step a s of Runs s' \<Rightarrow> sys_run as s' | r \<Rightarrow> r)"

definition start_sys :: "timer_wheel \<Rightarrow> tw_sys" where
  "start_sys t = \<lparr>sys_tw = t, sys_pc = AtSelect, sys_senders = [], sys_closed = [], sys_log = []\<rparr>"

section \<open>Invariant\<close>

fun pending :: "wheel_pc \<Rightarrow> wheelTimeOut list" where
  "pending (Notifying tasks) = tasks"
| "pending _ = []"

definition timers :: "tw_sys \<Rightarrow> wheelTimeOut set" where
  "timers s = snd ` set (entries (wheel (sys_tw s))) \<union> set (pending (sys_pc s))"

text \<open>The ids in use: those of the timers in the slots and of the tasks in hand.\<close>

definition known :: "tw_sys \<Rightarrow> string set" where
  "known s = fst ` set (entries (wheel (sys_tw s))) \<union> wt_id ` set (pending (sys_pc s))"

definition sys_inv :: "tw_sys \<Rightarrow> bool" where
  "sys_inv s \<longleftrightarrow> (let t = sys_tw s; ts = pending (sys_pc s) in
     tw_ok (t\<lparr>wheelCursor := 0\<rparr>) \<and> 0 \<le> wheelCursor t \<and> wheelCursor t \<le> wheelCount t \<and>
     (wheelCursor t = wheelCount t \<longrightarrow> sys_pc s = Bumped) \<and>
     distinct (map wt_id ts) \<and>
     (\<forall>to \<in> set ts. timer_ok to \<and> wt_id to \<notin> fst ` set (entries (wheel t))))"

fun act_ids :: "tw_act \<Rightarrow> string list" where
  "act_ids (ACall c) = op_ids c"
| "act_ids _ = []"

fun act_int64 :: "tw_act \<Rightarrow> bool" where
  "act_int64 (ACall c) = op_int64 c"
| "act_int64 _ = True"

text \<open>
  The two ways to panic. A call that schedules at the moment when the cursor is past the end
  of the wheel, with a delay that takes it a whole turn further; and a sender whose channel
  has been closed.
\<close>

fun op_delay :: "tw_op \<Rightarrow> int" where
  "op_delay (OpAfterFunc _ d _ f) = (if f = None then 0 else d)"
| "op_delay (OpAfter _ _ d _) = d"
| "op_delay _ = 0"

definition past_end :: "tw_op \<Rightarrow> timer_wheel \<Rightarrow> bool" where
  "past_end c t \<longleftrightarrow>
     0 < op_delay c \<and> wheelCursor t = wheelCount t \<and> rel_index t (op_delay c) = wheelCount t"

fun on_closed :: "tw_act \<Rightarrow> tw_sys \<Rightarrow> bool" where
  "on_closed (ASend i) s = (\<exists>c b. sender_at i s = Some (Sending (Some c) b) \<and> c \<in> set (sys_closed s))"
| "on_closed (AClose i) s = (\<exists>c. sender_at i s = Some (Closing c) \<and> c \<in> set (sys_closed s))"
| "on_closed _ s = False"

fun panic_moment :: "tw_act \<Rightarrow> tw_sys \<Rightarrow> bool" where
  "panic_moment (ACall c) s = past_end c (sys_tw s)"
| "panic_moment a s = on_closed a s"

text \<open>A tick whose steps nothing comes between is the tick of the wheel taken as one operation.\<close>

lemma notify_all:
  "sys_pc s = Notifying tasks \<Longrightarrow> notifyExpiredTimeOut '''' tasks (sys_tw s) = Some (es, t) \<Longrightarrow>
   sys_run (replicate (Suc (length tasks)) ANotify) s =
     Runs (s\<lparr>sys_tw := t, sys_pc := AtSelect, sys_log := sys_log s @ es,
             sys_senders := sys_senders s @ concat (map spawn es)\<rparr>)"
proof (induction tasks arbitrary: s es)
  case Nil
  then show ?case by (cases s) (simp add: notify_def)
next
  case (Cons to tasks)
  then obtain e t1 es' where n: "notify_one '''' to (sys_tw s) = Some (e, t1)"
    "notifyExpiredTimeOut '''' tasks t1 = Some (es', t)" "es = e # es'"
    by (auto simp: bind_eq_Some_conv split: prod.splits)
  let ?s = "s\<lparr>sys_tw := t1, sys_pc := Notifying tasks, sys_log := sys_log s @ [e],
    sys_senders := sys_senders s @ spawn e\<rparr>"
  have "sys_run (replicate (Suc (length tasks)) ANotify) ?s =
     Runs (?s\<lparr>sys_tw := t, sys_pc := AtSelect, sys_log := sys_log ?s @ es',
             sys_senders := sys_senders ?s @ concat (map spawn es')\<rparr>)"
    by (rule Cons.IH) (simp_all add: n)
  with Cons.prems(1) n show ?case by (simp add: notify_def)
qed

lemma sys_run_append:
  "sys_run (as @ bs) s = (case sys_run as s of Runs s' \<Rightarrow> sys_run bs s' | r \<Rightarrow> r)"
  by (induction as arbitrary: s) (auto split: tw_result.splits)

lemma tick_uninterrupted:
  assumes "sys_pc s = AtSelect" "tick '''' (sys_tw s) = Some (es, t)"
  shows "\<exists>n. sys_run ([ABump, AWrap, AFetch] @ replicate n ANotify) s =
     Runs (s\<lparr>sys_tw := t, sys_log := sys_log s @ es,
             sys_senders := sys_senders s @ concat (map spawn es)\<rparr>)"
proof -
  from assms(2) obtain tasks t1 where f:
    "fetchExpiredTimeouts (wheelCursor (move_cursor (sys_tw s))) (move_cursor (sys_tw s)) = Some (tasks, t1)"
    "notifyExpiredTimeOut '''' tasks t1 = Some (es, t)"
    by (auto simp: tick_def Let_def bind_eq_Some_conv split: prod.splits)
  let ?s = "s\<lparr>sys_tw := t1, sys_pc := Notifying tasks\<rparr>"
  have "sys_run [ABump, AWrap, AFetch] s = Runs ?s"
    using assms(1) f(1)
    by (auto simp: bump_def wrap_cursor_def fetch_def move_cursor_def Let_def split: if_splits)
  moreover have "sys_run (replicate (Suc (length tasks)) ANotify) ?s =
     Runs (?s\<lparr>sys_tw := t, sys_pc := AtSelect, sys_log := sys_log ?s @ es,
             sys_senders := sys_senders ?s @ concat (map spawn es)\<rparr>)"
    by (rule notify_all) (simp_all add: f)
  moreover have "?s\<lparr>sys_tw := t, sys_pc := AtSelect, sys_log := sys_log ?s @ es,
             sys_senders := sys_senders ?s @ concat (map spawn es)\<rparr> =
     s\<lparr>sys_tw := t, sys_log := sys_log s @ es, sys_senders := sys_senders s @ concat (map spawn es)\<rparr>"
    using assms(1) by (cases s) simp
  ultimately show ?thesis unfolding sys_run_append
    by (intro exI [of _ "Suc (length tasks)"]) (simp del: sys_run.simps replicate_Suc)
qed


section \<open>Every step keeps the invariant\<close>

abbreviation at0 :: "timer_wheel \<Rightarrow> timer_wheel" where
  "at0 t \<equiv> t\<lparr>wheelCursor := 0\<rparr>"

abbreviation keys :: "timer_wheel \<Rightarrow> string set" where
  "keys t \<equiv> fst ` set (entries (wheel t))"

text \<open>What an operation leaves of the wheel: its shape, with the cursor where it was.\<close>

definition same_shape :: "timer_wheel \<Rightarrow> timer_wheel \<Rightarrow> bool" where
  "same_shape t t' \<longleftrightarrow> wheelCursor t' = wheelCursor t \<and> wheelCount t' = wheelCount t \<and>
     tickDuration t' = tickDuration t"

lemma schedule_any:
  assumes ok: "tw_ok (at0 t)" and c: "0 \<le> wheelCursor t" "wheelCursor t \<le> wheelCount t"
    and d: "0 < wt_delay to" "wt_delay to < 2 ^ 63"
    and k: "k = (if wt_id to = '''' then g else wt_id to)" "k \<noteq> ''''" and new: "k \<notin> keys t"
  shows "if wheelCursor t = wheelCount t \<and> rel_index t (wt_delay to) = wheelCount t
    then scheduleTimeOut g to t = None
    else \<exists>t'. scheduleTimeOut g to t = Some (k, t') \<and> tw_ok (at0 t') \<and> same_shape t t' \<and>
      set (entries (wheel t')) = insert (k, placed t g to) (set (entries (wheel t)))"
proof -
  have wf: "tw_wf (at0 t)" using ok by (simp add: tw_ok_def)
  have "rel_index (at0 t) (wt_delay to) = rel_index t (wt_delay to)" by (simp add: rel_index_def)
  with rel_index_range [OF wf d(1)] have r: "0 \<le> rel_index t (wt_delay to)" "rel_index t (wt_delay to) \<le> wheelCount t"
    by simp_all
  have idx: "wt_index (placed t g to) = wheelCursor t + rel_index t (wt_delay to) -
    (if wraps t (wt_delay to) then wheelCount t else 0)" by (simp add: placed_def Let_def)
  show ?thesis
  proof (cases "wheelCursor t = wheelCount t \<and> rel_index t (wt_delay to) = wheelCount t")
    case True
    then have "wt_index (placed t g to) = wheelCount t" "int (length (wheel t)) = wheelCount t"
      using r wf by (auto simp: idx wraps_def tw_wf_def)
    then have "slice_get (wheel t) (wt_index (placed t g to)) = None" by (simp add: slice_get_def)
    with True show ?thesis by (simp add: schedule_eq [OF wf d])
  next
    case False
    then have "0 \<le> wt_index (placed t g to)" "wt_index (placed t g to) < wheelCount t"
      using r c by (auto simp: idx wraps_def)
    from schedule_ok_at [OF ok d k new this] False show ?thesis by (auto simp: same_shape_def)
  qed
qed

fun op_chans :: "tw_op \<Rightarrow> nat list" where
  "op_chans (OpAfter _ ch _ _) = [ch]"
| "op_chans _ = []"

text \<open>A timer as a call makes it.\<close>

definition made_by :: "tw_op \<Rightarrow> wheelTimeOut \<Rightarrow> bool" where
  "made_by c to \<longleftrightarrow> wt_id to \<in> set (op_ids c) \<and> set_option (wt_outCh to) \<subseteq> set (op_chans c) \<and>
     wt_expTimes to < wt_times to"

lemma new_timer_sel [simp]:
  "wt_delay (new_timer d n f ch) = d" "wt_id (new_timer d n f ch) = ''''"
  "wt_id (placed t g (new_timer d n f ch)) = g"
  by (simp_all add: new_timer_def placed_def Let_def)

lemma made_by_placed:
  assumes "g \<noteq> ''''"
  shows "made_by (OpAfterFunc g d n (Some f)) (placed t g (new_timer d n (Some f) None))"
    "made_by (OpAfter g ch d n) (placed t g (new_timer d n None (Some ch)))"
  by (simp_all add: made_by_def placed_def new_timer_def Let_def norm_times_def)

lemma call_any:
  assumes ok: "tw_ok (at0 t)" and cur: "0 \<le> wheelCursor t" "wheelCursor t \<le> wheelCount t"
    and c: "c \<noteq> OpTick" "op_int64 c" "\<forall>g \<in> set (op_ids c). g \<noteq> '''' \<and> g \<notin> keys t"
  shows "if past_end c t then tw_call c t = None
    else \<exists>t'. tw_call c t = Some t' \<and> tw_ok (at0 t') \<and> same_shape t t' \<and>
      (\<forall>(k, to) \<in> set (entries (wheel t')). (k, to) \<in> set (entries (wheel t)) \<or> k = wt_id to \<and> made_by c to) \<and>
      (\<forall>k. c = OpCancel k \<longrightarrow> k \<notin> keys t')"
proof (cases c)
  case (OpAfterFunc g d n f)
  with c have g: "g \<noteq> ''''" "g \<notin> keys t" "d < 2 ^ 63" by simp_all
  show ?thesis
  proof (cases "f = None \<or> d \<le> 0")
    case True
    with OpAfterFunc ok show ?thesis by (auto simp: AfterFunc_def past_end_def same_shape_def)
  next
    case False
    then obtain f' where f: "f = Some f'" "0 < d" by auto
    let ?to = "new_timer d n (Some f') None"
    have "0 < wt_delay ?to" "wt_delay ?to < 2 ^ 63" "g = (if wt_id ?to = '''' then g else wt_id ?to)"
      using g f by simp_all
    from schedule_any [OF ok cur this g(1,2)] made_by_placed(1) [OF g(1), of d n f' t] OpAfterFunc f
    show ?thesis by (auto simp: AfterFunc_schedules past_end_def split: if_splits)
  qed
next
  case (OpAfter g ch d n)
  with c have g: "g \<noteq> ''''" "g \<notin> keys t" "d < 2 ^ 63" by simp_all
  show ?thesis
  proof (cases "d \<le> 0")
    case True
    with OpAfter ok show ?thesis by (auto simp: After_def past_end_def same_shape_def)
  next
    case False
    let ?to = "new_timer d n None (Some ch)"
    have "0 < wt_delay ?to" "wt_delay ?to < 2 ^ 63" "g = (if wt_id ?to = '''' then g else wt_id ?to)"
      using g False by simp_all
    from schedule_any [OF ok cur this g(1,2)] made_by_placed(2) [OF g(1), of ch d n t] OpAfter False
    show ?thesis by (auto simp: After_schedules past_end_def split: if_splits)
  qed
next
  case (OpCancel k)
  from Cancel_ok [OF ok, of k] obtain t' where
    t': "Cancel k (at0 t) = Some t'" "tw_ok t'" "entries (wheel t') = AList.delete k (entries (wheel t))" by auto
  then have "Cancel k t = Some (t\<lparr>wheel := wheel t'\<rparr>)" "t' = t\<lparr>wheel := wheel t', wheelCursor := 0\<rparr>"
    by (auto simp: Cancel_def)
  with t' OpCancel show ?thesis by (auto simp: past_end_def same_shape_def AList.delete_eq)
qed (use c in simp)


lemma fetch_any:
  assumes ok: "tw_ok t"
  shows "\<exists>tasks t1. fetchExpiredTimeouts (wheelCursor t) t = Some (tasks, t1) \<and> tw_ok t1 \<and> same_shape t t1 \<and>
    distinct (map wt_id tasks) \<and>
    (\<forall>to \<in> set tasks. timer_ok to \<and> wt_id to \<notin> keys t1 \<and> (wt_id to, to) \<in> set (entries (wheel t))) \<and>
    (\<forall>(k, to') \<in> set (entries (wheel t1)). \<exists>to c. (k, to) \<in> set (entries (wheel t)) \<and> to' = aged c to) \<and>
    (\<forall>k to. (k, to) \<in> set (entries (wheel t)) \<and> wt_index to = wheelCursor t \<and> wt_rounds to \<le> 0 \<longrightarrow> to \<in> set tasks)"
proof -
  define b where "b = t\<lparr>wheelCursor := if wheelCursor t = 0 then wheelCount t - 1 else wheelCursor t - 1\<rparr>"
  have c: "0 \<le> wheelCursor t" "wheelCursor t < wheelCount t" using ok by (simp_all add: tw_ok_def tw_wf_def)
  then have mb: "t = move_cursor b" by (simp add: move_cursor_def Let_def b_def)
  have sb: "wheel b = wheel t" "wheelCount b = wheelCount t" "tickDuration b = tickDuration t" "at0 b = at0 t"
    by (simp_all add: b_def)
  have "0 \<le> wheelCursor b" "wheelCursor b < wheelCount b" using c by (auto simp: b_def)
  with ok sb(4) have okb: "tw_ok b" using tw_ok_cursor [of t] tw_ok_cursor [of b] by simp
  have uniq: "to = to'" if "(k, to) \<in> set (entries (wheel t))" "(k, to') \<in> set (entries (wheel t))" for k to to'
    using that ok by (metis tw_ok_def eq_key_imp_eq_value)
  from fetch_ok [OF okb mb] obtain tasks t1 where
    f: "fetchExpiredTimeouts (wheelCursor t) t = Some (tasks, t1)" "tw_ok t1" "same_shape t t1"
    and d: "distinct (map wt_id tasks)"
    and tasks: "\<forall>to. to \<in> set tasks \<longleftrightarrow> (wt_id to, to) \<in> set (entries (wheel t)) \<and> ticks_left b to = 1"
    and e1: "\<forall>k to'. (k, to') \<in> set (entries (wheel t1)) \<longleftrightarrow>
      (\<exists>to. (k, to) \<in> set (entries (wheel t)) \<and> ticks_left b to \<noteq> 1 \<and> to' = aged (wheelCursor t) to)"
    unfolding sb same_shape_def by blast
  have "to \<in> set tasks"
    if "(k, to) \<in> set (entries (wheel t))" "wt_index to = wheelCursor t" "wt_rounds to \<le> 0" for k to
  proof -
    have e: "(k, to) \<in> set (entries (wheel b))" using that(1) sb by simp
    have "tw_wf b" using okb by (simp add: tw_ok_def)
    from ticks_left_step(2) [OF this entry_bounds(3,4,5) [OF okb e]] that mb have "ticks_left b to = 1" by simp
    with tasks that(1) entry_bounds(1) [OF ok that(1)] show ?thesis by blast
  qed
  then have due: "\<forall>k to. (k, to) \<in> set (entries (wheel t)) \<and> wt_index to = wheelCursor t \<and> wt_rounds to \<le> 0
    \<longrightarrow> to \<in> set tasks" by blast
  have "timer_ok to \<and> wt_id to \<notin> keys t1 \<and> (wt_id to, to) \<in> set (entries (wheel t))" if "to \<in> set tasks" for to
  proof -
    from that tasks have to: "(wt_id to, to) \<in> set (entries (wheel t))" "ticks_left b to = 1" by simp_all
    have "wt_id to \<notin> keys t1"
    proof
      assume "wt_id to \<in> keys t1"
      then obtain to' where "(wt_id to, to') \<in> set (entries (wheel t1))" by auto
      with e1 obtain to'' where "(wt_id to, to'') \<in> set (entries (wheel t))" "ticks_left b to'' \<noteq> 1" by blast
      with uniq [OF to(1)] to(2) show False by metis
    qed
    with to(1) entry_bounds(2) [OF ok to(1)] show ?thesis by blast
  qed
  then have "\<forall>to \<in> set tasks. timer_ok to \<and> wt_id to \<notin> keys t1 \<and> (wt_id to, to) \<in> set (entries (wheel t))"
    by blast
  moreover have "\<forall>(k, to') \<in> set (entries (wheel t1)). \<exists>to c. (k, to) \<in> set (entries (wheel t)) \<and> to' = aged c to"
    using e1 by blast
  ultimately show ?thesis using f d due by (intro exI [of _ tasks] exI [of _ t1] conjI)
qed

lemma notify_any:
  assumes "tw_ok t" "timer_ok to" "wt_id to \<notin> keys t"
  shows "\<exists>t'. notify_one '''' to t = Some (expiry_event to, t') \<and> tw_ok t' \<and> same_shape t t' \<and>
    set (entries (wheel t')) = set (entries (wheel t)) \<union>
      (if again to then {(wt_id to, placed t '''' (expired to))} else {})"
  using notify_one_ok [OF assms, of "''''"] by (auto simp: same_shape_def)

lemma sys_inv_ok: "sys_inv s \<Longrightarrow> sys_pc s \<noteq> Bumped \<Longrightarrow> tw_ok (sys_tw s)"
  by (subst tw_ok_cursor) (auto simp: sys_inv_def Let_def)

text \<open>What a step keeps: the invariant; no new id but those of its call; no event but of a task in hand.\<close>

definition keeps :: "string set \<Rightarrow> tw_sys \<Rightarrow> tw_sys \<Rightarrow> bool" where
  "keeps new s s' \<longleftrightarrow> sys_inv s' \<and> known s' \<subseteq> known s \<union> new \<and>
     (\<exists>es. sys_log s' = sys_log s @ es \<and> event_id ` set es \<subseteq> known s)"

lemma keeps_senders:
  "sys_inv s \<Longrightarrow> keeps new s (s\<lparr>sys_senders := x\<rparr>)"
  "sys_inv s \<Longrightarrow> keeps new s (s\<lparr>sys_closed := y, sys_senders := x\<rparr>)"
  by (simp_all add: keeps_def sys_inv_def known_def Let_def)

lemma call_keeps:
  assumes inv: "sys_inv s" and c: "c \<noteq> OpTick" "op_int64 c" "\<forall>g \<in> set (op_ids c). g \<noteq> '''' \<and> g \<notin> known s"
    and t': "tw_call c (sys_tw s) = Some t'"
  shows "keeps (set (op_ids c)) s (s\<lparr>sys_tw := t'\<rparr>)"
proof -
  have i: "tw_ok (at0 (sys_tw s))" "0 \<le> wheelCursor (sys_tw s)" "wheelCursor (sys_tw s) \<le> wheelCount (sys_tw s)"
    using inv by (simp_all add: sys_inv_def Let_def)
  have "\<forall>g \<in> set (op_ids c). g \<noteq> '''' \<and> g \<notin> keys (sys_tw s)" using c by (simp add: known_def)
  from call_any [OF i c(1,2) this] t' have
    n: "tw_ok (at0 t')" "same_shape (sys_tw s) t'" and
    e: "\<forall>(k, to) \<in> set (entries (wheel t')). (k, to) \<in> set (entries (wheel (sys_tw s))) \<or> k = wt_id to \<and> made_by c to"
    by (auto split: if_splits)
  have k: "keys t' \<subseteq> keys (sys_tw s) \<union> set (op_ids c)"
  proof
    fix k assume "k \<in> keys t'"
    then obtain to where "(k, to) \<in> set (entries (wheel t'))" by auto
    from bspec [OF e this] have "(k, to) \<in> set (entries (wheel (sys_tw s))) \<or> k = wt_id to \<and> made_by c to"
      by simp
    then show "k \<in> keys (sys_tw s) \<union> set (op_ids c)" by (force simp: made_by_def)
  qed
  have "wt_id to \<notin> keys t'" if to: "to \<in> set (pending (sys_pc s))" for to
  proof -
    have "wt_id to \<in> known s" using to by (simp add: known_def)
    then have "wt_id to \<notin> set (op_ids c)" using c by blast
    moreover have "wt_id to \<notin> keys (sys_tw s)" using inv to by (simp add: sys_inv_def Let_def)
    ultimately show ?thesis using k by blast
  qed
  then have "sys_inv (s\<lparr>sys_tw := t'\<rparr>)" using inv n by (simp add: sys_inv_def same_shape_def Let_def)
  moreover have "known (s\<lparr>sys_tw := t'\<rparr>) \<subseteq> known s \<union> set (op_ids c)" using k by (auto simp: known_def)
  ultimately show ?thesis by (simp add: keeps_def)
qed

lemma fetch_keeps:
  assumes inv: "sys_inv s" and pc: "sys_pc s = Moved"
  shows "\<exists>tasks t1. fetch s = Runs (s\<lparr>sys_tw := t1, sys_pc := Notifying tasks\<rparr>) \<and>
    keeps {} s (s\<lparr>sys_tw := t1, sys_pc := Notifying tasks\<rparr>) \<and>
    (\<forall>to \<in> set tasks. (wt_id to, to) \<in> set (entries (wheel (sys_tw s)))) \<and>
    (\<forall>(k, to') \<in> set (entries (wheel t1)). \<exists>to c. (k, to) \<in> set (entries (wheel (sys_tw s))) \<and> to' = aged c to) \<and>
    (\<forall>k to. (k, to) \<in> set (entries (wheel (sys_tw s))) \<and> wt_index to = wheelCursor (sys_tw s) \<and> wt_rounds to \<le> 0
      \<longrightarrow> to \<in> set tasks)"
proof -
  have ok: "tw_ok (sys_tw s)" using inv pc by (simp add: sys_inv_ok)
  from fetch_any [OF this] obtain tasks t1 where
    f: "fetchExpiredTimeouts (wheelCursor (sys_tw s)) (sys_tw s) = Some (tasks, t1)" "tw_ok t1"
      "same_shape (sys_tw s) t1" "distinct (map wt_id tasks)" and
    ts: "\<forall>to \<in> set tasks. timer_ok to \<and> wt_id to \<notin> keys t1 \<and> (wt_id to, to) \<in> set (entries (wheel (sys_tw s)))" and
    e: "\<forall>(k, to') \<in> set (entries (wheel t1)). \<exists>to c. (k, to) \<in> set (entries (wheel (sys_tw s))) \<and> to' = aged c to" and
    due: "\<forall>k to. (k, to) \<in> set (entries (wheel (sys_tw s))) \<and> wt_index to = wheelCursor (sys_tw s) \<and> wt_rounds to \<le> 0
      \<longrightarrow> to \<in> set tasks"
    by blast
  have "wt_id ` set tasks \<subseteq> keys (sys_tw s)" using ts by (auto intro: rev_image_eqI)
  moreover have "keys t1 \<subseteq> keys (sys_tw s)"
  proof
    fix k assume "k \<in> keys t1"
    then obtain to' where "(k, to') \<in> set (entries (wheel t1))" by auto
    from bspec [OF e this] show "k \<in> keys (sys_tw s)" by (auto intro: rev_image_eqI)
  qed
  ultimately have "known (s\<lparr>sys_tw := t1, sys_pc := Notifying tasks\<rparr>) \<subseteq> known s"
    by (auto simp: known_def)
  moreover have "sys_inv (s\<lparr>sys_tw := t1, sys_pc := Notifying tasks\<rparr>)"
    using f(2,4) ts by (simp add: sys_inv_def Let_def tw_ok_cursor [of t1])
  ultimately have "keeps {} s (s\<lparr>sys_tw := t1, sys_pc := Notifying tasks\<rparr>)" by (simp add: keeps_def)
  moreover have "fetch s = Runs (s\<lparr>sys_tw := t1, sys_pc := Notifying tasks\<rparr>)"
    using f(1) pc by (simp add: fetch_def)
  moreover have "\<forall>to \<in> set tasks. (wt_id to, to) \<in> set (entries (wheel (sys_tw s)))" using ts by blast
  ultimately show ?thesis using e due by (intro exI [of _ tasks] exI [of _ t1] conjI)
qed

lemma notify_keeps:
  assumes inv: "sys_inv s" and pc: "sys_pc s = Notifying (to # tasks)"
  shows "\<exists>t1. notify s = Runs (s\<lparr>sys_tw := t1, sys_pc := Notifying tasks,
        sys_log := sys_log s @ [expiry_event to], sys_senders := sys_senders s @ spawn (expiry_event to)\<rparr>) \<and>
    keeps {} s (s\<lparr>sys_tw := t1, sys_pc := Notifying tasks,
        sys_log := sys_log s @ [expiry_event to], sys_senders := sys_senders s @ spawn (expiry_event to)\<rparr>) \<and>
    set (entries (wheel t1)) = set (entries (wheel (sys_tw s))) \<union>
      (if again to then {(wt_id to, placed (sys_tw s) '''' (expired to))} else {})"
proof -
  have ok: "tw_ok (sys_tw s)" using inv pc by (simp add: sys_inv_ok)
  have to: "timer_ok to" "wt_id to \<notin> keys (sys_tw s)" and d: "distinct (map wt_id (to # tasks))"
    and ts: "\<forall>to' \<in> set tasks. timer_ok to' \<and> wt_id to' \<notin> keys (sys_tw s)"
    using inv pc by (simp_all add: sys_inv_def Let_def)
  from notify_any [OF ok to] obtain t1 where
    n: "notify_one '''' to (sys_tw s) = Some (expiry_event to, t1)" "tw_ok t1" "same_shape (sys_tw s) t1" and
    e: "set (entries (wheel t1)) = set (entries (wheel (sys_tw s))) \<union>
      (if again to then {(wt_id to, placed (sys_tw s) '''' (expired to))} else {})" by blast
  have k: "keys t1 \<subseteq> insert (wt_id to) (keys (sys_tw s))" unfolding e by auto
  let ?s = "s\<lparr>sys_tw := t1, sys_pc := Notifying tasks, sys_log := sys_log s @ [expiry_event to],
    sys_senders := sys_senders s @ spawn (expiry_event to)\<rparr>"
  have "wt_id to' \<notin> keys t1" if "to' \<in> set tasks" for to'
  proof -
    have "wt_id to' \<noteq> wt_id to" using d that by (metis distinct.simps(2) image_eqI list.simps(9) set_map)
    with k ts that show ?thesis by blast
  qed
  then have "sys_inv ?s" using n(2) d ts by (simp add: sys_inv_def Let_def tw_ok_cursor [of t1])
  moreover have "known ?s \<subseteq> known s" using k pc by (auto simp: known_def)
  ultimately have "keeps {} s ?s" using pc by (simp add: keeps_def known_def)
  with n(1) pc e show ?thesis by (auto simp: notify_def)
qed


text \<open>A step panics at a panic moment only, and otherwise keeps the invariant.\<close>

lemma sys_step_ok:
  assumes inv: "sys_inv s" and a: "act_int64 a" "\<forall>g \<in> set (act_ids a). g \<noteq> '''' \<and> g \<notin> known s"
  shows "sys_step a s = Panics \<longleftrightarrow> panic_moment a s"
    and "sys_step a s = Runs s' \<Longrightarrow> keeps (set (act_ids a)) s s'"
proof -
  have "(sys_step a s = Panics \<longleftrightarrow> panic_moment a s) \<and>
    (sys_step a s = Runs s' \<longrightarrow> keeps (set (act_ids a)) s s')"
  proof (cases a)
    case (ACall c)
    show ?thesis
    proof (cases "c = OpTick")
      case True
      with ACall show ?thesis by (simp add: past_end_def)
    next
      case False
      have i: "tw_ok (at0 (sys_tw s))" "0 \<le> wheelCursor (sys_tw s)" "wheelCursor (sys_tw s) \<le> wheelCount (sys_tw s)"
        using inv by (simp_all add: sys_inv_def Let_def)
      have c: "op_int64 c" "\<forall>g \<in> set (op_ids c). g \<noteq> '''' \<and> g \<notin> known s" using a ACall by simp_all
      then have "\<forall>g \<in> set (op_ids c). g \<noteq> '''' \<and> g \<notin> keys (sys_tw s)" by (simp add: known_def)
      from call_any [OF i False c(1) this] call_keeps [OF inv False c] ACall False show ?thesis
        by (auto split: if_splits option.splits)
    qed
  next
    case ABump
    have "wheelCursor (sys_tw s) < wheelCount (sys_tw s)" if "sys_pc s = AtSelect"
      using sys_inv_ok [OF inv] that by (simp add: tw_ok_def tw_wf_def)
    with inv ABump show ?thesis by (auto simp: bump_def keeps_def sys_inv_def known_def Let_def)
  next
    case AWrap
    moreover have "0 < wheelCount (sys_tw s)"
      using inv by (simp add: sys_inv_def Let_def tw_ok_def tw_wf_def)
    ultimately show ?thesis using inv
      by (auto simp: wrap_cursor_def keeps_def sys_inv_def known_def Let_def)
  next
    case AFetch
    with fetch_keeps [OF inv] show ?thesis by (cases "sys_pc s = Moved") (auto simp: fetch_def)
  next
    case ANotify
    show ?thesis
    proof (cases "sys_pc s")
      case (Notifying ts)
      show ?thesis
      proof (cases ts)
        case Nil
        have "keeps {} s (s\<lparr>sys_pc := AtSelect\<rparr>)"
          using inv Notifying Nil by (auto simp: keeps_def sys_inv_def known_def Let_def)
        with Notifying Nil ANotify show ?thesis by (auto simp: notify_def)
      next
        case (Cons to tasks)
        with Notifying have "sys_pc s = Notifying (to # tasks)" by simp
        from notify_keeps [OF inv this] ANotify show ?thesis by auto
      qed
    qed (simp_all add: ANotify notify_def)
  next
    case AStop
    with inv show ?thesis by (auto simp: Stop_def keeps_def sys_inv_def known_def Let_def)
  next
    case (ARecv i)
    with inv show ?thesis
      by (auto simp: recv_def keeps_senders split: option.splits sender.splits if_splits)
  next
    case (ASend i)
    then show ?thesis by (auto simp: send_fails_def split: option.splits sender.splits if_splits)
  next
    case (AClose i)
    with inv show ?thesis
      by (auto simp: close_out_def keeps_senders split: option.splits sender.splits if_splits)
  qed
  then show "sys_step a s = Panics \<longleftrightarrow> panic_moment a s"
    "sys_step a s = Runs s' \<Longrightarrow> keeps (set (act_ids a)) s s'" by simp_all
qed

text \<open>The ids that a run draws are non-empty, do not repeat, and are not in use before.\<close>

definition run_ids :: "tw_act list \<Rightarrow> string list" where
  "run_ids as = concat (map act_ids as)"

definition run_ok :: "tw_act list \<Rightarrow> string set \<Rightarrow> bool" where
  "run_ok as used \<longleftrightarrow> (\<forall>a \<in> set as. act_int64 a) \<and> distinct (run_ids as) \<and> '''' \<notin> set (run_ids as) \<and>
     set (run_ids as) \<inter> used = {}"

lemma run_ok_Cons:
  "run_ok (a # as) used \<Longrightarrow> act_int64 a \<and> (\<forall>g \<in> set (act_ids a). g \<noteq> '''' \<and> g \<notin> used) \<and>
     run_ok as (used \<union> set (act_ids a))"
  by (auto simp: run_ok_def run_ids_def)

lemma run_ok_mono: "run_ok as used \<Longrightarrow> used' \<subseteq> used \<Longrightarrow> run_ok as used'"
  by (auto simp: run_ok_def)

lemma run_ok_append: "run_ok (as @ bs) used \<Longrightarrow> run_ok as used \<and> run_ok bs (used \<union> set (run_ids as))"
  by (auto simp: run_ok_def run_ids_def)

lemma sys_run_keeps:
  assumes "sys_inv s" "run_ok as (known s)" "sys_run as s = Runs s'"
  shows "sys_inv s'" "known s' \<subseteq> known s \<union> set (run_ids as)"
    "\<exists>es. sys_log s' = sys_log s @ es \<and> event_id ` set es \<subseteq> known s \<union> set (run_ids as)"
proof -
  have "sys_inv s' \<and> known s' \<subseteq> known s \<union> set (run_ids as) \<and>
    (\<exists>es. sys_log s' = sys_log s @ es \<and> event_id ` set es \<subseteq> known s \<union> set (run_ids as))"
    using assms
  proof (induction as arbitrary: s)
    case (Cons a as)
    from run_ok_Cons [OF Cons.prems(2)] have a: "act_int64 a" "\<forall>g \<in> set (act_ids a). g \<noteq> '''' \<and> g \<notin> known s"
      "run_ok as (known s \<union> set (act_ids a))" by auto
    from Cons.prems(3) obtain s1 where s1: "sys_step a s = Runs s1" "sys_run as s1 = Runs s'"
      by (auto split: tw_result.splits)
    from sys_step_ok(2) [OF Cons.prems(1) a(1,2) s1(1)] obtain es where
      k: "sys_inv s1" "known s1 \<subseteq> known s \<union> set (act_ids a)" "sys_log s1 = sys_log s @ es" "event_id ` set es \<subseteq> known s"
      by (auto simp: keeps_def)
    from Cons.IH [OF k(1) run_ok_mono [OF a(3) k(2)] s1(2)] obtain es' where
      h: "sys_inv s'" "known s' \<subseteq> known s1 \<union> set (run_ids as)" "sys_log s' = sys_log s1 @ es'"
      "event_id ` set es' \<subseteq> known s1 \<union> set (run_ids as)" by blast
    have r: "set (run_ids (a # as)) = set (act_ids a) \<union> set (run_ids as)" by (simp add: run_ids_def)
    have "sys_log s' = sys_log s @ (es @ es')" "event_id ` set (es @ es') \<subseteq> known s \<union> set (run_ids (a # as))"
      using k(2,3,4) h(3,4) unfolding r by (simp, auto)
    with h(1,2) k(2) show ?case unfolding r by blast
  qed (auto simp: run_ids_def)
  then show "sys_inv s'" "known s' \<subseteq> known s \<union> set (run_ids as)"
    "\<exists>es. sys_log s' = sys_log s @ es \<and> event_id ` set es \<subseteq> known s \<union> set (run_ids as)" by blast+
qed

lemma start_sys_inv: "tw_ok t \<Longrightarrow> sys_inv (start_sys t)"
  by (auto simp: start_sys_def sys_inv_def Let_def tw_ok_cursor [of t])

lemma known_start: "known (start_sys t) = keys t"
  by (simp add: start_sys_def known_def)

text \<open>A timer that is cancelled when it is not in hand is gone.\<close>

lemma cancelled_is_gone:
  assumes inv: "sys_inv s" and r: "run_ok as (known s)" "k \<notin> set (run_ids as)" "k \<notin> wt_id ` set (pending (sys_pc s))"
    and s': "sys_run (ACall (OpCancel k) # as) s = Runs s'"
  shows "events_of k (sys_log s') = events_of k (sys_log s) \<and> k \<notin> known s'"
proof -
  from s' obtain t1 where t1: "Cancel k (sys_tw s) = Some t1" "sys_run as (s\<lparr>sys_tw := t1\<rparr>) = Runs s'"
    by (auto split: option.splits)
  have i: "tw_ok (at0 (sys_tw s))" "0 \<le> wheelCursor (sys_tw s)" "wheelCursor (sys_tw s) \<le> wheelCount (sys_tw s)"
    using inv by (simp_all add: sys_inv_def Let_def)
  have "k \<notin> keys t1" using call_any [OF i, of "OpCancel k"] t1(1) by (simp add: past_end_def)
  then have k: "k \<notin> known (s\<lparr>sys_tw := t1\<rparr>)" using r(3) by (simp add: known_def)
  have "keeps {} s (s\<lparr>sys_tw := t1\<rparr>)" using call_keeps [OF inv, of "OpCancel k"] t1(1) by simp
  then have s1: "sys_inv (s\<lparr>sys_tw := t1\<rparr>)" "known (s\<lparr>sys_tw := t1\<rparr>) \<subseteq> known s" by (simp_all add: keeps_def)
  from sys_run_keeps [OF s1(1) run_ok_mono [OF r(1) s1(2)] t1(2)] obtain es where
    es: "known s' \<subseteq> known (s\<lparr>sys_tw := t1\<rparr>) \<union> set (run_ids as)" "sys_log s' = sys_log s @ es"
    "event_id ` set es \<subseteq> known (s\<lparr>sys_tw := t1\<rparr>) \<union> set (run_ids as)" by auto
  with k r(2) have "k \<notin> event_id ` set es" by blast
  then have "events_of k es = []" by (auto simp: events_of_def filter_empty_conv)
  with es k r(2) show ?thesis by auto
qed

end
