(* ===== verification/TimerRaces.thy ===== *)
theory TimerRaces
  imports TimerConc
begin

text \<open>
  What goes wrong between the goroutines of the timer wheel (\<open>gtime/timerwheel.go\<close>) and
  what cannot: the invariant of the channels of \<open>After\<close>, the exact moments at which a
  step panics, the calls that a tick in progress defeats.
\<close>

section \<open>Channels\<close>

fun sender_chan :: "sender \<Rightarrow> nat list" where
  "sender_chan (Sending (Some c) _) = [c]"
| "sender_chan (Sending None _) = []"
| "sender_chan (Closing c) = [c]"

fun last_chan :: "sender \<Rightarrow> nat list" where
  "last_chan (Sending (Some c) True) = [c]"
| "last_chan (Closing c) = [c]"
| "last_chan _ = []"

definition sender_chans :: "sender list \<Rightarrow> nat list" where
  "sender_chans xs = concat (map sender_chan xs)"

text \<open>Two goroutines of one timer at work at the same time.\<close>

definition crowded :: "tw_sys \<Rightarrow> bool" where
  "crowded s \<longleftrightarrow> \<not> distinct (sender_chans (sys_senders s))"

definition timer_chans :: "tw_sys \<Rightarrow> nat set" where
  "timer_chans s = {c. \<exists>to \<in> timers s. wt_outCh to = Some c}"

definition used_chans :: "tw_sys \<Rightarrow> nat set" where
  "used_chans s = timer_chans s \<union> set (sender_chans (sys_senders s)) \<union> set (sys_closed s)"

definition chan_inv :: "tw_sys \<Rightarrow> bool" where
  "chan_inv s \<longleftrightarrow>
     (\<forall>to \<in> timers s. wt_expTimes to < wt_times to) \<and>
     (\<forall>to \<in> timers s. \<forall>to' \<in> timers s. wt_outCh to \<noteq> None \<and> wt_outCh to = wt_outCh to' \<longrightarrow> wt_id to = wt_id to') \<and>
     (\<forall>x \<in> set (sys_senders s). set (last_chan x) \<inter> timer_chans s = {}) \<and>
     set (sys_closed s) \<inter> (timer_chans s \<union> set (sender_chans (sys_senders s))) = {}"

lemma chan_invD:
  assumes "chan_inv s"
  shows "to \<in> timers s \<Longrightarrow> wt_expTimes to < wt_times to"
    "to \<in> timers s \<Longrightarrow> to' \<in> timers s \<Longrightarrow> wt_outCh to = Some c \<Longrightarrow> wt_outCh to' = Some c \<Longrightarrow> wt_id to = wt_id to'"
    "x \<in> set (sys_senders s) \<Longrightarrow> c \<in> set (last_chan x) \<Longrightarrow> c \<notin> timer_chans s"
    "c \<in> set (sys_closed s) \<Longrightarrow> c \<notin> timer_chans s"
    "c \<in> set (sys_closed s) \<Longrightarrow> c \<notin> set (sender_chans (sys_senders s))"
  using assms unfolding chan_inv_def by (blast, metis option.distinct(1), blast+)

text \<open>The timers afterwards are those from before, with their ids and channels.\<close>

definition derived :: "tw_sys \<Rightarrow> tw_sys \<Rightarrow> bool" where
  "derived s s' \<longleftrightarrow> (\<forall>to' \<in> timers s'. wt_expTimes to' < wt_times to' \<and>
     (\<exists>to \<in> timers s. wt_id to' = wt_id to \<and> wt_outCh to' = wt_outCh to))"

lemma derived_chans:
  "derived s s' \<Longrightarrow> timer_chans s' \<subseteq> timer_chans s"
  unfolding derived_def timer_chans_def by fastforce

lemma chan_inv_derived:
  assumes inv: "chan_inv s" and d: "derived s s'" and same: "sys_closed s' = sys_closed s"
    "sys_senders s' = sys_senders s"
  shows "chan_inv s' \<and> used_chans s' \<subseteq> used_chans s"
proof -
  have "timer_chans s' \<subseteq> timer_chans s" using derived_chans [OF d] .
  moreover have "wt_expTimes to < wt_times to" if "to \<in> timers s'" for to
    using d that by (auto simp: derived_def)
  moreover have "wt_id to = wt_id to'"
    if t: "to \<in> timers s'" "to' \<in> timers s'" "wt_outCh to \<noteq> None" "wt_outCh to = wt_outCh to'" for to to'
  proof -
    from d t(1) obtain u where u: "u \<in> timers s" "wt_id to = wt_id u" "wt_outCh to = wt_outCh u"
      by (auto simp: derived_def)
    from d t(2) obtain u' where u': "u' \<in> timers s" "wt_id to' = wt_id u'" "wt_outCh to' = wt_outCh u'"
      by (auto simp: derived_def)
    from t(3) obtain c where "wt_outCh to = Some c" by auto
    with chan_invD(2) [OF inv u(1) u'(1), of c] u u' t(4) show ?thesis by simp
  qed
  ultimately show ?thesis using inv unfolding chan_inv_def used_chans_def same
    by (intro conjI ballI impI; blast)
qed

fun act_chans :: "tw_act \<Rightarrow> nat list" where
  "act_chans (ACall c) = op_chans c"
| "act_chans _ = []"

lemma entries_timers: "(k, to) \<in> set (entries (wheel (sys_tw s))) \<Longrightarrow> to \<in> timers s"
  by (force simp: timers_def)

lemma call_chans:
  assumes inv: "sys_inv s" and ch: "chan_inv s" and c: "c \<noteq> OpTick" "op_int64 c"
    "\<forall>g \<in> set (op_ids c). g \<noteq> '''' \<and> g \<notin> known s" and new: "set (op_chans c) \<inter> used_chans s = {}"
    and t': "tw_call c (sys_tw s) = Some t'"
  shows "chan_inv (s\<lparr>sys_tw := t'\<rparr>) \<and> used_chans (s\<lparr>sys_tw := t'\<rparr>) \<subseteq> used_chans s \<union> set (op_chans c)"
proof -
  let ?s = "s\<lparr>sys_tw := t'\<rparr>"
  have i: "tw_ok (at0 (sys_tw s))" "0 \<le> wheelCursor (sys_tw s)" "wheelCursor (sys_tw s) \<le> wheelCount (sys_tw s)"
    using inv by (simp_all add: sys_inv_def Let_def)
  have "\<forall>g \<in> set (op_ids c). g \<noteq> '''' \<and> g \<notin> keys (sys_tw s)" using c by (simp add: known_def)
  from call_any [OF i c(1,2) this] t' have
    e: "\<forall>(k, to) \<in> set (entries (wheel t')). (k, to) \<in> set (entries (wheel (sys_tw s))) \<or> k = wt_id to \<and> made_by c to"
    by (auto split: if_splits)
  have d: "to \<in> timers s \<or> made_by c to" if to: "to \<in> timers ?s" for to
  proof (cases "to \<in> set (pending (sys_pc s))")
    case False
    with to obtain k where "(k, to) \<in> set (entries (wheel t'))" by (auto simp: timers_def)
    with bspec [OF e this] entries_timers show ?thesis by auto
  qed (simp add: timers_def)
  have u: "set_option (wt_outCh to) \<subseteq> used_chans s" if "to \<in> timers s" for to
    using that by (auto simp: used_chans_def timer_chans_def)
  have m: "set_option (wt_outCh to) \<subseteq> set (op_chans c)" "wt_expTimes to < wt_times to" "wt_id to \<in> set (op_ids c)"
    if "made_by c to" for to
    using that by (simp_all add: made_by_def)
  have tc: "timer_chans ?s \<subseteq> timer_chans s \<union> set (op_chans c)"
  proof
    fix x assume "x \<in> timer_chans ?s"
    then obtain to where "to \<in> timers ?s" "wt_outCh to = Some x" by (auto simp: timer_chans_def)
    with d [of to] m(1) [of to] show "x \<in> timer_chans s \<union> set (op_chans c)" by (auto simp: timer_chans_def)
  qed
  have one: "g \<in> set (op_ids c) \<Longrightarrow> g' \<in> set (op_ids c) \<Longrightarrow> g = g'" for g g' by (cases c) simp_all
  have "wt_id to = wt_id to'"
    if t: "to \<in> timers ?s" "to' \<in> timers ?s" "wt_outCh to \<noteq> None" "wt_outCh to = wt_outCh to'" for to to'
  proof -
    from t(3) obtain x where x: "wt_outCh to = Some x" "wt_outCh to' = Some x" using t(4) by auto
    consider "to \<in> timers s" "to' \<in> timers s" | "made_by c to" "made_by c to'"
      using d [OF t(1)] d [OF t(2)] u [of to] u [of to'] m(1) [of to] m(1) [of to'] new x by auto
    then show ?thesis using chan_invD(2) [OF ch _ _ x] m(3) one by cases blast+
  qed
  moreover have "wt_expTimes to < wt_times to" if "to \<in> timers ?s" for to
    using d [OF that] m(2) chan_invD(1) [OF ch] by blast
  moreover have "set (last_chan x) \<subseteq> used_chans s" if "x \<in> set (sys_senders s)" for x
  proof -
    have "set (last_chan x) \<subseteq> set (sender_chan x)" by (cases x rule: last_chan.cases) auto
    with that show ?thesis by (auto simp: used_chans_def sender_chans_def)
  qed
  with ch tc new have "\<forall>x \<in> set (sys_senders s). set (last_chan x) \<inter> timer_chans ?s = {}"
    unfolding chan_inv_def by blast
  moreover have "set (sys_closed s) \<inter> (timer_chans ?s \<union> set (sender_chans (sys_senders s))) = {}"
    using ch tc new unfolding chan_inv_def used_chans_def by blast
  moreover have "sys_senders ?s = sys_senders s" "sys_closed ?s = sys_closed s" by simp_all
  ultimately have "chan_inv ?s" unfolding chan_inv_def by metis
  moreover have "used_chans ?s \<subseteq> used_chans s \<union> set (op_chans c)" using tc by (auto simp: used_chans_def)
  ultimately show ?thesis by blast
qed


lemma fetch_chans:
  assumes inv: "sys_inv s" and ch: "chan_inv s" and pc: "sys_pc s = Moved" and r: "fetch s = Runs s'"
  shows "chan_inv s' \<and> used_chans s' \<subseteq> used_chans s"
proof -
  from fetch_keeps [OF inv pc] r obtain tasks t1 where
    s': "s' = s\<lparr>sys_tw := t1, sys_pc := Notifying tasks\<rparr>" and
    ts: "\<forall>to \<in> set tasks. (wt_id to, to) \<in> set (entries (wheel (sys_tw s)))" and
    e: "\<forall>(k, to') \<in> set (entries (wheel t1)). \<exists>to c. (k, to) \<in> set (entries (wheel (sys_tw s))) \<and> to' = aged c to"
    by auto
  have "derived s s'"
    unfolding derived_def
  proof
    fix to' assume "to' \<in> timers s'"
    then consider k where "(k, to') \<in> set (entries (wheel t1))" | "to' \<in> set tasks" by (auto simp: timers_def s')
    then obtain to c where "to \<in> timers s" "to' = to \<or> to' = aged c to"
    proof cases
      case 1
      from bspec [OF e 1] that entries_timers show ?thesis by blast
    next
      case 2
      with ts that entries_timers show ?thesis by blast
    qed
    with chan_invD(1) [OF ch] show "wt_expTimes to' < wt_times to' \<and>
      (\<exists>to \<in> timers s. wt_id to' = wt_id to \<and> wt_outCh to' = wt_outCh to)"
      by (auto simp: aged_def split: if_splits)
  qed
  then show ?thesis by (rule chan_inv_derived [OF ch]) (simp_all add: s')
qed

lemma sender_chans_append [simp]: "sender_chans (xs @ ys) = sender_chans xs @ sender_chans ys"
  by (simp add: sender_chans_def)

lemma set_sender_chans_spawn: "set (sender_chans (spawn (expiry_event to))) \<subseteq> set_option (wt_outCh to)"
  by (cases "wt_task to"; cases "wt_outCh to") (simp_all add: expiry_event_def sender_chans_def)

lemma last_chan_iff: "c \<in> set (last_chan x) \<longleftrightarrow> x = Sending (Some c) True \<or> x = Closing c"
  by (cases x rule: last_chan.cases) auto

text \<open>The goroutine that closes a channel is started when no timer has the channel any more.\<close>

lemma last_sender_alone:
  assumes inv: "sys_inv s" and ch: "chan_inv s" and pc: "sys_pc s = Notifying (to # tasks)"
    and x: "x \<in> set (spawn (expiry_event to))"
    and e: "set (entries (wheel t1)) = set (entries (wheel (sys_tw s))) \<union>
      (if again to then {(wt_id to, placed (sys_tw s) '''' (expired to))} else {})"
  shows "set (last_chan x) \<inter> timer_chans (s\<lparr>sys_tw := t1, sys_pc := Notifying tasks\<rparr>) = {}"
proof (rule ccontr)
  let ?u = "s\<lparr>sys_tw := t1, sys_pc := Notifying tasks\<rparr>"
  assume "set (last_chan x) \<inter> timer_chans ?u \<noteq> {}"
  then obtain c where c: "x = Sending (Some c) True \<or> x = Closing c" "c \<in> timer_chans ?u"
    using last_chan_iff by blast
  then have x': "wt_outCh to = Some c" "wt_expTimes to + 1 = wt_times to"
    using x by (auto simp: expiry_event_def split: option.splits)
  then have na: "\<not> again to" by (simp add: again_def)
  from c(2) obtain to' where to': "to' \<in> timers ?u" "wt_outCh to' = Some c" by (auto simp: timer_chans_def)
  with na consider k where "(k, to') \<in> set (entries (wheel (sys_tw s)))" | "to' \<in> set tasks"
    by (auto simp: timers_def e split: if_splits)
  then have "to' \<in> timers s \<and> wt_id to' \<in> keys (sys_tw s) \<union> wt_id ` set tasks"
  proof cases
    case 1
    have "k = wt_id to'" using entry_bounds(1) [OF _ 1] inv pc by (simp add: sys_inv_ok)
    with 1 entries_timers show ?thesis by force
  qed (simp add: timers_def pc)
  moreover have "wt_id to \<notin> keys (sys_tw s)" "wt_id to \<notin> wt_id ` set tasks" "to \<in> timers s"
    using inv pc by (simp_all add: sys_inv_def Let_def timers_def)
  ultimately show False using chan_invD(2) [OF ch _ _ to'(2) x'(1)] by auto
qed

lemma notify_chans:
  assumes inv: "sys_inv s" and ch: "chan_inv s" and r: "notify s = Runs s'"
  shows "chan_inv s' \<and> used_chans s' \<subseteq> used_chans s"
proof -
  from r obtain ts where ts: "sys_pc s = Notifying ts" by (auto simp: notify_def split: wheel_pc.splits)
  show ?thesis
  proof (cases ts)
    case Nil
    with r ts have "s' = s\<lparr>sys_pc := AtSelect\<rparr>" by (simp add: notify_def)
    moreover from this ts Nil have "derived s s'" using chan_invD(1) [OF ch] by (force simp: derived_def timers_def)
    ultimately show ?thesis using chan_inv_derived [OF ch, of s'] by simp
  next
    case (Cons to tasks)
    with ts have pc: "sys_pc s = Notifying (to # tasks)" by simp
    from notify_keeps [OF inv pc] r obtain t1 where
      s': "s' = s\<lparr>sys_tw := t1, sys_pc := Notifying tasks, sys_log := sys_log s @ [expiry_event to],
        sys_senders := sys_senders s @ spawn (expiry_event to)\<rparr>" and
      e: "set (entries (wheel t1)) = set (entries (wheel (sys_tw s))) \<union>
        (if again to then {(wt_id to, placed (sys_tw s) '''' (expired to))} else {})" by auto
    let ?u = "s\<lparr>sys_tw := t1, sys_pc := Notifying tasks\<rparr>"
    have toT: "to \<in> timers s" using pc by (simp add: timers_def)
    have toid: "wt_id to \<noteq> ''''"
      using inv pc by (simp_all add: sys_inv_def Let_def timer_ok_def)
    have pl: "wt_id (placed (sys_tw s) '''' (expired to)) = wt_id to" "wt_outCh (placed (sys_tw s) '''' (expired to)) = wt_outCh to"
      "again to \<Longrightarrow> wt_expTimes (placed (sys_tw s) '''' (expired to)) < wt_times (placed (sys_tw s) '''' (expired to))"
      using toid by (simp_all add: placed_def Let_def expired_def again_def)
    have d: "derived s ?u"
      unfolding derived_def
    proof
      fix to' assume "to' \<in> timers ?u"
      then consider k where "(k, to') \<in> set (entries (wheel (sys_tw s)))" | "to' \<in> set tasks"
        | "again to" "to' = placed (sys_tw s) '''' (expired to)"
        by (auto simp: timers_def e split: if_splits)
      then show "wt_expTimes to' < wt_times to' \<and>
        (\<exists>to \<in> timers s. wt_id to' = wt_id to \<and> wt_outCh to' = wt_outCh to)"
      proof cases
        case 1
        with entries_timers chan_invD(1) [OF ch] show ?thesis by blast
      next
        case 2
        with pc chan_invD(1) [OF ch, of to'] show ?thesis by (auto simp: timers_def)
      next
        case 3
        with pl toT show ?thesis by auto
      qed
    qed
    have u: "chan_inv ?u" "used_chans ?u \<subseteq> used_chans s" using chan_inv_derived [OF ch d] by simp_all
    have T: "timers s' = timers ?u" "timer_chans s' = timer_chans ?u" by (simp_all add: timer_chans_def timers_def s')
    have sc: "set (sender_chans (spawn (expiry_event to))) \<subseteq> timer_chans s"
      using set_sender_chans_spawn [of to] toT by (force simp: timer_chans_def)
    have last_one: "set (last_chan x) \<inter> timer_chans ?u = {}" if "x \<in> set (spawn (expiry_event to))" for x
      using last_sender_alone [OF inv ch pc that] e by simp
    have cl: "sys_closed s' = sys_closed ?u" "sys_senders s' = sys_senders ?u @ spawn (expiry_event to)"
      by (simp_all add: s')
    have "set (sys_closed ?u) \<inter> timer_chans s = {}" using ch by (auto simp: chan_inv_def)
    with u(1) sc last_one have "chan_inv s'"
      unfolding chan_inv_def T cl sender_chans_append set_append by (intro conjI ballI impI; blast)
    moreover have "used_chans s' \<subseteq> used_chans s"
      using u(2) sc unfolding used_chans_def T cl sender_chans_append set_append by auto
    ultimately show ?thesis by blast
  qed
qed


lemma sender_split:
  assumes "sender_at i s = Some x"
  obtains A B where "sys_senders s = A @ x # B" "remove_nth i (sys_senders s) = A @ B"
    "\<And>y. (sys_senders s)[i := y] = A @ y # B"
proof -
  have i: "i < length (sys_senders s)" "x = sys_senders s ! i"
    using assms by (auto simp: sender_at_def split: if_splits)
  show ?thesis
  proof (rule that)
    show "sys_senders s = take i (sys_senders s) @ x # drop (Suc i) (sys_senders s)"
      using i(2) id_take_nth_drop [OF i(1)] by simp
  qed (simp_all add: remove_nth_def upd_conv_take_nth_drop [OF i(1)])
qed

lemma recv_chans:
  assumes ch: "chan_inv s" and r: "recv i s = Runs s'"
  shows "chan_inv s' \<and> used_chans s' \<subseteq> used_chans s"
proof -
  from r obtain c b where x: "sender_at i s = Some (Sending (Some c) b)"
    and s': "s' = s\<lparr>sys_senders := if b then (sys_senders s)[i := Closing c] else remove_nth i (sys_senders s)\<rparr>"
    by (auto simp: recv_def split: option.splits sender.splits if_splits)
  obtain A B where A: "sys_senders s = A @ Sending (Some c) b # B" and
    B: "remove_nth i (sys_senders s) = A @ B" "\<And>y. (sys_senders s)[i := y] = A @ y # B"
    using sender_split [OF x] by metis
  from B have s2: "sys_senders s' = (if b then A @ Closing c # B else A @ B)" by (simp add: s')
  have same: "timers s' = timers s" "timer_chans s' = timer_chans s" "sys_closed s' = sys_closed s"
    by (simp_all add: s' timers_def timer_chans_def)
  have sub: "set (sender_chans (sys_senders s')) \<subseteq> set (sender_chans (sys_senders s))"
    unfolding s2 A by (auto simp: sender_chans_def)
  have "\<forall>x \<in> set (sys_senders s). set (last_chan x) \<inter> timer_chans s = {}" using ch by (simp add: chan_inv_def)
  then have last_ones: "\<forall>x \<in> set (sys_senders s'). set (last_chan x) \<inter> timer_chans s = {}"
    unfolding s2 A by (cases b) auto
  show ?thesis using ch sub last_ones unfolding chan_inv_def used_chans_def same
    by (intro conjI ballI impI; blast)
qed

lemma close_chans:
  assumes ch: "chan_inv s" and nc: "\<not> crowded s" and r: "close_out i s = Runs s'"
  shows "chan_inv s' \<and> used_chans s' \<subseteq> used_chans s"
proof -
  from r obtain c where x: "sender_at i s = Some (Closing c)"
    and s': "s' = s\<lparr>sys_closed := c # sys_closed s, sys_senders := remove_nth i (sys_senders s)\<rparr>"
    by (auto simp: close_out_def split: option.splits sender.splits if_splits)
  obtain A B where "sys_senders s = A @ Closing c # B" "remove_nth i (sys_senders s) = A @ B"
    using sender_split [OF x] by metis
  then have ab: "sys_senders s = A @ Closing c # B" "sys_senders s' = A @ B" by (simp_all add: s')
  then have sets: "set (sys_senders s) = insert (Closing c) (set (sys_senders s'))"
    "set (sender_chans (sys_senders s)) = insert c (set (sender_chans (sys_senders s')))"
    by (auto simp: sender_chans_def)
  from ab have "c \<notin> set (sender_chans (A @ B))" using nc by (simp add: crowded_def sender_chans_def)
  moreover have "c \<notin> timer_chans s" using chan_invD(3) [OF ch, of "Closing c"] ab by simp
  moreover have same: "timers s' = timers s" "timer_chans s' = timer_chans s" "set (sys_closed s') = insert c (set (sys_closed s))"
    by (simp_all add: s' timers_def timer_chans_def)
  ultimately show ?thesis using ch unfolding chan_inv_def used_chans_def same sets ab(2) [symmetric]
    by (intro conjI ballI impI; blast)
qed

lemma chan_step:
  assumes inv: "sys_inv s" and ch: "chan_inv s" and nc: "\<not> crowded s"
    and a: "act_int64 a" "\<forall>g \<in> set (act_ids a). g \<noteq> '''' \<and> g \<notin> known s"
    and new: "set (act_chans a) \<inter> used_chans s = {}" and r: "sys_step a s = Runs s'"
  shows "chan_inv s' \<and> used_chans s' \<subseteq> used_chans s \<union> set (act_chans a)"
proof -
  have same: "chan_inv s' \<and> used_chans s' \<subseteq> used_chans s"
    if "entries (wheel (sys_tw s')) = entries (wheel (sys_tw s))" "pending (sys_pc s') = pending (sys_pc s)"
      "sys_closed s' = sys_closed s" "sys_senders s' = sys_senders s"
  proof -
    have "timers s' = timers s" using that by (simp add: timers_def)
    then have "derived s s'" using chan_invD(1) [OF ch] by (auto simp: derived_def)
    then show ?thesis using chan_inv_derived [OF ch _ that(3,4)] by blast
  qed
  show ?thesis
  proof (cases a)
    case (ACall c)
    with r have c: "c \<noteq> OpTick" by auto
    with r ACall obtain t' where t': "tw_call c (sys_tw s) = Some t'" "s' = s\<lparr>sys_tw := t'\<rparr>"
      by (auto split: option.splits)
    have "op_int64 c" "\<forall>g \<in> set (op_ids c). g \<noteq> '''' \<and> g \<notin> known s" "set (op_chans c) \<inter> used_chans s = {}"
      using a new ACall by simp_all
    from call_chans [OF inv ch c this t'(1)] t'(2) ACall show ?thesis by simp
  next
    case AFetch
    with r have f: "fetch s = Runs s'" by simp
    then have "sys_pc s = Moved" by (simp add: fetch_def split: if_splits)
    from fetch_chans [OF inv ch this f] show ?thesis by blast
  next
    case ANotify
    with r have "notify s = Runs s'" by simp
    from notify_chans [OF inv ch this] show ?thesis by blast
  next
    case (ARecv i)
    with r have "recv i s = Runs s'" by simp
    from recv_chans [OF ch this] show ?thesis by blast
  next
    case (AClose i)
    with r have "close_out i s = Runs s'" by simp
    from close_chans [OF ch nc this] show ?thesis by blast
  next
    case ABump
    with r have "chan_inv s' \<and> used_chans s' \<subseteq> used_chans s"
      by (intro same) (auto simp: bump_def split: if_splits)
    then show ?thesis by blast
  next
    case AWrap
    with r have "chan_inv s' \<and> used_chans s' \<subseteq> used_chans s"
      by (intro same) (auto simp: wrap_cursor_def split: if_splits)
    then show ?thesis by blast
  next
    case AStop
    with r have "chan_inv s' \<and> used_chans s' \<subseteq> used_chans s"
      by (intro same) (auto simp: Stop_def split: if_splits)
    then show ?thesis by blast
  next
    case (ASend i)
    with r show ?thesis by (auto simp: send_fails_def split: option.splits sender.splits if_splits)
  qed
qed

lemma chan_inv_not_closed: "chan_inv s \<Longrightarrow> \<not> on_closed a s"
proof (cases a)
  case (ASend i)
  assume ch: "chan_inv s"
  have "False" if x: "sender_at i s = Some (Sending (Some c) b)" "c \<in> set (sys_closed s)" for c b
    using chan_invD(5) [OF ch x(2)] by - (rule sender_split [OF x(1)], auto simp: sender_chans_def)
  with ASend show ?thesis by auto
next
  case (AClose i)
  assume ch: "chan_inv s"
  have "False" if x: "sender_at i s = Some (Closing c)" "c \<in> set (sys_closed s)" for c
    using chan_invD(5) [OF ch x(2)] by - (rule sender_split [OF x(1)], auto simp: sender_chans_def)
  with AClose show ?thesis by auto
qed simp_all


section \<open>Runs\<close>

text \<open>At no state of the run two goroutines of one timer are at work.\<close>

fun calm :: "tw_act list \<Rightarrow> tw_sys \<Rightarrow> bool" where
  "calm [] s = (\<not> crowded s)"
| "calm (a # as) s = (\<not> crowded s \<and> (case sys_step a s of Runs s' \<Rightarrow> calm as s' | _ \<Rightarrow> True))"

definition run_chans :: "tw_act list \<Rightarrow> nat list" where
  "run_chans as = concat (map act_chans as)"

lemma calm_chans:
  assumes "sys_inv s" "chan_inv s" "run_ok as (known s)" "distinct (run_chans as)"
    "set (run_chans as) \<inter> used_chans s = {}" "calm as s" "sys_run as s = Runs s'"
  shows "chan_inv s'"
  using assms
proof (induction as arbitrary: s)
  case (Cons a as)
  from run_ok_Cons [OF Cons.prems(3)] have a: "act_int64 a" "\<forall>g \<in> set (act_ids a). g \<noteq> '''' \<and> g \<notin> known s"
    "run_ok as (known s \<union> set (act_ids a))" by auto
  from Cons.prems(7) obtain s1 where s1: "sys_step a s = Runs s1" "sys_run as s1 = Runs s'"
    by (auto split: tw_result.splits)
  with Cons.prems(6) have calm: "\<not> crowded s" "calm as s1" by simp_all
  have new: "set (act_chans a) \<inter> used_chans s = {}" "set (act_chans a) \<inter> set (run_chans as) = {}"
    "distinct (run_chans as)" "set (run_chans as) \<inter> used_chans s = {}"
    using Cons.prems(4,5) by (auto simp: run_chans_def)
  from chan_step [OF Cons.prems(1,2) calm(1) a(1,2) new(1) s1(1)]
  have c: "chan_inv s1" "used_chans s1 \<subseteq> used_chans s \<union> set (act_chans a)" by simp_all
  from sys_step_ok(2) [OF Cons.prems(1) a(1,2) s1(1)]
  have k: "sys_inv s1" "known s1 \<subseteq> known s \<union> set (act_ids a)" by (simp_all add: keeps_def)
  have "set (run_chans as) \<inter> used_chans s1 = {}" using new(2,4) c(2) by blast
  from Cons.IH [OF k(1) c(1) run_ok_mono [OF a(3) k(2)] new(3) this calm(2) s1(2)] show ?case .
qed simp

lemma start_chan_inv: "keys t = {} \<Longrightarrow> chan_inv (start_sys t) \<and> used_chans (start_sys t) = {}"
  by (simp add: start_sys_def chan_inv_def used_chans_def timer_chans_def timers_def sender_chans_def)

text \<open>After a fetch the rest of the tick hands over every task.\<close>

lemma notify_rest:
  assumes "sys_inv s" "sys_pc s = Notifying ts"
  shows "\<exists>s'. sys_run (replicate (length ts) ANotify) s = Runs s' \<and>
    sys_log s' = sys_log s @ map expiry_event ts"
  using assms
proof (induction ts arbitrary: s)
  case (Cons to ts)
  from notify_keeps [OF Cons.prems] obtain s1 where
    s1: "notify s = Runs s1" "sys_inv s1" "sys_pc s1 = Notifying ts" "sys_log s1 = sys_log s @ [expiry_event to]"
    by (auto simp: keeps_def)
  with Cons.IH [OF s1(2,3)] show ?case by auto
qed simp

section \<open>The properties\<close>

text \<open>
  C6. The goroutines of the wheel. Let any clients call \<open>AfterFunc\<close>, \<open>After\<close> and
  \<open>Cancel\<close> at any moment, also in the middle of a tick, and let the channels be received
  from whenever their receivers like. At every state of every run the invariant holds, and the
  next step panics exactly at one of two moments: a call schedules a delay of a whole turn
  while the cursor is past the end of the wheel, or a goroutine meets its channel closed. The
  second cannot happen while no timer has two goroutines at work. A timer that is cancelled
  when it is not in the hands of the tick never fires again and is nowhere.
\<close>

theorem wheel_interleaved:
  assumes "0 < TickDuration o1" "0 < WheelCount o1" "TickDuration o1 * WheelCount o1 < 2 ^ 63"
    and "run_ok (bs @ a # as) {}" "distinct (run_chans (bs @ a # as))"
  shows "\<exists>t. NewTimerWheel (o1 # os) = Some t \<and> (\<forall>s. sys_run bs (start_sys t) = Runs s \<longrightarrow>
    sys_inv s \<and> (sys_step a s = Panics \<longleftrightarrow> panic_moment a s) \<and>
    (calm bs (start_sys t) \<longrightarrow> \<not> on_closed a s) \<and>
    (\<forall>k s'. a = ACall (OpCancel k) \<and> k \<notin> wt_id ` set (pending (sys_pc s)) \<and> k \<notin> set (run_ids as) \<and>
       sys_run (a # as) s = Runs s' \<longrightarrow> events_of k (sys_log s') = events_of k (sys_log s) \<and> k \<notin> known s'))"
proof -
  from NewTimerWheel_ok [OF assms(1-3)] obtain t where
    t: "NewTimerWheel [o1] = Some t" "tw_ok t" "entries (wheel t) = []" by blast
  from t(1) have new: "NewTimerWheel (o1 # os) = Some t" by (simp add: NewTimerWheel_def)
  have inv: "sys_inv (start_sys t)" "known (start_sys t) = {}" "chan_inv (start_sys t)" "used_chans (start_sys t) = {}"
    using start_sys_inv [OF t(2)] known_start [of t] start_chan_inv [of t] t(3) by simp_all
  from run_ok_append [OF assms(4)] have r: "run_ok bs {}" "run_ok (a # as) (set (run_ids bs))" by simp_all
  have rc: "distinct (run_chans bs)" using assms(5) by (simp add: run_chans_def)
  have "sys_inv s \<and> (sys_step a s = Panics \<longleftrightarrow> panic_moment a s) \<and>
    (calm bs (start_sys t) \<longrightarrow> \<not> on_closed a s) \<and>
    (\<forall>k s'. a = ACall (OpCancel k) \<and> k \<notin> wt_id ` set (pending (sys_pc s)) \<and> k \<notin> set (run_ids as) \<and>
       sys_run (a # as) s = Runs s' \<longrightarrow> events_of k (sys_log s') = events_of k (sys_log s) \<and> k \<notin> known s')"
    if s: "sys_run bs (start_sys t) = Runs s" for s
  proof (intro conjI allI impI)
    have rb: "run_ok bs (known (start_sys t))" using r(1) inv(2) by simp
    note k = sys_run_keeps(1,2) [OF inv(1) rb s]
    have ra: "run_ok (a # as) (known s)" using run_ok_mono [OF r(2)] k(2) inv(2) by simp
    show "sys_inv s" by (rule k(1))
    from run_ok_Cons [OF ra] show "sys_step a s = Panics \<longleftrightarrow> panic_moment a s"
      using sys_step_ok(1) [OF k(1)] by simp
    show "\<not> on_closed a s" if "calm bs (start_sys t)"
      using calm_chans [OF inv(1,3) rb rc _ that s] inv(4) by (simp add: chan_inv_not_closed)
    fix x s'
    assume c: "a = ACall (OpCancel x) \<and> x \<notin> wt_id ` set (pending (sys_pc s)) \<and> x \<notin> set (run_ids as) \<and>
      sys_run (a # as) s = Runs s'"
    then have c': "x \<notin> set (run_ids as)" "x \<notin> wt_id ` set (pending (sys_pc s))"
      "sys_run (ACall (OpCancel x) # as) s = Runs s'" by blast+
    have "run_ok as (known s)" using run_ok_Cons [OF ra] run_ok_mono by blast
    from cancelled_is_gone [OF k(1) this c']
    show "events_of x (sys_log s') = events_of x (sys_log s)" "x \<notin> known s'" by simp_all
  qed
  with new show ?thesis by blast
qed


definition wheel_ex2 :: timer_wheel where
  "wheel_ex2 = \<lparr>tickDuration = 10, roundDuration = 20, wheelCount = 2, wheel = [Some [], Some []], wheelCursor = 0\<rparr>"

lemma wheel_ex2_new: "NewTimerWheel [\<lparr>TickDuration = 10, WheelCount = 2\<rparr>] = Some wheel_ex2"
  by (simp add: NewTimerWheel_def createWheel_def go_make_def wheel_ex2_def wrap64_def numeral_2_eq_2)

theorem wheel_interleaved_witness:
  "\<exists>t s. NewTimerWheel [\<lparr>TickDuration = 10, WheelCount = 2\<rparr>] = Some t \<and>
     sys_run [ABump, AWrap, AFetch, ANotify, ABump] (start_sys t) = Runs s \<and> sys_inv s \<and>
     sys_step (ACall (OpAfterFunc ''a'' 19 1 (Some 7))) s = Panics"
proof -
  let ?bs = "[ABump, AWrap, AFetch, ANotify, ABump]" and ?a = "ACall (OpAfterFunc ''a'' 19 1 (Some 7))"
  let ?s = "\<lparr>sys_tw = wheel_ex2\<lparr>wheelCursor := 2\<rparr>, sys_pc = Bumped, sys_senders = [], sys_closed = [], sys_log = []\<rparr>"
  have s: "sys_run ?bs (start_sys wheel_ex2) = Runs ?s"
    by (simp add: wheel_ex2_def start_sys_def bump_def wrap_cursor_def fetch_def notify_def
      fetchExpiredTimeouts_def slice_get_def slice_set_def)
  have "panic_moment ?a ?s" by (simp add: past_end_def rel_index_def wheel_ex2_def)
  moreover have "run_ok (?bs @ ?a # []) {}" "distinct (run_chans (?bs @ ?a # []))"
    by (simp_all add: run_ok_def run_ids_def run_chans_def)
  ultimately show ?thesis
    using wheel_interleaved [of "\<lparr>TickDuration = 10, WheelCount = 2\<rparr>" ?bs ?a "[]" "[]"] s wheel_ex2_new
    by (intro exI [of _ wheel_ex2] exI [of _ ?s]) (auto simp del: sys_step.simps sys_run.simps)
qed

text \<open>A schedule for a timer of two sends whose receiver comes late.\<close>

definition late_receiver :: "tw_act list" where
  "late_receiver = [ACall (OpAfter ''a'' 5 20 2)] @
     
     concat (replicate 2 [ABump, AWrap, AFetch, ANotify, ABump, AWrap, AFetch, ANotify, ANotify]) @ [ARecv 1, AClose 1, ASend 0]"


lemma round_call_lands_at_cursor:
  assumes "tw_wf t"
  shows "wt_index (placed t g (new_timer (roundDuration t) n f ch)) = wheelCursor t"
    "wt_rounds (placed t g (new_timer (roundDuration t) n f ch)) = 0"
proof -
  have k: "0 < tickDuration t" "0 < roundDuration t" "tickDuration t \<le> roundDuration t"
    "roundDuration t mod tickDuration t = 0" "wheelCursor t < wheelCount t"
    using assms by (auto simp: tw_wf_def mult_le_cancel_left1)
  then have r: "rel_index t (roundDuration t) = 0" by (simp add: rel_index_def)
  with k show "wt_index (placed t g (new_timer (roundDuration t) n f ch)) = wheelCursor t"
    "wt_rounds (placed t g (new_timer (roundDuration t) n f ch)) = 0"
    by (simp_all add: placed_def wraps_def Let_def)
qed

text \<open>A delay of one round that is asked for between the move of the cursor and the fetch.\<close>

lemma round_fires_at_once:
  assumes inv: "sys_inv s" and pc: "sys_pc s = Moved" and g: "guid \<noteq> ''''" "guid \<notin> known s"
  shows "\<exists>m s'. sys_run ([ACall (OpAfterFunc guid (roundDuration (sys_tw s)) n (Some f)), AFetch] @
      replicate m ANotify) s = Runs s' \<and> RunTask guid f \<in> set (sys_log s')"
proof -
  let ?t = "sys_tw s" and ?c = "OpAfterFunc guid (roundDuration (sys_tw s)) n (Some f)"
  let ?to = "new_timer (roundDuration ?t) n (Some f) None"
  have ok: "tw_ok ?t" using inv pc by (simp add: sys_inv_ok)
  then have wf: "tw_wf ?t" by (simp add: tw_ok_def)
  have d: "0 < roundDuration ?t" "roundDuration ?t < 2 ^ 63" using wf by (auto simp: tw_wf_def)
  have "0 < wt_delay ?to" "wt_delay ?to < 2 ^ 63" "guid = (if wt_id ?to = '''' then guid else wt_id ?to)"
    "guid \<notin> keys ?t" using d g by (simp_all add: known_def)
  from schedule_ok [OF ok this(1,2,3) g(1) this(4)] obtain t1 where
    t1: "scheduleTimeOut guid ?to ?t = Some (guid, t1)" "wheelCursor t1 = wheelCursor ?t"
    "set (entries (wheel t1)) = insert (guid, placed ?t guid ?to) (set (entries (wheel ?t)))" by blast
  have call: "tw_call ?c ?t = Some t1" using t1(1) d(1) by (simp add: AfterFunc_schedules)
  let ?s1 = "s\<lparr>sys_tw := t1\<rparr>"
  have "keeps (set (op_ids ?c)) s ?s1" using call_keeps [OF inv _ _ _ call] d g by simp
  then have inv1: "sys_inv ?s1" "sys_pc ?s1 = Moved" using pc by (simp_all add: keeps_def)
  from fetch_keeps [OF inv1] obtain tasks t2 where
    f: "fetch ?s1 = Runs (?s1\<lparr>sys_tw := t2, sys_pc := Notifying tasks\<rparr>)" "sys_inv (?s1\<lparr>sys_tw := t2, sys_pc := Notifying tasks\<rparr>)"
    and due: "\<forall>k to. (k, to) \<in> set (entries (wheel t1)) \<and> wt_index to = wheelCursor t1 \<and> wt_rounds to \<le> 0
      \<longrightarrow> to \<in> set tasks"
    by (auto simp: keeps_def)
  have p: "placed ?t guid ?to \<in> set tasks"
    using due t1(2,3) round_call_lands_at_cursor [OF wf, of guid n "Some f" None] by (metis insertI1 order_refl)
  have "expiry_event (placed ?t guid ?to) = RunTask guid f"
    using g(1) by (simp add: expiry_event_def placed_def new_timer_def Let_def)
  with p have e: "RunTask guid f \<in> set (map expiry_event tasks)" by (metis image_eqI set_map)
  from notify_rest [OF f(2)] obtain s' where
    "sys_run (replicate (length tasks) ANotify) (?s1\<lparr>sys_tw := t2, sys_pc := Notifying tasks\<rparr>) = Runs s'"
    "sys_log s' = sys_log s @ map expiry_event tasks" by auto
  moreover have "sys_run [ACall ?c, AFetch] s = Runs (?s1\<lparr>sys_tw := t2, sys_pc := Notifying tasks\<rparr>)"
    using call f(1) by (simp del: tw_call.simps)
  ultimately show ?thesis using e unfolding sys_run_append
    by (intro exI [of _ "length tasks"] exI [of _ s']) (simp del: sys_run.simps)
qed

text \<open>A timer that is cancelled while the tick holds it comes back.\<close>

lemma cancel_in_hand_is_lost:
  assumes inv: "sys_inv s" and pc: "sys_pc s = Notifying [to]" and a: "again to"
  shows "\<exists>s' m ess t'. sys_run [ACall (OpCancel (wt_id to)), ANotify, ANotify] s = Runs s' \<and>
    sys_pc s' = AtSelect \<and> ticks '''' m (sys_tw s') = Some (ess, t') \<and>
    events_of (wt_id to) (concat ess) = [nth_event to (wt_expTimes to + 2)]"
proof -
  let ?k = "wt_id to"
  have i: "tw_ok (at0 (sys_tw s))" "0 \<le> wheelCursor (sys_tw s)" "wheelCursor (sys_tw s) \<le> wheelCount (sys_tw s)"
    and to: "timer_ok to" using inv pc by (simp_all add: sys_inv_def Let_def)
  from call_any [OF i, of "OpCancel ?k"] obtain t1 where c: "Cancel ?k (sys_tw s) = Some t1"
    by (auto simp: past_end_def)
  let ?s1 = "s\<lparr>sys_tw := t1\<rparr>"
  have "keeps {} s ?s1" using call_keeps [OF inv, of "OpCancel ?k"] c by simp
  then have inv1: "sys_inv ?s1" "sys_pc ?s1 = Notifying [to]" using pc by (simp_all add: keeps_def)
  from notify_keeps [OF inv1] a obtain t2 where
    n: "notify ?s1 = Runs (?s1\<lparr>sys_tw := t2, sys_pc := Notifying [],
        sys_log := sys_log ?s1 @ [expiry_event to], sys_senders := sys_senders ?s1 @ spawn (expiry_event to)\<rparr>)"
    "sys_inv (?s1\<lparr>sys_tw := t2, sys_pc := Notifying [],
        sys_log := sys_log ?s1 @ [expiry_event to], sys_senders := sys_senders ?s1 @ spawn (expiry_event to)\<rparr>)"
    "(?k, placed t1 '''' (expired to)) \<in> set (entries (wheel t2))"
    by (auto simp: keeps_def)
  let ?to = "placed t1 '''' (expired to)"
  have ok2: "tw_ok t2" using sys_inv_ok [OF n(2)] by simp
  then have "tw_wf t2" by (simp add: tw_ok_def)
  from ticks_left_step(1) [OF this entry_bounds(3,4,5) [OF ok2 n(3)]]
  have "ticks_left t2 ?to = int (nat (ticks_left t2 ?to - 1)) + 1" by simp
  from ticks_until_due [OF ok2 n(3) this, of "''''"] obtain ess t' where
    t': "ticks '''' (Suc (nat (ticks_left t2 ?to - 1))) t2 = Some (ess, t')"
    "map (events_of ?k) ess = replicate (nat (ticks_left t2 ?to - 1)) [] @ [[expiry_event ?to]]" by blast
  have st: "same_timer to ?to" "wt_expTimes ?to = wt_expTimes to + 1"
    using to by (simp add: timer_ok_def, simp add: placed_def expired_def Let_def)
  have "events_of ?k (concat ess) = [nth_event to (wt_expTimes to + 2)]"
    using nth_event_expiry [of ?to] nth_event_same [OF st(1)] st(2) t'(2)
    by (simp add: events_of_concat add.assoc)
  moreover have "sys_run [ACall (OpCancel ?k), ANotify, ANotify] s =
    Runs (?s1\<lparr>sys_tw := t2, sys_pc := AtSelect, sys_log := sys_log ?s1 @ [expiry_event to],
      sys_senders := sys_senders ?s1 @ spawn (expiry_event to)\<rparr>)"
    using c n(1) by (simp add: notify_def [of "s\<lparr>sys_tw := t2, sys_pc := Notifying [],
        sys_log := sys_log s @ [expiry_event to], sys_senders := sys_senders s @ spawn (expiry_event to)\<rparr>"])
  moreover have "ticks '''' (Suc (nat (ticks_left t2 ?to - 1))) (sys_tw (?s1\<lparr>sys_tw := t2, sys_pc := AtSelect,
    sys_log := sys_log ?s1 @ [expiry_event to], sys_senders := sys_senders ?s1 @ spawn (expiry_event to)\<rparr>)) = Some (ess, t')"
    using t'(1) by simp
  moreover have "sys_pc (?s1\<lparr>sys_tw := t2, sys_pc := AtSelect, sys_log := sys_log ?s1 @ [expiry_event to],
      sys_senders := sys_senders ?s1 @ spawn (expiry_event to)\<rparr>) = AtSelect" by simp
  ultimately show ?thesis by (intro exI conjI)
qed

text \<open>
  C7. Calls that fall into a tick, in any reachable state of the goroutines. A callback asked
  for one whole round between the move of the cursor and the fetch runs in that very tick,
  not a round later. A timer with expirations left that is cancelled while the tick holds it,
  the last of its tasks, is scheduled again after the \<open>Cancel\<close> and fires once more (and
  so on) in the ticks that follow. And a channel whose receiver comes two ticks late can be
  closed by the second goroutine before the first has sent, which then panics.
\<close>

theorem timer_races:
  assumes "sys_inv s"
  shows "(sys_pc s = Moved \<and> guid \<noteq> '''' \<and> guid \<notin> known s \<longrightarrow>
      (\<exists>m s'. sys_run ([ACall (OpAfterFunc guid (roundDuration (sys_tw s)) n (Some f)), AFetch] @
        replicate m ANotify) s = Runs s' \<and> RunTask guid f \<in> set (sys_log s'))) \<and>
    (\<forall>to. sys_pc s = Notifying [to] \<and> again to \<longrightarrow>
      (\<exists>s' m ess t'. sys_run [ACall (OpCancel (wt_id to)), ANotify, ANotify] s = Runs s' \<and>
        sys_pc s' = AtSelect \<and> ticks '''' m (sys_tw s') = Some (ess, t') \<and>
        events_of (wt_id to) (concat ess) = [nth_event to (wt_expTimes to + 2)])) \<and>
    sys_run late_receiver (start_sys wheel_ex2) = Panics"
proof (intro conjI allI impI)
  show "sys_run late_receiver (start_sys wheel_ex2) = Panics" by code_simp
qed (use round_fires_at_once [OF assms] cancel_in_hand_is_lost [OF assms] in blast)+

theorem timer_races_witness:
  "(\<exists>s m s'. sys_run [ABump, AWrap] (start_sys wheel_ex2) = Runs s \<and>
     sys_run ([ACall (OpAfterFunc ''a'' 20 1 (Some 7)), AFetch] @ replicate m ANotify) s = Runs s' \<and>
     RunTask ''a'' 7 \<in> set (sys_log s')) \<and> sys_run late_receiver (start_sys wheel_ex2) = Panics"
proof -
  let ?s = "\<lparr>sys_tw = wheel_ex2\<lparr>wheelCursor := 1\<rparr>, sys_pc = Moved, sys_senders = [], sys_closed = [], sys_log = []\<rparr>"
  have s: "sys_run [ABump, AWrap] (start_sys wheel_ex2) = Runs ?s"
    by (simp add: wheel_ex2_def start_sys_def bump_def wrap_cursor_def)
  have "tw_ok wheel_ex2" by (simp add: wheel_ex2_def tw_ok_def tw_wf_def nth_Cons')
  from sys_run_keeps(1) [OF start_sys_inv [OF this] _ s]
  have "sys_inv ?s" by (simp add: run_ok_def run_ids_def)
  moreover have "''a'' \<notin> known ?s" "roundDuration (sys_tw ?s) = 20" "sys_pc ?s = Moved"
    by (simp_all add: known_def wheel_ex2_def)
  ultimately show ?thesis using timer_races [of ?s "''a''" 1 7] s
    by (intro conjI exI [of _ ?s]) (simp_all del: sys_run.simps)
qed

end
