(* ===== verification/Cache.thy ===== *)
theory Cache
  imports Prelude "HOL-Library.AList"
begin

text \<open>
  \<open>gcache/cache.go\<close>: the in-memory cache with expiring items. Go's map is an
  association list (its order stands for the iteration order), the clock is an argument
  (nanoseconds, \<open>int64\<close>), the eviction callback is an identity and its calls are the
  events an operation returns. \<open>None\<close> is a panic: a call of a nil callback.
\<close>

section \<open>State and operations\<close>

record 'v item =
  Object :: "'v option"
  Expiration :: int

record 'v cache =
  items :: "(string \<times> 'v item) list"
  onEvicted :: "nat option"

datatype cache_error = ErrExists string | ErrMissing string | ErrNotFound string

type_synonym 'v eviction = "nat \<times> string \<times> 'v option"

definition Expired :: "int \<Rightarrow> 'v item \<Rightarrow> bool" where
  "Expired now i = (if Expiration i = 0 then False else now > Expiration i)"

definition newCache :: "(string \<times> 'v item) list \<Rightarrow> 'v cache" where
  "newCache m = \<lparr>items = m, onEvicted = None\<rparr>"

text \<open>\<open>time.Now().Add(d).UnixNano()\<close> wraps at 64 bits.\<close>

definition expiration_of :: "int \<Rightarrow> int \<Rightarrow> int" where
  "expiration_of now d = (if d > 0 then wrap64 (now + d) else 0)"

definition set_unlocked :: "int \<Rightarrow> string \<Rightarrow> 'v option \<Rightarrow> int \<Rightarrow> 'v cache \<Rightarrow> 'v cache" where
  "set_unlocked now k x d c =
     c\<lparr>items := AList.update k \<lparr>Object = x, Expiration = expiration_of now d\<rparr> (items c)\<rparr>"

definition Set :: "int \<Rightarrow> string \<Rightarrow> 'v option \<Rightarrow> int \<Rightarrow> 'v cache \<Rightarrow> 'v cache" where
  "Set now k x d c =
     (let e = (if d > 0 then wrap64 (now + d) else 0)
      in c\<lparr>items := AList.update k \<lparr>Object = x, Expiration = e\<rparr> (items c)\<rparr>)"

definition get_unlocked :: "int \<Rightarrow> string \<Rightarrow> 'v cache \<Rightarrow> 'v option \<times> bool" where
  "get_unlocked now k c =
     (case map_of (items c) k of
        None \<Rightarrow> (None, False)
      | Some i \<Rightarrow>
          if Expiration i > 0 \<and> now > Expiration i then (None, False) else (Object i, True))"

definition Get :: "int \<Rightarrow> string \<Rightarrow> 'v cache \<Rightarrow> 'v option \<times> bool" where
  "Get now k c =
     (case map_of (items c) k of
        None \<Rightarrow> (None, False)
      | Some i \<Rightarrow>
          if Expiration i > 0 \<and> now > Expiration i then (None, False) else (Object i, True))"

definition Add :: "int \<Rightarrow> string \<Rightarrow> 'v option \<Rightarrow> int \<Rightarrow> 'v cache \<Rightarrow> cache_error option \<times> 'v cache" where
  "Add now k x d c =
     (let (_, found) = get_unlocked now k c
      in if found then (Some (ErrExists k), c) else (None, set_unlocked now k x d c))"

definition Replace :: "int \<Rightarrow> string \<Rightarrow> 'v option \<Rightarrow> int \<Rightarrow> 'v cache \<Rightarrow> cache_error option \<times> 'v cache" where
  "Replace now k x d c =
     (let (_, found) = get_unlocked now k c
      in if \<not> found then (Some (ErrMissing k), c) else (None, set_unlocked now k x d c))"

definition delete_unlocked :: "string \<Rightarrow> 'v cache \<Rightarrow> ('v option \<times> bool) \<times> 'v cache" where
  "delete_unlocked k c =
     (let c' = c\<lparr>items := AList.delete k (items c)\<rparr>
      in case (onEvicted c, map_of (items c) k) of
           (Some _, Some v) \<Rightarrow> ((Object v, True), c')
         | _ \<Rightarrow> ((None, False), c'))"

text \<open>The calls \<open>c.onEvicted(k, v)\<close>, made after the lock is released.\<close>

fun evict :: "(string \<times> 'v option) list \<Rightarrow> 'v cache \<Rightarrow> 'v eviction list option" where
  "evict [] c = Some []"
| "evict ((k, v) # kvs) c =
     (case onEvicted c of
        None \<Rightarrow> None
      | Some f \<Rightarrow> map_option (\<lambda>es. (f, k, v) # es) (evict kvs c))"

definition Delete :: "string \<Rightarrow> 'v cache \<Rightarrow> ('v eviction list \<times> 'v cache) option" where
  "Delete k c =
     (let ((v, evicted), c) = delete_unlocked k c
      in map_option (\<lambda>es. (es, c)) (evict (if evicted then [(k, v)] else []) c))"

fun delete_expired_loop ::
  "int \<Rightarrow> (string \<times> 'v item) list \<Rightarrow> 'v cache \<Rightarrow> (string \<times> 'v option) list \<times> 'v cache" where
  "delete_expired_loop now [] c = ([], c)"
| "delete_expired_loop now ((k, v) # kvs) c =
     (if Expiration v > 0 \<and> now > Expiration v
      then let ((ov, evicted), c) = delete_unlocked k c;
               (es, c) = delete_expired_loop now kvs c
           in ((if evicted then (k, ov) # es else es), c)
      else delete_expired_loop now kvs c)"

definition DeleteExpired :: "int \<Rightarrow> 'v cache \<Rightarrow> ('v eviction list \<times> 'v cache) option" where
  "DeleteExpired now c =
     (let (evictedItems, c) = delete_expired_loop now (items c) c
      in map_option (\<lambda>es. (es, c)) (evict evictedItems c))"

definition OnEvicted :: "nat option \<Rightarrow> 'v cache \<Rightarrow> 'v cache" where
  "OnEvicted f c = c\<lparr>onEvicted := f\<rparr>"

definition ItemCount :: "'v cache \<Rightarrow> int" where
  "ItemCount c = int (length (items c))"

definition Clear :: "'v cache \<Rightarrow> 'v cache" where
  "Clear c = c\<lparr>items := []\<rparr>"

text \<open>The assignment goes to the local copy \<open>i\<close> of the item, as in the code.\<close>

definition UpdateExpiration :: "string \<Rightarrow> int \<Rightarrow> 'v cache \<Rightarrow> cache_error option \<times> 'v cache" where
  "UpdateExpiration k e c =
     (case map_of (items c) k of
        None \<Rightarrow> (Some (ErrNotFound k), c)
      | Some i \<Rightarrow> (let i = i\<lparr>Expiration := e\<rparr> in (None, c)))"

section \<open>Invariant and basic laws\<close>

definition cache_ok :: "'v cache \<Rightarrow> bool" where
  "cache_ok c \<longleftrightarrow> distinct (map fst (items c))"

definition dead :: "int \<Rightarrow> 'v item \<Rightarrow> bool" where
  "dead now i \<longleftrightarrow> Expiration i > 0 \<and> now > Expiration i"

definition lookup :: "int \<Rightarrow> 'v cache \<Rightarrow> string \<Rightarrow> 'v option option" where
  "lookup now c k = (case map_of (items c) k of None \<Rightarrow> None | Some i \<Rightarrow> if dead now i then None else Some (Object i))"

lemma Set_eq: "Set now k x d c = set_unlocked now k x d c"
  by (simp add: Set_def set_unlocked_def expiration_of_def Let_def)

lemma Get_eq: "Get now k c = get_unlocked now k c"
  by (simp add: Get_def get_unlocked_def)

lemma get_lookup: "get_unlocked now k c = (case lookup now c k of None \<Rightarrow> (None, False) | Some v \<Rightarrow> (v, True))"
  by (simp add: get_unlocked_def lookup_def dead_def split: option.split)

lemma set_simps [simp]:
  "items (set_unlocked now k x d c) = AList.update k \<lparr>Object = x, Expiration = expiration_of now d\<rparr> (items c)"
  "onEvicted (set_unlocked now k x d c) = onEvicted c"
  by (simp_all add: set_unlocked_def)

lemma delete_simps' [simp]:
  "items (snd (delete_unlocked k c)) = AList.delete k (items c)"
  "onEvicted (snd (delete_unlocked k c)) = onEvicted c"
  by (simp_all add: delete_unlocked_def Let_def split: option.split)

lemma delete_result:
  "fst (delete_unlocked k c) =
     (if onEvicted c \<noteq> None \<and> map_of (items c) k \<noteq> None
      then (Object (the (map_of (items c) k)), True) else (None, False))"
  by (auto simp: delete_unlocked_def Let_def split: option.split)

lemma evict_some [simp]: "onEvicted c = Some f \<Longrightarrow> evict kvs c = Some (map (\<lambda>(k, v). (f, k, v)) kvs)"
  by (induction kvs) auto

lemma loop_step:
  "\<not> dead now v \<Longrightarrow> delete_expired_loop now ((k, v) # kvs) c = delete_expired_loop now kvs c"
  "dead now v \<Longrightarrow> snd (delete_expired_loop now ((k, v) # kvs) c) =
     snd (delete_expired_loop now kvs (snd (delete_unlocked k c)))"
  "dead now v \<Longrightarrow> fst (delete_expired_loop now ((k, v) # kvs) c) =
     (if snd (fst (delete_unlocked k c)) then [(k, fst (fst (delete_unlocked k c)))] else []) @
     fst (delete_expired_loop now kvs (snd (delete_unlocked k c)))"
  by (auto simp: dead_def split_beta Let_def)

lemma loop_onEvicted [simp]: "onEvicted (snd (delete_expired_loop now kvs c)) = onEvicted c"
  by (induction kvs arbitrary: c) (auto simp: split_beta Let_def)

lemma loop_items:
  "items (snd (delete_expired_loop now kvs c)) =
     filter (\<lambda>e. \<not> (\<exists>v. (fst e, v) \<in> set kvs \<and> dead now v)) (items c)"
proof (induction kvs arbitrary: c)
  case (Cons kv kvs)
  obtain k v where kv: "kv = (k, v)" by (cases kv)
  show ?case
  proof (cases "dead now v")
    case True
    have "filter (\<lambda>e. \<not> (\<exists>v. (fst e, v) \<in> set kvs \<and> dead now v)) (filter (\<lambda>(k', _). k \<noteq> k') (items c)) =
        filter (\<lambda>e. \<not> (\<exists>v. (fst e, v) \<in> set (kv # kvs) \<and> dead now v)) (items c)"
      using True by (auto simp: kv intro!: filter_cong)
    then show ?thesis by (simp only: kv loop_step(2) [OF True] Cons.IH delete_simps' AList.delete_eq)
  next
    case False
    have "filter (\<lambda>e. \<not> (\<exists>v. (fst e, v) \<in> set kvs \<and> dead now v)) (items c) =
        filter (\<lambda>e. \<not> (\<exists>v. (fst e, v) \<in> set (kv # kvs) \<and> dead now v)) (items c)"
      using False by (auto simp: kv intro!: filter_cong)
    then show ?thesis by (simp only: kv loop_step(1) [OF False] Cons.IH)
  qed
qed simp

lemma loop_evicted_none: "onEvicted c = None \<Longrightarrow> fst (delete_expired_loop now kvs c) = []"
  by (induction kvs arbitrary: c) (auto simp: split_beta Let_def delete_result)

lemma loop_evicted:
  assumes "onEvicted c = Some f" "distinct (map fst kvs)" "\<And>k v. (k, v) \<in> set kvs \<Longrightarrow> map_of (items c) k = Some v"
  shows "fst (delete_expired_loop now kvs c) = map (\<lambda>(k, v). (k, Object v)) (filter (\<lambda>(k, v). dead now v) kvs)"
  using assms
proof (induction kvs arbitrary: c)
  case (Cons kv kvs)
  obtain k v where kv: "kv = (k, v)" by (cases kv)
  show ?case
  proof (cases "dead now v")
    case True
    have later: "map_of (items (snd (delete_unlocked k c))) k' = Some v'" if "(k', v') \<in> set kvs" for k' v'
    proof -
      have "k' \<noteq> k" using that Cons.prems(2) by (force simp: kv)
      with that Cons.prems(3) show ?thesis by (simp add: AList.delete_conv')
    qed
    have "map_of (items c) k = Some v" using Cons.prems(3) by (simp add: kv)
    moreover have "fst (delete_expired_loop now kvs (snd (delete_unlocked k c))) =
        map (\<lambda>(k, v). (k, Object v)) (filter (\<lambda>(k, v). dead now v) kvs)"
      using Cons.prems(1,2) by (intro Cons.IH later) simp_all
    ultimately show ?thesis using True Cons.prems(1)
      by (simp add: kv loop_step(3) delete_result del: delete_expired_loop.simps)
  next
    case False
    with Cons show ?thesis by (simp add: kv loop_step(1) del: delete_expired_loop.simps)
  qed
qed simp

lemma loop_result:
  assumes "cache_ok c"
  shows "delete_expired_loop now (items c) c =
    (case onEvicted c of
       None \<Rightarrow> []
     | Some f \<Rightarrow> map (\<lambda>(k, v). (k, Object v)) (filter (\<lambda>(k, v). dead now v) (items c)),
     c\<lparr>items := filter (\<lambda>(k, v). \<not> dead now v) (items c)\<rparr>)"
proof -
  let ?r = "delete_expired_loop now (items c) c"
  have uniq: "v = v'" if "(k, v) \<in> set (items c)" "(k, v') \<in> set (items c)" for k v v'
    using that assms by (auto simp: cache_ok_def intro: eq_key_imp_eq_value)
  have "items (snd ?r) = filter (\<lambda>(k, v). \<not> dead now v) (items c)"
    unfolding loop_items by (rule filter_cong) (auto dest: uniq)
  then have snd: "snd ?r = c\<lparr>items := filter (\<lambda>(k, v). \<not> dead now v) (items c)\<rparr>" by simp
  show ?thesis
  proof (cases "onEvicted c")
    case None
    then show ?thesis using loop_evicted_none [of c now "items c"] snd by (simp add: prod_eq_iff)
  next
    case (Some f)
    have "fst ?r = map (\<lambda>(k, v). (k, Object v)) (filter (\<lambda>(k, v). dead now v) (items c))"
      using assms by (intro loop_evicted [OF Some]) (auto simp: cache_ok_def)
    then show ?thesis using Some snd by (simp add: prod_eq_iff)
  qed
qed

lemma DeleteExpired_result:
  assumes "cache_ok c"
  shows "DeleteExpired now c =
    Some (case onEvicted c of
            None \<Rightarrow> []
          | Some f \<Rightarrow> map (\<lambda>(k, v). (f, k, Object v)) (filter (\<lambda>(k, v). dead now v) (items c)),
      c\<lparr>items := filter (\<lambda>(k, v). \<not> dead now v) (items c)\<rparr>)"
  unfolding DeleteExpired_def loop_result [OF assms] by (cases "onEvicted c") auto

lemma Delete_result:
  "Delete k c =
     Some (case (onEvicted c, map_of (items c) k) of (Some f, Some v) \<Rightarrow> [(f, k, Object v)] | _ \<Rightarrow> [],
       c\<lparr>items := AList.delete k (items c)\<rparr>)"
  by (auto simp: Delete_def delete_unlocked_def Let_def split: option.split)

section \<open>Any history of calls\<close>

datatype 'v cache_op =
    OSet string "'v option" int | OAdd string "'v option" int | OReplace string "'v option" int
  | OGet string | ODelete string | ODeleteExpired | OClear | OUpdateExpiration string int
  | OItemCount | OOnEvicted "nat option"

datatype 'v cache_answer = ADone | AFailed cache_error | AGot "'v option" bool | ACount int

definition answer :: "cache_error option \<Rightarrow> 'v cache_answer" where
  "answer e = (case e of None \<Rightarrow> ADone | Some e \<Rightarrow> AFailed e)"

fun cache_call :: "int \<Rightarrow> 'v cache_op \<Rightarrow> 'v cache \<Rightarrow> ('v cache_answer \<times> 'v cache) option" where
  "cache_call now (OSet k x d) c = Some (ADone, Set now k x d c)"
| "cache_call now (OAdd k x d) c = Some (apfst answer (Add now k x d c))"
| "cache_call now (OReplace k x d) c = Some (apfst answer (Replace now k x d c))"
| "cache_call now (OGet k) c = Some (let (v, ok) = Get now k c in AGot v ok, c)"
| "cache_call now (ODelete k) c = map_option (\<lambda>(es, c). (ADone, c)) (Delete k c)"
| "cache_call now ODeleteExpired c = map_option (\<lambda>(es, c). (ADone, c)) (DeleteExpired now c)"
| "cache_call now OClear c = Some (ADone, Clear c)"
| "cache_call now (OUpdateExpiration k e) c = Some (apfst answer (UpdateExpiration k e c))"
| "cache_call now OItemCount c = Some (ACount (ItemCount c), c)"
| "cache_call now (OOnEvicted f) c = Some (ADone, OnEvicted f c)"

fun cache_calls :: "(int \<times> 'v cache_op) list \<Rightarrow> 'v cache \<Rightarrow> ('v cache_answer list \<times> 'v cache) option" where
  "cache_calls [] c = Some ([], c)"
| "cache_calls ((now, op) # ops) c = do {
     (a, c) \<leftarrow> cache_call now op c;
     (as, c) \<leftarrow> cache_calls ops c;
     Some (a # as, c)
   }"

text \<open>
  The contract: a map from keys to a value and a deadline. A value whose deadline has passed
  cannot be got; \<open>cleans\<close> says whether a clean-up takes such values out of the map, or does
  nothing at all.
\<close>

type_synonym 'v deadlines = "string \<rightharpoonup> 'v option \<times> int option"

fun past :: "int \<Rightarrow> int option \<Rightarrow> bool" where
  "past now None = False"
| "past now (Some e) = (e < now)"

definition live :: "int \<Rightarrow> 'v deadlines \<Rightarrow> string \<Rightarrow> 'v option option" where
  "live now m k = (case m k of None \<Rightarrow> None | Some (v, e) \<Rightarrow> if past now e then None else Some v)"

definition put_until :: "int \<Rightarrow> string \<Rightarrow> 'v option \<Rightarrow> int \<Rightarrow> 'v deadlines \<Rightarrow> 'v deadlines" where
  "put_until now k x d m = m(k \<mapsto> (x, if d > 0 then Some (now + d) else None))"

definition clean_up :: "int \<Rightarrow> 'v deadlines \<Rightarrow> 'v deadlines" where
  "clean_up now m k = (case m k of None \<Rightarrow> None | Some (v, e) \<Rightarrow> if past now e then None else Some (v, e))"

fun spec_call :: "bool \<Rightarrow> int \<Rightarrow> 'v cache_op \<Rightarrow> 'v deadlines \<Rightarrow> 'v cache_answer \<times> 'v deadlines" where
  "spec_call cleans now (OSet k x d) m = (ADone, put_until now k x d m)"
| "spec_call cleans now (OAdd k x d) m =
     (if live now m k = None then (ADone, put_until now k x d m) else (AFailed (ErrExists k), m))"
| "spec_call cleans now (OReplace k x d) m =
     (if live now m k = None then (AFailed (ErrMissing k), m) else (ADone, put_until now k x d m))"
| "spec_call cleans now (OGet k) m = (case live now m k of None \<Rightarrow> AGot None False | Some v \<Rightarrow> AGot v True, m)"
| "spec_call cleans now (ODelete k) m = (ADone, m(k := None))"
| "spec_call cleans now ODeleteExpired m = (ADone, if cleans then clean_up now m else m)"
| "spec_call cleans now OClear m = (ADone, Map.empty)"
| "spec_call cleans now (OUpdateExpiration k e) m = (if k \<in> dom m then ADone else AFailed (ErrNotFound k), m)"
| "spec_call cleans now OItemCount m = (ACount (int (card (dom m))), m)"
| "spec_call cleans now (OOnEvicted f) m = (ADone, m)"

fun spec_calls :: "bool \<Rightarrow> (int \<times> 'v cache_op) list \<Rightarrow> 'v deadlines \<Rightarrow> 'v cache_answer list \<times> 'v deadlines" where
  "spec_calls cleans [] m = ([], m)"
| "spec_calls cleans ((now, op) # ops) m =
     (let (a, m) = spec_call cleans now op m; (as, m) = spec_calls cleans ops m in (a # as, m))"

text \<open>What the items are in the contract.\<close>

definition deadline :: "'v item \<Rightarrow> 'v option \<times> int option" where
  "deadline i = (Object i, if Expiration i > 0 then Some (Expiration i) else None)"

definition deadlines_of :: "'v cache \<Rightarrow> 'v deadlines" where
  "deadlines_of c k = map_option deadline (map_of (items c) k)"

lemma past_deadline: "past now (snd (deadline i)) \<longleftrightarrow> dead now i"
  by (simp add: deadline_def dead_def)

fun op_duration :: "'v cache_op \<Rightarrow> int" where
  "op_duration (OSet k x d) = d"
| "op_duration (OAdd k x d) = d"
| "op_duration (OReplace k x d) = d"
| "op_duration _ = 0"

text \<open>Times that the clock can give: positive, and a deadline still fits 64 bits.\<close>

definition time_ok :: "int \<Rightarrow> 'v cache_op \<Rightarrow> bool" where
  "time_ok now op \<longleftrightarrow> 0 < now \<and> now + max 0 (op_duration op) < 2 ^ 63"

lemma lookup_live: "lookup now c k = live now (deadlines_of c) k"
  by (auto simp: lookup_def live_def deadlines_of_def deadline_def dead_def split: option.split)

lemma deadlines_set:
  assumes "0 < now" "now + max 0 d < 2 ^ 63"
  shows "deadlines_of (set_unlocked now k x d c) = put_until now k x d (deadlines_of c)"
proof -
  have "expiration_of now d = (if d > 0 then now + d else 0)"
    using assms by (auto simp: expiration_of_def wrap64_id)
  then show ?thesis
    using assms(1) by (auto simp: fun_eq_iff deadlines_of_def put_until_def deadline_def AList.update_conv')
qed

lemma map_of_filter_dead:
  assumes "distinct (map fst xs)"
  shows "map_of (filter (\<lambda>(k, v). \<not> P v) xs) k = (case map_of xs k of None \<Rightarrow> None | Some v \<Rightarrow> if P v then None else Some v)"
  using assms by (induction xs) (auto simp: map_of_eq_None_iff split: option.splits dest: map_of_SomeD)

lemma deadlines_clean:
  assumes "cache_ok c"
  shows "deadlines_of (c\<lparr>items := filter (\<lambda>(k, v). \<not> dead now v) (items c)\<rparr>) = clean_up now (deadlines_of c)"
proof -
  have "distinct (map fst (items c))" using assms by (simp add: cache_ok_def)
  from map_of_filter_dead [OF this] show ?thesis
    by (auto simp: fun_eq_iff deadlines_of_def clean_up_def past_deadline [symmetric] split: option.split prod.split)
qed

lemma count_dom: "cache_ok c \<Longrightarrow> ItemCount c = int (card (dom (deadlines_of c)))"
proof -
  assume "cache_ok c"
  moreover have "dom (deadlines_of c) = fst ` set (items c)"
    by (auto simp: deadlines_of_def dom_def dom_map_of_conv_image_fst [symmetric])
  ultimately show ?thesis
    using distinct_card [of "map fst (items c)"] by (simp add: cache_ok_def ItemCount_def)
qed

lemma cache_call_refines:
  assumes ok: "cache_ok c" and t: "time_ok now op"
  shows "\<exists>c'. cache_call now op c = Some (fst (spec_call True now op (deadlines_of c)), c') \<and>
    cache_ok c' \<and> deadlines_of c' = snd (spec_call True now op (deadlines_of c))"
proof -
  let ?m = "deadlines_of c"
  have set: "cache_ok (set_unlocked now k x d c)" for k x d
    using ok by (simp add: cache_ok_def AList.distinct_update)
  note l = lookup_live [of now c]
  show ?thesis
  proof (cases op)
    case (OSet k x d)
    with t set deadlines_set [of now d k x c] show ?thesis by (simp add: Set_eq time_ok_def)
  next
    case (OAdd k x d)
    with t set ok deadlines_set [of now d k x c] show ?thesis
      by (auto simp: Add_def get_lookup l time_ok_def answer_def split: option.split)
  next
    case (OReplace k x d)
    with t set ok deadlines_set [of now d k x c] show ?thesis
      by (auto simp: Replace_def get_lookup l time_ok_def answer_def split: option.split)
  next
    case (OGet k)
    with ok show ?thesis by (auto simp: Get_eq get_lookup l split: option.split)
  next
    case (ODelete k)
    have "deadlines_of (c\<lparr>items := AList.delete k (items c)\<rparr>) = ?m(k := None)"
      by (simp add: fun_eq_iff deadlines_of_def AList.delete_conv')
    with ok ODelete show ?thesis by (simp add: Delete_result cache_ok_def distinct_delete)
  next
    case ODeleteExpired
    with ok deadlines_clean [OF ok, of now] show ?thesis
      by (simp add: DeleteExpired_result [OF ok] cache_ok_def distinct_map_filter)
  next
    case OClear
    then show ?thesis by (simp add: Clear_def cache_ok_def fun_eq_iff deadlines_of_def)
  next
    case (OUpdateExpiration k e)
    with ok show ?thesis by (auto simp: UpdateExpiration_def answer_def deadlines_of_def dom_def split: option.split)
  next
    case OItemCount
    with ok count_dom [OF ok] show ?thesis by simp
  next
    case (OOnEvicted f)
    with ok show ?thesis by (simp add: OnEvicted_def cache_ok_def fun_eq_iff deadlines_of_def)
  qed
qed

lemma cache_calls_refines:
  assumes "cache_ok c" "\<forall>(t, op) \<in> set ops. time_ok t op"
  shows "\<exists>c'. cache_calls ops c = Some (fst (spec_calls True ops (deadlines_of c)), c') \<and>
    deadlines_of c' = snd (spec_calls True ops (deadlines_of c))"
  using assms
proof (induction ops arbitrary: c)
  case (Cons o1 ops)
  obtain t op where o1: "o1 = (t, op)" by (cases o1)
  from cache_call_refines [OF Cons.prems(1), of t op] Cons.prems(2) obtain c' where
    c': "cache_call t op c = Some (fst (spec_call True t op (deadlines_of c)), c')" "cache_ok c'"
      "deadlines_of c' = snd (spec_call True t op (deadlines_of c))" by (auto simp: o1)
  from Cons.IH [OF c'(2)] Cons.prems(2) c' show ?case by (auto simp: o1 split_beta Let_def)
qed simp

text \<open>Whether clean-ups happen shows in no answer but those that ask what is in the map.\<close>

fun asks_presence :: "'v cache_op \<Rightarrow> bool" where
  "asks_presence (OUpdateExpiration k e) = True"
| "asks_presence OItemCount = True"
| "asks_presence _ = False"

definition same_live :: "int \<Rightarrow> 'v deadlines \<Rightarrow> 'v deadlines \<Rightarrow> bool" where
  "same_live now m m' \<longleftrightarrow> (\<forall>t k. now \<le> t \<longrightarrow> live t m k = live t m' k)"

lemma live_put:
  "live t (put_until now k x d m) k' = (if k' = k then (if d > 0 \<and> t > now + d then None else Some x) else live t m k')"
  by (auto simp: live_def put_until_def)

lemma live_clean: "now \<le> t \<Longrightarrow> live t (clean_up now m) k = live t m k"
  by (cases "m k") (auto simp: live_def clean_up_def elim!: past.elims)

lemma spec_call_unseen:
  assumes "same_live now m m'" "\<not> asks_presence op"
  shows "fst (spec_call True now op m) = fst (spec_call False now op m') \<and>
    same_live now (snd (spec_call True now op m)) (snd (spec_call False now op m'))"
  using assms by (cases op) (auto simp: same_live_def live_put live_clean, auto simp: live_def)

lemma spec_calls_unseen:
  assumes "same_live now m m'" "sorted (map fst ops)" "\<forall>(t, op) \<in> set ops. now \<le> t \<and> \<not> asks_presence op"
  shows "fst (spec_calls True ops m) = fst (spec_calls False ops m')"
  using assms
proof (induction ops arbitrary: now m m')
  case (Cons o1 ops)
  obtain t op where o1: "o1 = (t, op)" by (cases o1)
  have "same_live t m m'" using Cons.prems(1,3) by (auto simp: o1 same_live_def)
  from spec_call_unseen [OF this, of op] Cons.prems(3) have
    s: "fst (spec_call True t op m) = fst (spec_call False t op m')"
      "same_live t (snd (spec_call True t op m)) (snd (spec_call False t op m'))" by (auto simp: o1)
  have "\<forall>(t', op) \<in> set ops. t \<le> t' \<and> \<not> asks_presence op" using Cons.prems(2,3) by (force simp: o1)
  from Cons.IH [OF s(2) _ this] Cons.prems(2) s(1) show ?case by (simp add: o1 split_beta Let_def)
qed simp

text \<open>The assignment of \<open>UpdateExpiration\<close> goes to a copy: no deadline ever changes.\<close>

lemma UpdateExpiration_no_effect:
  "snd (UpdateExpiration k e c) = c"
  "fst (UpdateExpiration k e c) = None \<longleftrightarrow> k \<in> dom (map_of (items c))"
  by (auto simp: UpdateExpiration_def split: option.split)

section \<open>The properties\<close>



text \<open>
  \<open>DeleteExpired\<close> removes exactly the items whose deadline has passed and, when a
  callback is set, calls it once for each of them with its key and value, in the order of the
  map; every other item stays, so \<open>ItemCount\<close> drops by the number removed.
\<close>

lemma cache_cleanup:
  assumes "cache_ok c"
  shows "\<exists>es c'. DeleteExpired now c = Some (es, c') \<and> cache_ok c' \<and> onEvicted c' = onEvicted c \<and>
    items c' = filter (\<lambda>(k, v). \<not> (0 < Expiration v \<and> Expiration v < now)) (items c) \<and>
    es = (case onEvicted c of None \<Rightarrow> []
      | Some f \<Rightarrow> map (\<lambda>(k, v). (f, k, Object v))
          (filter (\<lambda>(k, v). 0 < Expiration v \<and> Expiration v < now) (items c))) \<and>
    ItemCount c = ItemCount c' +
      int (length (filter (\<lambda>(k, v). 0 < Expiration v \<and> Expiration v < now) (items c)))"
proof -
  have d: "dead now = (\<lambda>v. 0 < Expiration v \<and> Expiration v < now)" for now :: int
    by (simp add: dead_def fun_eq_iff)
  have "length (items c) = length (filter (\<lambda>(k, v). \<not> dead now v) (items c)) +
      length (filter (\<lambda>(k, v). dead now v) (items c))"
    using sum_length_filter_compl [of "\<lambda>(k, v). dead now v" "items c"] by (simp add: case_prod_beta')
  moreover have "cache_ok (c\<lparr>items := filter (\<lambda>(k, v). \<not> dead now v) (items c)\<rparr>)"
    using assms by (simp add: cache_ok_def distinct_map_filter)
  ultimately show ?thesis
    unfolding DeleteExpired_result [OF assms] d by (simp add: ItemCount_def)
qed

text \<open>
  A deadline beyond \<open>int64\<close>. A duration that pushes the deadline past the largest
  nanosecond count wraps to a negative one: \<open>Get\<close>, which asks for a positive deadline,
  serves the item for ever, while \<open>Expired\<close>, of which it is meant to be the inlined form,
  already calls it expired. For every other item the two agree.
\<close>

lemma expired_agrees_unless_wrapped:
  assumes "0 < now" "now < 2 ^ 63" "d < 2 ^ 63"
  shows "\<exists>i. map_of (items (Set now k x d c)) k = Some i \<and>
    (if now + max 0 d < 2 ^ 63
     then \<forall>t. snd (Get t k (Set now k x d c)) = (\<not> Expired t i)
     else \<forall>t > 0. snd (Get t k (Set now k x d c)) \<and> Expired t i)"
proof -
  let ?i = "\<lparr>Object = x, Expiration = expiration_of now d\<rparr>"
  have g: "snd (Get t k (Set now k x d c)) = (\<not> (Expiration ?i > 0 \<and> t > Expiration ?i))" for t
    by (simp add: Set_eq Get_eq get_unlocked_def AList.update_conv')
  have "map_of (items (Set now k x d c)) k = Some ?i" by (simp add: Set_eq AList.update_conv')
  moreover have "if now + max 0 d < 2 ^ 63
     then \<forall>t. snd (Get t k (Set now k x d c)) = (\<not> Expired t ?i)
     else \<forall>t > 0. snd (Get t k (Set now k x d c)) \<and> Expired t ?i"
  proof (cases "now + max 0 d < 2 ^ 63")
    case True
    then have "expiration_of now d = (if d > 0 then now + d else 0)"
      using assms by (auto simp: expiration_of_def wrap64_id)
    with True assms show ?thesis unfolding g by (simp add: Expired_def)
  next
    case False
    then have d: "d > 0" "2 ^ 63 \<le> now + d" using assms by (auto simp: max_def split: if_splits)
    have "(now + d + 2 ^ 63) mod 2 ^ 64 = (now + d - 2 ^ 63) mod 2 ^ 64"
      using mod_add_self2 [of "now + d - 2 ^ 63" "2 ^ 64"] by (simp add: algebra_simps)
    also have "\<dots> = now + d - 2 ^ 63" using assms d by (intro mod_pos_pos_trivial) simp_all
    finally have "expiration_of now d < 0" using assms d by (simp add: expiration_of_def wrap64_def)
    with False show ?thesis unfolding g by (simp add: Expired_def)
  qed
  ultimately show ?thesis by blast
qed

text \<open>
  C20. What expires. \<open>DeleteExpired\<close> removes exactly the items whose deadline has passed
  and, when a callback is set, calls it once for each of them with its key and value, in the
  order of the map; every other item stays, so \<open>ItemCount\<close> drops by the number removed.
  But a duration that pushes the deadline past the largest nanosecond count wraps to a
  negative one: \<open>Get\<close>, which asks for a positive deadline, serves that item for ever, while
  \<open>Expired\<close>, of which it is meant to be the inlined form, already calls it expired. For
  every other item the two agree.
\<close>

theorem cache_expiry:
  assumes "cache_ok c" "0 < now" "now < 2 ^ 63" "d < 2 ^ 63"
  shows "(\<exists>es c'. DeleteExpired now c = Some (es, c') \<and> cache_ok c' \<and> onEvicted c' = onEvicted c \<and>
      items c' = filter (\<lambda>(k, v). \<not> (0 < Expiration v \<and> Expiration v < now)) (items c) \<and>
      es = (case onEvicted c of None \<Rightarrow> []
        | Some f \<Rightarrow> map (\<lambda>(k, v). (f, k, Object v))
            (filter (\<lambda>(k, v). 0 < Expiration v \<and> Expiration v < now) (items c))) \<and>
      ItemCount c = ItemCount c' +
        int (length (filter (\<lambda>(k, v). 0 < Expiration v \<and> Expiration v < now) (items c)))) \<and>
    (\<exists>i. map_of (items (Set now k x d c)) k = Some i \<and>
      (if now + max 0 d < 2 ^ 63
       then \<forall>t. snd (Get t k (Set now k x d c)) = (\<not> Expired t i)
       else \<forall>t > 0. snd (Get t k (Set now k x d c)) \<and> Expired t i))"
  using cache_cleanup [OF assms(1)] expired_agrees_unless_wrapped [OF assms(2-4)] by (rule conjI)

theorem cache_expiry_witness:
  "(\<exists>es c'. DeleteExpired 20 \<lparr>items = [(''a'', \<lparr>Object = Some 1, Expiration = 15\<rparr>), (''b'', \<lparr>Object = Some (2 :: nat), Expiration = 0\<rparr>)],
      onEvicted = Some 9\<rparr> = Some (es, c') \<and> es = [(9, ''a'', Some 1)] \<and> ItemCount c' = 1) \<and>
   (\<exists>i. map_of (items (Set 1 ''a'' (Some (5 :: nat)) 9223372036854775807 (newCache []))) ''a'' = Some i \<and>
     (\<forall>t > 0. snd (Get t ''a'' (Set 1 ''a'' (Some (5 :: nat)) 9223372036854775807 (newCache []))) \<and> Expired t i))"
proof
  let ?c = "\<lparr>items = [(''a'', \<lparr>Object = Some 1, Expiration = 15\<rparr>), (''b'', \<lparr>Object = Some (2 :: nat), Expiration = 0\<rparr>)],
      onEvicted = Some 9\<rparr>"
  have "cache_ok ?c" by (simp add: cache_ok_def)
  from cache_expiry [OF this, of 20 0, THEN conjunct1]
  show "\<exists>es c'. DeleteExpired 20 ?c = Some (es, c') \<and> es = [(9, ''a'', Some 1)] \<and> ItemCount c' = 1"
    by (auto simp: ItemCount_def)
  have "cache_ok (newCache [])" by (simp add: newCache_def cache_ok_def)
  from cache_expiry [OF this, of 1 9223372036854775807 "''a''" "Some (5 :: nat)", THEN conjunct2]
  show "\<exists>i. map_of (items (Set 1 ''a'' (Some (5 :: nat)) 9223372036854775807 (newCache []))) ''a'' = Some i \<and>
     (\<forall>t > 0. snd (Get t ''a'' (Set 1 ''a'' (Some (5 :: nat)) 9223372036854775807 (newCache []))) \<and> Expired t i)"
    by simp
qed

end
