(* ===== verification/CacheConc.thy ===== *)
theory CacheConc
  imports Cache "HOL-Library.Multiset"
begin

text \<open>
  \<open>gcache/cache.go\<close> with several goroutines. Every operation holds the mutex for its work on
  the map, so that work is one step; but \<open>Delete\<close> and \<open>DeleteExpired\<close> call the eviction
  callback after they have given the mutex back, one call after the other, and read the
  field \<open>onEvicted\<close> again for each.
\<close>

section \<open>The steps\<close>

text \<open>What an operation does under the mutex, with the items it has still to report.\<close>

fun locked :: "int \<Rightarrow> 'v cache_op \<Rightarrow> 'v cache \<Rightarrow> (string \<times> 'v option) list \<times> 'v cache" where
  "locked now (OSet k x d) c = ([], Set now k x d c)"
| "locked now (OAdd k x d) c = ([], snd (Add now k x d c))"
| "locked now (OReplace k x d) c = ([], snd (Replace now k x d c))"
| "locked now (OGet k) c = ([], c)"
| "locked now (ODelete k) c = (let ((v, evicted), c) = delete_unlocked k c in (if evicted then [(k, v)] else [], c))"
| "locked now ODeleteExpired c = delete_expired_loop now (items c) c"
| "locked now OClear c = ([], Clear c)"
| "locked now (OUpdateExpiration k e) c = ([], snd (UpdateExpiration k e c))"
| "locked now OItemCount c = ([], c)"
| "locked now (OOnEvicted f) c = ([], OnEvicted f c)"

text \<open>
  The items that were in the map before a deletion or a clean-up and are not in it afterwards,
  where there is a callback to report them to. (\<open>Clear\<close> and overwriting are not reported.)
\<close>

fun evicts :: "'v cache_op \<Rightarrow> bool" where
  "evicts (ODelete k) = True"
| "evicts ODeleteExpired = True"
| "evicts _ = False"

definition lost :: "'v cache_op \<Rightarrow> 'v cache \<Rightarrow> 'v cache \<Rightarrow> (string \<times> 'v option) list" where
  "lost op c c' =
     (if evicts op \<and> onEvicted c \<noteq> None
      then map (\<lambda>(k, i). (k, Object i)) (filter (\<lambda>(k, i). k \<notin> fst ` set (items c')) (items c))
      else [])"

text \<open>
  For each goroutine the items it has still to report; the calls of the callback; and, by
  comparison of the maps, all items lost to deletions and clean-ups.
\<close>

record 'v conc_cache =
  cc_cache :: "'v cache"
  cc_pending :: "(string \<times> 'v option) list list"
  cc_log :: "'v eviction list"
  cc_lost :: "(string \<times> 'v option) list"

datatype 'v cc_act = CLock nat int "'v cache_op" | CEvict nat

datatype 'v cc_result = CBlocked | CPanics | CRuns "'v conc_cache"

text \<open>A call of a nil function panics.\<close>

fun cc_step :: "'v cc_act \<Rightarrow> 'v conc_cache \<Rightarrow> 'v cc_result" where
  "cc_step (CLock g now op) s =
     (if g < length (cc_pending s) \<and> cc_pending s ! g = []
      then let (kvs, c) = locked now op (cc_cache s)
           in CRuns (s\<lparr>cc_cache := c, cc_pending := (cc_pending s)[g := kvs], cc_lost := cc_lost s @ lost op (cc_cache s) c\<rparr>)
      else CBlocked)"
| "cc_step (CEvict g) s =
     (if g < length (cc_pending s)
      then (case cc_pending s ! g of
              [] \<Rightarrow> CBlocked
            | (k, v) # kvs \<Rightarrow>
                (case onEvicted (cc_cache s) of
                   None \<Rightarrow> CPanics
                 | Some f \<Rightarrow> CRuns (s\<lparr>cc_pending := (cc_pending s)[g := kvs], cc_log := cc_log s @ [(f, k, v)]\<rparr>)))
      else CBlocked)"

fun cc_run :: "'v cc_act list \<Rightarrow> 'v conc_cache \<Rightarrow> 'v cc_result" where
  "cc_run [] s = CRuns s"
| "cc_run (a # as) s = (case cc_step a s of CRuns s' \<Rightarrow> cc_run as s' | r \<Rightarrow> r)"

definition cc_start :: "nat \<Rightarrow> 'v conc_cache" where
  "cc_start n = \<lparr>cc_cache = newCache [], cc_pending = replicate n [], cc_log = [], cc_lost = []\<rparr>"

fun lock_ops :: "'v cc_act list \<Rightarrow> (int \<times> 'v cache_op) list" where
  "lock_ops [] = []"
| "lock_ops (CLock g now op # as) = (now, op) # lock_ops as"
| "lock_ops (CEvict g # as) = lock_ops as"

section \<open>The map, the reports, the callback\<close>

lemma locked_is_call: "\<exists>r. cache_call now op c = Some (r, snd (locked now op c))"
proof (cases op)
  case (ODelete k)
  then show ?thesis by (simp add: Delete_result split_beta Let_def delete_result)
next
  case ODeleteExpired
  have "evict (fst (delete_expired_loop now (items c) c)) (snd (delete_expired_loop now (items c) c)) \<noteq> None"
  proof (cases "onEvicted c")
    case None
    then show ?thesis by (simp add: loop_evicted_none)
  next
    case (Some f)
    then have "onEvicted (snd (delete_expired_loop now (items c) c)) = Some f" by (simp add: loop_onEvicted)
    then show ?thesis by simp
  qed
  with ODeleteExpired show ?thesis by (auto simp: DeleteExpired_def split_beta Let_def)
qed (auto simp: split_beta Let_def apfst_def map_prod_def)


definition pendings :: "'v conc_cache \<Rightarrow> (string \<times> 'v option) multiset" where
  "pendings s = mset (concat (cc_pending s))"

lemma mset_concat_update:
  assumes "i < length xss"
  shows "mset (concat (xss[i := ys])) + mset (xss ! i) = mset (concat xss) + mset ys"
proof -
  have "concat xss = concat (take i xss) @ xss ! i @ concat (drop (Suc i) xss)"
    using id_take_nth_drop [OF assms] by (metis concat.simps(2) concat_append)
  then show ?thesis by (simp add: upd_conv_take_nth_drop [OF assms])
qed

lemma locked_ok: "cache_ok c \<Longrightarrow> cache_ok (snd (locked now op c))"
  by (cases op) (auto simp: cache_ok_def Set_eq Add_def Replace_def AList.distinct_update distinct_delete Clear_def
      UpdateExpiration_def OnEvicted_def loop_items distinct_map_filter split_beta Let_def split: option.split)

lemma filter_key:
  "distinct (map fst xs) \<Longrightarrow> filter (\<lambda>(k', i). k' = k) xs = (case map_of xs k of None \<Rightarrow> [] | Some v \<Rightarrow> [(k, v)])"
proof (induction xs)
  case (Cons x xs)
  then have "fst x = k \<Longrightarrow> map_of xs k = None" by (auto simp: map_of_eq_None_iff)
  with Cons show ?case by (cases x) auto
qed simp

text \<open>What an operation sets out to report is what the map has lost.\<close>

lemma locked_lost:
  assumes ok: "cache_ok c"
  shows "mset (fst (locked now op c)) = mset (lost op c (snd (locked now op c)))"
proof (cases op)
  case (ODelete k)
  have d: "distinct (map fst (items c))" using ok by (simp add: cache_ok_def)
  have "map (\<lambda>(k, i). (k, Object i)) (filter (\<lambda>(k', i). k' \<notin> fst ` set (AList.delete k (items c))) (items c)) =
      (case map_of (items c) k of None \<Rightarrow> [] | Some v \<Rightarrow> [(k, Object v)])"
  proof -
    have "filter (\<lambda>(k', i). k' \<notin> fst ` set (AList.delete k (items c))) (items c) =
        filter (\<lambda>(k', i). k' = k) (items c)"
      by (rule filter_cong) (force simp: AList.delete_eq)+
    also have "\<dots> = (case map_of (items c) k of None \<Rightarrow> [] | Some v \<Rightarrow> [(k, v)])"
      using d by (rule filter_key)
    finally show ?thesis by (simp split: option.split)
  qed
  with ODelete show ?thesis
    by (cases "onEvicted c"; cases "map_of (items c) k") (simp_all add: lost_def split_beta Let_def delete_result)
next
  case ODeleteExpired
  have "filter (\<lambda>(k, i). k \<notin> fst ` set (filter (\<lambda>(k, v). \<not> dead now v) (items c))) (items c) =
      filter (\<lambda>(k, v). dead now v) (items c)"
    using ok by (intro filter_cong) (force simp: cache_ok_def dest: eq_key_imp_eq_value)+
  with ODeleteExpired show ?thesis
    by (cases "onEvicted c") (simp_all add: lost_def loop_result [OF ok])
qed (simp_all add: lost_def)

text \<open>As long as nobody takes the callback away, there is one while a report is due.\<close>

definition cc_inv :: "'v conc_cache \<Rightarrow> bool" where
  "cc_inv s \<longleftrightarrow> cache_ok (cc_cache s) \<and> mset (map snd (cc_log s)) + pendings s = mset (cc_lost s)"

definition covered :: "'v conc_cache \<Rightarrow> bool" where
  "covered s \<longleftrightarrow> concat (cc_pending s) \<noteq> [] \<longrightarrow> onEvicted (cc_cache s) \<noteq> None"

lemma cc_step_inv:
  assumes inv: "cc_inv s" and r: "cc_step a s = CRuns s'"
  shows "cc_inv s'"
proof (cases a)
  case (CLock g now op)
  with r obtain kvs c where l: "locked now op (cc_cache s) = (kvs, c)" "g < length (cc_pending s)" "cc_pending s ! g = []"
    "s' = s\<lparr>cc_cache := c, cc_pending := (cc_pending s)[g := kvs], cc_lost := cc_lost s @ lost op (cc_cache s) c\<rparr>"
    by (auto split: if_splits prod.splits)
  have ok: "cache_ok (cc_cache s)" using inv by (simp add: cc_inv_def)
  with mset_concat_update [OF l(2), of kvs] inv locked_lost [OF ok, of now op] locked_ok [OF ok, of now op] l(1,3,4)
  show ?thesis by (simp add: cc_inv_def pendings_def add.assoc [symmetric])
next
  case (CEvict g)
  with r obtain k v kvs f where l: "g < length (cc_pending s)" "cc_pending s ! g = (k, v) # kvs"
    "s' = s\<lparr>cc_pending := (cc_pending s)[g := kvs], cc_log := cc_log s @ [(f, k, v)]\<rparr>"
    by (auto split: if_splits list.splits option.splits)
  let ?A = "mset (concat ((cc_pending s)[g := kvs]))" and ?B = "mset (concat (cc_pending s))"
  have "add_mset (k, v) ?A + mset kvs = ?A + mset ((k, v) # kvs)" by simp
  also have "\<dots> = ?B + mset kvs" using mset_concat_update [OF l(1), of kvs] l(2) by (simp only:)
  finally have "add_mset (k, v) ?A = ?B" by (simp only: add_right_cancel)
  with inv have "cache_ok (cc_cache s)" "mset (map snd (cc_log s)) + add_mset (k, v) ?A = mset (cc_lost s)"
    by (simp_all add: cc_inv_def pendings_def)
  then show ?thesis by (simp add: cc_inv_def pendings_def l(3))
qed

lemma locked_callback: "op \<noteq> OOnEvicted None \<Longrightarrow>
  (fst (locked now op c) \<noteq> [] \<longrightarrow> onEvicted c \<noteq> None) \<and>
  (onEvicted c \<noteq> None \<longrightarrow> onEvicted (snd (locked now op c)) \<noteq> None) \<and>
  (onEvicted c = None \<and> fst (locked now op c) \<noteq> [] \<longrightarrow> False)"
proof (cases op)
  case ODeleteExpired
  then show ?thesis using loop_evicted_none [of c now "items c"] by (auto simp: loop_onEvicted)
next
  case (ODelete k)
  then show ?thesis by (auto simp: split_beta Let_def delete_result delete_simps')
qed (auto simp: Set_def Add_def Replace_def set_unlocked_def Clear_def UpdateExpiration_def OnEvicted_def split_beta Let_def
  split: option.split)

lemma concat_update_nonempty:
  "i < length xss \<Longrightarrow> concat (xss[i := ys]) \<noteq> [] \<Longrightarrow> concat xss \<noteq> [] \<or> ys \<noteq> []"
  by (auto dest: set_update_subset_insert [THEN subsetD])

lemma cc_step_covered:
  assumes cov: "covered s" and r: "cc_step a s = CRuns s'" and a: "\<And>g now. a \<noteq> CLock g now (OOnEvicted None)"
  shows "covered s'"
proof (cases a)
  case (CLock g now op)
  with r obtain kvs c where l: "locked now op (cc_cache s) = (kvs, c)" "g < length (cc_pending s)"
    "s' = s\<lparr>cc_cache := c, cc_pending := (cc_pending s)[g := kvs], cc_lost := cc_lost s @ lost op (cc_cache s) c\<rparr>"
    by (auto split: if_splits prod.splits)
  have "op \<noteq> OOnEvicted None" using a CLock by blast
  from locked_callback [OF this, of now "cc_cache s"] concat_update_nonempty [OF l(2), of kvs] l cov
  show ?thesis by (auto simp: covered_def)
next
  case (CEvict g)
  with r obtain f where "onEvicted (cc_cache s') = Some f"
    by (auto split: if_splits list.splits option.splits)
  then show ?thesis by (simp add: covered_def)
qed

section \<open>Runs\<close>

lemma cc_run_inv:
  assumes "cc_inv s" "cc_run as s = CRuns s'"
  shows "cc_inv s' \<and> length (cc_pending s') = length (cc_pending s) \<and>
    (\<exists>rs. cache_calls (lock_ops as) (cc_cache s) = Some (rs, cc_cache s'))"
  using assms
proof (induction as arbitrary: s)
  case (Cons a as)
  from Cons.prems(2) obtain s1 where s1: "cc_step a s = CRuns s1" "cc_run as s1 = CRuns s'"
    by (auto split: cc_result.splits)
  from Cons.IH [OF cc_step_inv [OF Cons.prems(1) s1(1)] s1(2)] obtain rs where
    IH: "cc_inv s'" "length (cc_pending s') = length (cc_pending s1)"
      "cache_calls (lock_ops as) (cc_cache s1) = Some (rs, cc_cache s')" by blast
  show ?case
  proof (cases a)
    case (CLock g now op)
    from s1(1) CLock have "cc_cache s1 = snd (locked now op (cc_cache s))" "length (cc_pending s1) = length (cc_pending s)"
      by (auto simp: split_beta Let_def split: if_splits)
    with IH locked_is_call [of now op "cc_cache s"] CLock show ?thesis by auto
  next
    case (CEvict g)
    from s1(1) CEvict have "cc_cache s1 = cc_cache s" "length (cc_pending s1) = length (cc_pending s)"
      by (auto split: if_splits list.splits option.splits)
    with IH CEvict show ?thesis by auto
  qed
qed simp

lemma cc_run_covered:
  assumes "covered s" "\<And>g now. CLock g now (OOnEvicted None) \<notin> set as"
  shows "cc_run as s \<noteq> CPanics"
  using assms
proof (induction as arbitrary: s)
  case (Cons a as)
  show ?case
  proof (cases "cc_step a s")
    case CPanics
    then obtain g where g: "g < length (cc_pending s)" "cc_pending s ! g \<noteq> []" "onEvicted (cc_cache s) = None"
      by (cases a) (auto simp: split_beta Let_def split: if_splits list.splits option.splits)
    then have "concat (cc_pending s) \<noteq> []" by (auto simp: set_conv_nth)
    with g(3) Cons.prems(1) show ?thesis by (simp add: covered_def)
  next
    case (CRuns s1)
    have "\<And>g now. a \<noteq> CLock g now (OOnEvicted None)" "\<And>g now. CLock g now (OOnEvicted None) \<notin> set as"
      using Cons.prems(2) by (auto simp: image_iff)
    with Cons.IH [OF cc_step_covered [OF Cons.prems(1) CRuns]] CRuns show ?thesis by simp
  qed simp
qed simp

section \<open>The property\<close>

text \<open>A callback is set, an item removed, the callback taken away before the report.\<close>

definition unset_too_early :: "nat cc_act list" where
  "unset_too_early = [CLock 0 1 (OOnEvicted (Some 7)), CLock 0 2 (OSet ''a'' (Some 5) 0),
     CLock 1 3 (ODelete ''a''), CLock 0 4 (OOnEvicted None), CEvict 1]"

text \<open>
  C21. The cache under concurrent calls. Whatever the interleaving of any number of
  goroutines, the map is what the same operations give one after the other, in the order in which
  they took the mutex; and every item that a \<open>Delete\<close> or a \<open>DeleteExpired\<close> took out of the map
  while a callback was set is reported exactly once or still due, none twice, none left out and
  nothing else. No call panics in a run in which nobody
  sets the callback to nil. But a callback set to nil between the removal of an item and its
  report is called all the same: the goroutine that removed the item panics.
\<close>

theorem cache_callbacks:
  "(\<forall>s. cc_run as (cc_start n) = CRuns s \<longrightarrow>
      (\<exists>rs. cache_calls (lock_ops as) (newCache []) = Some (rs, cc_cache s)) \<and>
      mset (map snd (cc_log s)) + pendings s = mset (cc_lost s)) \<and>
   ((\<forall>g now. CLock g now (OOnEvicted None) \<notin> set as) \<longrightarrow> cc_run as (cc_start n) \<noteq> CPanics) \<and>
   cc_run unset_too_early (cc_start 2) = CPanics"
proof (intro conjI allI impI)
  have s: "cc_inv (cc_start n)" "covered (cc_start n)" "cc_cache (cc_start n) = newCache []"
    by (simp_all add: cc_start_def cc_inv_def pendings_def covered_def newCache_def cache_ok_def)
  fix s assume "cc_run as (cc_start n) = CRuns s"
  from cc_run_inv [OF s(1) this]
  show "\<exists>rs. cache_calls (lock_ops as) (newCache []) = Some (rs, cc_cache s)"
    "mset (map snd (cc_log s)) + pendings s = mset (cc_lost s)" unfolding s(3) cc_inv_def by blast+
next
  assume "\<forall>g now. CLock g now (OOnEvicted None) \<notin> set as"
  moreover have "covered (cc_start n)" by (simp add: cc_start_def covered_def)
  ultimately show "cc_run as (cc_start n) \<noteq> CPanics" using cc_run_covered by blast
next
  show "cc_run unset_too_early (cc_start 2) = CPanics" by code_simp
qed

theorem cache_callbacks_witness:
  "\<exists>s. cc_run (take 3 unset_too_early @ [CEvict 1]) (cc_start 2) = CRuns s \<and> cc_log s = [(7, ''a'', Some 5)] \<and>
     mset (map snd (cc_log s)) + pendings s = mset (cc_lost s)"
proof -
  let ?as = "take 3 unset_too_early @ [CEvict 1]"
  have "(case cc_run ?as (cc_start 2) of CRuns s \<Rightarrow> cc_log s | _ \<Rightarrow> []) = [(7, ''a'', Some 5)]" by code_simp
  then obtain s where s: "cc_run ?as (cc_start 2) = CRuns s" "cc_log s = [(7, ''a'', Some 5)]"
    by (auto split: cc_result.splits)
  with cache_callbacks [THEN conjunct1, rule_format, OF s(1)] show ?thesis by blast
qed

end
