(* ===== verification/CacheJanitor.thy ===== *)
theory CacheJanitor
  imports Cache
begin

text \<open>
  \<open>gcache/cache.go\<close>: the cache with the goroutine that is to clean it up. The statements of
  \<open>run\<close> are steps of their own, between the calls of the clients; the ticker can deliver
  only while it runs, and its channel holds one tick. The finalizer sends on the channel that
  \<open>run\<close> makes.
\<close>

section \<open>The janitor\<close>

text \<open>The channel \<open>stop\<close> is nil until the goroutine has made it.\<close>

record janitor =
  Interval :: int
  stop_made :: bool

text \<open>The goroutine: started; with its channel; with its ticker running; in the loop; returned.\<close>

datatype jan_pc = JStarted | JMade | JTicking | JLoop | JReturned

record 'v jan_sys =
  js_cache :: "'v cache"
  js_janitor :: "(janitor \<times> jan_pc) option"
  js_tick :: bool
  js_cleanups :: "int list"

definition runJanitor :: "int \<Rightarrow> 'v jan_sys \<Rightarrow> 'v jan_sys" where
  "runJanitor ci s = s\<lparr>js_janitor := Some (\<lparr>Interval = ci, stop_made = False\<rparr>, JStarted)\<rparr>"

definition newCacheWithJanitor :: "int \<Rightarrow> (string \<times> 'v item) list \<Rightarrow> 'v jan_sys" where
  "newCacheWithJanitor ci m =
     (let s = \<lparr>js_cache = newCache m, js_janitor = None, js_tick = False, js_cleanups = []\<rparr>
      in if ci > 0 then runJanitor ci s else s)"

definition NewCache :: "int \<Rightarrow> 'v jan_sys" where
  "NewCache cleanupInterval = newCacheWithJanitor cleanupInterval []"

text \<open>What can happen: a call, the next statement of the goroutine, a tick, the two cases of its \<open>select\<close>.\<close>

datatype 'v jan_act = JCall int "'v cache_op" | JNext | JTick | JClean int | JStop

text \<open>The statements before the loop: \<open>make\<close>, \<open>NewTicker\<close>, \<open>Stop\<close>.\<close>

fun run_next :: "janitor \<times> jan_pc \<Rightarrow> (janitor \<times> jan_pc) option" where
  "run_next (j, JStarted) = Some (j\<lparr>stop_made := True\<rparr>, JMade)"
| "run_next (j, JMade) = Some (j, JTicking)"
| "run_next (j, JTicking) = Some (j, JLoop)"
| "run_next (j, _) = None"

definition in_pc :: "jan_pc \<Rightarrow> 'v jan_sys \<Rightarrow> bool" where
  "in_pc pc s \<longleftrightarrow> (case js_janitor s of None \<Rightarrow> False | Some (_, pc') \<Rightarrow> pc' = pc)"

text \<open>
  The \<open>select\<close>. A tick is cleaned up after. The end, which \<open>stopJanitor\<close> sends if the
  channel is there, meets a \<open>break\<close>: it leaves the \<open>select\<close>, and the loop goes on.
\<close>

definition run_clean :: "int \<Rightarrow> 'v jan_sys \<Rightarrow> 'v jan_sys option" where
  "run_clean now s =
     (if in_pc JLoop s \<and> js_tick s
      then map_option (\<lambda>(es, c). s\<lparr>js_cache := c, js_tick := False, js_cleanups := js_cleanups s @ [now]\<rparr>)
             (DeleteExpired now (js_cache s))
      else None)"

definition stopJanitor :: "'v jan_sys \<Rightarrow> 'v jan_sys option" where
  "stopJanitor s =
     (case js_janitor s of
        Some (j, JLoop) \<Rightarrow> if stop_made j then Some (s\<lparr>js_janitor := Some (j, JLoop)\<rparr>) else None
      | _ \<Rightarrow> None)"

text \<open>\<open>None\<close>: the step cannot be taken.\<close>

fun jan_step :: "'v jan_act \<Rightarrow> 'v jan_sys \<Rightarrow> 'v jan_sys option" where
  "jan_step (JCall now op) s = map_option (\<lambda>(a, c). s\<lparr>js_cache := c\<rparr>) (cache_call now op (js_cache s))"
| "jan_step JNext s = Option.bind (js_janitor s) (\<lambda>j. map_option (\<lambda>j. s\<lparr>js_janitor := Some j\<rparr>) (run_next j))"
| "jan_step JTick s = (if in_pc JTicking s then Some (s\<lparr>js_tick := True\<rparr>) else None)"
| "jan_step (JClean now) s = run_clean now s"
| "jan_step JStop s = stopJanitor s"

fun jan_run :: "'v jan_act list \<Rightarrow> 'v jan_sys \<Rightarrow> 'v jan_sys option" where
  "jan_run [] s = Some s"
| "jan_run (a # as) s = Option.bind (jan_step a s) (jan_run as)"

fun client_calls :: "'v jan_act list \<Rightarrow> (int \<times> 'v cache_op) list" where
  "client_calls [] = []"
| "client_calls (JCall now op # as) = (now, op) # client_calls as"
| "client_calls (_ # as) = client_calls as"

section \<open>What it does\<close>

text \<open>The cleanups that can still come: one, if a tick is there or the ticker has not stopped yet.\<close>

definition still :: "'v jan_sys \<Rightarrow> nat" where
  "still s = (if js_tick s \<or> (case js_janitor s of None \<Rightarrow> False | Some (_, pc) \<Rightarrow> pc \<in> {JStarted, JMade, JTicking}) then 1 else 0)"

lemma jan_step_still:
  assumes "jan_step a s = Some s'" "\<not> in_pc JReturned s"
  shows "length (js_cleanups s') + still s' \<le> length (js_cleanups s) + still s \<and> \<not> in_pc JReturned s' \<and>
    (js_janitor s = None \<longrightarrow> js_janitor s' = None)"
proof (cases a)
  case JNext
  with assms obtain j pc where "js_janitor s = Some (j, pc)" by (auto simp: bind_eq_Some_conv)
  with JNext assms show ?thesis by (cases pc) (auto simp: still_def in_pc_def)
qed (use assms in \<open>auto simp: still_def in_pc_def run_clean_def stopJanitor_def split: if_splits option.splits jan_pc.splits\<close>)

lemma jan_run_still:
  assumes "jan_run as s = Some s'" "\<not> in_pc JReturned s"
  shows "length (js_cleanups s') + still s' \<le> length (js_cleanups s) + still s \<and> \<not> in_pc JReturned s' \<and>
    (js_janitor s = None \<longrightarrow> js_janitor s' = None)"
  using assms
proof (induction as arbitrary: s)
  case (Cons a as)
  from Cons.prems(1) obtain s1 where s1: "jan_step a s = Some s1" "jan_run as s1 = Some s'"
    by (auto simp: bind_eq_Some_conv)
  from jan_step_still [OF s1(1) Cons.prems(2)] Cons.IH [OF s1(2)] show ?case by fastforce
qed simp

lemma jan_run_calls:
  assumes "jan_run as s = Some s'" "JTick \<notin> set as" "\<not> js_tick s"
  shows "(\<exists>rs. cache_calls (client_calls as) (js_cache s) = Some (rs, js_cache s')) \<and> js_cleanups s' = js_cleanups s"
  using assms
proof (induction as arbitrary: s)
  case (Cons a as)
  from Cons.prems(1) obtain s1 where s1: "jan_step a s = Some s1" "jan_run as s1 = Some s'"
    by (auto simp: bind_eq_Some_conv)
  have t: "\<not> js_tick s1" "js_cleanups s1 = js_cleanups s"
    using s1(1) Cons.prems(2,3)
    by (cases a; auto simp: bind_eq_Some_conv run_clean_def stopJanitor_def split: if_splits option.splits jan_pc.splits)+
  have "JTick \<notin> set as" using Cons.prems(2) by simp
  note IH = Cons.IH [OF s1(2) this t(1)]
  show ?case
  proof (cases a)
    case (JCall now op)
    with s1(1) obtain r where "cache_call now op (js_cache s) = Some (r, js_cache s1)" by auto
    with IH t(2) JCall show ?thesis by auto
  next
    case JStop
    with s1(1) have "js_cache s1 = js_cache s"
      by (auto simp: stopJanitor_def split: option.splits jan_pc.splits if_splits)
    with IH t(2) JStop show ?thesis by simp
  qed (use IH t(2) s1(1) Cons.prems(2,3) in \<open>auto simp: bind_eq_Some_conv run_clean_def\<close>)
qed simp

text \<open>
  C22. The janitor never cleans up. In every run of a cache made with any interval, with its
  goroutine, its finalizer and the calls of the clients in any order, \<open>DeleteExpired\<close> is
  called at most once from the goroutine, namely if a tick arrives between the statement that
  makes the ticker and the next one, which stops it; otherwise it is never called, and the cache is
  what the calls of the clients alone make of it: expired items stay until a client touches them.
  The goroutine never returns, not even when the finalizer has told it to stop.
\<close>

theorem janitor_never_cleans:
  assumes "jan_run as (NewCache ci) = Some s"
  shows "length (js_cleanups s) \<le> 1 \<and>
    (JTick \<notin> set as \<longrightarrow> js_cleanups s = [] \<and>
      (\<exists>rs. cache_calls (client_calls as) (newCache []) = Some (rs, js_cache s))) \<and>
    \<not> in_pc JReturned s \<and> (ci \<le> 0 \<longrightarrow> js_janitor s = None \<and> js_cleanups s = [])"
proof -
  have n: "js_cache (NewCache ci) = newCache []" "\<not> js_tick (NewCache ci)" "js_cleanups (NewCache ci) = []"
    "\<not> in_pc JReturned (NewCache ci)" "still (NewCache ci) \<le> 1"
    "ci \<le> 0 \<Longrightarrow> js_janitor (NewCache ci) = None" "ci \<le> 0 \<Longrightarrow> still (NewCache ci) = 0"
    by (simp_all add: NewCache_def newCacheWithJanitor_def runJanitor_def Let_def in_pc_def still_def)
  note l = jan_run_still [OF assms n(4)]
  have "length (js_cleanups s) \<le> 1"
    using l n(3,5) by (metis add_leD1 add_0 le_trans list.size(3))
  moreover have "ci \<le> 0 \<longrightarrow> js_janitor s = None \<and> js_cleanups s = []"
    using l n(3,6,7) by (metis add_0 add_is_0 le_zero_eq length_0_conv list.size(3))
  moreover have "JTick \<notin> set as \<longrightarrow> js_cleanups s = [] \<and>
      (\<exists>rs. cache_calls (client_calls as) (newCache []) = Some (rs, js_cache s))"
    using jan_run_calls [OF assms _ n(2)] unfolding n(1,3) by blast
  ultimately show ?thesis using l by blast
qed

theorem janitor_never_cleans_witness:
  "\<exists>s. jan_run [JNext, JCall 1 (OSet ''a'' (Some (5 :: nat)) 10), JNext, JNext, JStop, JCall 99 (OSet ''b'' None 0), JStop]
      (NewCache 60) = Some s \<and> js_cleanups s = [] \<and> map fst (items (js_cache s)) = [''a'', ''b''] \<and> \<not> in_pc JReturned s"
proof -
  let ?as = "[JNext, JCall 1 (OSet ''a'' (Some (5 :: nat)) 10), JNext, JNext, JStop, JCall 99 (OSet ''b'' None 0), JStop]"
  have "map_option (\<lambda>s. map fst (items (js_cache s))) (jan_run ?as (NewCache 60)) = Some [''a'', ''b'']"
    by code_simp
  then obtain s where s: "jan_run ?as (NewCache 60) = Some s" "map fst (items (js_cache s)) = [''a'', ''b'']" by auto
  from janitor_never_cleans [OF s(1)] s show ?thesis by auto
qed

end
