(* ===== verification/Strconv.thy ===== *)
theory Strconv
  imports Prelude
begin

text \<open>
  What the code uses of Go's \<open>strconv\<close> and \<open>strings\<close>: digits and the number they
  write, decimal formatting, the documented results of \<open>ParseUint\<close> and
  \<open>ParseInt\<close>, and \<open>Split\<close>. A byte is a \<open>char\<close>.
\<close>

section \<open>Digits\<close>

definition byte :: "char \<Rightarrow> nat" where
  "byte c = of_char c"

definition digit_char :: "nat \<Rightarrow> char" where
  "digit_char n = char_of (48 + n)"

lemma byte_digit_char [simp]: "n < 10 \<Longrightarrow> byte (digit_char n) = 48 + n"
  by (simp add: byte_def digit_char_def)

definition digit_of :: "char \<Rightarrow> nat option" where
  "digit_of c =
     (let d = byte c in
      if 48 \<le> d \<and> d \<le> 57 then Some (d - 48)
      else if 97 \<le> d \<and> d \<le> 122 then Some (d - 97 + 10)
      else if 65 \<le> d \<and> d \<le> 90 then Some (d - 65 + 10)
      else None)"

definition is_digit :: "nat \<Rightarrow> char \<Rightarrow> bool" where
  "is_digit b c = (case digit_of c of None \<Rightarrow> False | Some v \<Rightarrow> v < b)"

definition digits_value :: "nat \<Rightarrow> string \<Rightarrow> nat" where
  "digits_value b s = foldl (\<lambda>n c. n * b + the (digit_of c)) 0 s"

fun dec :: "nat \<Rightarrow> string" where
  "dec n = (if n < 10 then [digit_char n] else dec (n div 10) @ [digit_char (n mod 10)])"

declare dec.simps [simp del]

lemma digit_of_digit_char [simp]: "n < 10 \<Longrightarrow> digit_of (digit_char n) = Some n"
  by (simp add: digit_of_def)

lemma is_digit_digit_char [simp]: "n < 10 \<Longrightarrow> is_digit 10 (digit_char n)"
  by (simp add: is_digit_def)

lemma digit_chars:
  "digit_char 0 = CHR ''0''" "digit_char (Suc 0) = CHR ''1''" "digit_char 1 = CHR ''1''" "digit_char 2 = CHR ''2''"
  "digit_char 3 = CHR ''3''" "digit_char 4 = CHR ''4''" "digit_char 5 = CHR ''5''" "digit_char 6 = CHR ''6''"
  "digit_char 7 = CHR ''7''" "digit_char 8 = CHR ''8''" "digit_char 9 = CHR ''9''"
  by code_simp+

lemma digits_value_simps [simp]:
  "digits_value b [] = 0"
  "digits_value b (s @ [c]) = digits_value b s * b + the (digit_of c)"
  by (simp_all add: digits_value_def)

lemma dec_value [simp]: "digits_value 10 (dec n) = n"
proof (induction n rule: dec.induct)
  case (1 n)
  show ?case
  proof (cases "n < 10")
    case True
    then show ?thesis using digits_value_simps(2) [of 10 "[]" "digit_char n"]
      by (simp add: dec.simps [of n])
  next
    case False
    with 1 show ?thesis by (simp add: dec.simps [of n])
  qed
qed

lemma dec_digits: "c \<in> set (dec n) \<Longrightarrow> is_digit 10 c"
proof (induction n rule: dec.induct)
  case (1 n)
  then show ?case by (cases "n < 10") (auto simp: dec.simps [of n])
qed

lemma dec_not_Nil [simp]: "dec n \<noteq> []"
  by (simp add: dec.simps)

lemma length_dec: "n < 10 ^ k \<Longrightarrow> 0 < k \<Longrightarrow> length (dec n) \<le> k"
proof (induction n arbitrary: k rule: dec.induct)
  case (1 n)
  show ?case
  proof (cases "n < 10")
    case True
    then show ?thesis using 1(3) by (simp add: dec.simps [of n])
  next
    case False
    obtain j where j: "k = Suc j" using 1(3) by (cases k) auto
    with 1(2) False have "0 < j" by (cases j) auto
    moreover have "n div 10 < 10 ^ j" using 1(2) j by (simp add: less_mult_imp_div_less mult.commute)
    ultimately have "length (dec (n div 10)) \<le> j" using 1(1) False by simp
    then show ?thesis using False j by (simp add: dec.simps [of n])
  qed
qed

text \<open>A longer string of digits writes a number that is not smaller.\<close>

lemma digits_value_mono: "0 < b \<Longrightarrow> digits_value b s \<le> digits_value b (s @ t)"
proof (induction t rule: rev_induct)
  case (snoc c t)
  have "digits_value b s * 1 \<le> digits_value b (s @ t) * b" using snoc by (intro mult_le_mono) simp_all
  then show ?case unfolding append_assoc [symmetric] digits_value_simps by (simp add: trans_le_add1)
qed simp

section \<open>Numbers to strings and back\<close>

datatype num_error = ErrSyntax | ErrRange | ErrInvalidBase int

definition FormatInt :: "int \<Rightarrow> string" where
  "FormatInt i = (if i < 0 then CHR ''-'' # dec (nat (- i)) else dec (nat i))"

text \<open>
  \<open>ParseUint\<close> reads digits until one is not of the base (a syntax error) or the number
  read so far exceeds the maximum (a range error), whichever comes first.
\<close>

definition parse_uint :: "nat \<Rightarrow> nat \<Rightarrow> string \<Rightarrow> num_error + nat" where
  "parse_uint b mx s =
     (let p = takeWhile (is_digit b) s in
      if s = [] then Inl ErrSyntax
      else if digits_value b p > mx then Inl ErrRange
      else if p \<noteq> s then Inl ErrSyntax
      else Inr (digits_value b s))"

definition ParseInt :: "string \<Rightarrow> num_error + int" where
  "ParseInt s =
     (if s = [] then Inl ErrSyntax
      else let neg = (hd s = CHR ''-'');
               r = (if hd s = CHR ''+'' \<or> hd s = CHR ''-'' then tl s else s)
           in case parse_uint 10 (2 ^ 64 - 1) r of
                Inl e \<Rightarrow> Inl e
              | Inr un \<Rightarrow>
                  if \<not> neg \<and> un \<ge> 2 ^ 63 then Inl ErrRange
                  else if neg \<and> un > 2 ^ 63 then Inl ErrRange
                  else Inr (if neg then - int un else int un))"

lemma takeWhile_dec [simp]: "takeWhile (is_digit 10) (dec n) = dec n"
  by (simp add: dec_digits)

lemma parse_uint_dec: "n \<le> mx \<Longrightarrow> parse_uint 10 mx (dec n) = Inr n"
  by (simp add: parse_uint_def)

lemma is_digit_not: "\<not> is_digit 10 CHR ''-''" "\<not> is_digit 10 CHR ''+''" "\<not> is_digit 10 CHR '',''" "\<not> is_digit 10 CHR '' ''"
  by (simp_all add: is_digit_def digit_of_def byte_def)

lemma dec_chars: "CHR ''-'' \<notin> set (dec n)" "CHR ''+'' \<notin> set (dec n)" "CHR '','' \<notin> set (dec n)" "CHR '' '' \<notin> set (dec n)"
  using dec_digits is_digit_not by blast+

lemma hd_dec: "hd (dec n) \<noteq> CHR ''-''" "hd (dec n) \<noteq> CHR ''+''"
  using dec_chars [of n] hd_in_set [OF dec_not_Nil [of n]] by metis+

lemma ParseInt_FormatInt:
  assumes "in_int64 i"
  shows "ParseInt (FormatInt i) = Inr i"
proof (cases "i < 0")
  case True
  then have "nat (- i) \<le> 2 ^ 63" using assms by simp
  with True show ?thesis by (simp add: ParseInt_def FormatInt_def parse_uint_dec)
next
  case False
  then have "nat i < 2 ^ 63" using assms by simp
  with False hd_dec [of "nat i"] show ?thesis by (simp add: ParseInt_def FormatInt_def parse_uint_dec)
qed

lemma FormatInt_props: "FormatInt i \<noteq> []" "CHR '','' \<notin> set (FormatInt i)"
  using dec_chars by (simp_all add: FormatInt_def)

section \<open>Splitting\<close>

text \<open>\<open>strings.Split\<close> with a one-byte separator.\<close>

fun split_at :: "char \<Rightarrow> string \<Rightarrow> string list" where
  "split_at c [] = [[]]"
| "split_at c (x # xs) =
     (if x = c then [] # split_at c xs
      else case split_at c xs of [] \<Rightarrow> [[x]] | w # ws \<Rightarrow> (x # w) # ws)"

lemma split_at_last: "c \<notin> set w \<Longrightarrow> split_at c w = [w]"
  by (induction w) auto

lemma split_at_cons: "c \<notin> set w \<Longrightarrow> split_at c (w @ c # s) = w # split_at c s"
  by (induction w) auto

end
