(* ===== verification/Gid.thy ===== *)
theory Gid
  imports Strconv "HOL-Library.Word"
begin

text \<open>
  \<open>gid/gstack.go\<close>: the goroutine id out of the first line of a stack dump, and the
  unsigned number parser under it, at 64 bits with the wrap-around of the machine.
\<close>

section \<open>The parser\<close>

text \<open>A returned pair \<open>(n, err)\<close>; the error is a \<open>NumError\<close> with the input it is about.\<close>

type_synonym parse_result = "64 word \<times> (string \<times> num_error) option"

definition cutoff64 :: "int \<Rightarrow> 64 word" where
  "cutoff64 base = (if base < 2 then 0 else (- 1) div word_of_int base + 1)"

text \<open>\<open>1 << uint(bitSize) - 1\<close>: a shift by the width or more, or by a negative size, gives 0.\<close>

definition max_of_bits :: "int \<Rightarrow> 64 word" where
  "max_of_bits bitSize = (if 0 \<le> bitSize \<and> bitSize < 64 then push_bit (nat bitSize) 1 else 0) - 1"

fun parse_loop :: "int \<Rightarrow> 64 word \<Rightarrow> 64 word \<Rightarrow> string \<Rightarrow> 64 word \<Rightarrow> 64 word \<times> num_error option" where
  "parse_loop base cutoff maxVal [] n = (n, None)"
| "parse_loop base cutoff maxVal (d # s) n =
     (let d = byte d in
      case (if 48 \<le> d \<and> d \<le> 57 then Some (d - 48)
            else if 97 \<le> d \<and> d \<le> 122 then Some (d - 97 + 10)
            else if 65 \<le> d \<and> d \<le> 90 then Some (d - 65 + 10)
            else None) of
        None \<Rightarrow> (0, Some ErrSyntax)
      | Some v \<Rightarrow>
          if int v \<ge> base then (0, Some ErrSyntax)
          else if n \<ge> cutoff then (- 1, Some ErrRange)
          else
            (let n = n * word_of_int base;
                 n1 = n + of_nat v
             in if n1 < n \<or> n1 > maxVal then (- 1, Some ErrRange)
                else parse_loop base cutoff maxVal s n1))"

definition parseUintBytes :: "string \<Rightarrow> int \<Rightarrow> int \<Rightarrow> parse_result" where
  "parseUintBytes s base bitSize =
     (let bitSize = (if bitSize = 0 then 64 else bitSize);
          s0 = s;
          start =
            (if s = [] then Inl ErrSyntax
             else if 2 \<le> base \<and> base \<le> 36 then Inr (base, s)
             else if base = 0 then
               (if hd s = CHR ''0'' \<and> length s > 1 \<and> (s ! 1 = CHR ''x'' \<or> s ! 1 = CHR ''X'')
                then (if drop 2 s = [] then Inl ErrSyntax else Inr (16, drop 2 s))
                else if hd s = CHR ''0'' then Inr (8, s)
                else Inr (10, s))
             else Inl (ErrInvalidBase base))
      in case start of
           Inl e \<Rightarrow> (0, Some (s0, e))
         | Inr (base, s) \<Rightarrow>
             (case parse_loop base (cutoff64 base) (max_of_bits bitSize) s 0 of
                (n, None) \<Rightarrow> (n, None)
              | (n, Some e) \<Rightarrow> (n, Some (s0, e))))"

section \<open>The goroutine id\<close>

definition goroutineSpace :: string where
  "goroutineSpace = ''goroutine ''"

text \<open>\<open>stack\<close> is what \<open>runtime.Stack\<close> has to say; 64 bytes of it fit the buffer.\<close>

definition GoID :: "string \<Rightarrow> (64 word) option" where
  "GoID stack =
     (let b = take 64 stack;
          b = (if take (length goroutineSpace) b = goroutineSpace then drop (length goroutineSpace) b else b)
      in if CHR '' '' \<notin> set b then None
         else case parseUintBytes (takeWhile (\<lambda>c. c \<noteq> CHR '' '') b) 10 64 of
                (n, None) \<Rightarrow> Some n
              | (n, Some e) \<Rightarrow> None)"

section \<open>The parser reads numbers\<close>

lemma digit_case:
  "(if 48 \<le> byte c \<and> byte c \<le> 57 then Some (byte c - 48)
    else if 97 \<le> byte c \<and> byte c \<le> 122 then Some (byte c - 97 + 10)
    else if 65 \<le> byte c \<and> byte c \<le> 90 then Some (byte c - 65 + 10)
    else None) = digit_of c"
  by (simp add: digit_of_def Let_def)

text \<open>The first number whose product with the base leaves 64 bits.\<close>

lemma unat_max: "unat (- 1 :: 64 word) = 2 ^ 64 - 1"
  by (simp add: unsigned_minus_1_eq_mask mask_eq_exp_minus_1)

lemma unat_base:
  assumes "2 \<le> base" "base \<le> 36"
  shows "unat (word_of_int base :: 64 word) = nat base"
proof -
  have e: "word_of_int base = (of_nat (nat base) :: 64 word)" using assms(1) by simp
  have "nat base \<le> 36" using assms(2) by simp
  then have "nat base < 2 ^ 64" by (rule le_less_trans) simp
  then show ?thesis unfolding e unat_of_nat by (simp only: mod_less len_of_numeral_defs(1) len_bit0 len_num1 simp_thms) simp
qed

lemma cutoff64_nat:
  assumes "2 \<le> base" "base \<le> 36"
  shows "unat (cutoff64 base) = (2 ^ 64 - 1) div nat base + 1"
proof -
  define M :: nat where "M = 2 ^ 64 - 1"
  have q: "unat ((- 1 :: 64 word) div word_of_int base) = M div nat base"
    unfolding M_def by (simp only: unat_div_distrib unat_base [OF assms] unat_max)
  have "M div nat base \<le> M div 2" using assms by (intro div_le_mono2) auto
  also have "M div 2 + 1 < 2 ^ 64" by (simp add: M_def)
  then have "M div 2 < 2 ^ 64 - 1" by linarith
  finally have "M div nat base + 1 < 2 ^ 64" by linarith
  then have "(M div nat base + 1) mod 2 ^ 64 = M div nat base + 1" by (rule mod_less)
  moreover have "unat ((- 1 :: 64 word) div word_of_int base + 1) = (M div nat base + 1) mod 2 ^ 64"
    using unat_word_ariths(1) [of "(- 1 :: 64 word) div word_of_int base" 1] unfolding q by simp
  ultimately show ?thesis using assms unfolding M_def by (simp add: cutoff64_def)
qed

lemma below_cutoff:
  assumes "2 \<le> base" "base \<le> 36"
  shows "n < cutoff64 base \<longleftrightarrow> unat n * nat base < 2 ^ 64"
proof -
  have "n < cutoff64 base \<longleftrightarrow> unat n \<le> (2 ^ 64 - 1) div nat base"
    by (simp add: word_less_nat_alt cutoff64_nat [OF assms] less_Suc_eq_le)
  also have "\<dots> \<longleftrightarrow> unat n * nat base \<le> 2 ^ 64 - 1"
    using assms by (simp add: less_eq_div_iff_mult_less_eq)
  finally show ?thesis by auto
qed

text \<open>One digit: both overflow tests together ask whether the new value passes the maximum.\<close>

lemma one_digit:
  fixes n mx :: "64 word"
  assumes b: "2 \<le> base" "base \<le> 36" and v: "v < nat base"
  defines "P \<equiv> unat n * nat base"
  shows "(n \<ge> cutoff64 base \<or> n * word_of_int base + of_nat v < n * word_of_int base \<or>
      n * word_of_int base + of_nat v > (mx :: 64 word)) \<longleftrightarrow> unat mx < P + v"
    and "P + v \<le> unat mx \<Longrightarrow> unat (n * word_of_int base + of_nat v :: 64 word) = P + v"
proof -
  have wv: "unat (of_nat v :: 64 word) = v" using b v by (simp add: unat_of_nat)
  have "v < 36" using b v by linarith
  then have v64: "v < 2 ^ 64" by (rule less_trans) simp
  have mx: "unat mx < 2 ^ 64" using unsigned_less [of mx, where ?'a = nat] by simp
  have p: "unat (n * word_of_int base) = P mod 2 ^ 64"
    using unat_word_ariths(2) [of n "word_of_int base"] unat_base [OF b] by (simp add: P_def)
  have s: "unat (n * word_of_int base + of_nat v) = (P mod 2 ^ 64 + v) mod 2 ^ 64"
    using unat_word_ariths(1) [of "n * word_of_int base" "of_nat v"] by (simp add: p wv)
  have less: "(n * word_of_int base + of_nat v < n * word_of_int base) =
      ((P mod 2 ^ 64 + v) mod 2 ^ 64 < P mod 2 ^ 64)"
    by (simp only: word_less_nat_alt p s)
  have more: "(n * word_of_int base + of_nat v > mx) = (unat mx < (P mod 2 ^ 64 + v) mod 2 ^ 64)"
    by (simp only: word_less_nat_alt s)
  show "P + v \<le> unat mx \<Longrightarrow> unat (n * word_of_int base + of_nat v) = P + v"
    unfolding s using mx by simp
  have ge: "(n \<ge> cutoff64 base) = (\<not> P < 2 ^ 64)"
    using below_cutoff [OF b, of n] unfolding P_def by (simp only: not_less [symmetric])
  show "(n \<ge> cutoff64 base \<or> n * word_of_int base + of_nat v < n * word_of_int base \<or>
      n * word_of_int base + of_nat v > mx) \<longleftrightarrow> unat mx < P + v"
  proof (cases "P < 2 ^ 64")
    case False
    with mx show ?thesis unfolding ge by linarith
  next
    case True
    then have pm: "P mod 2 ^ 64 = P" by (rule mod_less)
    show ?thesis
    proof (cases "P + v < 2 ^ 64")
      case True
      then have "(P + v) mod 2 ^ 64 = P + v" by (rule mod_less)
      then show ?thesis unfolding ge less more pm using \<open>P < 2 ^ 64\<close> by linarith
    next
      case False
      then have "(P + v) mod 2 ^ 64 = P + v - 2 ^ 64"
        using \<open>P < 2 ^ 64\<close> v64 by (subst le_mod_geq) (simp_all only: not_less, intro mod_less, linarith)
      then show ?thesis unfolding ge less more pm using \<open>P < 2 ^ 64\<close> False v64 mx by linarith
    qed
  qed
qed

text \<open>The result of \<open>parse_uint\<close> as the pair that the code returns.\<close>

fun as_pair :: "num_error + nat \<Rightarrow> 64 word \<times> num_error option" where
  "as_pair (Inr n) = (of_nat n, None)"
| "as_pair (Inl ErrRange) = (- 1, Some ErrRange)"
| "as_pair (Inl e) = (0, Some e)"

definition parse_from :: "nat \<Rightarrow> nat \<Rightarrow> string \<Rightarrow> nat \<Rightarrow> num_error + nat" where
  "parse_from b mx s n =
     (let p = takeWhile (is_digit b) s;
          v = foldl (\<lambda>n c. n * b + the (digit_of c)) n p
      in if v > mx then Inl ErrRange else if p \<noteq> s then Inl ErrSyntax else Inr v)"

lemma foldl_digits_mono: "0 < b \<Longrightarrow> n \<le> foldl (\<lambda>n c. n * b + the (digit_of c)) n p"
proof (induction p arbitrary: n)
  case (Cons c p)
  have "n \<le> n * b" using Cons.prems by simp
  then have "n \<le> n * b + the (digit_of c)" by (rule trans_le_add1)
  with Cons show ?case by (auto intro: order_trans)
qed simp

lemma parse_loop_step:
  assumes b: "2 \<le> base" "base \<le> 36" and d: "is_digit (nat base) c"
  shows "parse_loop base (cutoff64 base) mx (c # s) n =
    (if unat mx < unat n * nat base + the (digit_of c) then (- 1, Some ErrRange)
     else parse_loop base (cutoff64 base) mx s (of_nat (unat n * nat base + the (digit_of c))))"
proof -
  obtain v where v: "digit_of c = Some v" "v < nat base"
    using d by (auto simp: is_digit_def split: option.splits)
  then have "\<not> int v \<ge> base" by simp
  note od = one_digit [OF b v(2), of n mx]
  have "parse_loop base (cutoff64 base) mx (c # s) n =
      (if n \<ge> cutoff64 base \<or> n * word_of_int base + of_nat v < n * word_of_int base \<or>
          n * word_of_int base + of_nat v > mx then (- 1, Some ErrRange)
       else parse_loop base (cutoff64 base) mx s (n * word_of_int base + of_nat v))"
    using v \<open>\<not> int v \<ge> base\<close> by (simp only: parse_loop.simps Let_def digit_case option.case if_False) simp
  also have "\<dots> = (if unat mx < unat n * nat base + v then (- 1, Some ErrRange)
      else parse_loop base (cutoff64 base) mx s (n * word_of_int base + of_nat v))"
    by (simp only: od(1))
  also have "\<dots> = (if unat mx < unat n * nat base + v then (- 1, Some ErrRange)
      else parse_loop base (cutoff64 base) mx s (of_nat (unat n * nat base + v)))"
  proof (cases "unat mx < unat n * nat base + v")
    case False
    then have u: "unat (n * word_of_int base + of_nat v) = unat n * nat base + v" using od(2) by simp
    then have "unat n * nat base + v < 2 ^ 64"
      using unsigned_less [of "n * word_of_int base + of_nat v", where ?'a = nat] by simp
    then have "n * word_of_int base + of_nat v = (of_nat (unat n * nat base + v) :: 64 word)"
      unfolding word_unat_eq_iff u unat_of_nat by simp
    with False show ?thesis by simp
  qed simp
  finally show ?thesis using v by simp
qed

lemma parse_loop_correct:
  assumes b: "2 \<le> base" "base \<le> 36"
  shows "unat n \<le> unat mx \<Longrightarrow>
    parse_loop base (cutoff64 base) mx s n = as_pair (parse_from (nat base) (unat mx) s (unat n))"
proof (induction s arbitrary: n)
  case Nil
  then show ?case by (simp add: parse_from_def)
next
  case (Cons c s)
  have b0: "0 < nat base" using b by simp
  show ?case
  proof (cases "is_digit (nat base) c")
    case False
    then have "parse_loop base (cutoff64 base) mx (c # s) n = (0, Some ErrSyntax)"
      by (auto simp: digit_case Let_def is_digit_def split: option.splits)
    with False Cons.prems show ?thesis by (simp add: parse_from_def)
  next
    case True
    let ?v = "unat n * nat base + the (digit_of c)"
    note st = parse_loop_step [OF b True, of mx s n]
    show ?thesis
    proof (cases "unat mx < ?v")
      case big: True
      have "?v \<le> foldl (\<lambda>n c. n * nat base + the (digit_of c)) ?v (takeWhile (is_digit (nat base)) s)"
        using foldl_digits_mono [OF b0] .
      with big True have "parse_from (nat base) (unat mx) (c # s) (unat n) = Inl ErrRange"
        by (simp add: parse_from_def Let_def)
      with st big show ?thesis by simp
    next
      case False
      have "unat mx < 2 ^ 64" using unsigned_less [of mx, where ?'a = nat] by simp
      with False have u: "unat (of_nat ?v :: 64 word) = ?v"
        by (simp only: unat_of_nat) simp
      have "parse_loop base (cutoff64 base) mx s (of_nat ?v) =
          as_pair (parse_from (nat base) (unat mx) s ?v)"
        using Cons.IH [of "of_nat ?v"] False unfolding u by simp
      moreover have "parse_from (nat base) (unat mx) (c # s) (unat n) = parse_from (nat base) (unat mx) s ?v"
        using True by (simp add: parse_from_def Let_def)
      ultimately show ?thesis using st False by simp
    qed
  qed
qed

lemma parse_from_0:
  assumes "s \<noteq> []"
  shows "parse_from b mx s 0 = parse_uint b mx s"
proof (cases "takeWhile (is_digit b) s = s")
  case True
  with assms show ?thesis unfolding parse_from_def parse_uint_def digits_value_def Let_def True by simp
next
  case False
  with assms show ?thesis unfolding parse_from_def parse_uint_def digits_value_def Let_def by simp
qed

lemma parseUintBytes_base:
  assumes "2 \<le> base" "base \<le> 36" "s \<noteq> []"
  shows "parseUintBytes s base bits =
    (case as_pair (parse_uint (nat base) (unat (max_of_bits (if bits = 0 then 64 else bits))) s) of
       (n, e) \<Rightarrow> (n, map_option (Pair s) e))"
  using parse_loop_correct [OF assms(1,2), of 0 _ s] assms
  by (simp add: parseUintBytes_def parse_from_0 Let_def split: prod.split option.split)

lemma max_of_bits_nat:
  "unat (max_of_bits bits) = (if 0 \<le> bits \<and> bits < 64 then 2 ^ nat bits - 1 else 2 ^ 64 - 1)"
proof (cases "0 \<le> bits \<and> bits < 64")
  case True
  then obtain k where k: "bits = int k" "k < 64" by (metis nonneg_int_cases of_nat_less_iff of_nat_numeral)
  let ?w = "push_bit k 1 :: 64 word"
  have lt: "(2 :: nat) ^ k < 2 ^ 64" using k(2) by (rule power_strict_increasing) simp
  have "?w = of_nat (2 ^ k)" by (simp add: push_bit_eq_mult)
  then have u: "unat ?w = 2 ^ k" using lt by (simp only: unat_of_nat) simp
  then have "?w \<noteq> 0" by (metis power_not_zero unsigned_0 zero_neq_numeral)
  then have "unat (?w - 1) = 2 ^ k - 1" using u by (simp add: unat_minus_one)
  then show ?thesis using k by (simp add: max_of_bits_def)
next
  case False
  then show ?thesis by (simp only: max_of_bits_def if_False diff_0 unat_max)
qed

lemma parse_uint_bytes_base10:
  assumes "n < 2 ^ 64"
  shows "parseUintBytes (dec n) 10 64 = (of_nat n, None)"
proof -
  have "parse_uint 10 (unat (max_of_bits 64)) (dec n) = Inr n"
    using assms by (intro parse_uint_dec) (simp add: max_of_bits_nat)
  then show ?thesis using parseUintBytes_base [of 10 "dec n" 64] by simp
qed

section \<open>The properties\<close>

text \<open>
  The parser reads unsigned numbers exactly. For every base from 2 to 36 and every bit
  size, \<open>parseUintBytes\<close> returns the number that the digits write, or a syntax error
  with 0 when the string is empty or a byte is not a digit of the base, or a range error with
  the largest word when the digits read so far pass the maximum of the bit size, whichever
  comes first; the error carries the input. So the two tests for overflow on 64-bit words
  (the cutoff and the wrapped sum) miss nothing and reject nothing that fits.
\<close>

lemma parse_uint_bytes_correct:
  assumes "2 \<le> base" "base \<le> 36"
  shows "parseUintBytes s base bits =
    (case parse_uint (nat base) (if 0 < bits \<and> bits < 64 then 2 ^ nat bits - 1 else 2 ^ 64 - 1) s of
       Inr n \<Rightarrow> (of_nat n, None)
     | Inl e \<Rightarrow> (if e = ErrRange then - 1 else 0, Some (s, e)))"
proof (cases "s = []")
  case True
  then show ?thesis by (simp add: parseUintBytes_def parse_uint_def)
next
  case False
  have m: "unat (max_of_bits (if bits = 0 then 64 else bits)) =
      (if 0 < bits \<and> bits < 64 then 2 ^ nat bits - 1 else 2 ^ 64 - 1)"
    unfolding max_of_bits_nat by auto
  have p: "(case as_pair r of (n, e) \<Rightarrow> (n, map_option (Pair s) e)) =
      (case r of Inr n \<Rightarrow> (of_nat n, None) | Inl e \<Rightarrow> (if e = ErrRange then - 1 else 0, Some (s, e)))" for r
    by (cases r rule: as_pair.cases) simp_all
  show ?thesis unfolding parseUintBytes_base [OF assms False] m p ..
qed

text \<open>
  The goroutine id is read back. Whatever follows on the stack dump, when it starts with
  \<open>goroutine\<close>, the decimal number of the id and a space, \<open>GoID\<close> returns that id and
  does not panic: every 64-bit id fits the 64 bytes of the buffer.
\<close>

lemma goid_reads_id:
  assumes "n < 2 ^ 64"
  shows "GoID (''goroutine '' @ dec n @ '' '' @ rest) = Some (of_nat n)"
proof -
  have "n < 10 ^ 20" using assms by simp
  then have len: "length (dec n) \<le> 20" by (rule length_dec) simp
  have l10: "length goroutineSpace = 10" by (simp add: goroutineSpace_def)
  define t where "t = take (53 - length (dec n)) rest"
  have "take 64 (goroutineSpace @ dec n @ '' '' @ rest) = goroutineSpace @ dec n @ CHR '' '' # t"
    using len by (simp add: l10 t_def take_Cons')
  then have b: "take 64 (''goroutine '' @ dec n @ '' '' @ rest) = goroutineSpace @ dec n @ CHR '' '' # t"
    by (simp add: goroutineSpace_def)
  have w: "takeWhile (\<lambda>c. c \<noteq> CHR '' '') (dec n @ CHR '' '' # t) = dec n"
    using dec_chars(4) [of n] by (subst takeWhile_append2) auto
  show ?thesis
    unfolding GoID_def b Let_def append_eq_conv_conj [THEN iffD1, OF refl, THEN conjunct1] l10
    using parse_uint_bytes_base10 [OF assms] l10 w by simp
qed

text \<open>
  C23. The parser reads unsigned numbers exactly, and so the goroutine id is read back. For
  every base from 2 to 36 and every bit size, \<open>parseUintBytes\<close> returns the number that the
  digits write, or a syntax error with 0 when the string is empty or a byte is not a digit of
  the base, or a range error with the largest word when the digits read so far pass the
  maximum of the bit size, whichever comes first; the error carries the input. So the two
  tests for overflow on 64-bit words (the cutoff and the wrapped sum) miss nothing and reject
  nothing that fits. Whatever follows on the stack dump, when it starts with \<open>goroutine\<close>,
  the decimal number of the id and a space, \<open>GoID\<close> returns that id and does not panic: every
  64-bit id fits the 64 bytes of the buffer.
\<close>

theorem goid_parses:
  assumes "2 \<le> base" "base \<le> 36" "n < 2 ^ 64"
  shows "parseUintBytes s base bits =
    (case parse_uint (nat base) (if 0 < bits \<and> bits < 64 then 2 ^ nat bits - 1 else 2 ^ 64 - 1) s of
       Inr n \<Rightarrow> (of_nat n, None)
     | Inl e \<Rightarrow> (if e = ErrRange then - 1 else 0, Some (s, e))) \<and>
    GoID (''goroutine '' @ dec n @ '' '' @ rest) = Some (of_nat n)"
  using parse_uint_bytes_correct [OF assms(1,2)] goid_reads_id [OF assms(3)] by (rule conjI)

theorem goid_parses_witness:
  "parseUintBytes ''18446744073709551616'' 10 64 = (- 1, Some (''18446744073709551616'', ErrRange)) \<and>
   parseUintBytes ''fF'' 16 8 = (255, None) \<and> parseUintBytes ''2x'' 10 8 = (0, Some (''2x'', ErrSyntax)) \<and>
   GoID ''goroutine 4707 [running]:'' = Some 4707"
proof -
  have e: "''goroutine 4707 [running]:'' = ''goroutine '' @ dec 4707 @ '' '' @ ''[running]:''"
    by (simp add: dec.simps digit_chars)
  have "GoID ''goroutine 4707 [running]:'' = Some 4707"
    unfolding e by (rule goid_parses [of 10 4707, unfolded of_nat_numeral, THEN conjunct2]) simp_all
  then show ?thesis
    using goid_parses [of 10 0 "''18446744073709551616''" 64, THEN conjunct1]
      goid_parses [of 16 0 "''fF''" 8, THEN conjunct1] goid_parses [of 10 0 "''2x''" 8, THEN conjunct1]
    by (simp add: parse_uint_def is_digit_def digit_of_def byte_def digits_value_def)
qed

end
