(* ===== verification/Join.thy ===== *)
theory Join
  imports Strconv
begin

text \<open>
  \<open>gstr/join.go\<close>: lists of \<open>int64\<close> as comma-separated text. The buffer that
  \<open>JoinInts\<close> borrows from the pool is an argument, and is returned with what it holds.
\<close>

definition write_ints :: "int list \<Rightarrow> string \<Rightarrow> string" where
  "write_ints is buf = foldl (\<lambda>buf i. buf @ FormatInt i @ '','') buf is"

definition JoinInts :: "string \<Rightarrow> int list \<Rightarrow> string \<times> string" where
  "JoinInts buf is =
     (if length is = 0 then ('''', buf)
      else if length is = 1 then (FormatInt (is ! 0), buf)
      else
        (let buf = write_ints is buf;
             buf = (if length buf > 0 then take (length buf - 1) buf else buf)
         in (buf, '''')))"

text \<open>The loop of \<open>SplitInts\<close>: the first part that is not a number ends it.\<close>

fun parse_parts :: "string list \<Rightarrow> int list \<Rightarrow> num_error + int list" where
  "parse_parts [] res = Inr res"
| "parse_parts (sc # sArr) res =
     (case ParseInt sc of Inl e \<Rightarrow> Inl e | Inr i \<Rightarrow> parse_parts sArr (res @ [i]))"

definition SplitInts :: "string \<Rightarrow> num_error + int list" where
  "SplitInts s = (if s = '''' then Inr [] else parse_parts (split_at CHR '','' s) [])"

section \<open>Joining and splitting\<close>

fun join_spec :: "int list \<Rightarrow> string" where
  "join_spec [] = ''''"
| "join_spec [i] = FormatInt i"
| "join_spec (i # j # is) = FormatInt i @ '','' @ join_spec (j # is)"

lemma write_ints_acc: "write_ints is buf = buf @ write_ints is ''''"
proof (induction "is" arbitrary: buf)
  case (Cons i "is")
  from Cons [of "buf @ FormatInt i @ '',''"] Cons [of "FormatInt i @ '',''"] show ?case
    by (simp add: write_ints_def)
qed (simp add: write_ints_def)

lemma write_ints_Cons: "write_ints (i # is) '''' = FormatInt i @ '','' @ write_ints is ''''"
  using write_ints_acc [of "is" "FormatInt i @ '',''"] by (simp add: write_ints_def)

lemma write_ints_join: "is \<noteq> [] \<Longrightarrow> write_ints is '''' = join_spec is @ '',''"
proof (induction "is" rule: join_spec.induct)
  case (2 i)
  then show ?case by (simp add: write_ints_Cons) (simp add: write_ints_def)
next
  case (3 i j "is")
  then show ?case by (simp add: write_ints_Cons [of i])
qed simp

lemma JoinInts_empty_pool: "JoinInts '''' is = (join_spec is, '''')"
proof (cases "is" rule: join_spec.cases)
  case (3 i j "is'")
  then have "write_ints is '''' = join_spec is @ '',''" by (intro write_ints_join) simp
  with 3 show ?thesis by (simp add: JoinInts_def)
qed (simp_all add: JoinInts_def)

lemma parse_parts_acc:
  "parse_parts ws res = (case parse_parts ws [] of Inl e \<Rightarrow> Inl e | Inr is \<Rightarrow> Inr (res @ is))"
proof (induction ws arbitrary: res)
  case (Cons w ws)
  show ?case
  proof (cases "ParseInt w")
    case (Inr i)
    then show ?thesis using Cons [of "res @ [i]"] Cons [of "[i]"] by (simp split: sum.split)
  qed simp
qed simp

lemma split_join:
  "is \<noteq> [] \<Longrightarrow> split_at CHR '','' (join_spec is) = map FormatInt is"
proof (induction "is" rule: join_spec.induct)
  case (2 i)
  show ?case by (simp add: split_at_last FormatInt_props)
next
  case (3 i j "is")
  then show ?case using split_at_cons [of "CHR '',''" "FormatInt i"] FormatInt_props by simp
qed simp

lemma parse_formatted:
  "\<forall>i \<in> set is. in_int64 i \<Longrightarrow> parse_parts (map FormatInt is) [] = Inr is"
proof (induction "is")
  case (Cons i "is")
  then show ?case using parse_parts_acc [of "map FormatInt is" "[i]"] by (simp add: ParseInt_FormatInt)
qed simp

lemma join_not_Nil: "is \<noteq> [] \<Longrightarrow> join_spec is \<noteq> ''''"
  using FormatInt_props(1) by (cases "is" rule: join_spec.cases) auto

section \<open>The properties\<close>

text \<open>
  Joining and splitting are inverse. Every list of \<open>int64\<close> values, the empty one
  included, is read back by \<open>SplitInts\<close> from what \<open>JoinInts\<close> wrote, and the
  buffer goes back to the pool empty, so the next call starts clean.
\<close>

lemma split_join_roundtrip:
  assumes "\<forall>i \<in> set is. in_int64 i"
  shows "SplitInts (fst (JoinInts '''' is)) = Inr is \<and> snd (JoinInts '''' is) = ''''"
proof (cases "is = []")
  case False
  with assms show ?thesis
    by (simp add: JoinInts_empty_pool SplitInts_def join_not_Nil split_join parse_formatted)
qed (simp add: JoinInts_empty_pool SplitInts_def)

lemma split_join_roundtrip_witness:
  "fst (JoinInts '''' [- 5, 0, 1234]) = ''-5,0,1234'' \<and> SplitInts ''-5,0,1234'' = Inr [- 5, 0, 1234]"
proof -
  have "fst (JoinInts '''' [- 5, 0, 1234]) = ''-5,0,1234''"
    by (simp add: JoinInts_empty_pool FormatInt_def dec.simps digit_chars)
  with split_join_roundtrip [of "[- 5, 0, 1234]"] show ?thesis by simp
qed

text \<open>
  When \<open>SplitInts\<close> succeeds and when it fails: the text splits at the commas, and
  the result is the list of all parts' values if every part is an \<open>int64\<close> literal, and
  otherwise the error of the first part that is not, with no values (an empty part is a
  syntax error).
\<close>

lemma split_ints_errors:
  assumes "s \<noteq> ''''" "split_at CHR '','' s = ws @ w # vs" "\<forall>u \<in> set ws. \<exists>i. ParseInt u = Inr i"
  shows "(ParseInt w = Inl e \<longrightarrow> SplitInts s = Inl e) \<and>
    ((\<forall>u \<in> set (w # vs). \<exists>i. ParseInt u = Inr i) \<longrightarrow>
      SplitInts s = Inr (map (\<lambda>u. projr (ParseInt u)) (ws @ w # vs)))"
proof -
  have all: "\<forall>u \<in> set us. \<exists>i. ParseInt u = Inr i \<Longrightarrow>
      parse_parts (us @ vs) res = parse_parts vs (res @ map (\<lambda>u. projr (ParseInt u)) us)" for us vs res
    by (induction us arbitrary: res) auto
  from all [OF assms(3), of "w # vs" "[]"] have "SplitInts s = parse_parts (w # vs) (map (\<lambda>u. projr (ParseInt u)) ws)"
    using assms(1,2) by (simp add: SplitInts_def)
  moreover have "parse_parts (w # vs) res = Inr (res @ map (\<lambda>u. projr (ParseInt u)) (w # vs))"
    if "\<forall>u \<in> set (w # vs). \<exists>i. ParseInt u = Inr i" for res
    using all [OF that, of "[]" res] by simp
  ultimately show ?thesis by simp
qed

lemma split_ints_errors_witness:
  "SplitInts ''1,,2'' = Inl ErrSyntax"
proof -
  have "''1'' = FormatInt 1" by (simp add: FormatInt_def dec.simps digit_chars)
  then have "ParseInt ''1'' = Inr 1" using ParseInt_FormatInt [of 1] by simp
  moreover have "ParseInt '''' = Inl ErrSyntax" by (simp add: ParseInt_def)
  moreover have "split_at CHR '','' ''1,,2'' = [''1''] @ '''' # [''2'']" by simp
  ultimately show ?thesis
    using split_ints_errors [of "''1,,2''" "[''1'']" "''''" "[''2'']" ErrSyntax] by simp
qed

text \<open>
  C24. Joining and splitting. Every list of \<open>int64\<close> values, the empty one included, is
  read back by \<open>SplitInts\<close> from what \<open>JoinInts\<close> wrote, and the buffer goes back to
  the pool empty, so the next call starts clean. On any other text, which splits at the
  commas: the result is the list of all parts' values if every part is an \<open>int64\<close>
  literal, and otherwise the error of the first part that is not, with no values (an empty
  part is a syntax error).
\<close>

theorem join_and_split:
  assumes "\<forall>i \<in> set is. in_int64 i"
    and "s \<noteq> ''''" "split_at CHR '','' s = ws @ w # vs" "\<forall>u \<in> set ws. \<exists>i. ParseInt u = Inr i"
  shows "SplitInts (fst (JoinInts '''' is)) = Inr is \<and> snd (JoinInts '''' is) = '''' \<and>
    (ParseInt w = Inl e \<longrightarrow> SplitInts s = Inl e) \<and>
    ((\<forall>u \<in> set (w # vs). \<exists>i. ParseInt u = Inr i) \<longrightarrow>
      SplitInts s = Inr (map (\<lambda>u. projr (ParseInt u)) (ws @ w # vs)))"
  using split_join_roundtrip [OF assms(1)] split_ints_errors [OF assms(2-4), of e]
  by (elim conjE) (intro conjI)

theorem join_and_split_witness:
  "fst (JoinInts '''' [- 5, 0, 1234]) = ''-5,0,1234'' \<and> SplitInts ''-5,0,1234'' = Inr [- 5, 0, 1234] \<and>
   SplitInts ''1,,2'' = Inl ErrSyntax"
proof -
  have j: "fst (JoinInts '''' [- 5, 0, 1234]) = ''-5,0,1234''"
    by (simp add: JoinInts_empty_pool FormatInt_def dec.simps digit_chars)
  have "''1'' = FormatInt 1" by (simp add: FormatInt_def dec.simps digit_chars)
  then have "\<forall>u \<in> set [''1'']. \<exists>i. ParseInt u = Inr i" using ParseInt_FormatInt [of 1] by simp
  from join_and_split [of "[- 5, 0, 1234]", OF _ _ _ this, of "''1,,2''" "''''" "[''2'']" ErrSyntax] j show ?thesis
    by (simp add: ParseInt_def)
qed

end
