(* ===== verification/TimeMap.thy ===== *)
theory TimeMap
  imports Prelude "HOL-Library.AList"
begin

text \<open>
  \<open>gls/internal/time_map.go\<close>: the sharded map with expiring entries. A bucket's Go map
  is an association list; a time is in nanoseconds on an unbounded axis (\<open>time.Time\<close> does
  not wrap here). The mutex of a bucket makes each operation one step. \<open>None\<close> is a panic:
  an index out of the slice of buckets.
\<close>

section \<open>Buckets and the map of buckets\<close>

record 'v store_value =
  sv_obj :: 'v
  sv_expireAt :: int

type_synonym 'v bucket = "(nat \<times> 'v store_value) list"
type_synonym 'v timemap = "'v bucket list"

definition bucketConst :: nat where
  "bucketConst = 64"

definition getbucket :: "nat \<Rightarrow> 'v timemap \<Rightarrow> 'v bucket option" where
  "getbucket key tm = slice_get tm (int (key mod bucketConst))"

definition bucket_get :: "nat \<Rightarrow> 'v bucket \<Rightarrow> 'v option" where
  "bucket_get key b = map_option sv_obj (map_of b key)"

definition tm_get :: "nat \<Rightarrow> 'v timemap \<Rightarrow> 'v option option" where
  "tm_get key tm = do { b \<leftarrow> getbucket key tm; Some (bucket_get key b) }"

definition bucket_put :: "int \<Rightarrow> nat \<Rightarrow> 'v \<Rightarrow> int \<Rightarrow> 'v bucket \<Rightarrow> 'v \<times> 'v bucket" where
  "bucket_put now key obj timeout b =
     (case map_of b key of
        Some vo \<Rightarrow> (sv_obj vo, b)
      | None \<Rightarrow> (obj, AList.update key \<lparr>sv_obj = obj, sv_expireAt = now + timeout\<rparr> b))"

text \<open>The bucket is a pointer in the slice: changing it changes the slice's map.\<close>

definition tm_put :: "int \<Rightarrow> nat \<Rightarrow> 'v \<Rightarrow> int \<Rightarrow> 'v timemap \<Rightarrow> ('v \<times> 'v timemap) option" where
  "tm_put now key obj timeout tm = do {
     b \<leftarrow> getbucket key tm;
     let (v, b) = bucket_put now key obj timeout b;
     tm \<leftarrow> slice_set tm (int (key mod bucketConst)) b;
     Some (v, tm)
   }"

definition tm_delete :: "nat \<Rightarrow> 'v timemap \<Rightarrow> 'v timemap option" where
  "tm_delete key tm = do {
     b \<leftarrow> getbucket key tm;
     slice_set tm (int (key mod bucketConst)) (AList.delete key b)
   }"

text \<open>
  A round of the cleaning goroutine reads the clock once and then takes the lock of one bucket
  after the other, so that calls of others fall between the buckets: one bucket loses the
  entries that had expired when the round began.
\<close>

definition sweep :: "int \<Rightarrow> nat \<Rightarrow> 'v timemap \<Rightarrow> 'v timemap" where
  "sweep now i tm = tm[i := filter (\<lambda>(k, v). \<not> sv_expireAt v < now) (tm ! i)]"

text \<open>A round that nothing comes between.\<close>

definition goroutine :: "int \<Rightarrow> 'v timemap \<Rightarrow> 'v timemap" where
  "goroutine now tm = fold (sweep now) [0..<length tm] tm"

definition NewTimeMap :: "'v timemap" where
  "NewTimeMap = replicate bucketConst []"

section \<open>The map that the buckets represent\<close>

definition tm_ok :: "'v timemap \<Rightarrow> bool" where
  "tm_ok tm \<longleftrightarrow> length tm = bucketConst \<and> (\<forall>b \<in> set tm. distinct (map fst b))"

definition entry :: "'v timemap \<Rightarrow> nat \<rightharpoonup> 'v store_value" where
  "entry tm key = map_of (tm ! (key mod bucketConst)) key"

lemma bucket_index: "tm_ok tm \<Longrightarrow> key mod bucketConst < length tm"
  by (simp add: tm_ok_def bucketConst_def)

lemma getbucket_ok: "tm_ok tm \<Longrightarrow> getbucket key tm = Some (tm ! (key mod bucketConst))"
  unfolding getbucket_def by (rule slice_get_Some [OF bucket_index])

lemma entry_update:
  assumes "tm_ok tm"
  shows "entry (tm[key mod bucketConst := b]) k =
    (if k mod bucketConst = key mod bucketConst then map_of b k else entry tm k)"
  using bucket_index [OF assms] by (simp add: entry_def nth_list_update)

lemma tm_ok_update: "tm_ok tm \<Longrightarrow> distinct (map fst b) \<Longrightarrow> tm_ok (tm[i := b])"
  by (auto simp: tm_ok_def dest: set_update_subset_insert [THEN subsetD])

lemma tm_get_ok: "tm_ok tm \<Longrightarrow> tm_get key tm = Some (map_option sv_obj (entry tm key))"
  by (simp add: tm_get_def getbucket_ok bucket_get_def entry_def)

lemma tm_put_ok:
  assumes "tm_ok tm"
  shows "\<exists>tm'. tm_put now key obj timeout tm =
      Some (case entry tm key of None \<Rightarrow> obj | Some v \<Rightarrow> sv_obj v, tm') \<and> tm_ok tm' \<and>
    entry tm' = (case entry tm key of
        None \<Rightarrow> (entry tm)(key \<mapsto> \<lparr>sv_obj = obj, sv_expireAt = now + timeout\<rparr>)
      | Some v \<Rightarrow> entry tm)"
proof (cases "entry tm key")
  case (Some v)
  then have "tm_put now key obj timeout tm = Some (sv_obj v, tm[key mod bucketConst := tm ! (key mod bucketConst)])"
    using assms bucket_index [OF assms] by (simp add: tm_put_def getbucket_ok bucket_put_def entry_def)
  with Some assms show ?thesis by simp
next
  case None
  let ?b = "AList.update key \<lparr>sv_obj = obj, sv_expireAt = now + timeout\<rparr> (tm ! (key mod bucketConst))"
  have "tm_put now key obj timeout tm = Some (obj, tm[key mod bucketConst := ?b])"
    using None assms bucket_index [OF assms] by (simp add: tm_put_def getbucket_ok bucket_put_def entry_def)
  moreover have "distinct (map fst ?b)"
    using assms bucket_index [OF assms, of key] by (simp add: AList.distinct_update tm_ok_def)
  then have "tm_ok (tm[key mod bucketConst := ?b])" using assms by (rule tm_ok_update [rotated])
  moreover have "entry (tm[key mod bucketConst := ?b]) =
      (entry tm)(key \<mapsto> \<lparr>sv_obj = obj, sv_expireAt = now + timeout\<rparr>)"
    by (auto simp: fun_eq_iff entry_update [OF assms] AList.update_conv') (simp add: entry_def)
  ultimately show ?thesis using None by simp
qed

lemma tm_delete_ok:
  assumes "tm_ok tm"
  shows "\<exists>tm'. tm_delete key tm = Some tm' \<and> tm_ok tm' \<and> entry tm' = (entry tm)(key := None)"
proof -
  let ?b = "AList.delete key (tm ! (key mod bucketConst))"
  have "tm_delete key tm = Some (tm[key mod bucketConst := ?b])"
    using assms bucket_index [OF assms] by (simp add: tm_delete_def getbucket_ok)
  moreover have "distinct (map fst ?b)"
    using assms bucket_index [OF assms, of key] by (simp add: distinct_delete tm_ok_def)
  then have "tm_ok (tm[key mod bucketConst := ?b])" using assms by (rule tm_ok_update [rotated])
  moreover have "entry (tm[key mod bucketConst := ?b]) = (entry tm)(key := None)"
    by (auto simp: fun_eq_iff entry_update [OF assms] AList.delete_conv') (simp add: entry_def)
  ultimately show ?thesis by simp
qed

lemma map_of_filter_value:
  assumes "distinct (map fst xs)"
  shows "map_of (filter (\<lambda>(k, v). P v) xs) k = (case map_of xs k of None \<Rightarrow> None | Some v \<Rightarrow> if P v then Some v else None)"
  using assms by (induction xs) (auto simp: map_of_eq_None_iff split: option.splits dest: map_of_SomeD)

lemma sweep_ok:
  assumes "tm_ok tm"
  shows "tm_ok (sweep now i tm)"
    and "entry (sweep now i tm) k = (case entry tm k of None \<Rightarrow> None
      | Some v \<Rightarrow> if i = k mod bucketConst \<and> sv_expireAt v < now then None else Some v)"
proof -
  have d: "distinct (map fst (tm ! j))" if "j < length tm" for j using assms that by (simp add: tm_ok_def)
  show "tm_ok (sweep now i tm)"
  proof (cases "i < length tm")
    case True
    with d [OF True] show ?thesis unfolding sweep_def by (intro tm_ok_update [OF assms]) (simp add: distinct_map_filter)
  next
    case False
    then have "sweep now i tm = tm" by (simp add: sweep_def list_update_beyond)
    with assms show ?thesis by simp
  qed
  show "entry (sweep now i tm) k = (case entry tm k of None \<Rightarrow> None
      | Some v \<Rightarrow> if i = k mod bucketConst \<and> sv_expireAt v < now then None else Some v)"
    using map_of_filter_value [OF d, OF bucket_index [OF assms], of "\<lambda>v. \<not> sv_expireAt v < now" k k] bucket_index [OF assms, of k]
    by (cases "i = k mod bucketConst") (auto simp: entry_def sweep_def split: option.split)
qed

lemma goroutine_ok:
  assumes "tm_ok tm"
  shows "tm_ok (goroutine now tm)"
    and "entry (goroutine now tm) k = (case entry tm k of None \<Rightarrow> None | Some v \<Rightarrow> if sv_expireAt v < now then None else Some v)"
proof -
  have f: "tm_ok (fold (sweep now) is m) \<and> entry (fold (sweep now) is m) k = (case entry m k of None \<Rightarrow> None
      | Some v \<Rightarrow> if k mod bucketConst \<in> set is \<and> sv_expireAt v < now then None else Some v)"
    if "tm_ok m" for "is" and m :: "'a timemap"
    using that
  proof (induction "is" arbitrary: m)
    case (Cons i "is")
    from Cons.IH [OF sweep_ok(1) [OF Cons.prems, of now i]] sweep_ok(2) [OF Cons.prems, of now i k]
    show ?case by (auto split: option.split)
  qed (simp split: option.split)
  show "tm_ok (goroutine now tm)" using f [OF assms] by (simp add: goroutine_def)
  show "entry (goroutine now tm) k = (case entry tm k of None \<Rightarrow> None | Some v \<Rightarrow> if sv_expireAt v < now then None else Some v)"
    using f [OF assms, of "[0..<length tm]"] bucket_index [OF assms, of k]
    by (auto simp: goroutine_def split: option.split)
qed

lemma NewTimeMap_ok: "tm_ok NewTimeMap" "entry NewTimeMap = Map.empty"
  by (auto simp: tm_ok_def NewTimeMap_def entry_def bucketConst_def)

section \<open>The interface \<open>TimeMap\<close>\<close>

text \<open>
  What the clients of Go's interface \<open>TimeMap\<close> rely on: a lookup after the three
  operations. \<open>Put\<close> keeps what is there.
\<close>

locale time_map =
  fixes ok :: "'m \<Rightarrow> bool"
    and getk :: "nat \<Rightarrow> 'm \<Rightarrow> 'v option option"
    and putk :: "int \<Rightarrow> nat \<Rightarrow> 'v \<Rightarrow> int \<Rightarrow> 'm \<Rightarrow> ('v \<times> 'm) option"
    and delk :: "nat \<Rightarrow> 'm \<Rightarrow> 'm option"
  assumes get_total: "ok m \<Longrightarrow> \<exists>r. getk k m = Some r"
    and put_law: "ok m \<Longrightarrow> getk k m = Some r \<Longrightarrow>
      \<exists>m'. putk t k v d m = Some (case r of None \<Rightarrow> v | Some w \<Rightarrow> w, m') \<and> ok m' \<and>
        getk k m' = Some (Some (case r of None \<Rightarrow> v | Some w \<Rightarrow> w)) \<and> (\<forall>k'. k' \<noteq> k \<longrightarrow> getk k' m' = getk k' m)"
    and del_law: "ok m \<Longrightarrow>
      \<exists>m'. delk k m = Some m' \<and> ok m' \<and> getk k m' = Some None \<and> (\<forall>k'. k' \<noteq> k \<longrightarrow> getk k' m' = getk k' m)"
begin

lemma put_new:
  assumes "ok m" "getk k m = Some None"
  shows "\<exists>m'. putk t k v d m = Some (v, m') \<and> ok m' \<and> getk k m' = Some (Some v) \<and>
    (\<forall>k'. k' \<noteq> k \<longrightarrow> getk k' m' = getk k' m)"
  using put_law [OF assms] by simp

lemma put_again:
  assumes "ok m" "getk k m = Some (Some w)"
  shows "\<exists>m'. putk t k v d m = Some (w, m') \<and> ok m' \<and> getk k m' = Some (Some w) \<and>
    (\<forall>k'. k' \<noteq> k \<longrightarrow> getk k' m' = getk k' m)"
  using put_law [OF assms] by simp

text \<open>Putting and then deleting leaves nothing at the key, whatever was there before.\<close>

lemma put_del:
  assumes "ok m"
  shows "\<exists>w m' m''. putk t k v d m = Some (w, m') \<and> delk k m' = Some m'' \<and> ok m'' \<and>
    getk k m'' = Some None \<and> (\<forall>k'. k' \<noteq> k \<longrightarrow> getk k' m'' = getk k' m)"
proof -
  from get_total [OF assms] obtain r where "getk k m = Some r" by blast
  from put_law [OF assms this] obtain w m' where
    p: "putk t k v d m = Some (w, m')" "ok m'" "\<forall>k'. k' \<noteq> k \<longrightarrow> getk k' m' = getk k' m" by blast
  from del_law [OF p(2)] p show ?thesis by metis
qed

end

interpretation tm: time_map tm_ok tm_get tm_put tm_delete
proof
  fix m :: "'a timemap" and k t v d r
  assume ok: "tm_ok m"
  then show "\<exists>r. tm_get k m = Some r" by (simp add: tm_get_ok)
  show "\<exists>m'. tm_delete k m = Some m' \<and> tm_ok m' \<and> tm_get k m' = Some None \<and> (\<forall>k'. k' \<noteq> k \<longrightarrow> tm_get k' m' = tm_get k' m)"
    using tm_delete_ok [OF ok, of k] ok by (auto simp: tm_get_ok)
  assume "tm_get k m = Some r"
  then have r: "r = map_option sv_obj (entry m k)" using ok by (simp add: tm_get_ok)
  from tm_put_ok [OF ok, of t k v d] obtain m' where
    m': "tm_put t k v d m = Some (case entry m k of None \<Rightarrow> v | Some v \<Rightarrow> sv_obj v, m')" "tm_ok m'"
      "entry m' = (case entry m k of None \<Rightarrow> (entry m)(k \<mapsto> \<lparr>sv_obj = v, sv_expireAt = t + d\<rparr>) | Some v \<Rightarrow> entry m)"
    by blast
  then show "\<exists>m'. tm_put t k v d m = Some (case r of None \<Rightarrow> v | Some w \<Rightarrow> w, m') \<and> tm_ok m' \<and>
      tm_get k m' = Some (Some (case r of None \<Rightarrow> v | Some w \<Rightarrow> w)) \<and> (\<forall>k'. k' \<noteq> k \<longrightarrow> tm_get k' m' = tm_get k' m)"
    using ok r by (cases "entry m k") (auto simp: tm_get_ok)
qed

section \<open>Any history of calls\<close>

text \<open>The cleaning of one bucket comes with the time that its round has read.\<close>

datatype 'v tm_op = TGet nat | TPut nat 'v int | TDelete nat | TSweep int nat

fun tm_call :: "int \<Rightarrow> 'v tm_op \<Rightarrow> 'v timemap \<Rightarrow> ('v option \<times> 'v timemap) option" where
  "tm_call now (TGet k) tm = map_option (\<lambda>r. (r, tm)) (tm_get k tm)"
| "tm_call now (TPut k v d) tm = map_option (apfst Some) (tm_put now k v d tm)"
| "tm_call now (TDelete k) tm = map_option (Pair None) (tm_delete k tm)"
| "tm_call now (TSweep t i) tm = Some (None, sweep t i tm)"

fun tm_calls :: "(int \<times> 'v tm_op) list \<Rightarrow> 'v timemap \<Rightarrow> ('v option list \<times> 'v timemap) option" where
  "tm_calls [] tm = Some ([], tm)"
| "tm_calls ((now, c) # cs) tm = do { (r, tm) \<leftarrow> tm_call now c tm; (rs, tm) \<leftarrow> tm_calls cs tm; Some (r # rs, tm) }"

text \<open>The contract: one map, from keys to a value and a deadline; the first \<open>Put\<close> wins.\<close>

fun map_call :: "int \<Rightarrow> 'v tm_op \<Rightarrow> (nat \<rightharpoonup> 'v \<times> int) \<Rightarrow> 'v option \<times> (nat \<rightharpoonup> 'v \<times> int)" where
  "map_call now (TGet k) m = (map_option fst (m k), m)"
| "map_call now (TPut k v d) m = (case m k of Some (w, _) \<Rightarrow> (Some w, m) | None \<Rightarrow> (Some v, m(k \<mapsto> (v, now + d))))"
| "map_call now (TDelete k) m = (None, m(k := None))"
| "map_call now (TSweep t i) m = (None, \<lambda>k. case m k of None \<Rightarrow> None
     | Some (v, e) \<Rightarrow> if k mod 64 = i \<and> e < t then None else Some (v, e))"

fun map_calls :: "(int \<times> 'v tm_op) list \<Rightarrow> (nat \<rightharpoonup> 'v \<times> int) \<Rightarrow> 'v option list \<times> (nat \<rightharpoonup> 'v \<times> int)" where
  "map_calls [] m = ([], m)"
| "map_calls ((now, c) # cs) m = (let (r, m) = map_call now c m; (rs, m) = map_calls cs m in (r # rs, m))"

definition tm_abs :: "'v timemap \<Rightarrow> nat \<rightharpoonup> 'v \<times> int" where
  "tm_abs tm k = map_option (\<lambda>v. (sv_obj v, sv_expireAt v)) (entry tm k)"

lemma tm_call_refines:
  assumes "tm_ok tm"
  shows "\<exists>tm'. tm_call now c tm = Some (fst (map_call now c (tm_abs tm)), tm') \<and> tm_ok tm' \<and>
    tm_abs tm' = snd (map_call now c (tm_abs tm))"
proof (cases c)
  case (TGet k)
  with assms show ?thesis by (simp add: tm_get_ok tm_abs_def option.map_comp comp_def)
next
  case (TPut k v d)
  with tm_put_ok [OF assms, of now k v d] show ?thesis
    by (cases "entry tm k") (auto simp: tm_abs_def fun_eq_iff)
next
  case (TDelete k)
  with tm_delete_ok [OF assms, of k] show ?thesis by (auto simp: tm_abs_def fun_eq_iff)
next
  case (TSweep t i)
  have "tm_abs (sweep t i tm) = snd (map_call now (TSweep t i) (tm_abs tm))"
    by (auto simp: fun_eq_iff tm_abs_def sweep_ok(2) [OF assms] bucketConst_def split: option.split)
  with TSweep sweep_ok(1) [OF assms] show ?thesis by simp
qed

lemma tm_calls_refines:
  assumes "tm_ok tm"
  shows "\<exists>tm'. tm_calls cs tm = Some (fst (map_calls cs (tm_abs tm)), tm') \<and> tm_ok tm' \<and>
    tm_abs tm' = snd (map_calls cs (tm_abs tm))"
  using assms
proof (induction cs arbitrary: tm)
  case (Cons c cs)
  obtain now op where c: "c = (now, op)" by (cases c)
  from tm_call_refines [OF Cons.prems, of now op] obtain tm' where
    tm': "tm_call now op tm = Some (fst (map_call now op (tm_abs tm)), tm')" "tm_ok tm'"
      "tm_abs tm' = snd (map_call now op (tm_abs tm))" by blast
  from Cons.IH [OF tm'(2)] tm' show ?case by (auto simp: c split_beta Let_def)
qed simp

text \<open>
  C25. The sharded map is one map: started by \<open>NewTimeMap\<close>, under any sequence of
  lookups, puts, deletes and cleanings of single buckets (each with the time that its round
  began) it answers as a single map with deadlines does, in which a put under a key that is present
  returns what is there and changes nothing. A round that nothing comes between removes
  exactly the entries whose deadline has passed: the 64 buckets cannot be observed then, and no
  index ever leaves the slice.
\<close>

theorem timemap_refines_map:
  "\<exists>tm. tm_calls cs NewTimeMap = Some (fst (map_calls cs Map.empty), tm) \<and>
    tm_abs tm = snd (map_calls cs Map.empty) \<and>
    tm_abs (goroutine now tm) = (\<lambda>k. case tm_abs tm k of None \<Rightarrow> None
      | Some (v, e) \<Rightarrow> if e < now then None else Some (v, e))"
proof -
  have "tm_abs (NewTimeMap :: 'a timemap) = Map.empty" by (simp add: fun_eq_iff tm_abs_def NewTimeMap_ok(2))
  with tm_calls_refines [OF NewTimeMap_ok(1), of cs] obtain tm where
    tm: "tm_calls cs NewTimeMap = Some (fst (map_calls cs Map.empty), tm)" "tm_ok tm"
      "tm_abs tm = snd (map_calls cs Map.empty)" by auto
  have "tm_abs (goroutine now tm) = (\<lambda>k. case tm_abs tm k of None \<Rightarrow> None
      | Some (v, e) \<Rightarrow> if e < now then None else Some (v, e))"
    by (auto simp: fun_eq_iff tm_abs_def goroutine_ok(2) [OF tm(2)] split: option.split)
  with tm show ?thesis by blast
qed

end
