(* ===== verification/Gls.thy ===== *)
theory Gls
  imports TimeMap
begin

text \<open>
  \<open>gls/gls.go\<close>: goroutine-local storage. A \<open>Storage\<close> is a Go map, that is a
  reference, so storages live in an explicit store and the global time map holds their
  addresses (\<open>None\<close> is the nil map). \<open>g\<close> is the address that
  \<open>internal.Getg\<close> gives for the running goroutine; a function passed in is a state
  transformer. \<open>None\<close> as a result is a panic.
\<close>

section \<open>State and operations\<close>

type_synonym storage = "nat option"

record 'v gls =
  gtm :: "storage timemap"
  store :: "nat \<Rightarrow> string \<rightharpoonup> 'v"
  next_addr :: nat

definition hour :: int where
  "hour = 3600 * 1000000000"

definition newStorage :: "'v gls \<Rightarrow> nat \<times> 'v gls" where
  "newStorage s = (next_addr s, s\<lparr>store := (store s)(next_addr s := Map.empty), next_addr := Suc (next_addr s)\<rparr>)"

definition getStorage :: "nat \<Rightarrow> 'v gls \<Rightarrow> storage option" where
  "getStorage g s = do {
     v \<leftarrow> tm_get g (gtm s);
     Some (case v of None \<Rightarrow> None | Some p \<Rightarrow> p)
   }"

definition gls_Get :: "nat \<Rightarrow> string \<Rightarrow> 'v gls \<Rightarrow> 'v option option" where
  "gls_Get g key s = do {
     p \<leftarrow> getStorage g s;
     Some (case p of None \<Rightarrow> None | Some a \<Rightarrow> store s a key)
   }"

definition gls_Set :: "nat \<Rightarrow> string \<Rightarrow> 'v \<Rightarrow> 'v gls \<Rightarrow> 'v gls option" where
  "gls_Set g key value s = do {
     p \<leftarrow> getStorage g s;
     Some (case p of None \<Rightarrow> s | Some a \<Rightarrow> s\<lparr>store := (store s)(a := (store s a)(key \<mapsto> value))\<rparr>)
   }"

definition putStorage :: "int \<Rightarrow> nat \<Rightarrow> storage \<Rightarrow> int \<Rightarrow> 'v gls \<Rightarrow> (storage \<times> 'v gls) option" where
  "putStorage now g p timeout s = do {
     (v, tm) \<leftarrow> tm_put now g p timeout (gtm s);
     Some (v, s\<lparr>gtm := tm\<rparr>)
   }"

definition gls_Put :: "int \<Rightarrow> nat \<Rightarrow> int \<Rightarrow> 'v gls \<Rightarrow> (storage \<times> 'v gls) option" where
  "gls_Put now g timeout s = (let (a, s) = newStorage s in putStorage now g (Some a) timeout s)"

definition Cleanup :: "nat \<Rightarrow> 'v gls \<Rightarrow> 'v gls option" where
  "Cleanup g s = do { tm \<leftarrow> tm_delete g (gtm s); Some (s\<lparr>gtm := tm\<rparr>) }"

definition With :: "int \<Rightarrow> nat \<Rightarrow> storage \<Rightarrow> ('v gls \<Rightarrow> 'v gls option) \<Rightarrow> 'v gls \<Rightarrow> 'v gls option" where
  "With now g values f s = do {
     (_, s) \<leftarrow> putStorage now g values hour s;
     s \<leftarrow> f s;
     Cleanup g s
   }"

definition copyStorage :: "nat \<Rightarrow> nat \<Rightarrow> 'v gls \<Rightarrow> 'v gls" where
  "copyStorage src dest s = s\<lparr>store := (store s)(dest := store s dest ++ store s src)\<rparr>"

text \<open>
  \<open>Go\<close> in its two parts: what the calling goroutine does, with the storage it makes for
  the child, and what the new goroutine does.
\<close>

definition Go_parent :: "nat \<Rightarrow> 'v gls \<Rightarrow> (nat \<times> 'v gls) option" where
  "Go_parent g s = do {
     ps \<leftarrow> getStorage g s;
     let (cs, s) = newStorage s;
     Some (cs, case ps of None \<Rightarrow> s | Some p \<Rightarrow> copyStorage p cs s)
   }"

definition Go_child :: "int \<Rightarrow> nat \<Rightarrow> nat \<Rightarrow> ('v gls \<Rightarrow> 'v gls option) \<Rightarrow> 'v gls \<Rightarrow> 'v gls option" where
  "Go_child now g cs f s = do {
     (_, s) \<leftarrow> putStorage now g (Some cs) hour s;
     s \<leftarrow> f s;
     Cleanup g s
   }"

section \<open>Invariant and laws\<close>

definition gls_ok :: "'v gls \<Rightarrow> bool" where
  "gls_ok s \<longleftrightarrow> tm_ok (gtm s) \<and> (\<forall>g a. tm_get g (gtm s) = Some (Some (Some a)) \<longrightarrow> a < next_addr s)"

lemma getStorage_bound: "gls_ok s \<Longrightarrow> getStorage g s = Some (Some a) \<Longrightarrow> a < next_addr s"
  by (auto simp: gls_ok_def getStorage_def bind_eq_Some_conv split: option.splits)

lemma getStorage_total: "gls_ok s \<Longrightarrow> \<exists>p. getStorage g s = Some p"
  using tm.get_total [of "gtm s" g] by (auto simp: getStorage_def gls_ok_def)

lemma put_free:
  assumes ok: "gls_ok s" and free: "tm_get g (gtm s) = Some None" and a: "\<And>a. p = Some a \<Longrightarrow> a < next_addr s"
  shows "\<exists>s'. putStorage now g p d s = Some (p, s') \<and> gls_ok s' \<and> store s' = store s \<and> next_addr s' = next_addr s \<and>
    getStorage g s' = Some p \<and> tm_get g (gtm s') = Some (Some p) \<and>
    (\<forall>g'. g' \<noteq> g \<longrightarrow> tm_get g' (gtm s') = tm_get g' (gtm s) \<and> getStorage g' s' = getStorage g' s)"
proof -
  have "tm_ok (gtm s)" using ok by (simp add: gls_ok_def)
  from tm.put_new [OF this free, of now p d] obtain m where
    m: "tm_put now g p d (gtm s) = Some (p, m)" "tm_ok m" "tm_get g m = Some (Some p)"
      "\<forall>k'. k' \<noteq> g \<longrightarrow> tm_get k' m = tm_get k' (gtm s)" by blast
  have "gls_ok (s\<lparr>gtm := m\<rparr>)"
    unfolding gls_ok_def
  proof (intro conjI allI impI)
    fix g' b assume "tm_get g' (gtm (s\<lparr>gtm := m\<rparr>)) = Some (Some (Some b))"
    with ok a m(3,4) show "b < next_addr (s\<lparr>gtm := m\<rparr>)" by (cases "g' = g") (auto simp: gls_ok_def)
  qed (simp add: m(2))
  with m show ?thesis by (auto simp: putStorage_def getStorage_def)
qed

lemma put_taken:
  assumes ok: "gls_ok s" and taken: "tm_get g (gtm s) = Some (Some w)"
  shows "\<exists>s'. putStorage now g p d s = Some (w, s') \<and> gls_ok s' \<and> store s' = store s \<and> next_addr s' = next_addr s \<and>
    getStorage g s' = getStorage g s \<and> tm_get g (gtm s') = Some (Some w)"
proof -
  have "tm_ok (gtm s)" using ok by (simp add: gls_ok_def)
  from tm.put_again [OF this taken, of now p d] obtain m where
    m: "tm_put now g p d (gtm s) = Some (w, m)" "tm_ok m" "tm_get g m = Some (Some w)"
      "\<forall>k'. k' \<noteq> g \<longrightarrow> tm_get k' m = tm_get k' (gtm s)" by blast
  have "gls_ok (s\<lparr>gtm := m\<rparr>)"
    unfolding gls_ok_def
  proof (intro conjI allI impI)
    fix g' b assume "tm_get g' (gtm (s\<lparr>gtm := m\<rparr>)) = Some (Some (Some b))"
    with ok taken m(3,4) show "b < next_addr (s\<lparr>gtm := m\<rparr>)" by (cases "g' = g") (auto simp: gls_ok_def)
  qed (simp add: m(2))
  with m taken show ?thesis by (simp add: putStorage_def getStorage_def)
qed

lemma cleanup_ok:
  assumes ok: "gls_ok s"
  shows "\<exists>s'. Cleanup g s = Some s' \<and> gls_ok s' \<and> store s' = store s \<and> next_addr s' = next_addr s \<and>
    tm_get g (gtm s') = Some None \<and> getStorage g s' = Some None \<and>
    (\<forall>g'. g' \<noteq> g \<longrightarrow> getStorage g' s' = getStorage g' s)"
proof -
  have "tm_ok (gtm s)" using ok by (simp add: gls_ok_def)
  from tm.del_law [OF this, of g] obtain m where
    m: "tm_delete g (gtm s) = Some m" "tm_ok m" "tm_get g m = Some None"
      "\<forall>k'. k' \<noteq> g \<longrightarrow> tm_get k' m = tm_get k' (gtm s)" by blast
  have "gls_ok (s\<lparr>gtm := m\<rparr>)"
    unfolding gls_ok_def
  proof (intro conjI allI impI)
    fix g' b assume "tm_get g' (gtm (s\<lparr>gtm := m\<rparr>)) = Some (Some (Some b))"
    with ok m(3,4) show "b < next_addr (s\<lparr>gtm := m\<rparr>)" by (cases "g' = g") (auto simp: gls_ok_def)
  qed (simp add: m(2))
  with m show ?thesis by (simp add: Cleanup_def getStorage_def)
qed

lemma set_ok:
  assumes ok: "gls_ok s" and a: "getStorage g s = Some p"
  shows "\<exists>s'. gls_Set g k v s = Some s' \<and> gls_ok s' \<and> gtm s' = gtm s \<and>
    store s' = (case p of None \<Rightarrow> store s | Some a \<Rightarrow> (store s)(a := (store s a)(k \<mapsto> v)))"
  using assms by (cases p) (simp_all add: gls_Set_def gls_ok_def)

lemma get_of: "getStorage g s = Some p \<Longrightarrow> gls_Get g k s = Some (case p of None \<Rightarrow> None | Some a \<Rightarrow> store s a k)"
  by (simp add: gls_Get_def)

lemma gls_Get_cong: "getStorage h s' = getStorage h s \<Longrightarrow> store s' = store s \<Longrightarrow> gls_Get h k s' = gls_Get h k s"
  by (simp only: gls_Get_def)

lemma getStorage_gtm: "gtm s' = gtm s \<Longrightarrow> getStorage g s' = getStorage g s"
  by (simp add: getStorage_def)

section \<open>The properties\<close>

text \<open>A state for the witnesses: goroutine 1 has a storage with one value, goroutine 2 none.\<close>

definition gls_ex :: "nat gls" where
  "gls_ex = \<lparr>gtm = NewTimeMap[1 := [(1, \<lparr>sv_obj = Some 0, sv_expireAt = 100\<rparr>)]],
     store = (\<lambda>_. Map.empty)(0 := [''k'' \<mapsto> 5], 1 := [''k'' \<mapsto> 9]), next_addr = 2\<rparr>"

lemma gls_ex_get: "tm_get g (gtm gls_ex) = Some (if g = 1 then Some (Some 0) else None)"
proof -
  have "g mod 64 = 1 \<or> g mod 64 \<noteq> 1" by simp
  then show ?thesis
    by (auto simp: gls_ex_def tm_get_def getbucket_def slice_get_def NewTimeMap_def bucketConst_def bucket_get_def
        nth_list_update nat_mod_distrib)
qed

lemma gls_ex_ok: "gls_ok gls_ex"
  by (auto simp: gls_ok_def gls_ex_get)
    (auto simp: gls_ex_def tm_ok_def NewTimeMap_def bucketConst_def dest: set_update_subset_insert [THEN subsetD])

text \<open>
  \<open>Go\<close> hands the child a copy. The child goroutine starts with the values that its
  parent had when it called \<open>Go\<close>, key by key; from then on the two are independent: what
  the child sets the parent does not see, and what the parent sets the child does not see; and
  when the child has finished it has no storage left and the parent still has its own.
\<close>

lemma go_copies_storage:
  assumes "gls_ok s" "g' \<noteq> g" "tm_get g' (gtm s) = Some None" "getStorage g s = Some (Some a)"
  shows "\<exists>cs s1 s2. Go_parent g s = Some (cs, s1) \<and> putStorage now g' (Some cs) hour s1 = Some (Some cs, s2) \<and>
    (\<forall>k. gls_Get g' k s2 = gls_Get g k s \<and> gls_Get g k s2 = gls_Get g k s) \<and>
    (\<forall>k v. \<exists>s3. gls_Set g' k v s2 = Some s3 \<and> gls_Get g' k s3 = Some (Some v) \<and>
      (\<forall>k'. gls_Get g k' s3 = gls_Get g k' s2)) \<and>
    (\<forall>k v. \<exists>s3. gls_Set g k v s2 = Some s3 \<and> gls_Get g k s3 = Some (Some v) \<and>
      (\<forall>k'. gls_Get g' k' s3 = gls_Get g' k' s2)) \<and>
    (\<exists>s3. Go_child now g' cs Some s1 = Some s3 \<and> (\<forall>k. gls_Get g' k s3 = Some None \<and> gls_Get g k s3 = gls_Get g k s))"
proof -
  let ?cs = "next_addr s"
  let ?s1 = "s\<lparr>store := (store s)(?cs := store s a), next_addr := Suc ?cs\<rparr>"
  have a: "a < ?cs" using getStorage_bound [OF assms(1,4)] .
  have p: "Go_parent g s = Some (?cs, ?s1)"
    using a assms(4) by (simp add: Go_parent_def newStorage_def copyStorage_def)
  have ok1: "gls_ok ?s1" using assms(1) by (fastforce simp: gls_ok_def less_SucI)
  have free: "tm_get g' (gtm ?s1) = Some None" using assms(3) by simp
  have "\<And>b. Some ?cs = Some b \<Longrightarrow> b < next_addr ?s1" by simp
  from put_free [OF ok1 free this, where now = now and d = hour] obtain s2 where
    s2: "putStorage now g' (Some ?cs) hour ?s1 = Some (Some ?cs, s2)" "gls_ok s2" "store s2 = store ?s1"
      "getStorage g' s2 = Some (Some ?cs)" "\<forall>h. h \<noteq> g' \<longrightarrow> getStorage h s2 = getStorage h ?s1" by metis
  have g2: "getStorage g s2 = Some (Some a)"
    using s2(5) assms(2,4) getStorage_gtm [of ?s1 s g] by simp
  have "gls_Get g' k s2 = gls_Get g k s \<and> gls_Get g k s2 = gls_Get g k s" for k
    using s2(3) a by (simp add: get_of [OF s2(4)] get_of [OF g2] get_of [OF assms(4)])
  moreover have "\<exists>s3. gls_Set g' k v s2 = Some s3 \<and> gls_Get g' k s3 = Some (Some v) \<and>
      (\<forall>k'. gls_Get g k' s3 = gls_Get g k' s2)" for k v
  proof -
    from set_ok [OF s2(2,4), of k v] obtain s3 where
      s3: "gls_Set g' k v s2 = Some s3" "gtm s3 = gtm s2" "store s3 = (store s2)(?cs := (store s2 ?cs)(k \<mapsto> v))" by auto
    from get_of [of g' s3] get_of [of g s3] getStorage_gtm [OF s3(2)] s2(4) g2 s3 a
    show ?thesis by (simp add: get_of [OF g2])
  qed
  moreover have "\<exists>s3. gls_Set g k v s2 = Some s3 \<and> gls_Get g k s3 = Some (Some v) \<and>
      (\<forall>k'. gls_Get g' k' s3 = gls_Get g' k' s2)" for k v
  proof -
    from set_ok [OF s2(2) g2, of k v] obtain s3 where
      s3: "gls_Set g k v s2 = Some s3" "gtm s3 = gtm s2" "store s3 = (store s2)(a := (store s2 a)(k \<mapsto> v))" by auto
    from get_of [of g' s3] get_of [of g s3] getStorage_gtm [OF s3(2)] s2(4) g2 s3 a
    show ?thesis by (simp add: get_of [OF s2(4)])
  qed
  moreover have "\<exists>s3. Go_child now g' ?cs Some ?s1 = Some s3 \<and>
      (\<forall>k. gls_Get g' k s3 = Some None \<and> gls_Get g k s3 = gls_Get g k s)"
  proof -
    from cleanup_ok [OF s2(2), of g'] obtain s3 where
      s3: "Cleanup g' s2 = Some s3" "store s3 = store s2" "getStorage g' s3 = Some None"
        "\<forall>h. h \<noteq> g' \<longrightarrow> getStorage h s3 = getStorage h s2" by blast
    have "getStorage g s3 = Some (Some a)" using s3(4) g2 assms(2) by simp
    from get_of [OF this] get_of [OF s3(3)] get_of [OF assms(4)] s2(1,3) s3(1,2) a
    show ?thesis by (simp add: Go_child_def)
  qed
  ultimately show ?thesis using p s2(1) by blast
qed

text \<open>
  \<open>With\<close> around a function. On a goroutine that has no storage the function starts
  with exactly the given values; when it is done (and left the library in order) the
  goroutine has no storage again, and no other goroutine's storage was touched by
  \<open>With\<close> itself.
\<close>

lemma with_scopes_values:
  assumes "gls_ok s" "tm_get g (gtm s) = Some None" "a < next_addr s"
  shows "\<exists>s1. putStorage now g (Some a) hour s = Some (Some a, s1) \<and>
    (\<forall>k. gls_Get g k s1 = Some (store s a k)) \<and>
    (\<forall>h k. h \<noteq> g \<longrightarrow> gls_Get h k s1 = gls_Get h k s) \<and>
    (\<forall>f s2. f s1 = Some s2 \<and> gls_ok s2 \<longrightarrow>
      (\<exists>s3. With now g (Some a) f s = Some s3 \<and> gls_ok s3 \<and> (\<forall>k. gls_Get g k s3 = Some None) \<and>
        (\<forall>h k. h \<noteq> g \<longrightarrow> gls_Get h k s3 = gls_Get h k s2)))"
proof -
  have "\<And>b. Some a = Some b \<Longrightarrow> b < next_addr s" using assms(3) by simp
  from put_free [OF assms(1,2) this, where now = now and d = hour] obtain s1 where
    s1: "putStorage now g (Some a) hour s = Some (Some a, s1)" "gls_ok s1" "store s1 = store s"
      "getStorage g s1 = Some (Some a)" "\<forall>h. h \<noteq> g \<longrightarrow> getStorage h s1 = getStorage h s" by metis
  have "gls_Get g k s1 = Some (store s a k)" for k using s1(3) by (simp add: get_of [OF s1(4)])
  moreover have "gls_Get h k s1 = gls_Get h k s" if "h \<noteq> g" for h k
    by (rule gls_Get_cong) (use s1(3,5) that in simp_all)
  moreover have "\<exists>s3. With now g (Some a) f s = Some s3 \<and> gls_ok s3 \<and> (\<forall>k. gls_Get g k s3 = Some None) \<and>
      (\<forall>h k. h \<noteq> g \<longrightarrow> gls_Get h k s3 = gls_Get h k s2)" if f: "f s1 = Some s2 \<and> gls_ok s2" for f s2
  proof -
    from cleanup_ok [of s2 g] f obtain s3 where
      s3: "Cleanup g s2 = Some s3" "gls_ok s3" "store s3 = store s2" "getStorage g s3 = Some None"
      "\<forall>h. h \<noteq> g \<longrightarrow> getStorage h s3 = getStorage h s2" by blast
    have "gls_Get h k s3 = gls_Get h k s2" if "h \<noteq> g" for h k
      by (rule gls_Get_cong) (use s3(3,5) that in simp_all)
    with s1(1) f s3 show ?thesis by (simp add: With_def get_of [OF s3(4)])
  qed
  ultimately show ?thesis using s1(1) by blast
qed

lemma with_scopes_values_witness:
  "\<exists>s1. putStorage 7 2 (Some 1) hour gls_ex = Some (Some 1, s1) \<and> gls_Get 2 ''k'' s1 = Some (Some 9)"
proof -
  have "store gls_ex 1 ''k'' = Some 9" "1 < next_addr gls_ex" by (simp_all add: gls_ex_def)
  with with_scopes_values [OF gls_ex_ok, of 2 1 7] show ?thesis by (auto simp: gls_ex_get)
qed

text \<open>
  \<open>With\<close> does not nest. On a goroutine that already has a storage (from an
  outer \<open>With\<close>, from \<open>Put\<close> or from \<open>Go\<close>) the values given are ignored: the
  function runs with the old storage; and afterwards the old storage is gone too.
\<close>

lemma with_does_not_nest:
  assumes "gls_ok s" "tm_get g (gtm s) = Some (Some (Some a))"
  shows "\<exists>s1. putStorage now g vals hour s = Some (Some a, s1) \<and>
    (\<forall>k. gls_Get g k s1 = gls_Get g k s) \<and>
    (\<forall>f s2. f s1 = Some s2 \<and> gls_ok s2 \<longrightarrow>
      (\<exists>s3. With now g vals f s = Some s3 \<and> (\<forall>k. gls_Get g k s3 = Some None)))"
proof -
  from put_taken [OF assms, where now = now and p = vals and d = hour] obtain s1 where
    s1: "putStorage now g vals hour s = Some (Some a, s1)" "gls_ok s1" "store s1 = store s"
      "getStorage g s1 = getStorage g s" by blast
  have "gls_Get g k s1 = gls_Get g k s" for k by (rule gls_Get_cong [OF s1(4,3)])
  moreover have "\<exists>s3. With now g vals f s = Some s3 \<and> (\<forall>k. gls_Get g k s3 = Some None)"
    if f: "f s1 = Some s2 \<and> gls_ok s2" for f s2
  proof -
    from cleanup_ok [of s2 g] f obtain s3 where "Cleanup g s2 = Some s3" "getStorage g s3 = Some None" by blast
    with s1(1) f show ?thesis by (simp add: With_def gls_Get_def)
  qed
  ultimately show ?thesis using s1(1) by blast
qed

lemma with_does_not_nest_witness:
  "\<exists>s1. putStorage 7 1 (Some 1) hour gls_ex = Some (Some 0, s1) \<and> gls_Get 1 ''k'' s1 = Some (Some 5)"
proof -
  have t: "tm_get 1 (gtm gls_ex) = Some (Some (Some 0))" by (simp add: gls_ex_get)
  then have "getStorage 1 gls_ex = Some (Some 0)" by (simp add: getStorage_def)
  then have "gls_Get 1 ''k'' gls_ex = Some (Some 5)" by (simp add: gls_Get_def) (simp add: gls_ex_def)
  with with_does_not_nest [OF gls_ex_ok t, of 7 "Some 1"] show ?thesis by metis
qed

text \<open>
  \<open>With\<close> around a function. On a goroutine that has no storage the function starts
  with exactly the given values; when it is done (and left the library in order) the
  goroutine has no storage again, and no other goroutine's storage was touched by
  \<open>With\<close> itself. But \<open>With\<close> does not nest: on a goroutine that already has a
  storage (from an outer \<open>With\<close>, from \<open>Put\<close> or from \<open>Go\<close>) the values given
  are ignored, the function runs with the old storage, and afterwards that one is gone too.
\<close>

lemma with_values:
  assumes "gls_ok s"
  shows "(tm_get g (gtm s) = Some None \<and> a < next_addr s \<longrightarrow>
    (\<exists>s1. putStorage now g (Some a) hour s = Some (Some a, s1) \<and>
      (\<forall>k. gls_Get g k s1 = Some (store s a k)) \<and>
      (\<forall>h k. h \<noteq> g \<longrightarrow> gls_Get h k s1 = gls_Get h k s) \<and>
      (\<forall>f s2. f s1 = Some s2 \<and> gls_ok s2 \<longrightarrow>
        (\<exists>s3. With now g (Some a) f s = Some s3 \<and> gls_ok s3 \<and> (\<forall>k. gls_Get g k s3 = Some None) \<and>
          (\<forall>h k. h \<noteq> g \<longrightarrow> gls_Get h k s3 = gls_Get h k s2))))) \<and>
    (tm_get g (gtm s) = Some (Some (Some b)) \<longrightarrow>
    (\<exists>s1. putStorage now g vals hour s = Some (Some b, s1) \<and>
      (\<forall>k. gls_Get g k s1 = gls_Get g k s) \<and>
      (\<forall>f s2. f s1 = Some s2 \<and> gls_ok s2 \<longrightarrow>
        (\<exists>s3. With now g vals f s = Some s3 \<and> (\<forall>k. gls_Get g k s3 = Some None)))))"
  by (rule conjI; intro impI)
    (elim conjE, erule (1) with_scopes_values [OF assms], erule with_does_not_nest [OF assms])

text \<open>
  C26. \<open>With\<close> and \<open>Go\<close>. On a goroutine that has no storage \<open>With\<close> starts its function
  with exactly the given values; when it is done (and left the library in order) the
  goroutine has no storage again, and no other goroutine's storage was touched by
  \<open>With\<close> itself. But \<open>With\<close> does not nest: on a goroutine that already has a storage
  the values given are ignored, the function runs with the old storage, and afterwards that
  one is gone too. \<open>Go\<close> hands the child a copy: it starts with the values that its parent had
  when it called \<open>Go\<close>, key by key; from then on neither sees what the other sets; and when
  the child has finished it has no storage left and the parent still has its own.
\<close>

theorem gls_scopes:
  assumes "gls_ok s"
  shows "(tm_get g (gtm s) = Some None \<and> a < next_addr s \<longrightarrow>
    (\<exists>s1. putStorage now g (Some a) hour s = Some (Some a, s1) \<and>
      (\<forall>k. gls_Get g k s1 = Some (store s a k)) \<and>
      (\<forall>h k. h \<noteq> g \<longrightarrow> gls_Get h k s1 = gls_Get h k s) \<and>
      (\<forall>f s2. f s1 = Some s2 \<and> gls_ok s2 \<longrightarrow>
        (\<exists>s3. With now g (Some a) f s = Some s3 \<and> gls_ok s3 \<and> (\<forall>k. gls_Get g k s3 = Some None) \<and>
          (\<forall>h k. h \<noteq> g \<longrightarrow> gls_Get h k s3 = gls_Get h k s2))))) \<and>
    (tm_get g (gtm s) = Some (Some (Some b)) \<longrightarrow>
    (\<exists>s1. putStorage now g vals hour s = Some (Some b, s1) \<and>
      (\<forall>k. gls_Get g k s1 = gls_Get g k s) \<and>
      (\<forall>f s2. f s1 = Some s2 \<and> gls_ok s2 \<longrightarrow>
        (\<exists>s3. With now g vals f s = Some s3 \<and> (\<forall>k. gls_Get g k s3 = Some None))))) \<and>
    (g' \<noteq> g \<and> tm_get g' (gtm s) = Some None \<and> getStorage g s = Some (Some c) \<longrightarrow>
    (\<exists>cs s1 s2. Go_parent g s = Some (cs, s1) \<and> putStorage now g' (Some cs) hour s1 = Some (Some cs, s2) \<and>
      (\<forall>k. gls_Get g' k s2 = gls_Get g k s \<and> gls_Get g k s2 = gls_Get g k s) \<and>
      (\<forall>k v. \<exists>s3. gls_Set g' k v s2 = Some s3 \<and> gls_Get g' k s3 = Some (Some v) \<and>
        (\<forall>k'. gls_Get g k' s3 = gls_Get g k' s2)) \<and>
      (\<forall>k v. \<exists>s3. gls_Set g k v s2 = Some s3 \<and> gls_Get g k s3 = Some (Some v) \<and>
        (\<forall>k'. gls_Get g' k' s3 = gls_Get g' k' s2)) \<and>
      (\<exists>s3. Go_child now g' cs Some s1 = Some s3 \<and>
        (\<forall>k. gls_Get g' k s3 = Some None \<and> gls_Get g k s3 = gls_Get g k s))))"
  using with_values [OF assms, THEN conjunct1] with_values [OF assms, THEN conjunct2]
  by (intro conjI) (assumption, assumption, intro impI, elim conjE, erule (2) go_copies_storage [OF assms])

theorem gls_scopes_witness:
  "(\<exists>s1. putStorage 7 2 (Some 1) hour gls_ex = Some (Some 1, s1) \<and> gls_Get 2 ''k'' s1 = Some (Some 9)) \<and>
   (\<exists>s1. putStorage 7 1 (Some 1) hour gls_ex = Some (Some 0, s1) \<and> gls_Get 1 ''k'' s1 = Some (Some 5)) \<and>
   (\<exists>cs s1 s2. Go_parent 1 gls_ex = Some (cs, s1) \<and> putStorage 7 2 (Some cs) hour s1 = Some (Some cs, s2) \<and>
    gls_Get 2 ''k'' s2 = gls_Get 1 ''k'' gls_ex)"
proof -
  have t: "tm_get 1 (gtm gls_ex) = Some (Some (Some 0))" "tm_get 2 (gtm gls_ex) = Some None" by (simp_all add: gls_ex_get)
  then have gs: "getStorage 1 gls_ex = Some (Some 0)" by (simp add: getStorage_def)
  then have g: "gls_Get 1 ''k'' gls_ex = Some (Some 5)" by (simp add: gls_Get_def) (simp add: gls_ex_def)
  have s: "store gls_ex 1 ''k'' = Some 9" "1 < next_addr gls_ex" by (simp_all add: gls_ex_def)
  note w = gls_scopes [OF gls_ex_ok]
  from w [THEN conjunct1, rule_format, OF conjI, OF t(2) s(2), of 7]
  have "\<exists>s1. putStorage 7 2 (Some 1) hour gls_ex = Some (Some 1, s1) \<and> gls_Get 2 ''k'' s1 = Some (Some 9)"
    by (metis s(1))
  moreover from w [THEN conjunct2, THEN conjunct1, rule_format, OF t(1), of 7 "Some 1"]
  have "\<exists>s1. putStorage 7 1 (Some 1) hour gls_ex = Some (Some 0, s1) \<and> gls_Get 1 ''k'' s1 = Some (Some 5)"
    by (metis g)
  moreover from w [of 1 0 7 0 None 2 0, THEN conjunct2, THEN conjunct2] t(2) gs
  have "\<exists>cs s1 s2. Go_parent 1 gls_ex = Some (cs, s1) \<and> putStorage 7 2 (Some cs) hour s1 = Some (Some cs, s2) \<and>
    gls_Get 2 ''k'' s2 = gls_Get 1 ''k'' gls_ex" by force
  ultimately show ?thesis by blast
qed

end
