(* ===== verification/GlsTime.thy ===== *)
theory GlsTime
  imports Gls
begin

text \<open>
  \<open>gls/gls.go\<close> over \<open>gls/internal/time_map.go\<close>: how long a goroutine has its
  storage. The goroutines of the program call in any order, each call at its time, and the
  cleaning goroutine of the time map runs in between.
\<close>

section \<open>Histories of several goroutines\<close>

text \<open>
  The calls, each with the goroutine that makes it. \<open>GBegin\<close> is the first statement of
  \<open>With\<close> or of a goroutine started by \<open>Go\<close>, \<open>GCleanup\<close> their last one (or a
  call of \<open>Cleanup\<close>); a function that panics in between never gets to the last one.
\<close>

datatype 'v gls_op = GGet nat string | GSet nat string 'v | GPut nat int | GBegin nat nat | GCleanup nat | GSweep int nat

fun gls_call :: "int \<Rightarrow> 'v gls_op \<Rightarrow> 'v gls \<Rightarrow> 'v gls option" where
  "gls_call now (GGet g k) s = map_option (\<lambda>_. s) (gls_Get g k s)"
| "gls_call now (GSet g k v) s = gls_Set g k v s"
| "gls_call now (GPut g d) s = map_option snd (gls_Put now g d s)"
| "gls_call now (GBegin g a) s = map_option snd (putStorage now g (Some a) hour s)"
| "gls_call now (GCleanup g) s = Cleanup g s"
| "gls_call now (GSweep t i) s = Some (s\<lparr>gtm := sweep t i (gtm s)\<rparr>)"

fun gls_calls :: "(int \<times> 'v gls_op) list \<Rightarrow> 'v gls \<Rightarrow> 'v gls option" where
  "gls_calls [] s = Some s"
| "gls_calls ((now, c) # cs) s = do { s \<leftarrow> gls_call now c s; gls_calls cs s }"

text \<open>The calls that put a storage for the goroutine \<open>g\<close> or take it away.\<close>

fun touches :: "nat \<Rightarrow> 'v gls_op \<Rightarrow> bool" where
  "touches g (GPut h _) = (h = g)"
| "touches g (GBegin h _) = (h = g)"
| "touches g (GCleanup h) = (h = g)"
| "touches g _ = False"

text \<open>A round that began after the deadline has come to the bucket of \<open>g\<close>.\<close>

fun sweeps :: "nat \<Rightarrow> int \<Rightarrow> 'v gls_op \<Rightarrow> bool" where
  "sweeps g deadline (GSweep t i) = (i = g mod bucketConst \<and> deadline < t)"
| "sweeps g deadline _ = False"

definition swept :: "nat \<Rightarrow> int \<Rightarrow> (int \<times> 'v gls_op) list \<Rightarrow> bool" where
  "swept g deadline cs \<longleftrightarrow> (\<exists>(_, c) \<in> set cs. sweeps g deadline c)"

section \<open>The entry of one goroutine\<close>

lemma getStorage_entry: "tm_ok (gtm s) \<Longrightarrow>
  getStorage g s = Some (case entry (gtm s) g of None \<Rightarrow> None | Some v \<Rightarrow> sv_obj v)"
  by (simp add: getStorage_def tm_get_ok split: option.split)

lemma putStorage_entry:
  assumes "tm_ok (gtm s)"
  shows "\<exists>s'. putStorage now g p d s = Some (case entry (gtm s) g of None \<Rightarrow> p | Some v \<Rightarrow> sv_obj v, s') \<and>
    tm_ok (gtm s') \<and> store s' = store s \<and>
    entry (gtm s') = (case entry (gtm s) g of
        None \<Rightarrow> (entry (gtm s))(g \<mapsto> \<lparr>sv_obj = p, sv_expireAt = now + d\<rparr>) | Some v \<Rightarrow> entry (gtm s))"
proof -
  from tm_put_ok [OF assms, of now g p d] obtain m where
    "tm_put now g p d (gtm s) = Some (case entry (gtm s) g of None \<Rightarrow> p | Some v \<Rightarrow> sv_obj v, m)" "tm_ok m"
    "entry m = (case entry (gtm s) g of
        None \<Rightarrow> (entry (gtm s))(g \<mapsto> \<lparr>sv_obj = p, sv_expireAt = now + d\<rparr>) | Some v \<Rightarrow> entry (gtm s))" by blast
  then show ?thesis by (intro exI [of _ "s\<lparr>gtm := m\<rparr>"]) (simp add: putStorage_def)
qed

lemma gls_call_entry:
  assumes ok: "tm_ok (gtm s)" and t: "\<not> touches g c"
  shows "\<exists>s'. gls_call now c s = Some s' \<and> tm_ok (gtm s') \<and> entry (gtm s') g =
    (case entry (gtm s) g of None \<Rightarrow> None | Some v \<Rightarrow> if sweeps g (sv_expireAt v) c then None else Some v)"
proof (cases c)
  case (GGet h k)
  with ok show ?thesis by (simp add: gls_Get_def getStorage_entry split: option.split)
next
  case (GSet h k v)
  with ok show ?thesis by (auto simp: gls_Set_def getStorage_entry split: option.split)
next
  case (GPut h d)
  let ?s = "snd (newStorage s)"
  have s: "gtm ?s = gtm s" by (simp add: newStorage_def)
  have "tm_ok (gtm ?s)" using ok s by simp
  from putStorage_entry [OF this, of now h "Some (next_addr s)" d] obtain r s' where
    p: "putStorage now h (Some (next_addr s)) d ?s = Some (r, s')" "tm_ok (gtm s')"
    "entry (gtm s') = (case entry (gtm s) h of
      None \<Rightarrow> (entry (gtm s))(h \<mapsto> \<lparr>sv_obj = Some (next_addr s), sv_expireAt = now + d\<rparr>) | Some v \<Rightarrow> entry (gtm s))"
    unfolding s by blast
  moreover from p have "gls_Put now h d s = Some (r, s')" by (simp add: gls_Put_def newStorage_def)
  ultimately show ?thesis using GPut t by (auto split: option.split)
next
  case (GBegin h a)
  from putStorage_entry [OF ok, of now h "Some a" hour] obtain r s' where
    "putStorage now h (Some a) hour s = Some (r, s')" "tm_ok (gtm s')"
    "entry (gtm s') = (case entry (gtm s) h of
      None \<Rightarrow> (entry (gtm s))(h \<mapsto> \<lparr>sv_obj = Some a, sv_expireAt = now + hour\<rparr>) | Some v \<Rightarrow> entry (gtm s))"
    by blast
  with GBegin t show ?thesis by (auto split: option.split)
next
  case (GCleanup h)
  from tm_delete_ok [OF ok, of h] obtain m where
    "tm_delete h (gtm s) = Some m" "tm_ok m" "entry m = (entry (gtm s))(h := None)" by blast
  with GCleanup t show ?thesis by (auto simp: Cleanup_def split: option.split)
next
  case (GSweep t i)
  with sweep_ok [OF ok, of t i] show ?thesis by (simp split: option.split)
qed

lemma gls_calls_entry:
  assumes "tm_ok (gtm s)" "\<forall>(t, c) \<in> set cs. \<not> touches g c"
  shows "\<exists>s'. gls_calls cs s = Some s' \<and> tm_ok (gtm s') \<and> entry (gtm s') g =
    (case entry (gtm s) g of None \<Rightarrow> None | Some v \<Rightarrow> if swept g (sv_expireAt v) cs then None else Some v)"
  using assms
proof (induction cs arbitrary: s)
  case Nil
  then show ?case by (simp add: swept_def split: option.split)
next
  case (Cons tc cs)
  obtain t c where tc: "tc = (t, c)" by (cases tc)
  with Cons.prems have "\<not> touches g c" by simp
  from gls_call_entry [OF Cons.prems(1) this, of t] obtain s1 where
    s1: "gls_call t c s = Some s1" "tm_ok (gtm s1)" "entry (gtm s1) g =
      (case entry (gtm s) g of None \<Rightarrow> None | Some v \<Rightarrow> if sweeps g (sv_expireAt v) c then None else Some v)" by blast
  have "\<forall>(t, c) \<in> set cs. \<not> touches g c" using Cons.prems(2) by simp
  from Cons.IH [OF s1(2) this] obtain s' where
    s': "gls_calls cs s1 = Some s'" "tm_ok (gtm s')" "entry (gtm s') g =
      (case entry (gtm s1) g of None \<Rightarrow> None | Some v \<Rightarrow> if swept g (sv_expireAt v) cs then None else Some v)" by blast
  have "swept g d (tc # cs) \<longleftrightarrow> sweeps g d c \<or> swept g d cs" for d by (auto simp: swept_def tc)
  with s1 s' show ?case by (auto simp: tc split: option.split)
qed

section \<open>The property\<close>

text \<open>
  C27. How long \<open>With\<close> lasts. After \<open>With\<close> has begun on a goroutine that had no
  storage, the other goroutines may do whatever they like and the goroutine itself may get and
  set: it has the storage it began with until the cleaning goroutine, in a round that it began more
  than an hour later, comes to its bucket, and from then on it has none, although its function still
  runs: every \<open>Get\<close> gives nil and every \<open>Set\<close> is dropped. And as long as the storage is
  there, because the function panicked and \<open>Cleanup\<close> was never reached, the next
  \<open>With\<close> at the same address gets it instead of its own values, without a new deadline.
\<close>

theorem with_lasts_an_hour:
  assumes "gls_ok s" "tm_get g (gtm s) = Some None" "\<forall>(t, c) \<in> set cs. \<not> touches g c"
  shows "\<exists>s1 s2. putStorage now g (Some a) hour s = Some (Some a, s1) \<and> gls_calls cs s1 = Some s2 \<and>
    (if swept g (now + hour) cs
     then (\<forall>k. gls_Get g k s2 = Some None) \<and> (\<forall>k v. gls_Set g k v s2 = Some s2)
     else (\<forall>k. gls_Get g k s2 = Some (store s2 a k)) \<and>
       (\<forall>now' b. \<exists>s3. putStorage now' g (Some b) hour s2 = Some (Some a, s3) \<and>
          (\<forall>k. gls_Get g k s3 = Some (store s2 a k)) \<and> entry (gtm s3) g = entry (gtm s2) g))"
proof -
  have ok: "tm_ok (gtm s)" using assms(1) by (simp add: gls_ok_def)
  then have e: "entry (gtm s) g = None" using assms(2) by (simp add: tm_get_ok)
  from putStorage_entry [OF ok, of now g "Some a" hour] e obtain s1 where
    s1: "putStorage now g (Some a) hour s = Some (Some a, s1)" "tm_ok (gtm s1)"
      "entry (gtm s1) g = Some \<lparr>sv_obj = Some a, sv_expireAt = now + hour\<rparr>" by auto
  from gls_calls_entry [OF s1(2) assms(3)] s1(3) obtain s2 where
    s2: "gls_calls cs s1 = Some s2" "tm_ok (gtm s2)" "entry (gtm s2) g =
      (if swept g (now + hour) cs then None else Some \<lparr>sv_obj = Some a, sv_expireAt = now + hour\<rparr>)" by auto
  have "\<exists>s3. putStorage now' g (Some b) hour s2 = Some (Some a, s3) \<and>
      (\<forall>k. gls_Get g k s3 = Some (store s2 a k)) \<and> entry (gtm s3) g = entry (gtm s2) g"
    if "\<not> swept g (now + hour) cs" for now' b
    using putStorage_entry [OF s2(2), of now' g "Some b" hour] s2(3) that
    by (auto simp: gls_Get_def getStorage_entry)
  with s1(1) s2 show ?thesis
    by (intro exI [of _ s1] exI [of _ s2]) (simp add: gls_Get_def gls_Set_def getStorage_entry)
qed

theorem with_lasts_an_hour_witness:
  "(\<exists>s1 s2. putStorage 7 2 (Some 1) hour gls_ex = Some (Some 1, s1) \<and>
     gls_calls [(8, GCleanup 1), (9 + hour, GSweep (9 + hour) 2)] s1 = Some s2 \<and> gls_Get 2 ''k'' s2 = Some None) \<and>
   (\<exists>s1 s2. putStorage 7 2 (Some 1) hour gls_ex = Some (Some 1, s1) \<and>
     gls_calls [(8, GSweep 8 2)] s1 = Some s2 \<and> gls_Get 2 ''k'' s2 = Some (store s2 1 ''k''))"
proof -
  have t: "tm_get 2 (gtm gls_ex) = Some None" by (simp add: gls_ex_get)
  let ?c1 = "[(8, GCleanup 1), (9 + hour, GSweep (9 + hour) 2)] :: (int \<times> nat gls_op) list"
    and ?c2 = "[(8, GSweep 8 2)] :: (int \<times> nat gls_op) list"
  have w: "swept 2 (7 + hour) ?c1" "\<not> swept 2 (7 + hour) ?c2" by (simp_all add: swept_def hour_def bucketConst_def)
  have n: "\<forall>(t, c) \<in> set ?c1. \<not> touches 2 c" "\<forall>(t, c) \<in> set ?c2. \<not> touches 2 c" by simp_all
  from with_lasts_an_hour [OF gls_ex_ok t n(1), of 7 1, unfolded if_P [OF w(1)]]
  have "\<exists>s1 s2. putStorage 7 2 (Some 1) hour gls_ex = Some (Some 1, s1) \<and>
    gls_calls ?c1 s1 = Some s2 \<and> gls_Get 2 ''k'' s2 = Some None" by blast
  moreover from with_lasts_an_hour [OF gls_ex_ok t n(2), of 7 1, unfolded if_not_P [OF w(2)]]
  have "\<exists>s1 s2. putStorage 7 2 (Some 1) hour gls_ex = Some (Some 1, s1) \<and>
    gls_calls ?c2 s1 = Some s2 \<and> gls_Get 2 ''k'' s2 = Some (store s2 1 ''k'')" by blast
  ultimately show ?thesis ..
qed

end
