(* ===== verification/Base64.thy ===== *)
theory Base64
  imports Prelude "HOL-Library.Word"
begin

text \<open>
  What the code uses of Go's \<open>encoding/base64\<close> (\<open>StdEncoding\<close>, with padding):
  encoding of bytes, and decoding, which skips carriage returns and line feeds and rejects
  everything that is not full groups of four with the padding at the end. A decoding error is
  \<open>None\<close> (its offset is not used).
\<close>

type_synonym byte8 = "8 word"

definition alphabet :: string where
  "alphabet = ''ABCDEFGHIJKLMNOPQRSTUVWXYZabcdefghijklmnopqrstuvwxyz0123456789+/''"

definition b64_char :: "nat \<Rightarrow> char" where
  "b64_char n = alphabet ! n"

definition b64_value :: "char \<Rightarrow> nat option" where
  "b64_value c = (if c \<in> set alphabet then Some (length (takeWhile (\<lambda>d. d \<noteq> c) alphabet)) else None)"

definition group24 :: "byte8 \<Rightarrow> byte8 \<Rightarrow> byte8 \<Rightarrow> nat" where
  "group24 a b c = (unat a * 256 + unat b) * 256 + unat c"

definition sextets :: "nat \<Rightarrow> char list" where
  "sextets v = [b64_char (v div 64 div 64 div 64), b64_char (v div 64 div 64 mod 64),
     b64_char (v div 64 mod 64), b64_char (v mod 64)]"

fun EncodeToString :: "byte8 list \<Rightarrow> string" where
  "EncodeToString [] = []"
| "EncodeToString [a] = take 2 (sextets (group24 a 0 0)) @ ''==''"
| "EncodeToString [a, b] = take 3 (sextets (group24 a b 0)) @ ''=''"
| "EncodeToString (a # b # c # bs) = sextets (group24 a b c) @ EncodeToString bs"

definition octets :: "nat \<Rightarrow> byte8 list" where
  "octets v = [of_nat (v div 256 div 256), of_nat (v div 256), of_nat v]"

definition join4 :: "nat \<Rightarrow> nat \<Rightarrow> nat \<Rightarrow> nat \<Rightarrow> nat" where
  "join4 p q r s = ((p * 64 + q) * 64 + r) * 64 + s"

fun decode_quads :: "string \<Rightarrow> byte8 list option" where
  "decode_quads [] = Some []"
| "decode_quads (c1 # c2 # c3 # c4 # cs) = do {
     p \<leftarrow> b64_value c1;
     q \<leftarrow> b64_value c2;
     if c3 = CHR ''='' then
       (if c4 = CHR ''='' \<and> cs = [] then Some (take 1 (octets (join4 p q 0 0))) else None)
     else do {
       r \<leftarrow> b64_value c3;
       if c4 = CHR ''='' then (if cs = [] then Some (take 2 (octets (join4 p q r 0))) else None)
       else do {
         s \<leftarrow> b64_value c4;
         bs \<leftarrow> decode_quads cs;
         Some (octets (join4 p q r s) @ bs)
       }
     }
   }"
| "decode_quads _ = None"

definition DecodeString :: "string \<Rightarrow> byte8 list option" where
  "DecodeString s = decode_quads (filter (\<lambda>c. c \<noteq> char_of (10 :: nat) \<and> c \<noteq> char_of (13 :: nat)) s)"

section \<open>Decoding what was encoded\<close>

lemma alphabet_facts:
  "length alphabet = 64" "distinct alphabet" "CHR ''='' \<notin> set alphabet"
  "char_of (10 :: nat) \<notin> set alphabet" "char_of (13 :: nat) \<notin> set alphabet"
  unfolding alphabet_def by code_simp+

lemma b64_value_char [simp]:
  assumes "n < 64"
  shows "b64_value (b64_char n) = Some n"
proof -
  have n: "n < length alphabet" using assms alphabet_facts(1) by simp
  have "takeWhile (\<lambda>d. d \<noteq> alphabet ! n) alphabet = take n alphabet"
  proof (rule takeWhile_eq_take_P_nth)
    fix i assume "i < n" "i < length alphabet"
    then show "alphabet ! i \<noteq> alphabet ! n" using n alphabet_facts(2) by (simp add: nth_eq_iff_index_eq)
  qed (use n in auto)
  then show ?thesis using n by (simp add: b64_value_def b64_char_def)
qed

lemma b64_char_ordinary:
  assumes "n < 64"
  shows "b64_char n \<noteq> CHR ''=''" "b64_char n \<noteq> char_of (10 :: nat)" "b64_char n \<noteq> char_of (13 :: nat)"
proof -
  have "b64_char n \<in> set alphabet" using assms alphabet_facts(1) by (simp add: b64_char_def)
  then show "b64_char n \<noteq> CHR ''=''" "b64_char n \<noteq> char_of (10 :: nat)" "b64_char n \<noteq> char_of (13 :: nat)"
    using alphabet_facts(3-5) by metis+
qed

lemma join_sextets:
  "join4 (v div 64 div 64 div 64) (v div 64 div 64 mod 64) (v div 64 mod 64) (v mod 64) = v"
  by (simp add: join4_def div_mult_mod_eq)

lemma unat_byte: "unat (b :: byte8) < 256"
  using unsigned_less [of b, where ?'a = nat] by simp

lemma of_nat_low_byte: "(of_nat (m * 256 + unat b) :: byte8) = b"
  unfolding word_unat_eq_iff unat_of_nat using unat_byte [of b] by simp

lemma octets_group [simp]: "octets (group24 a b c) = [a, b, c]"
proof -
  have b: "unat a < 256" "unat b < 256" "unat c < 256" by (rule unat_byte)+
  have d: "group24 a b c div 256 = unat a * 256 + unat b" using b by (simp add: group24_def)
  have d2: "group24 a b c div 256 div 256 = 0 * 256 + unat a" unfolding d using b by simp
  have d0: "group24 a b c = (unat a * 256 + unat b) * 256 + unat c" by (simp add: group24_def)
  show ?thesis unfolding octets_def d2 unfolding d unfolding d0 of_nat_low_byte ..
qed

lemma group24_less: "group24 a b c < 64 * 64 * 64 * 64"
proof -
  have "unat a < 256" "unat b < 256" "unat c < 256" by (rule unat_byte)+
  then show ?thesis by (simp add: group24_def)
qed

lemma sextet_bounds:
  assumes "v < (64 * 64 * 64 * 64 :: nat)"
  shows "v div 64 div 64 div 64 < 64" "v div 64 div 64 mod 64 < 64" "v div 64 mod 64 < 64" "v mod 64 < 64"
  using assms by (simp_all add: less_mult_imp_div_less)

lemma low_zero:
  "group24 a 0 0 mod 64 = 0" "group24 a 0 0 div 64 mod 64 = 0" "group24 a b 0 mod 64 = 0"
proof -
  have "group24 a 0 0 = 64 * (64 * (unat a * 16))" "group24 a b 0 = 64 * ((unat a * 256 + unat b) * 4)"
    by (simp_all add: group24_def)
  then show "group24 a 0 0 mod 64 = 0" "group24 a 0 0 div 64 mod 64 = 0" "group24 a b 0 mod 64 = 0"
    by simp_all
qed

lemma decode_group:
  assumes "v < 64 * 64 * 64 * 64"
  shows "decode_quads (sextets v @ cs) = map_option ((@) (octets v)) (decode_quads cs)"
    and "v mod 64 = 0 \<Longrightarrow> decode_quads (take 3 (sextets v) @ ''='') = Some (take 2 (octets v))"
    and "v mod 64 = 0 \<Longrightarrow> v div 64 mod 64 = 0 \<Longrightarrow> decode_quads (take 2 (sextets v) @ ''=='') = Some (take 1 (octets v))"
  using sextet_bounds [OF assms] join_sextets [of v]
  by (simp_all add: sextets_def b64_char_ordinary map_option_case split: option.split)

lemma decode_encode: "decode_quads (EncodeToString bs) = Some bs"
proof (induction bs rule: EncodeToString.induct)
  case (2 a)
  show ?case using decode_group(3) [OF group24_less low_zero(1,2), of a] by simp
next
  case (3 a b)
  show ?case using decode_group(2) [OF group24_less low_zero(3), of a b] by simp
next
  case (4 a b c bs)
  then show ?case using decode_group(1) [OF group24_less [of a b c]] by simp
qed simp

lemma pad_char: "CHR ''='' \<noteq> char_of (10 :: nat)" "CHR ''='' \<noteq> char_of (13 :: nat)"
  by code_simp+

lemma encode_no_newline: "c \<in> set (EncodeToString bs) \<Longrightarrow> c \<noteq> char_of (10 :: nat) \<and> c \<noteq> char_of (13 :: nat)"
proof (induction bs rule: EncodeToString.induct)
  case (2 a)
  then show ?case using sextet_bounds [OF group24_less [of a 0 0]] b64_char_ordinary pad_char
    by (auto simp: sextets_def)
next
  case (3 a b)
  then show ?case using sextet_bounds [OF group24_less [of a b 0]] b64_char_ordinary pad_char
    by (auto simp: sextets_def)
next
  case (4 a b c' bs)
  then show ?case using sextet_bounds [OF group24_less [of a b c']] b64_char_ordinary pad_char
    by (auto simp: sextets_def)
qed simp

lemma base64_roundtrip [simp]: "DecodeString (EncodeToString bs) = Some bs"
proof -
  have "filter (\<lambda>c. c \<noteq> char_of (10 :: nat) \<and> c \<noteq> char_of (13 :: nat)) (EncodeToString bs) = EncodeToString bs"
    using encode_no_newline by (simp add: filter_id_conv)
  then show ?thesis unfolding DecodeString_def by (simp only: decode_encode)
qed

end
