(* ===== verification/Crypto.thy ===== *)
theory Crypto
  imports Base64
begin

text \<open>
  \<open>gcrypto/aes128.go\<close>: AES-CBC with padding, a random initialisation vector in front, and
  work keys encrypted under the root key. The block cipher (\<open>crypto/aes\<close>) and the keyed
  hash (\<open>crypto/hmac\<close> with SHA-256) are arguments; the chaining mode, the padding, the
  length checks and the key derivation are here. A read of the random source is an argument
  too: \<open>None\<close> when it fails. A plain text is its bytes. \<open>None\<close> as a result is a panic.
\<close>

section \<open>The cipher interface and the chaining mode\<close>

type_synonym bytes = "byte8 list"

record cipher =
  c_enc :: "bytes \<Rightarrow> bytes"
  c_dec :: "bytes \<Rightarrow> bytes"

datatype crypto_error = ErrAESTextSize | ErrAESPadding | ErrInvalidKey | ErrRand | ErrKeySize nat | ErrBase64

definition BlockSize :: nat where
  "BlockSize = 16"

definition NewCipher :: "(bytes \<Rightarrow> cipher) \<Rightarrow> bytes \<Rightarrow> crypto_error + cipher" where
  "NewCipher aes key =
     (if length key = 16 \<or> length key = 24 \<or> length key = 32 then Inr (aes key)
      else Inl (ErrKeySize (length key)))"

definition xor_bytes :: "bytes \<Rightarrow> bytes \<Rightarrow> bytes" where
  "xor_bytes xs ys = map2 (\<lambda>x y. xor x y) xs ys"

function cbc_encrypt :: "cipher \<Rightarrow> bytes \<Rightarrow> bytes \<Rightarrow> bytes" where
  "cbc_encrypt b iv src =
     (if src = [] then []
      else let x = c_enc b (xor_bytes (take BlockSize src) iv)
           in x @ cbc_encrypt b x (drop BlockSize src))"
  by pat_completeness auto
termination
  by (relation "measure (\<lambda>(b, iv, src). length src)") (auto simp: BlockSize_def)

function cbc_decrypt :: "cipher \<Rightarrow> bytes \<Rightarrow> bytes \<Rightarrow> bytes" where
  "cbc_decrypt b iv src =
     (if src = [] then []
      else xor_bytes (c_dec b (take BlockSize src)) iv @
        cbc_decrypt b (take BlockSize src) (drop BlockSize src))"
  by pat_completeness auto
termination
  by (relation "measure (\<lambda>(b, iv, src). length src)") (auto simp: BlockSize_def)

declare cbc_encrypt.simps [simp del] cbc_decrypt.simps [simp del]

text \<open>\<open>NewCBC\<dots>\<close> panics on a vector that is not a block, \<open>CryptBlocks\<close> on partial blocks.\<close>

definition CryptBlocks :: "(bytes \<Rightarrow> bytes \<Rightarrow> bytes) \<Rightarrow> bytes \<Rightarrow> bytes \<Rightarrow> bytes option" where
  "CryptBlocks mode iv src =
     (if length iv = BlockSize \<and> length src mod BlockSize = 0 then Some (mode iv src) else None)"

section \<open>The operations\<close>

definition rootKeySalt :: bytes where
  "rootKeySalt = [0x45, 0xEF, 0x2F, 0x62, 0xAB, 0x9C, 0xE8, 0x03, 0x28, 0xB1, 0xF2, 0x61, 0xDE, 0xF1, 0xD2, 0x58]"

definition keyRootIterCount :: nat where
  "keyRootIterCount = 5000"

definition be32 :: "nat \<Rightarrow> bytes" where
  "be32 i = [of_nat (i div 2 ^ 24), of_nat (i div 2 ^ 16), of_nat (i div 2 ^ 8), of_nat i]"

record crypto =
  rootBlock :: cipher
  rootKey :: bytes

definition normalKey :: "bytes \<Rightarrow> bytes option" where
  "normalKey key = (if length key \<ge> BlockSize then Some (take BlockSize key) else None)"

fun calKey_loop :: "(bytes \<Rightarrow> bytes \<Rightarrow> bytes) \<Rightarrow> nat list \<Rightarrow> bytes \<Rightarrow> bytes" where
  "calKey_loop hmac [] fbs = fbs"
| "calKey_loop hmac (i # is) fbs = calKey_loop hmac is (hmac rootKeySalt (fbs @ be32 i))"

definition calKey :: "(bytes \<Rightarrow> bytes \<Rightarrow> bytes) \<Rightarrow> bytes \<Rightarrow> bytes option" where
  "calKey hmac factor = normalKey (calKey_loop hmac [0..<keyRootIterCount] factor)"

definition NewCrypto ::
  "(bytes \<Rightarrow> cipher) \<Rightarrow> (bytes \<Rightarrow> bytes \<Rightarrow> bytes) \<Rightarrow> bytes \<Rightarrow> (crypto_error + crypto) option" where
  "NewCrypto aes hmac factor = do {
     k \<leftarrow> calKey hmac factor;
     Some (case NewCipher aes k of
             Inl e \<Rightarrow> Inl e
           | Inr block \<Rightarrow> Inr \<lparr>rootBlock = block, rootKey = k\<rparr>)
   }"

definition decrypt :: "cipher \<Rightarrow> bytes \<Rightarrow> (crypto_error + bytes) option" where
  "decrypt block src =
     (if length src < BlockSize * 2 \<or> length src mod BlockSize \<noteq> 0 then Some (Inl ErrAESTextSize)
      else do {
        let iv = take BlockSize src;
        let srcLen = length src - BlockSize;
        decryptText \<leftarrow> CryptBlocks (cbc_decrypt block) iv (drop BlockSize src);
        last_byte \<leftarrow> slice_get decryptText (int srcLen - 1);
        let paddingLen = unat last_byte;
        if paddingLen > 16 then Some (Inl ErrAESPadding)
        else if paddingLen \<le> srcLen then Some (Inr (take (srcLen - paddingLen) decryptText))
        else None
      })"

definition Decrypt :: "crypto \<Rightarrow> bytes \<Rightarrow> (crypto_error + bytes) option" where
  "Decrypt c src = decrypt (rootBlock c) src"

definition DecryptStr :: "crypto \<Rightarrow> string \<Rightarrow> (crypto_error + bytes) option" where
  "DecryptStr c encryptedText =
     (case DecodeString encryptedText of
        None \<Rightarrow> Some (Inl ErrBase64)
      | Some src \<Rightarrow> Decrypt c src)"

definition padLen_of :: "bytes \<Rightarrow> nat" where
  "padLen_of src = BlockSize - length src mod BlockSize"

definition pad :: "bytes \<Rightarrow> bytes" where
  "pad src = src @ replicate (padLen_of src) (of_nat (padLen_of src))"

definition encrypt :: "cipher \<Rightarrow> bytes option \<Rightarrow> bytes \<Rightarrow> (crypto_error + bytes) option" where
  "encrypt block rnd src =
     (let src = pad src in
      case rnd of
        None \<Rightarrow> Some (Inl ErrRand)
      | Some iv \<Rightarrow> map_option (\<lambda>t. Inr (iv @ t)) (CryptBlocks (cbc_encrypt block) iv src))"

definition Encrypt :: "crypto \<Rightarrow> bytes option \<Rightarrow> bytes \<Rightarrow> (crypto_error + bytes) option" where
  "Encrypt c rnd src = encrypt (rootBlock c) rnd src"

definition EncryptStr :: "crypto \<Rightarrow> bytes option \<Rightarrow> bytes \<Rightarrow> (crypto_error + string) option" where
  "EncryptStr c rnd plainText =
     map_option (map_sum id EncodeToString) (Encrypt c rnd plainText)"

text \<open>The three named results; what an early return leaves unset is nil.\<close>

definition EncryptWithKey ::
  "(bytes \<Rightarrow> cipher) \<Rightarrow> crypto \<Rightarrow> bytes option \<Rightarrow> bytes option \<Rightarrow> bytes \<Rightarrow> bytes \<Rightarrow>
    (bytes \<times> bytes \<times> crypto_error option) option" where
  "EncryptWithKey aes c rnd1 rnd2 key plainText =
     (if length key < BlockSize then Some ([], [], Some ErrInvalidKey)
      else do {
        r \<leftarrow> Encrypt c rnd1 key;
        case r of
          Inl e \<Rightarrow> Some ([], [], Some e)
        | Inr encryptedKey \<Rightarrow> do {
            workKey \<leftarrow> normalKey key;
            case NewCipher aes workKey of
              Inl e \<Rightarrow> Some (encryptedKey, [], Some e)
            | Inr block \<Rightarrow> do {
                r \<leftarrow> encrypt block rnd2 plainText;
                case r of
                  Inl e \<Rightarrow> Some (encryptedKey, [], Some e)
                | Inr encryptedText \<Rightarrow> Some (encryptedKey, encryptedText, None)
              }
          }
      })"

definition EncryptStrWithKey ::
  "(bytes \<Rightarrow> cipher) \<Rightarrow> crypto \<Rightarrow> bytes option \<Rightarrow> bytes option \<Rightarrow> bytes \<Rightarrow> bytes \<Rightarrow>
    (string \<times> string \<times> crypto_error option) option" where
  "EncryptStrWithKey aes c rnd1 rnd2 key plainText = do {
     (encryptedKeyBs, encryptedTextBs, err) \<leftarrow> EncryptWithKey aes c rnd1 rnd2 key plainText;
     Some (if err \<noteq> None then ('''', '''', err)
           else (EncodeToString encryptedKeyBs, EncodeToString encryptedTextBs, None))
   }"

definition EncryptStrWithRandKey ::
  "(bytes \<Rightarrow> cipher) \<Rightarrow> crypto \<Rightarrow> bytes option \<Rightarrow> bytes option \<Rightarrow> bytes option \<Rightarrow> bytes \<Rightarrow>
    (string \<times> string \<times> crypto_error option) option" where
  "EncryptStrWithRandKey aes c rnd0 rnd1 rnd2 plainText =
     (case rnd0 of
        None \<Rightarrow> Some ('''', '''', Some ErrRand)
      | Some key \<Rightarrow> EncryptStrWithKey aes c rnd1 rnd2 key plainText)"

definition DecryptWithKey ::
  "(bytes \<Rightarrow> cipher) \<Rightarrow> crypto \<Rightarrow> bytes \<Rightarrow> bytes \<Rightarrow> (crypto_error + bytes) option" where
  "DecryptWithKey aes c encryptedKey encryptedText = do {
     r \<leftarrow> Decrypt c encryptedKey;
     case r of
       Inl e \<Rightarrow> Some (Inl e)
     | Inr plainKey \<Rightarrow> do {
         workKey \<leftarrow> normalKey plainKey;
         case NewCipher aes workKey of
           Inl e \<Rightarrow> Some (Inl e)
         | Inr block \<Rightarrow> decrypt block encryptedText
       }
   }"

definition DecryptStrWithKey ::
  "(bytes \<Rightarrow> cipher) \<Rightarrow> crypto \<Rightarrow> string \<Rightarrow> string \<Rightarrow> (crypto_error + bytes) option" where
  "DecryptStrWithKey aes c encryptedKey encryptedText =
     (case DecodeString encryptedKey of
        None \<Rightarrow> Some (Inl ErrBase64)
      | Some srcKey \<Rightarrow>
          (case DecodeString encryptedText of
             None \<Rightarrow> Some (Inl ErrBase64)
           | Some srcText \<Rightarrow> DecryptWithKey aes c srcKey srcText))"

section \<open>The chaining mode is invertible\<close>

text \<open>What is documented of a block cipher: blocks to blocks, and decryption inverts encryption.\<close>

definition cipher_ok :: "cipher \<Rightarrow> bool" where
  "cipher_ok b \<longleftrightarrow>
     (\<forall>x. length x = BlockSize \<longrightarrow> length (c_enc b x) = BlockSize \<and> length (c_dec b x) = BlockSize \<and>
       c_dec b (c_enc b x) = x)"

lemma xor_bytes_length [simp]: "length (xor_bytes xs ys) = min (length xs) (length ys)"
  by (simp add: xor_bytes_def)

lemma xor_bytes_twice: "length xs = length ys \<Longrightarrow> xor_bytes (xor_bytes xs ys) ys = xs"
proof (induction xs ys rule: list_induct2)
  case (Cons x xs y ys)
  then show ?case by (simp add: xor_bytes_def xor.assoc)
qed (simp add: xor_bytes_def)

lemma blocks_induct [consumes 1, case_names empty block]:
  assumes "length (src :: bytes) mod BlockSize = 0"
    and "\<And>iv. P iv []"
    and "\<And>iv b src. length b = BlockSize \<Longrightarrow> length src mod BlockSize = 0 \<Longrightarrow> (\<And>iv. P iv src) \<Longrightarrow> P iv (b @ src)"
  shows "P iv src"
  using assms(1)
proof (induction src arbitrary: iv rule: measure_induct_rule [of length])
  case (less src)
  show ?case
  proof (cases "src = []")
    case False
    have le: "BlockSize \<le> length src"
    proof (rule ccontr)
      assume "\<not> BlockSize \<le> length src"
      then have "length src mod BlockSize = length src" by simp
      with False less.prems show False by simp
    qed
    let ?b = "take BlockSize src" and ?r = "drop BlockSize src"
    have m: "length ?r mod BlockSize = 0" using less.prems le_mod_geq [OF le] by simp
    have "length ?r < length src" using False by (simp add: BlockSize_def)
    from less.IH [OF this m] have "\<And>iv. P iv ?r" .
    moreover have "length ?b = BlockSize" using le by simp
    ultimately have "P iv (?b @ ?r)" using m by (intro assms(3))
    then show ?thesis by simp
  next
    case True
    then show ?thesis by (simp only: assms(2))
  qed
qed

lemma cbc_cons:
  assumes "length x = BlockSize"
  shows "cbc_encrypt b iv (x @ src) = c_enc b (xor_bytes x iv) @ cbc_encrypt b (c_enc b (xor_bytes x iv)) src"
    and "cbc_decrypt b iv (x @ src) = xor_bytes (c_dec b x) iv @ cbc_decrypt b x src"
  using assms by (subst cbc_encrypt.simps cbc_decrypt.simps, auto simp: Let_def BlockSize_def)+

lemma cbc_empty [simp]: "cbc_encrypt b iv [] = []" "cbc_decrypt b iv [] = []"
  by (simp_all add: cbc_encrypt.simps cbc_decrypt.simps)

lemma cbc_roundtrip:
  assumes "cipher_ok b" "length src mod BlockSize = 0" "length iv = BlockSize"
  shows "length (cbc_encrypt b iv src) = length src \<and> cbc_decrypt b iv (cbc_encrypt b iv src) = src"
  using assms(2,3)
proof (induction iv src rule: blocks_induct)
  case (block iv x src)
  let ?e = "c_enc b (xor_bytes x iv)"
  have "length (xor_bytes x iv) = BlockSize" using block by simp
  with assms(1) have e: "length ?e = BlockSize" "c_dec b ?e = xor_bytes x iv" by (auto simp: cipher_ok_def)
  have "xor_bytes (xor_bytes x iv) iv = x" using block by (intro xor_bytes_twice) simp
  with block(3) [of ?e] e block(1) show ?case by (simp add: cbc_cons)
qed simp

lemma cbc_decrypt_length:
  assumes "cipher_ok b" "length src mod BlockSize = 0" "length iv = BlockSize"
  shows "length (cbc_decrypt b iv src) = length src"
  using assms(2,3)
proof (induction iv src rule: blocks_induct)
  case (block iv x src)
  with assms(1) show ?case by (simp add: cbc_cons cipher_ok_def)
qed simp

section \<open>Encryption and decryption\<close>

lemma pad_facts:
  "length (pad src) mod BlockSize = 0" "0 < padLen_of src" "padLen_of src \<le> 16"
  "length (pad src) = length src + padLen_of src" "pad src \<noteq> []"
proof -
  show p: "0 < padLen_of src" "padLen_of src \<le> 16"
    by (simp_all add: padLen_of_def BlockSize_def)
  show l: "length (pad src) = length src + padLen_of src" by (simp add: pad_def)
  have "length src + padLen_of src = length src div BlockSize * BlockSize + BlockSize"
    unfolding padLen_of_def
    using div_mult_mod_eq [of "length src" 16] mod_less_divisor [of 16 "length src"]
    unfolding BlockSize_def by linarith
  then show "length (pad src) mod BlockSize = 0" unfolding l by simp
  show "pad src \<noteq> []" using l p by auto
qed

lemma last_pad: "pad src ! (length (pad src) - 1) = of_nat (padLen_of src)"
proof -
  have "pad src ! (length (pad src) - 1) = last (pad src)" using pad_facts(5) by (simp add: last_conv_nth)
  also have "\<dots> = of_nat (padLen_of src)" using pad_facts(2) by (simp add: pad_def)
  finally show ?thesis .
qed

lemma unat_padLen: "unat (of_nat (padLen_of src) :: byte8) = padLen_of src"
  using pad_facts(3) [of src] by (simp add: unat_of_nat)

lemma encrypt_ok:
  assumes "cipher_ok b" "length iv = BlockSize"
  shows "encrypt b (Some iv) src = Some (Inr (iv @ cbc_encrypt b iv (pad src)))"
  using assms pad_facts(1) by (simp add: encrypt_def CryptBlocks_def)

text \<open>Decryption of any text, in all its cases; it never panics.\<close>

definition last_plain :: "cipher \<Rightarrow> bytes \<Rightarrow> byte8" where
  "last_plain b src = last (cbc_decrypt b (take BlockSize src) (drop BlockSize src))"

lemma decrypt_result:
  assumes "cipher_ok b"
  shows "decrypt b src = Some
    (if length src < 32 \<or> length src mod 16 \<noteq> 0 then Inl ErrAESTextSize
     else if 16 < unat (last_plain b src) then Inl ErrAESPadding
     else Inr (take (length src - 16 - unat (last_plain b src))
       (cbc_decrypt b (take BlockSize src) (drop BlockSize src))))"
proof (cases "length src < BlockSize * 2 \<or> length src mod BlockSize \<noteq> 0")
  case True
  then show ?thesis by (auto simp: decrypt_def BlockSize_def)
next
  case False
  let ?iv = "take BlockSize src" and ?r = "drop BlockSize src"
  have iv: "length ?iv = BlockSize" using False by simp
  have "BlockSize \<le> length src" using False by simp
  from le_mod_geq [OF this] have m: "length ?r mod BlockSize = 0" using False by simp
  have l: "length (cbc_decrypt b ?iv ?r) = length src - BlockSize"
    using cbc_decrypt_length [OF assms m iv] by simp
  have pos: "16 \<le> length src - BlockSize" using False unfolding BlockSize_def by arith
  have "slice_get (cbc_decrypt b ?iv ?r) (int (length src - BlockSize) - 1) = Some (last_plain b src)"
  proof -
    have "cbc_decrypt b ?iv ?r \<noteq> []" using l pos by auto
    from slice_get_last [OF this] show ?thesis by (simp add: l last_plain_def)
  qed
  moreover have "CryptBlocks (cbc_decrypt b) ?iv ?r = Some (cbc_decrypt b ?iv ?r)"
    using iv m by (simp add: CryptBlocks_def)
  ultimately show ?thesis using False pos by (simp add: decrypt_def Let_def) (auto simp: BlockSize_def)
qed

lemma decrypt_encrypt:
  assumes "cipher_ok b" "length iv = BlockSize"
  shows "decrypt b (iv @ cbc_encrypt b iv (pad src)) = Some (Inr src)"
proof -
  note rt = cbc_roundtrip [OF assms(1) pad_facts(1) assms(2), of src]
  let ?t = "iv @ cbc_encrypt b iv (pad src)"
  have l: "length ?t = 16 + length src + padLen_of src"
    using rt assms(2) pad_facts(4) [of src] by (simp add: BlockSize_def)
  have d: "cbc_decrypt b (take BlockSize ?t) (drop BlockSize ?t) = pad src" using rt assms(2) by simp
  have p: "unat (last_plain b ?t) = padLen_of src"
    unfolding last_plain_def d using last_pad [of src] pad_facts(5) [of src] unat_padLen by (simp add: last_conv_nth)
  have "16 \<le> length (pad src)" "length (pad src) mod 16 = 0"
    using pad_facts [of src] by (auto simp: BlockSize_def intro: ccontr)
  then have "\<not> (length ?t < 32 \<or> length ?t mod 16 \<noteq> 0)"
    using l pad_facts(4) [of src] by (simp add: add.assoc)
  then show ?thesis
    unfolding decrypt_result [OF assms(1)] p d using pad_facts(3) [of src] l by (simp add: pad_def)
qed

section \<open>The properties\<close>

text \<open>A cipher for the witnesses: it turns a block round and flips every bit.\<close>

definition flip_cipher :: "bytes \<Rightarrow> cipher" where
  "flip_cipher k = \<lparr>c_enc = (\<lambda>b. map not (rev b)), c_dec = (\<lambda>b. rev (map not b))\<rparr>"

lemma flip_cipher_ok: "cipher_ok (flip_cipher k)"
  by (simp add: cipher_ok_def flip_cipher_def rev_map comp_def)

definition crypto_ex :: crypto where
  "crypto_ex = \<lparr>rootBlock = flip_cipher [], rootKey = []\<rparr>"

lemma crypto_ex_ok: "cipher_ok (rootBlock crypto_ex)"
  by (simp add: crypto_ex_def flip_cipher_ok)

text \<open>
  What is encrypted can be decrypted. For every text of any length, the empty one
  included, and every initialisation vector of one block, \<open>Encrypt\<close> succeeds with a
  text of a whole number of blocks that starts with the vector and is longer than the plain
  text, and \<open>Decrypt\<close> gives the plain text back; through base64 too.
\<close>

lemma encrypt_decrypt_roundtrip:
  assumes "cipher_ok (rootBlock c)" "length iv = BlockSize"
  shows "\<exists>ct. Encrypt c (Some iv) src = Some (Inr ct) \<and> take BlockSize ct = iv \<and>
    length ct mod BlockSize = 0 \<and> length src + BlockSize < length ct \<and>
    Decrypt c ct = Some (Inr src) \<and>
    EncryptStr c (Some iv) src = Some (Inr (EncodeToString ct)) \<and>
    DecryptStr c (EncodeToString ct) = Some (Inr src)"
proof -
  let ?ct = "iv @ cbc_encrypt (rootBlock c) iv (pad src)"
  have e: "Encrypt c (Some iv) src = Some (Inr ?ct)"
    unfolding Encrypt_def by (rule encrypt_ok [OF assms])
  have d: "Decrypt c ?ct = Some (Inr src)"
    unfolding Decrypt_def by (rule decrypt_encrypt [OF assms])
  have l: "length ?ct = BlockSize + length (pad src)"
    using cbc_roundtrip [OF assms(1) pad_facts(1) assms(2), of src] assms(2) by simp
  have "length ?ct mod BlockSize = 0" unfolding l using pad_facts(1) [of src] by simp
  moreover have "length src + BlockSize < length ?ct" unfolding l using pad_facts(2,4) [of src] by simp
  ultimately show ?thesis using e d assms(2) by (simp add: EncryptStr_def DecryptStr_def)
qed

lemma encrypt_decrypt_roundtrip_witness:
  "\<exists>ct. EncryptStr crypto_ex (Some (replicate 16 7)) [1, 2, 3] = Some (Inr ct) \<and>
     DecryptStr crypto_ex ct = Some (Inr [1, 2, 3])"
  using encrypt_decrypt_roundtrip [OF crypto_ex_ok, of "replicate 16 7" "[1, 2, 3]"]
  by (auto simp: BlockSize_def)

text \<open>
  Work keys. A key of at least one block encrypts a text under its first sixteen bytes
  and travels encrypted under the root key; \<open>DecryptWithKey\<close> recovers the text from the
  two, also as base64 strings, also with the key drawn by \<open>EncryptStrWithRandKey\<close>. A
  shorter key is refused with \<open>ErrInvalidKey\<close> and no output.
\<close>

lemma NewCipher_normal: "length key \<ge> 16 \<Longrightarrow> normalKey key = Some (take 16 key) \<and> NewCipher aes (take 16 key) = Inr (aes (take 16 key))"
  by (simp add: normalKey_def NewCipher_def BlockSize_def)

lemma work_key_roundtrip:
  assumes "cipher_ok (rootBlock c)" "\<And>k. length k = 16 \<Longrightarrow> cipher_ok (aes k)"
    and "length iv1 = BlockSize" "length iv2 = BlockSize"
  shows "(16 \<le> length key \<longrightarrow> (\<exists>ek et.
      EncryptWithKey aes c (Some iv1) (Some iv2) key txt = Some (ek, et, None) \<and>
      DecryptWithKey aes c ek et = Some (Inr txt) \<and>
      EncryptStrWithRandKey aes c (Some key) (Some iv1) (Some iv2) txt =
        Some (EncodeToString ek, EncodeToString et, None) \<and>
      DecryptStrWithKey aes c (EncodeToString ek) (EncodeToString et) = Some (Inr txt))) \<and>
    (length key < 16 \<longrightarrow>
      EncryptWithKey aes c (Some iv1) (Some iv2) key txt = Some ([], [], Some ErrInvalidKey))"
proof (intro conjI impI)
  assume k: "16 \<le> length key"
  let ?b = "aes (take 16 key)"
  let ?ek = "iv1 @ cbc_encrypt (rootBlock c) iv1 (pad key)" and ?et = "iv2 @ cbc_encrypt ?b iv2 (pad txt)"
  have b: "cipher_ok ?b" using k by (intro assms(2)) simp
  have e: "EncryptWithKey aes c (Some iv1) (Some iv2) key txt = Some (?ek, ?et, None)"
    using k NewCipher_normal [OF k, of aes] encrypt_ok [OF assms(1,3)] encrypt_ok [OF b assms(4)]
    by (simp add: EncryptWithKey_def Encrypt_def BlockSize_def)
  have d: "DecryptWithKey aes c ?ek ?et = Some (Inr txt)"
    using NewCipher_normal [OF k, of aes] decrypt_encrypt [OF assms(1,3)] decrypt_encrypt [OF b assms(4)]
    by (simp add: DecryptWithKey_def Decrypt_def)
  show "\<exists>ek et. EncryptWithKey aes c (Some iv1) (Some iv2) key txt = Some (ek, et, None) \<and>
      DecryptWithKey aes c ek et = Some (Inr txt) \<and>
      EncryptStrWithRandKey aes c (Some key) (Some iv1) (Some iv2) txt =
        Some (EncodeToString ek, EncodeToString et, None) \<and>
      DecryptStrWithKey aes c (EncodeToString ek) (EncodeToString et) = Some (Inr txt)"
    using e d by (intro exI [of _ ?ek] exI [of _ ?et])
      (simp add: EncryptStrWithRandKey_def EncryptStrWithKey_def DecryptStrWithKey_def)
qed (simp add: EncryptWithKey_def BlockSize_def)

lemma work_key_roundtrip_witness:
  "\<exists>ek et. EncryptStrWithRandKey flip_cipher crypto_ex (Some (replicate 16 3)) (Some (replicate 16 1)) (Some (replicate 16 2)) [9] =
      Some (EncodeToString ek, EncodeToString et, None) \<and>
    DecryptStrWithKey flip_cipher crypto_ex (EncodeToString ek) (EncodeToString et) = Some (Inr [9])"
  using work_key_roundtrip [of crypto_ex flip_cipher "replicate 16 1" "replicate 16 2" "replicate 16 3" "[9]"]
    crypto_ex_ok flip_cipher_ok
  by (auto simp: BlockSize_def)

text \<open>
  C28. What is encrypted can be decrypted. For every text of any length, the empty one
  included, and every initialisation vector of one block, \<open>Encrypt\<close> succeeds with a
  text of a whole number of blocks that starts with the vector and is longer than the plain
  text, and \<open>Decrypt\<close> gives the plain text back; through base64 too. With a work key: a
  key of at least one block encrypts a text under its first sixteen bytes and travels
  encrypted under the root key; \<open>DecryptWithKey\<close> recovers the text from the two, also as
  base64 strings, also with the key drawn by \<open>EncryptStrWithRandKey\<close>; a shorter key is
  refused with \<open>ErrInvalidKey\<close> and no output.
\<close>

theorem encryption_roundtrips:
  assumes "cipher_ok (rootBlock c)" "\<And>k. length k = 16 \<Longrightarrow> cipher_ok (aes k)"
    and "length iv = BlockSize" "length iv2 = BlockSize"
  shows "(\<exists>ct. Encrypt c (Some iv) src = Some (Inr ct) \<and> take BlockSize ct = iv \<and>
      length ct mod BlockSize = 0 \<and> length src + BlockSize < length ct \<and>
      Decrypt c ct = Some (Inr src) \<and>
      EncryptStr c (Some iv) src = Some (Inr (EncodeToString ct)) \<and>
      DecryptStr c (EncodeToString ct) = Some (Inr src)) \<and>
    (16 \<le> length key \<longrightarrow> (\<exists>ek et.
      EncryptWithKey aes c (Some iv) (Some iv2) key src = Some (ek, et, None) \<and>
      DecryptWithKey aes c ek et = Some (Inr src) \<and>
      EncryptStrWithRandKey aes c (Some key) (Some iv) (Some iv2) src =
        Some (EncodeToString ek, EncodeToString et, None) \<and>
      DecryptStrWithKey aes c (EncodeToString ek) (EncodeToString et) = Some (Inr src))) \<and>
    (length key < 16 \<longrightarrow>
      EncryptWithKey aes c (Some iv) (Some iv2) key src = Some ([], [], Some ErrInvalidKey))"
  by (rule conjI) (rule encrypt_decrypt_roundtrip [OF assms(1,3)], rule work_key_roundtrip [OF assms])

theorem encryption_roundtrips_witness:
  "(\<exists>ct. EncryptStr crypto_ex (Some (replicate 16 1)) [9] = Some (Inr ct) \<and> DecryptStr crypto_ex ct = Some (Inr [9])) \<and>
   (\<exists>ek et. EncryptStrWithRandKey flip_cipher crypto_ex (Some (replicate 16 3)) (Some (replicate 16 1)) (Some (replicate 16 2)) [9] =
      Some (EncodeToString ek, EncodeToString et, None) \<and>
    DecryptStrWithKey flip_cipher crypto_ex (EncodeToString ek) (EncodeToString et) = Some (Inr [9]))"
  using encryption_roundtrips [of crypto_ex flip_cipher "replicate 16 1" "replicate 16 2" "[9]" "replicate 16 3"]
    crypto_ex_ok flip_cipher_ok
  by (auto simp: BlockSize_def)

text \<open>
  Decrypting anything. For every input \<open>Decrypt\<close> returns: the size error exactly
  when the input is shorter than two blocks or not whole blocks, the padding error exactly
  when the last decrypted byte is above sixteen, and otherwise the decrypted text without as
  many bytes as that last byte says. Only that byte is looked at: the other padding bytes
  are not compared, and a last byte of zero is taken as no padding at all.
\<close>

lemma decrypt_all_inputs:
  assumes "cipher_ok (rootBlock c)"
  shows "\<exists>r. Decrypt c src = Some r \<and>
    (r = Inl ErrAESTextSize \<longleftrightarrow> length src < 32 \<or> length src mod 16 \<noteq> 0) \<and>
    (length src \<ge> 32 \<and> length src mod 16 = 0 \<longrightarrow>
      (\<exists>t. t = cbc_decrypt (rootBlock c) (take 16 src) (drop 16 src) \<and> length t + 16 = length src \<and>
        (if 16 < unat (last t) then r = Inl ErrAESPadding
         else r = Inr (take (length t - unat (last t)) t))))"
proof -
  let ?t = "cbc_decrypt (rootBlock c) (take 16 src) (drop 16 src)"
  have r: "Decrypt c src = Some
    (if length src < 32 \<or> length src mod 16 \<noteq> 0 then Inl ErrAESTextSize
     else if 16 < unat (last ?t) then Inl ErrAESPadding
     else Inr (take (length src - 16 - unat (last ?t)) ?t))"
    using decrypt_result [OF assms, of src] by (simp add: Decrypt_def last_plain_def BlockSize_def)
  have "length ?t + 16 = length src" if "length src \<ge> 32" "length src mod 16 = 0"
  proof -
    have le: "16 \<le> length src" using that(1) by linarith
    have "length (drop 16 src) mod BlockSize = 0" using that(2) le_mod_geq [OF le] by (simp add: BlockSize_def)
    moreover have "length (take 16 src) = BlockSize" using le by (simp add: BlockSize_def)
    ultimately have "length ?t = length (drop 16 src)" by (intro cbc_decrypt_length [OF assms])
    with le show ?thesis by simp
  qed
  moreover obtain t where t: "t = ?t" by simp
  ultimately have l: "length src - 16 = length t" if "length src \<ge> 32" "length src mod 16 = 0" using that by simp
  show ?thesis
  proof (cases "length src < 32 \<or> length src mod 16 \<noteq> 0")
    case True
    with r show ?thesis by auto
  next
    case False
    with l have l': "length src - 16 = length t" "length t + 16 = length src" by auto
    with r False show ?thesis unfolding t [symmetric] l'(1) by simp
  qed
qed

lemma decrypt_all_inputs_witness:
  "Decrypt crypto_ex (replicate 16 (- 1) @ replicate 16 0) = Some (Inr (replicate 16 0))"
proof -
  have "cbc_decrypt (rootBlock crypto_ex) (replicate 16 (- 1)) (replicate 16 0) = replicate 16 0"
    by (simp add: cbc_decrypt.simps crypto_ex_def flip_cipher_def BlockSize_def xor_bytes_def zip_replicate)
  with decrypt_all_inputs [OF crypto_ex_ok, of "replicate 16 (- 1) @ replicate 16 0"] show ?thesis
    by auto
qed

text \<open>
  A work key that is too short ends in a panic. If the key that \<open>DecryptWithKey\<close>
  is given decrypts to fewer than sixteen bytes (as the encryption of any such key does),
  the call does not return an error: \<open>normalKey\<close> panics.
\<close>

lemma short_work_key_panics:
  assumes "cipher_ok (rootBlock c)" "length iv = BlockSize" "length key < 16"
  shows "\<exists>ek. Encrypt c (Some iv) key = Some (Inr ek) \<and> DecryptWithKey aes c ek et = None \<and>
    DecryptStrWithKey aes c (EncodeToString ek) (EncodeToString et) = None"
proof -
  let ?ek = "iv @ cbc_encrypt (rootBlock c) iv (pad key)"
  have "DecryptWithKey aes c ?ek et = None"
    using decrypt_encrypt [OF assms(1,2), of key] assms(3)
    by (simp add: DecryptWithKey_def Decrypt_def normalKey_def BlockSize_def)
  with encrypt_ok [OF assms(1,2), of key] show ?thesis
    by (simp add: Encrypt_def DecryptStrWithKey_def)
qed

lemma short_work_key_panics_witness:
  "\<exists>ek. Encrypt crypto_ex (Some (replicate 16 7)) [1] = Some (Inr ek) \<and> DecryptWithKey flip_cipher crypto_ex ek [] = None"
  using short_work_key_panics [OF crypto_ex_ok, of "replicate 16 7" "[1]" flip_cipher "[]"]
  by (auto simp: BlockSize_def)

text \<open>
  C30. Decrypting anything. For every input \<open>Decrypt\<close> returns: the size error exactly
  when the input is shorter than two blocks or not whole blocks, the padding error exactly
  when the last decrypted byte is above sixteen, and otherwise the decrypted text without as
  many bytes as that last byte says. Only that byte is looked at: the other padding bytes
  are not compared, and a last byte of zero is taken as no padding at all. With an
  encrypted work key it is different: if the key decrypts to fewer than sixteen bytes (as
  the encryption of any such key does), \<open>DecryptWithKey\<close> does not return an error but
  panics in \<open>normalKey\<close>.
\<close>

theorem decrypt_errors:
  assumes "cipher_ok (rootBlock c)"
  shows "(\<exists>r. Decrypt c src = Some r \<and>
    (r = Inl ErrAESTextSize \<longleftrightarrow> length src < 32 \<or> length src mod 16 \<noteq> 0) \<and>
    (length src \<ge> 32 \<and> length src mod 16 = 0 \<longrightarrow>
      (\<exists>t. t = cbc_decrypt (rootBlock c) (take 16 src) (drop 16 src) \<and> length t + 16 = length src \<and>
        (if 16 < unat (last t) then r = Inl ErrAESPadding
         else r = Inr (take (length t - unat (last t)) t))))) \<and>
    (length iv = BlockSize \<and> length key < 16 \<longrightarrow>
      (\<exists>ek. Encrypt c (Some iv) key = Some (Inr ek) \<and> DecryptWithKey aes c ek et = None \<and>
        DecryptStrWithKey aes c (EncodeToString ek) (EncodeToString et) = None))"
  by (rule conjI) (rule decrypt_all_inputs [OF assms], intro impI, elim conjE, erule (1) short_work_key_panics [OF assms])

theorem decrypt_errors_witness:
  "Decrypt crypto_ex (replicate 16 (- 1) @ replicate 16 0) = Some (Inr (replicate 16 0)) \<and>
   (\<exists>ek. Encrypt crypto_ex (Some (replicate 16 7)) [1] = Some (Inr ek) \<and> DecryptWithKey flip_cipher crypto_ex ek [] = None)"
proof -
  have "cbc_decrypt (rootBlock crypto_ex) (replicate 16 (- 1)) (replicate 16 0) = replicate 16 0"
    by (simp add: cbc_decrypt.simps crypto_ex_def flip_cipher_def BlockSize_def xor_bytes_def zip_replicate)
  with decrypt_errors [OF crypto_ex_ok, of "replicate 16 (- 1) @ replicate 16 0" "replicate 16 7" "[1]" flip_cipher "[]"]
  show ?thesis by (auto simp: BlockSize_def)
qed

end
