(* ===== verification/Slices.thy ===== *)
theory Slices
  imports Prelude
begin

text \<open>
  Slices with the memory they lie in, for the code where \<open>append\<close> writes into an array that
  others see. Arrays are in an explicit store, and a slice is a window of one. How much
  \<open>append\<close> allocates when there is no room is an argument (the language only says:
  enough); what the rest of a new array holds is the zero value of its type.
\<close>

section \<open>Slices and append\<close>

text \<open>An array is at its index in the store; a new one goes to the end.\<close>

type_synonym 'a arrays = "'a list list"

record slice =
  sl_arr :: nat
  sl_off :: nat
  sl_len :: nat
  sl_cap :: nat

definition content :: "'a arrays \<Rightarrow> slice \<Rightarrow> 'a list" where
  "content h s = take (sl_len s) (drop (sl_off s) (h ! sl_arr s))"

definition valid_slice :: "'a arrays \<Rightarrow> slice \<Rightarrow> bool" where
  "valid_slice h s \<longleftrightarrow> sl_arr s < length h \<and> sl_len s \<le> sl_cap s \<and> sl_off s + sl_cap s \<le> length (h ! sl_arr s)"

text \<open>\<open>append(s, x)\<close>: in place while there is room, otherwise into a new, larger array.\<close>

definition go_append :: "'a \<Rightarrow> (nat \<Rightarrow> nat) \<Rightarrow> slice \<Rightarrow> 'a \<Rightarrow> 'a arrays \<Rightarrow> slice \<times> 'a arrays" where
  "go_append zero grow s x h =
     (if sl_len s < sl_cap s
      then (s\<lparr>sl_len := sl_len s + 1\<rparr>,
            h[sl_arr s := (h ! sl_arr s)[sl_off s + sl_len s := x]])
      else let c = max (sl_len s + 1) (grow (sl_len s))
           in (\<lparr>sl_arr = length h, sl_off = 0, sl_len = sl_len s + 1, sl_cap = c\<rparr>,
               h @ [content h s @ x # replicate (c - sl_len s - 1) zero]))"

section \<open>What append writes\<close>

lemma content_length [simp]: "valid_slice h s \<Longrightarrow> length (content h s) = sl_len s"
  by (auto simp: content_def valid_slice_def)

lemma content_nth: "valid_slice h s \<Longrightarrow> i < sl_len s \<Longrightarrow> content h s ! i = h ! sl_arr s ! (sl_off s + i)"
  by (simp add: content_def valid_slice_def)

lemma content_drop:
  assumes "valid_slice h s" "i < sl_len s"
  shows "drop i (content h s) = h ! sl_arr s ! (sl_off s + i) # drop (Suc i) (content h s)"
proof -
  have "i < length (content h s)" using assms by simp
  from Cons_nth_drop_Suc [OF this] show ?thesis by (simp only: content_nth [OF assms])
qed

text \<open>The array with the elements from \<open>i\<close> on overwritten.\<close>

definition write_at :: "nat \<Rightarrow> 'a list \<Rightarrow> 'a list \<Rightarrow> 'a list" where
  "write_at i ws xs = take i xs @ ws @ drop (i + length ws) xs"

lemma write_at_Nil [simp]: "write_at i [] xs = xs"
  by (simp add: write_at_def)

lemma length_write_at [simp]: "i + length ws \<le> length xs \<Longrightarrow> length (write_at i ws xs) = length xs"
  by (simp add: write_at_def)

lemma nth_write_at:
  assumes "i + length ws \<le> length xs" "j < length xs"
  shows "write_at i ws xs ! j = (if i \<le> j \<and> j < i + length ws then ws ! (j - i) else xs ! j)"
  using assms by (auto simp: write_at_def nth_append)

lemma write_at_Cons:
  assumes "i + length (w # ws) \<le> length xs"
  shows "write_at (Suc i) ws (xs[i := w]) = write_at i (w # ws) xs"
  using assms by (intro nth_equalityI) (auto simp: nth_write_at nth_list_update nth_Cons' Suc_diff_le
      simp del: length_write_at simp: length_write_at less_Suc_eq_le)

lemma take_write_at: "j \<le> i \<Longrightarrow> i + length ws \<le> length xs \<Longrightarrow> take j (write_at i ws xs) = take j xs"
  by (simp add: write_at_def min_def)

lemma drop_write_at: "i + length ws \<le> j \<Longrightarrow> i + length ws \<le> length xs \<Longrightarrow> drop j (write_at i ws xs) = drop j xs"
  by (simp add: write_at_def)

text \<open>A window that is not written to.\<close>

lemma window_write_at:
  assumes "i + length ws \<le> length xs" "j + n \<le> i \<or> i + length ws \<le> j"
  shows "take n (drop j (write_at i ws xs)) = take n (drop j xs)"
  using assms(2)
proof
  assume "j + n \<le> i"
  then have "drop j (take (j + n) (write_at i ws xs)) = drop j (take (j + n) xs)"
    using assms(1) by (simp add: take_write_at)
  then show ?thesis by (simp add: drop_take)
next
  assume "i + length ws \<le> j"
  with drop_write_at [OF this assms(1)] show ?thesis by simp
qed

text \<open>One \<open>append\<close>: what the result holds, and what becomes of the arrays that were there.\<close>

lemma go_append_spec:
  assumes "valid_slice h s" "go_append zero grow s x h = (s', h')"
  shows "valid_slice h' s'" "content h' s' = content h s @ [x]" "sl_len s' = Suc (sl_len s)" "length h \<le> length h'"
    "take (length h) h' = (if sl_len s < sl_cap s then h[sl_arr s := (h ! sl_arr s)[sl_off s + sl_len s := x]] else h)"
    "if sl_len s < sl_cap s then s' = s\<lparr>sl_len := Suc (sl_len s)\<rparr> \<and> length h' = length h else sl_arr s' = length h"
proof -
  have v: "sl_arr s < length h" "sl_len s \<le> sl_cap s" "sl_off s + sl_cap s \<le> length (h ! sl_arr s)"
    using assms(1) by (simp_all add: valid_slice_def)
  have l: "length (content h s) = sl_len s" using assms(1) by simp
  show "valid_slice h' s'" using assms(2) v l by (auto simp: go_append_def valid_slice_def Let_def split: if_splits)
  show "content h' s' = content h s @ [x]"
    using assms(2) v l
    by (auto simp: go_append_def Let_def content_def take_Suc_conv_app_nth drop_update_swap split: if_splits)
  show "sl_len s' = Suc (sl_len s)" "length h \<le> length h'"
    "take (length h) h' = (if sl_len s < sl_cap s then h[sl_arr s := (h ! sl_arr s)[sl_off s + sl_len s := x]] else h)"
    "if sl_len s < sl_cap s then s' = s\<lparr>sl_len := Suc (sl_len s)\<rparr> \<and> length h' = length h else sl_arr s' = length h"
    using assms(2) by (auto simp: go_append_def Let_def split: if_splits)
qed

text \<open>A slice keeps its content when its array does.\<close>

lemma content_later:
  assumes "sl_arr s < length h" "take (length h) h' = g" "length h \<le> length h'"
  shows "content h' s = content g s"
proof -
  have "h' ! sl_arr s = g ! sl_arr s" using assms by (metis nth_take)
  then show ?thesis by (simp add: content_def)
qed

text \<open>Elements written into the room behind a slice.\<close>

lemma write_behind:
  assumes "valid_slice h s" "sl_len s + length ws \<le> sl_cap s"
  defines "h' \<equiv> h[sl_arr s := write_at (sl_off s + sl_len s) ws (h ! sl_arr s)]"
    and "s' \<equiv> s\<lparr>sl_len := sl_len s + length ws\<rparr>"
  shows "content h' s' = content h s @ ws" "valid_slice h' s'" "content h' s = content h s"
    "valid_slice h t \<Longrightarrow> valid_slice h' t"
proof -
  have v: "sl_arr s < length h" "sl_off s + sl_len s + length ws \<le> length (h ! sl_arr s)"
    using assms(1,2) by (simp_all add: valid_slice_def)
  have "sl_len s < length (h ! sl_arr s) - sl_off s \<or> ws = []" using v(2) by (cases ws) auto
  with v show "content h' s' = content h s @ ws" "content h' s = content h s"
    by (auto simp: content_def h'_def s'_def write_at_def min_def drop_take)
  show "valid_slice h' s'" using assms(1,2) v by (simp add: valid_slice_def h'_def s'_def)
  show "valid_slice h t \<Longrightarrow> valid_slice h' t" using v by (auto simp: valid_slice_def h'_def nth_list_update)
qed

text \<open>A slice that ends before the room behind \<open>src\<close>, or starts after it, or lies elsewhere.\<close>

definition clear_of :: "slice \<Rightarrow> slice \<Rightarrow> bool" where
  "clear_of src s \<longleftrightarrow> sl_arr s \<noteq> sl_arr src \<or> sl_off s + sl_len s \<le> sl_off src + sl_len src \<or>
     sl_off src + sl_cap src \<le> sl_off s"

end
