(* ===== verification/CryptoMem.thy ===== *)
theory CryptoMem
  imports Crypto Slices
begin

text \<open>
  \<open>gcrypto/aes128.go\<close> with the memory it works on. \<open>encrypt\<close> pads its argument with
  \<open>append\<close>, which writes behind the slice as long as the array has room: into memory that
  belongs to the caller. Arrays are in an explicit store, and a slice is a window of one. How
  much \<open>append\<close> allocates when there is no room is an argument (the language only
  says: enough).
\<close>

section \<open>The operations\<close>

text \<open>\<open>append\<close> of the same byte, several times.\<close>

fun append_times :: "(nat \<Rightarrow> nat) \<Rightarrow> nat \<Rightarrow> byte8 \<Rightarrow> slice \<Rightarrow> byte8 arrays \<Rightarrow> slice \<times> byte8 arrays" where
  "append_times grow 0 b s h = (s, h)"
| "append_times grow (Suc n) b s h = (let (s, h) = go_append 0 grow s b h in append_times grow n b s h)"

text \<open>The padding loop of \<open>encrypt\<close>.\<close>

definition pad_mem :: "(nat \<Rightarrow> nat) \<Rightarrow> slice \<Rightarrow> byte8 arrays \<Rightarrow> slice \<times> byte8 arrays" where
  "pad_mem grow src h =
     (let padLen = BlockSize - sl_len src mod BlockSize in append_times grow padLen (of_nat padLen) src h)"

text \<open>The text is in a new array, which only the caller has: it is given by its bytes.\<close>

definition encrypt_mem ::
  "(nat \<Rightarrow> nat) \<Rightarrow> cipher \<Rightarrow> bytes option \<Rightarrow> slice \<Rightarrow> byte8 arrays \<Rightarrow> (crypto_error + bytes) option \<times> byte8 arrays" where
  "encrypt_mem grow block rnd src h =
     (let (src, h) = pad_mem grow src h in
      (case rnd of
         None \<Rightarrow> Some (Inl ErrRand)
       | Some iv \<Rightarrow> map_option (\<lambda>t. Inr (iv @ t)) (CryptBlocks (cbc_encrypt block) iv (content h src)), h))"

definition normalKey_mem :: "slice \<Rightarrow> byte8 arrays \<Rightarrow> bytes option" where
  "normalKey_mem key h =
     (if sl_len key \<ge> BlockSize then Some (content h (key\<lparr>sl_len := BlockSize\<rparr>)) else None)"

definition EncryptWithKey_mem ::
  "(nat \<Rightarrow> nat) \<Rightarrow> (bytes \<Rightarrow> cipher) \<Rightarrow> crypto \<Rightarrow> bytes option \<Rightarrow> bytes option \<Rightarrow> slice \<Rightarrow> slice \<Rightarrow> byte8 arrays \<Rightarrow>
    (bytes \<times> bytes \<times> crypto_error option) option \<times> byte8 arrays" where
  "EncryptWithKey_mem grow aes c rnd1 rnd2 key plainText h =
     (if sl_len key < BlockSize then (Some ([], [], Some ErrInvalidKey), h)
      else let (r, h) = encrypt_mem grow (rootBlock c) rnd1 key h in
        case r of
          None \<Rightarrow> (None, h)
        | Some (Inl e) \<Rightarrow> (Some ([], [], Some e), h)
        | Some (Inr encryptedKey) \<Rightarrow>
            (case normalKey_mem key h of
               None \<Rightarrow> (None, h)
             | Some workKey \<Rightarrow>
                 (case NewCipher aes workKey of
                    Inl e \<Rightarrow> (Some (encryptedKey, [], Some e), h)
                  | Inr block \<Rightarrow>
                      let (r, h) = encrypt_mem grow block rnd2 plainText h in
                      case r of
                        None \<Rightarrow> (None, h)
                      | Some (Inl e) \<Rightarrow> (Some (encryptedKey, [], Some e), h)
                      | Some (Inr encryptedText) \<Rightarrow> (Some (encryptedKey, encryptedText, None), h))))"

section \<open>What append writes\<close>

text \<open>The bytes of an array with \<open>k\<close> of them from \<open>i\<close> on overwritten.\<close>

definition fill :: "nat \<Rightarrow> nat \<Rightarrow> byte8 \<Rightarrow> bytes \<Rightarrow> bytes" where
  "fill i k b xs = write_at i (replicate k b) xs"

lemma fill_0 [simp]: "fill i 0 b xs = xs"
  by (simp add: fill_def)

lemma length_fill [simp]: "i + k \<le> length xs \<Longrightarrow> length (fill i k b xs) = length xs"
  by (simp add: fill_def)

lemma fill_Suc: "i + Suc k \<le> length xs \<Longrightarrow> fill (Suc i) k b (xs[i := b]) = fill i (Suc k) b xs"
  using write_at_Cons [of i b "replicate k b" xs] by (simp add: fill_def)

lemma append_times_spec:
  assumes "valid_slice h s" "append_times grow n b s h = (s', h')"
  shows "valid_slice h' s' \<and> content h' s' = content h s @ replicate n b \<and> length h \<le> length h' \<and>
    take (length h) h' = h[sl_arr s := fill (sl_off s + sl_len s) (min n (sl_cap s - sl_len s)) b (h ! sl_arr s)]"
  using assms
proof (induction n arbitrary: s h)
  case 0
  then show ?case by simp
next
  case (Suc n)
  obtain s1 h1 where a: "go_append 0 grow s b h = (s1, h1)" by (cases "go_append 0 grow s b h")
  with Suc.prems(2) have r: "append_times grow n b s1 h1 = (s', h')" by simp
  note A = go_append_spec [OF Suc.prems(1) a]
  note IH = Suc.IH [OF A(1) r]
  have v: "sl_arr s < length h" "sl_len s \<le> sl_cap s" "sl_off s + sl_cap s \<le> length (h ! sl_arr s)"
    using Suc.prems(1) by (simp_all add: valid_slice_def)
  from IH have IH4: "take (length h1) h' =
    h1[sl_arr s1 := fill (sl_off s1 + sl_len s1) (min n (sl_cap s1 - sl_len s1)) b (h1 ! sl_arr s1)]" by blast
  have "take (length h) h' = h[sl_arr s := fill (sl_off s + sl_len s) (min (Suc n) (sl_cap s - sl_len s)) b (h ! sl_arr s)]"
  proof (cases "sl_len s < sl_cap s")
    case True
    then have m: "min (Suc n) (sl_cap s - sl_len s) = Suc (min n (sl_cap s - Suc (sl_len s)))" by simp
    have l: "sl_off s + sl_len s + Suc (min n (sl_cap s - Suc (sl_len s))) \<le> length (h ! sl_arr s)"
      using v True by simp
    have s1: "s1 = s\<lparr>sl_len := Suc (sl_len s)\<rparr>" "length h1 = length h" using A(6) True by simp_all
    then have h1: "h1 = h[sl_arr s := (h ! sl_arr s)[sl_off s + sl_len s := b]]" using A(5) True by simp
    show ?thesis using IH4 v(1) unfolding m fill_Suc [OF l, symmetric] s1 h1 by simp
  next
    case False
    then have "sl_arr s1 = length h" "take (length h) h1 = h" using A(5,6) by simp_all
    then have "take (length h) (take (length h1) h') = h" unfolding IH4 by (simp add: take_update_cancel)
    then show ?thesis using False v(2) A(4) by (simp add: min_def)
  qed
  moreover have "content h' s' = content h s @ replicate (Suc n) b" "valid_slice h' s'" "length h \<le> length h'"
    using IH A(2,4) by simp_all
  ultimately show ?case by blast
qed

lemma pad_mem_spec:
  assumes "valid_slice h src" "pad_mem grow src h = (src', h')"
  shows "content h' src' = pad (content h src) \<and> length h \<le> length h' \<and>
    take (length h) h' = h[sl_arr src := fill (sl_off src + sl_len src)
      (min (padLen_of (content h src)) (sl_cap src - sl_len src)) (of_nat (padLen_of (content h src))) (h ! sl_arr src)]"
  using append_times_spec [OF assms(1)] assms(2) content_length [OF assms(1)]
  by (simp add: pad_mem_def Let_def padLen_of_def pad_def)


section \<open>What the operations compute, and what they write\<close>

text \<open>The store after \<open>encrypt\<close>: the padding in the room behind the argument.\<close>

definition padded :: "slice \<Rightarrow> byte8 arrays \<Rightarrow> byte8 arrays" where
  "padded src h =
     h[sl_arr src := fill (sl_off src + sl_len src)
       (min (padLen_of (content h src)) (sl_cap src - sl_len src)) (of_nat (padLen_of (content h src))) (h ! sl_arr src)]"

lemma encrypt_mem_spec:
  assumes "valid_slice h src"
  shows "\<exists>h'. encrypt_mem grow block rnd src h = (encrypt block rnd (content h src), h') \<and>
    length h \<le> length h' \<and> take (length h) h' = padded src h"
proof -
  obtain src' h' where p: "pad_mem grow src h = (src', h')" by (cases "pad_mem grow src h")
  from pad_mem_spec [OF assms p] show ?thesis
    by (simp add: encrypt_mem_def p encrypt_def Let_def padded_def split: option.split)
qed

lemma length_padded [simp]: "length (padded src h) = length h"
  by (simp add: padded_def)

lemma content_padded:
  assumes "valid_slice h src" "valid_slice h s" "clear_of src s"
  shows "content (padded src h) s = content h s"
proof (cases "sl_arr s = sl_arr src")
  case False
  then show ?thesis by (simp add: content_def padded_def)
next
  case True
  let ?a = "h ! sl_arr src" and ?i = "sl_off src + sl_len src"
  define k where "k = min (padLen_of (content h src)) (sl_cap src - sl_len src)"
  define b :: byte8 where "b = of_nat (padLen_of (content h src))"
  have "sl_len src \<le> sl_cap src" "sl_off src + sl_cap src \<le> length ?a"
    using assms(1) by (simp_all add: valid_slice_def)
  moreover have "k \<le> sl_cap src - sl_len src" by (simp add: k_def)
  ultimately have l: "?i + k \<le> length ?a" "?i + k \<le> sl_off src + sl_cap src" by linarith+
  have p: "padded src h ! sl_arr s = fill ?i k b ?a"
    using True assms(1) by (simp add: padded_def k_def b_def valid_slice_def)
  consider "sl_off s + sl_len s \<le> ?i" | "?i + k \<le> sl_off s" using assms(3) True l(2) by (auto simp: clear_of_def)
  then have "sl_off s + sl_len s \<le> ?i \<or> ?i + length (replicate k b) \<le> sl_off s" by cases simp_all
  then have "take (sl_len s) (drop (sl_off s) (fill ?i k b ?a)) = take (sl_len s) (drop (sl_off s) ?a)"
    using l(1) by (simp add: fill_def window_write_at)
  then show ?thesis unfolding content_def p by (simp add: True)
qed

text \<open>
  The two encryptions of \<open>EncryptWithKey\<close>: the second one reads the plain text from the
  store that the padding of the key has left.
\<close>

lemma EncryptWithKey_mem_spec:
  assumes "valid_slice h key" "valid_slice h plainText"
  shows "fst (EncryptWithKey_mem grow aes c rnd1 rnd2 key plainText h) =
    EncryptWithKey aes c rnd1 rnd2 (content h key) (content (padded key h) plainText)"
proof (cases "sl_len key < BlockSize")
  case True
  with content_length [OF assms(1)] show ?thesis by (simp add: EncryptWithKey_mem_def EncryptWithKey_def)
next
  case False
  from encrypt_mem_spec [OF assms(1), of grow "rootBlock c" rnd1] obtain h1 where
    h1: "encrypt_mem grow (rootBlock c) rnd1 key h = (Encrypt c rnd1 (content h key), h1)"
      "length h \<le> length h1" "take (length h) h1 = padded key h"
    unfolding Encrypt_def by blast
  let ?k = "key\<lparr>sl_len := BlockSize\<rparr>"
  have k: "valid_slice h ?k" using assms(1) False by (simp add: valid_slice_def)
  have ch: "content h1 s = content (padded key h) s" if "valid_slice h s" for s
    using that h1 by (intro content_later) (simp_all add: valid_slice_def)
  have "content h1 ?k = content h ?k"
    using ch [OF k] content_padded [OF assms(1) k] False by (simp add: clear_of_def)
  then have nk: "normalKey_mem key h1 = normalKey (content h key)"
    using False content_length [OF assms(1)] by (simp add: normalKey_mem_def normalKey_def content_def min_def)
  have nth: "h1 ! sl_arr s = padded key h ! sl_arr s" if "valid_slice h s" for s
    using that h1(3) by (metis nth_take valid_slice_def)
  have "length (padded key h ! i) = length (h ! i)" if "i < length h" for i
    using assms(1) that by (auto simp: padded_def valid_slice_def nth_list_update)
  then have p1: "valid_slice h1 plainText"
    using assms(2) h1(2) nth [OF assms(2)] by (simp add: valid_slice_def)
  have e2: "fst (encrypt_mem grow block rnd2 plainText h1) = encrypt block rnd2 (content (padded key h) plainText)" for block
    using encrypt_mem_spec [OF p1, of grow block rnd2] ch [OF assms(2)] by auto
  have fc: "fst (case r of None \<Rightarrow> (None, u) | Some (Inl e) \<Rightarrow> (Some (ek, [], Some e), u)
      | Some (Inr et) \<Rightarrow> (Some (ek, et, None), u)) =
    r \<bind> (\<lambda>r. case r of Inl e \<Rightarrow> Some (ek, [], Some e) | Inr et \<Rightarrow> Some (ek, et, None))"
    for r :: "(crypto_error + bytes) option" and u :: "byte8 arrays" and ek :: bytes
    by (auto split: option.split sum.split)
  show ?thesis
    using False h1(1) content_length [OF assms(1)] nk
    by (simp add: EncryptWithKey_mem_def EncryptWithKey_def split_beta Let_def fc e2
        split: option.split sum.split)
qed


text \<open>A text that lies right behind a key of one block loses its first block to the padding.\<close>

lemma content_behind_key:
  assumes "valid_slice h key" "valid_slice h plainText" "sl_len key = 16" "32 \<le> sl_cap key"
    "sl_arr plainText = sl_arr key" "sl_off plainText = sl_off key + 16" "16 \<le> sl_len plainText"
  shows "content (padded key h) plainText = replicate 16 16 @ drop 16 (content h plainText)"
proof -
  let ?a = "h ! sl_arr key"
  have "padLen_of (content h key) = 16"
    using content_length [OF assms(1)] assms(3) by (simp add: padLen_of_def BlockSize_def)
  moreover have "min 16 (sl_cap key - 16) = 16" using assms(4) by simp
  ultimately have p: "padded key h ! sl_arr plainText = fill (sl_off plainText) 16 16 ?a"
    using assms(1,3,5,6) by (simp add: padded_def valid_slice_def)
  have "sl_off plainText \<le> length ?a" using assms by (simp add: valid_slice_def)
  then have "drop (sl_off plainText) (fill (sl_off plainText) 16 16 ?a) =
    replicate 16 16 @ drop (sl_off plainText + 16) ?a" by (simp add: fill_def write_at_def)
  moreover have "drop 16 (take (sl_len plainText) (drop (sl_off plainText) ?a)) =
    take (sl_len plainText - 16) (drop (sl_off plainText + 16) ?a)"
    by (simp add: drop_take add.commute)
  ultimately show ?thesis using assms(7) unfolding content_def p by (simp add: assms(5))
qed

section \<open>The property\<close>

text \<open>
  C29. Encryption and the memory of the caller. \<open>encrypt\<close> computes from the bytes of its
  argument what the encryption of those bytes is, and changes nothing that existed before but
  this: the padding lies in the array of the caller behind the argument, as far as the slice
  has capacity there, also when the random source fails. \<open>EncryptWithKey\<close> is therefore
  right when the plain text does not lie in the spare capacity of the key; when it lies
  right behind a key of sixteen bytes in the same array, what it encrypts, and what
  \<open>DecryptWithKey\<close> gives back, is the text with its first block overwritten.
\<close>

theorem encrypt_memory:
  assumes "valid_slice h src" "valid_slice h key" "valid_slice h txt"
  shows "(\<exists>h'. encrypt_mem grow block rnd src h = (encrypt block rnd (content h src), h') \<and>
      (\<forall>i < length h. h' ! i = (if i = sl_arr src
         then fill (sl_off src + sl_len src) (min (padLen_of (content h src)) (sl_cap src - sl_len src))
           (of_nat (padLen_of (content h src))) (h ! i)
         else h ! i))) \<and>
    (clear_of key txt \<longrightarrow> fst (EncryptWithKey_mem grow aes c rnd1 rnd2 key txt h) =
      EncryptWithKey aes c rnd1 rnd2 (content h key) (content h txt)) \<and>
    (cipher_ok (rootBlock c) \<and> (\<forall>k. length k = 16 \<longrightarrow> cipher_ok (aes k)) \<and>
      length iv = BlockSize \<and> length iv2 = BlockSize \<and>
      sl_len key = 16 \<and> 32 \<le> sl_cap key \<and> sl_arr txt = sl_arr key \<and> sl_off txt = sl_off key + 16 \<and> 16 \<le> sl_len txt \<longrightarrow>
      (\<exists>ek et. fst (EncryptWithKey_mem grow aes c (Some iv) (Some iv2) key txt h) = Some (ek, et, None) \<and>
        DecryptWithKey aes c ek et = Some (Inr (replicate 16 16 @ drop 16 (content h txt)))))"
proof (intro conjI impI)
  from encrypt_mem_spec [OF assms(1), of grow block rnd] obtain h' where
    h': "encrypt_mem grow block rnd src h = (encrypt block rnd (content h src), h')" "take (length h) h' = padded src h"
    by blast
  have "h' ! i = padded src h ! i" if "i < length h" for i using h'(2) that by (metis nth_take)
  then have "\<forall>i < length h. h' ! i = (if i = sl_arr src
     then fill (sl_off src + sl_len src) (min (padLen_of (content h src)) (sl_cap src - sl_len src))
       (of_nat (padLen_of (content h src))) (h ! i) else h ! i)"
    by (simp add: padded_def nth_list_update)
  with h'(1) show "\<exists>h'. encrypt_mem grow block rnd src h = (encrypt block rnd (content h src), h') \<and>
      (\<forall>i < length h. h' ! i = (if i = sl_arr src
         then fill (sl_off src + sl_len src) (min (padLen_of (content h src)) (sl_cap src - sl_len src))
           (of_nat (padLen_of (content h src))) (h ! i)
         else h ! i))" by blast
next
  assume "clear_of key txt"
  with EncryptWithKey_mem_spec [OF assms(2,3)] content_padded [OF assms(2,3)]
  show "fst (EncryptWithKey_mem grow aes c rnd1 rnd2 key txt h) =
      EncryptWithKey aes c rnd1 rnd2 (content h key) (content h txt)" by simp
next
  assume a: "cipher_ok (rootBlock c) \<and> (\<forall>k. length k = 16 \<longrightarrow> cipher_ok (aes k)) \<and>
      length iv = BlockSize \<and> length iv2 = BlockSize \<and>
      sl_len key = 16 \<and> 32 \<le> sl_cap key \<and> sl_arr txt = sl_arr key \<and> sl_off txt = sl_off key + 16 \<and> 16 \<le> sl_len txt"
  then have l: "16 \<le> length (content h key)" using content_length [OF assms(2)] by simp
  have ck: "cipher_ok (rootBlock c)" "length iv = BlockSize" "length iv2 = BlockSize"
    "\<And>k. length k = 16 \<Longrightarrow> cipher_ok (aes k)" using a by blast+
  from work_key_roundtrip [where aes = aes, OF ck(1,4,2,3)] l obtain ek et where
    "EncryptWithKey aes c (Some iv) (Some iv2) (content h key) (content (padded key h) txt) = Some (ek, et, None)"
    "DecryptWithKey aes c ek et = Some (Inr (content (padded key h) txt))" by blast
  moreover have "content (padded key h) txt = replicate 16 16 @ drop 16 (content h txt)"
    using a by (intro content_behind_key [OF assms(2,3)]) simp_all
  ultimately show "\<exists>ek et. fst (EncryptWithKey_mem grow aes c (Some iv) (Some iv2) key txt h) = Some (ek, et, None) \<and>
        DecryptWithKey aes c ek et = Some (Inr (replicate 16 16 @ drop 16 (content h txt)))"
    using EncryptWithKey_mem_spec [OF assms(2,3)] by simp
qed

text \<open>One array of 36 bytes that holds the key and, behind it, a text of twenty.\<close>

theorem encrypt_memory_witness:
  "\<exists>ek et. fst (EncryptWithKey_mem (\<lambda>n. 2 * n) flip_cipher crypto_ex (Some (replicate 16 1)) (Some (replicate 16 2))
      \<lparr>sl_arr = 0, sl_off = 0, sl_len = 16, sl_cap = 36\<rparr> \<lparr>sl_arr = 0, sl_off = 16, sl_len = 20, sl_cap = 20\<rparr>
      [replicate 16 3 @ replicate 20 7]) = Some (ek, et, None) \<and>
    DecryptWithKey flip_cipher crypto_ex ek et = Some (Inr (replicate 16 16 @ replicate 4 7))"
proof -
  let ?h = "[replicate 16 3 @ replicate 20 7] :: byte8 arrays"
  let ?k = "\<lparr>sl_arr = 0, sl_off = 0, sl_len = 16, sl_cap = 36\<rparr>"
    and ?t = "\<lparr>sl_arr = 0, sl_off = 16, sl_len = 20, sl_cap = 20\<rparr>"
  have v: "valid_slice ?h ?k" "valid_slice ?h ?t" by (simp_all add: valid_slice_def)
  have "content ?h ?t = replicate 20 7" by (simp add: content_def)
  with encrypt_memory [OF v(1) v, of "\<lambda>n. 2 * n" undefined None flip_cipher crypto_ex None None "replicate 16 1" "replicate 16 2",
      THEN conjunct2, THEN conjunct2] crypto_ex_ok flip_cipher_ok
  show ?thesis by (simp add: BlockSize_def)
qed

end
