(* ===== verification/Pbkdf2.thy ===== *)
theory Pbkdf2
  imports Crypto
begin

text \<open>
  \<open>gcrypto/pbkdf2.go\<close>: password-based key derivation. The keyed hash is an argument:
  \<open>hmac k m\<close> of \<open>hashLen\<close> bytes (32 for the SHA-256 that the two exported functions
  use). \<open>None\<close> is a panic: a negative length, or one that \<open>make\<close> refuses.
\<close>

section \<open>The code\<close>

text \<open>
  The rounds after the first. \<open>T\<close> is the tail of \<open>dk\<close>, so the exclusive or goes into
  \<open>dk\<close> itself; \<open>U\<close> is overwritten by each round.
\<close>

fun rounds :: "(bytes \<Rightarrow> bytes) \<Rightarrow> nat \<Rightarrow> bytes \<Rightarrow> bytes \<Rightarrow> bytes \<times> bytes" where
  "rounds mac 0 U T = (U, T)"
| "rounds mac (Suc n) U T = (let U = mac U in rounds mac n U (xor_bytes T U))"

fun blocks_loop :: "(bytes \<Rightarrow> bytes) \<Rightarrow> nat \<Rightarrow> bytes \<Rightarrow> int \<Rightarrow> nat list \<Rightarrow> bytes \<Rightarrow> bytes" where
  "blocks_loop mac hashLen salt iter [] dk = dk"
| "blocks_loop mac hashLen salt iter (block # bs) dk =
     (let dk = dk @ mac (salt @ be32 block);
          T = drop (length dk - hashLen) dk;
          (U, T) = rounds mac (nat (iter - 1)) T T;
          dk = take (length dk - hashLen) dk @ T
      in blocks_loop mac hashLen salt iter bs dk)"

text \<open>What \<open>make([]byte, n)\<close> grants on a 64-bit machine.\<close>

definition can_make :: "int \<Rightarrow> bool" where
  "can_make n \<longleftrightarrow> 0 \<le> n \<and> n \<le> 2 ^ 48"

definition pbkdf2key ::
  "(bytes \<Rightarrow> bytes \<Rightarrow> bytes) \<Rightarrow> nat \<Rightarrow> bytes \<Rightarrow> bytes \<Rightarrow> int \<Rightarrow> int \<Rightarrow> bytes option" where
  "pbkdf2key hmac hashLen password salt iter keyLen = do {
     let mac = hmac password;
     numBlocks \<leftarrow> go_div (wrap64 (keyLen + int hashLen - 1)) (int hashLen);
     let capacity = wrap64 (numBlocks * int hashLen);
     if \<not> can_make capacity then None
     else
       (let dk = blocks_loop mac hashLen salt iter [1..<Suc (nat numBlocks)] []
        in if 0 \<le> keyLen \<and> keyLen \<le> capacity then Some (take (nat keyLen) dk) else None)
   }"

text \<open>
  \<open>rnd n\<close> is what \<open>io.ReadFull\<close> gets from the random source for \<open>n\<close> bytes; a failed read
  gives an empty salt.
\<close>

definition getSaltBytes :: "(nat \<Rightarrow> bytes option) \<Rightarrow> int \<Rightarrow> bytes option" where
  "getSaltBytes rnd len =
     (if \<not> can_make len then None
      else Some (case rnd (nat len) of None \<Rightarrow> [] | Some salt \<Rightarrow> salt))"

definition GenPbkdf2Passwd ::
  "(bytes \<Rightarrow> bytes \<Rightarrow> bytes) \<Rightarrow> (nat \<Rightarrow> bytes option) \<Rightarrow> bytes \<Rightarrow> int \<Rightarrow> int \<Rightarrow> int \<Rightarrow> (string \<times> string) option" where
  "GenPbkdf2Passwd hmac rnd password saltlen iter keyLen = do {
     salt \<leftarrow> getSaltBytes rnd saltlen;
     encrypted \<leftarrow> pbkdf2key hmac 32 password salt iter keyLen;
     Some (EncodeToString encrypted, EncodeToString salt)
   }"

definition CmpPbkdf2Passwd ::
  "(bytes \<Rightarrow> bytes \<Rightarrow> bytes) \<Rightarrow> bytes \<Rightarrow> string \<Rightarrow> string \<Rightarrow> int \<Rightarrow> int \<Rightarrow> bool option" where
  "CmpPbkdf2Passwd hmac password salt encrypted iter keyLen =
     (case DecodeString encrypted of
        None \<Rightarrow> Some False
      | Some pwdbs \<Rightarrow>
          (case DecodeString salt of
             None \<Rightarrow> Some False
           | Some saltbs \<Rightarrow> do {
               nc \<leftarrow> pbkdf2key hmac 32 password saltbs iter keyLen;
               Some (pwdbs = nc)
             }))"

section \<open>The standard\<close>

text \<open>
  RFC 8018: \<open>U_1, U_2, \<dots>\<close>, their exclusive or, and the blocks one after the other; \<open>None\<close> is
  its error that the derived key is too long.
\<close>

fun U_seq :: "(bytes \<Rightarrow> bytes) \<Rightarrow> bytes \<Rightarrow> nat \<Rightarrow> bytes" where
  "U_seq mac m 0 = mac m"
| "U_seq mac m (Suc j) = mac (U_seq mac m j)"

definition F_block :: "(bytes \<Rightarrow> bytes) \<Rightarrow> bytes \<Rightarrow> nat \<Rightarrow> nat \<Rightarrow> bytes" where
  "F_block mac salt c i = foldl xor_bytes (U_seq mac (salt @ be32 i) 0) (map (U_seq mac (salt @ be32 i)) [1..<c])"

definition pbkdf2_spec :: "(bytes \<Rightarrow> bytes) \<Rightarrow> nat \<Rightarrow> bytes \<Rightarrow> nat \<Rightarrow> nat \<Rightarrow> bytes option" where
  "pbkdf2_spec mac hashLen salt c dkLen =
     (if dkLen > (2 ^ 32 - 1) * hashLen then None
      else Some (take dkLen (concat (map (F_block mac salt c) [1..<Suc ((dkLen + hashLen - 1) div hashLen)]))))"

section \<open>The code computes the standard\<close>

lemma rounds_fold:
  "snd (rounds mac n (U_seq mac m j) T) = foldl xor_bytes T (map (U_seq mac m) [Suc j..<Suc j + n])"
proof (induction n arbitrary: j T)
  case (Suc n)
  have "[Suc j..<Suc j + Suc n] = Suc j # [Suc (Suc j)..<Suc (Suc j) + n]" by (simp add: upt_rec)
  with Suc.IH [of "Suc j"] show ?case by (simp add: Let_def)
qed simp

lemma rounds_length: "length T = h \<Longrightarrow> (\<And>m. length (mac m) = h) \<Longrightarrow> length (snd (rounds mac n U T)) = h"
  by (induction n arbitrary: U T) (simp_all add: Let_def)

lemma block_step:
  assumes "\<And>m. length (mac m) = h"
  shows "blocks_loop mac h salt iter (b # bs) dk = blocks_loop mac h salt iter bs (dk @ F_block mac salt (max 1 (nat iter)) b)"
    and "length (F_block mac salt c b) = h"
proof -
  let ?T = "mac (salt @ be32 b)"
  have "snd (rounds mac (nat (iter - 1)) ?T ?T) = F_block mac salt (max 1 (nat iter)) b"
  proof -
    have "Suc 0 + nat (iter - 1) = max 1 (nat iter)" by (simp add: max_def) linarith
    then show ?thesis using rounds_fold [of mac "nat (iter - 1)" "salt @ be32 b" 0 ?T]
      by (simp add: F_block_def)
  qed
  then show "blocks_loop mac h salt iter (b # bs) dk = blocks_loop mac h salt iter bs (dk @ F_block mac salt (max 1 (nat iter)) b)"
    using assms by (simp add: Let_def split_beta)
  have "length (foldl xor_bytes T Us) = h" if "length T = h" "\<forall>U \<in> set Us. length U = h" for T Us
    using that by (induction Us arbitrary: T) simp_all
  moreover have "length (U_seq mac m j) = h" for m j using assms by (cases j) simp_all
  ultimately show "length (F_block mac salt c b) = h" using assms by (simp add: F_block_def)
qed

lemma blocks_loop_spec:
  assumes "\<And>m. length (mac m) = h"
  shows "blocks_loop mac h salt iter bs dk = dk @ concat (map (F_block mac salt (max 1 (nat iter))) bs)"
proof (induction bs arbitrary: dk)
  case (Cons b bs)
  show ?case unfolding block_step(1) [OF assms] Cons.IH by simp
qed simp

text \<open>The memory that the blocks of a key take.\<close>

definition blocks_len :: "int \<Rightarrow> nat \<Rightarrow> int" where
  "blocks_len keyLen h = (keyLen + int h - 1) div int h * int h"

definition derived :: "(bytes \<Rightarrow> bytes) \<Rightarrow> nat \<Rightarrow> bytes \<Rightarrow> nat \<Rightarrow> nat \<Rightarrow> bytes" where
  "derived mac h salt c dkLen = take dkLen (concat (map (F_block mac salt c) [1..<Suc ((dkLen + h - 1) div h)]))"

lemma spec_derived:
  "pbkdf2_spec mac h salt c dkLen = (if dkLen > (2 ^ 32 - 1) * h then None else Some (derived mac h salt c dkLen))"
  by (simp add: pbkdf2_spec_def derived_def)

lemma enough_blocks: "0 < h \<Longrightarrow> n \<le> (n + h - 1) div h * (h :: nat)"
proof -
  assume h: "0 < h"
  have "n + h - 1 = (n + h - 1) div h * h + (n + h - 1) mod h" by simp
  moreover have "(n + h - 1) mod h < h" using h by simp
  ultimately show ?thesis using h by linarith
qed

lemma derived_length:
  assumes "\<And>m. length (mac m) = h" "0 < h"
  shows "length (derived mac h salt c n) = n"
proof -
  have "length (concat (map (F_block mac salt c) bs)) = length bs * h" for bs
    using block_step(2) [of mac h, OF assms(1)] by (induction bs) simp_all
  then show ?thesis
    using enough_blocks [OF assms(2), of n] unfolding derived_def length_take by (simp del: upt_Suc)
qed

lemma pbkdf2key_short:
  assumes "\<And>m. length (hmac pw m) = h" "0 < h" "int h < 2 ^ 31" "0 \<le> keyLen" "keyLen + int h - 1 < 2 ^ 63"
  shows "pbkdf2key hmac h pw salt iter keyLen =
    (if can_make (blocks_len keyLen h) then Some (derived (hmac pw) h salt (max 1 (nat iter)) (nat keyLen)) else None)"
proof -
  let ?n = "(nat keyLen + h - 1) div h"
  have kh: "keyLen + int h - 1 = int (nat keyLen + h - 1)" using assms(2,4) by linarith
  have n: "(keyLen + int h - 1) div int h = int ?n" unfolding kh by (simp add: zdiv_int)
  have b: "blocks_len keyLen h = int (?n * h)" unfolding blocks_len_def n by simp
  have "?n * h \<le> nat keyLen + h - 1" by (rule div_times_less_eq_dividend)
  then have "int (?n * h) < 2 ^ 63" using assms(5) kh by linarith
  moreover have "0 \<le> int (?n * h)" by (rule of_nat_0_le_iff)
  ultimately have w: "wrap64 (int ?n * int h) = blocks_len keyLen h" unfolding b of_nat_mult by (intro wrap64_id) linarith+
  have "wrap64 (keyLen + int h - 1) = keyLen + int h - 1" using assms(2,4,5) by (intro wrap64_id) simp_all
  then have g: "go_div (wrap64 (keyLen + int h - 1)) (int h) = Some (int ?n)"
    using assms(2,4,5) n by (simp add: go_div_nonneg)
  have "int (nat keyLen) \<le> blocks_len keyLen h" unfolding b using enough_blocks [OF assms(2)] by (rule of_nat_mono)
  then have le: "keyLen \<le> blocks_len keyLen h" using assms(4) by simp
  show ?thesis
    unfolding pbkdf2key_def Let_def g bind.simps w
    using le assms(4) blocks_loop_spec [of "hmac pw" h salt iter "[1..<Suc ?n]" "[]", OF assms(1)]
    by (simp add: derived_def del: upt_Suc)
qed

lemma pbkdf2key_long:
  assumes "0 < h" "int h < 2 ^ 31" "keyLen < 2 ^ 63" "2 ^ 63 \<le> keyLen + int h - 1"
  shows "pbkdf2key hmac h pw salt iter keyLen = None" "\<not> can_make (blocks_len keyLen h)"
proof -
  let ?x = "keyLen + int h - 1 - 2 ^ 64"
  have "wrap64 (keyLen + int h - 1) = ?x"
  proof -
    have "(keyLen + int h - 1 + 2 ^ 63) mod 2 ^ 64 = (keyLen + int h - 1 - 2 ^ 63) mod 2 ^ 64"
      using mod_add_self2 [of "keyLen + int h - 1 - 2 ^ 63" "2 ^ 64"] by (simp add: algebra_simps)
    also have "\<dots> = keyLen + int h - 1 - 2 ^ 63" using assms by (intro mod_pos_pos_trivial) simp_all
    finally show ?thesis by (simp add: wrap64_def)
  qed
  moreover define k where "k = (- ?x) div int h"
  have k: "1 \<le> k" "k * int h \<le> - ?x" "k \<le> - ?x"
  proof -
    show "1 \<le> k" using assms pos_imp_zdiv_pos_iff [of "int h" "- ?x"] by (simp add: k_def)
    show m: "k * int h \<le> - ?x" using assms pos_mod_sign [of "int h" "- ?x"] div_mult_mod_eq [of "- ?x" "int h"] unfolding k_def by linarith
    have "k * 1 \<le> k * int h" using \<open>1 \<le> k\<close> assms(1) by (intro mult_left_mono) simp_all
    with m show "k \<le> - ?x" by linarith
  qed
  have "go_quot ?x (int h) = - k" using assms by (simp add: go_quot_def k_def)
  ultimately have g: "go_div (wrap64 (keyLen + int h - 1)) (int h) = Some (- k)"
    using k assms by (simp add: go_div_def wrap64_id)
  have pos: "0 < k * int h" using k(1) assms(1) by simp
  have e: "- k * int h = - (k * int h)" by simp
  have "- (k * int h) < 2 ^ 63" by (rule order_less_trans [of _ 0]) (use pos in simp_all)
  moreover have "- (2 ^ 63) \<le> - (k * int h)" using k(2) assms by simp
  ultimately have "wrap64 (- k * int h) = - k * int h" unfolding e by (intro wrap64_id)
  moreover have "- k * int h < 0" using pos by simp
  ultimately have "\<not> can_make (wrap64 (- k * int h))" by (simp add: can_make_def)
  then show "pbkdf2key hmac h pw salt iter keyLen = None" by (simp add: pbkdf2key_def g)
  have "keyLen + int h - 1 = blocks_len keyLen h + (keyLen + int h - 1) mod int h" by (simp add: blocks_len_def)
  moreover have "(keyLen + int h - 1) mod int h < int h" using assms(1) by simp
  ultimately have "2 ^ 63 - 2 ^ 31 < blocks_len keyLen h" using assms by linarith
  then show "\<not> can_make (blocks_len keyLen h)" by (simp add: can_make_def)
qed

lemma pbkdf2key_negative:
  assumes "0 < h" "int h < 2 ^ 31" "- (2 ^ 63) \<le> keyLen" "keyLen < 0"
  shows "pbkdf2key hmac h pw salt iter keyLen = None"
  using assms by (simp add: pbkdf2key_def Let_def bind_eq_None_conv go_div_def)

text \<open>All lengths of \<open>int64\<close>.\<close>

lemma pbkdf2key_value:
  assumes "\<And>m. length (hmac pw m) = h" "0 < h" "int h < 2 ^ 31" "in_int64 keyLen"
  shows "pbkdf2key hmac h pw salt iter keyLen =
    (if 0 \<le> keyLen \<and> can_make (blocks_len keyLen h)
     then Some (derived (hmac pw) h salt (max 1 (nat iter)) (nat keyLen)) else None)"
  using pbkdf2key_short [of hmac pw h keyLen salt iter, OF assms(1-3)] pbkdf2key_long [OF assms(2,3), of keyLen]
    pbkdf2key_negative [OF assms(2,3), of keyLen] assms(4)
  by (cases "0 \<le> keyLen"; cases "keyLen + int h - 1 < 2 ^ 63") simp_all

section \<open>The property\<close>

text \<open>A keyed hash for the witness: the sum of all bytes, in every byte of the result.\<close>

definition sum_hash :: "bytes \<Rightarrow> bytes \<Rightarrow> bytes" where
  "sum_hash k m = replicate 32 (sum_list k + sum_list m)"

lemma sum_hash_length: "length (sum_hash k m) = 32"
  by (simp add: sum_hash_def)

lemma password_check:
  assumes "\<And>k m. length (hmac k m) = 32" "0 \<le> keyLen" "in_int64 keyLen" "can_make (blocks_len keyLen 32)" "can_make saltlen"
  shows "\<exists>enc salt salt0. GenPbkdf2Passwd hmac rnd pw saltlen iter keyLen = Some (enc, salt) \<and>
    getSaltBytes rnd saltlen = Some salt0 \<and> DecodeString salt = Some salt0 \<and>
    (\<forall>pw'. CmpPbkdf2Passwd hmac pw' salt enc iter keyLen =
      Some (pbkdf2key hmac 32 pw salt0 iter keyLen = pbkdf2key hmac 32 pw' salt0 iter keyLen)) \<and>
    CmpPbkdf2Passwd hmac pw salt enc iter keyLen = Some True \<and>
    (\<forall>pw' bad. DecodeString bad = None \<longrightarrow>
      CmpPbkdf2Passwd hmac pw' salt bad iter keyLen = Some False \<and>
      CmpPbkdf2Passwd hmac pw' bad enc iter keyLen = Some False)"
proof -
  obtain salt0 where s: "getSaltBytes rnd saltlen = Some salt0" using assms(5) by (simp add: getSaltBytes_def)
  have k: "\<exists>dk. pbkdf2key hmac 32 p salt0 iter keyLen = Some dk" for p
    using pbkdf2key_value [of hmac p 32 keyLen, OF assms(1)] assms(2-4) by simp
  then obtain dk where dk: "pbkdf2key hmac 32 pw salt0 iter keyLen = Some dk" by blast
  have g: "GenPbkdf2Passwd hmac rnd pw saltlen iter keyLen = Some (EncodeToString dk, EncodeToString salt0)"
    by (simp add: GenPbkdf2Passwd_def s dk)
  have c: "CmpPbkdf2Passwd hmac pw' (EncodeToString salt0) (EncodeToString dk) iter keyLen =
      Some (Some dk = pbkdf2key hmac 32 pw' salt0 iter keyLen)" for pw'
    using k [of pw'] by (auto simp: CmpPbkdf2Passwd_def)
  show ?thesis
    using g c dk s
    by (intro exI [of _ "EncodeToString dk"] exI [of _ "EncodeToString salt0"] exI [of _ salt0])
      (simp add: CmpPbkdf2Passwd_def [of _ _ _ _ iter keyLen] split: option.split)
qed

text \<open>
  C31. The key derivation is PBKDF2, and a stored password is checked against it. For every
  keyed hash of a fixed positive length, every salt, iteration count (anything below one
  counts as one) and key length that the standard admits and memory can hold, \<open>pbkdf2key\<close>
  returns exactly the key of RFC 8018, of exactly the length asked for. A negative length and
  one beyond what \<open>make\<close> grants panic; one beyond the standard's limit is not refused as the
  standard has it. What \<open>GenPbkdf2Passwd\<close> returned for a password, \<open>CmpPbkdf2Passwd\<close> accepts
  for exactly those passwords whose derived key with the same salt is the same, the password
  itself among them, and a stored value that is not base64 is refused. A salt length that is
  negative or too large panics.
\<close>

theorem pbkdf2_passwords:
  assumes h: "\<And>k m. length (hmac k m) = h" "0 < h" "int h < 2 ^ 31"
    and l: "in_int64 keyLen" "iter < 2 ^ 63 - 1"
  shows "(if 0 \<le> keyLen \<and> can_make (blocks_len keyLen h)
      then \<exists>dk. pbkdf2key hmac h pw salt0 iter keyLen = Some dk \<and> int (length dk) = keyLen \<and>
        pbkdf2_spec (hmac pw) h salt0 (max 1 (nat iter)) (nat keyLen) =
          (if keyLen \<le> (2 ^ 32 - 1) * int h then Some dk else None)
      else pbkdf2key hmac h pw salt0 iter keyLen = None) \<and>
    (h = 32 \<and> 0 \<le> keyLen \<and> can_make (blocks_len keyLen h) \<and> can_make saltlen \<longrightarrow>
      (\<exists>enc salt salt1. GenPbkdf2Passwd hmac rnd pw saltlen iter keyLen = Some (enc, salt) \<and>
        getSaltBytes rnd saltlen = Some salt1 \<and> DecodeString salt = Some salt1 \<and>
        (\<forall>pw'. CmpPbkdf2Passwd hmac pw' salt enc iter keyLen =
          Some (pbkdf2key hmac 32 pw salt1 iter keyLen = pbkdf2key hmac 32 pw' salt1 iter keyLen)) \<and>
        CmpPbkdf2Passwd hmac pw salt enc iter keyLen = Some True \<and>
        (\<forall>pw' bad. DecodeString bad = None \<longrightarrow>
          CmpPbkdf2Passwd hmac pw' salt bad iter keyLen = Some False \<and>
          CmpPbkdf2Passwd hmac pw' bad enc iter keyLen = Some False))) \<and>
    (h = 32 \<and> (keyLen < 0 \<or> \<not> can_make saltlen) \<longrightarrow> GenPbkdf2Passwd hmac rnd pw saltlen iter keyLen = None)"
proof (intro conjI impI)
  note v = pbkdf2key_value [of hmac _ h keyLen _ iter, OF h l(1)]
  have "keyLen \<le> (2 ^ 32 - 1) * int h \<longleftrightarrow> \<not> nat keyLen > (2 ^ 32 - 1) * h" if "0 \<le> keyLen"
  proof -
    have "int ((2 ^ 32 - 1) * h) = (2 ^ 32 - 1) * int h" by simp
    with that show ?thesis by linarith
  qed
  then show "if 0 \<le> keyLen \<and> can_make (blocks_len keyLen h)
      then \<exists>dk. pbkdf2key hmac h pw salt0 iter keyLen = Some dk \<and> int (length dk) = keyLen \<and>
        pbkdf2_spec (hmac pw) h salt0 (max 1 (nat iter)) (nat keyLen) =
          (if keyLen \<le> (2 ^ 32 - 1) * int h then Some dk else None)
      else pbkdf2key hmac h pw salt0 iter keyLen = None"
    by (simp add: v spec_derived derived_length [OF h(1,2)])
  show "\<exists>enc salt salt1. GenPbkdf2Passwd hmac rnd pw saltlen iter keyLen = Some (enc, salt) \<and>
        getSaltBytes rnd saltlen = Some salt1 \<and> DecodeString salt = Some salt1 \<and>
        (\<forall>pw'. CmpPbkdf2Passwd hmac pw' salt enc iter keyLen =
          Some (pbkdf2key hmac 32 pw salt1 iter keyLen = pbkdf2key hmac 32 pw' salt1 iter keyLen)) \<and>
        CmpPbkdf2Passwd hmac pw salt enc iter keyLen = Some True \<and>
        (\<forall>pw' bad. DecodeString bad = None \<longrightarrow>
          CmpPbkdf2Passwd hmac pw' salt bad iter keyLen = Some False \<and>
          CmpPbkdf2Passwd hmac pw' bad enc iter keyLen = Some False)"
    if "h = 32 \<and> 0 \<le> keyLen \<and> can_make (blocks_len keyLen h) \<and> can_make saltlen"
    using password_check [of hmac keyLen saltlen rnd pw iter] h(1) l(1) that by blast
  show "GenPbkdf2Passwd hmac rnd pw saltlen iter keyLen = None"
    if "h = 32 \<and> (keyLen < 0 \<or> \<not> can_make saltlen)"
    using that v by (auto simp: GenPbkdf2Passwd_def getSaltBytes_def)
qed

theorem pbkdf2_passwords_witness:
  "pbkdf2key sum_hash 32 [1] [2] 3 40 = pbkdf2_spec (sum_hash [1]) 32 [2] 3 40 \<and>
   (\<exists>dk. pbkdf2key sum_hash 32 [1] [2] 3 40 = Some dk \<and> length dk = 40) \<and>
   (\<exists>enc salt. GenPbkdf2Passwd sum_hash (\<lambda>n. Some (replicate n 7)) [4, 5] 16 10000 40 = Some (enc, salt) \<and>
     CmpPbkdf2Passwd sum_hash [4, 5] salt enc 10000 40 = Some True) \<and>
   GenPbkdf2Passwd sum_hash (\<lambda>n. Some (replicate n 7)) [4, 5] (- 1) 10000 40 = None"
proof -
  note t = pbkdf2_passwords [of sum_hash 32 40, OF sum_hash_length]
  have m: "can_make (blocks_len 40 32)" "can_make 16" "\<not> can_make (- 1)" by (simp_all add: can_make_def blocks_len_def)
  show ?thesis
    using t [of 3 "[1]" "[2]" 16 "\<lambda>n. None", THEN conjunct1]
      t [of 10000 "[4, 5]" "[2]" 16 "\<lambda>n. Some (replicate n 7)", THEN conjunct2, THEN conjunct1]
      t [of 10000 "[4, 5]" "[2]" "- 1" "\<lambda>n. Some (replicate n 7)", THEN conjunct2, THEN conjunct2] m
    by (auto simp: max_def)
qed

end
