(* ===== verification/Listen.thy ===== *)
theory Listen
  imports Prelude
begin

text \<open>
  \<open>gnet/listen.go\<close>: the listener that limits its connections, with its counter at 32 bits
  and its channel \<open>sem\<close> as the number of tokens in it. What the wrapped listener's
  \<open>Accept\<close> returns is an argument. Calls run one after the other; \<open>None\<close> is a call that
  blocks for ever in that order of calls (a receive from the empty \<open>sem\<close>).
\<close>

section \<open>The listener\<close>

record listener =
  cur :: int
  lmax :: int
  sem :: nat

datatype accepted = Conn | ErrLimit | ErrInner

text \<open>A connection remembers whether its \<open>sync.Once\<close> has run.\<close>

datatype conn = Open | Closed

definition NewLimitListener :: "int \<Rightarrow> listener option" where
  "NewLimitListener n = (if n < 0 then None else Some \<lparr>cur = 0, lmax = n, sem = 0\<rparr>)"

definition acquire :: "listener \<Rightarrow> bool \<times> listener" where
  "acquire l =
     (let c = wrap32 (cur l + 1);
          l = l\<lparr>cur := c\<rparr>
      in if c > lmax l then
           (if int (sem l) < lmax l then (True, l\<lparr>sem := sem l + 1\<rparr>) else (False, l))
         else (True, l))"

definition release :: "listener \<Rightarrow> listener option" where
  "release l =
     (let c = wrap32 (cur l - 1);
          l = l\<lparr>cur := c\<rparr>
      in if c \<ge> lmax l then (if sem l = 0 then None else Some (l\<lparr>sem := sem l - 1\<rparr>)) else Some l)"

text \<open>\<open>inner\<close>: whether the wrapped listener's \<open>Accept\<close> gave a connection.\<close>

definition Accept :: "bool \<Rightarrow> listener \<Rightarrow> (accepted \<times> listener) option" where
  "Accept inner l =
     (let (ok, l) = acquire l
      in if \<not> inner then map_option (Pair ErrInner) (release l)
         else if \<not> ok then map_option (Pair ErrLimit) (release l)
         else Some (Conn, l))"

definition Close :: "conn \<Rightarrow> listener \<Rightarrow> (conn \<times> listener) option" where
  "Close c l = (case c of Closed \<Rightarrow> Some (Closed, l) | Open \<Rightarrow> map_option (Pair Closed) (release l))"

section \<open>Within the limit\<close>

definition counts :: "int \<Rightarrow> nat \<Rightarrow> listener \<Rightarrow> bool" where
  "counts n k l \<longleftrightarrow> lmax l = n \<and> cur l = int k \<and> sem l = 0 \<and> n < 2 ^ 31 - 1"

lemma accept_within:
  assumes "counts n k l" "int k < n"
  shows "Accept True l = Some (Conn, l\<lparr>cur := int k + 1\<rparr>) \<and> counts n (Suc k) (l\<lparr>cur := int k + 1\<rparr>)"
proof -
  have "wrap32 (int k + 1) = int k + 1" using assms by (intro wrap32_id) (simp_all add: counts_def)
  with assms show ?thesis by (simp add: counts_def Accept_def acquire_def Let_def)
qed

lemma accept_inner_error:
  assumes "counts n k l" "int k \<le> n" "0 < n"
  shows "Accept False l =
    (if int k < n then Some (ErrInner, l)
     else Some (ErrInner, l)) \<and> counts n k l"
proof -
  have w: "wrap32 (int k + 1) = int k + 1" "wrap32 (int k) = int k"
    using assms by (auto intro!: wrap32_id simp: counts_def)
  have "l\<lparr>cur := int k\<rparr> = l" using assms(1) by (simp add: counts_def)
  with w assms show ?thesis by (auto simp: counts_def Accept_def acquire_def release_def Let_def)
qed

lemma close_within:
  assumes "counts n (Suc k) l" "int (Suc k) \<le> n"
  shows "Close Open l = Some (Closed, l\<lparr>cur := int k\<rparr>) \<and> counts n k (l\<lparr>cur := int k\<rparr>)"
proof -
  have "wrap32 (int k) = int k" using assms by (intro wrap32_id) (simp_all add: counts_def)
  with assms show ?thesis by (simp add: counts_def Close_def release_def Let_def)
qed

text \<open>A history of accepts and closes, with the number of connections open before each.\<close>

datatype lst_op = OpAccept bool | OpClose | OpCloseAgain

fun within :: "int \<Rightarrow> lst_op list \<Rightarrow> nat \<Rightarrow> bool" where
  "within n [] k = True"
| "within n (OpAccept True # ops) k = (int k < n \<and> within n ops (Suc k))"
| "within n (OpAccept False # ops) k = (int k \<le> n \<and> within n ops k)"
| "within n (OpClose # ops) k = (0 < k \<and> within n ops (k - 1))"
| "within n (OpCloseAgain # ops) k = within n ops k"

fun run :: "lst_op list \<Rightarrow> listener \<Rightarrow> (accepted list \<times> listener) option" where
  "run [] l = Some ([], l)"
| "run (OpAccept b # ops) l = do { (a, l) \<leftarrow> Accept b l; (as, l) \<leftarrow> run ops l; Some (a # as, l) }"
| "run (OpClose # ops) l = do { (_, l) \<leftarrow> Close Open l; run ops l }"
| "run (OpCloseAgain # ops) l = do { (_, l) \<leftarrow> Close Closed l; run ops l }"

fun expected :: "lst_op list \<Rightarrow> accepted list" where
  "expected [] = []"
| "expected (OpAccept b # ops) = (if b then Conn else ErrInner) # expected ops"
| "expected (_ # ops) = expected ops"

fun open_after :: "lst_op list \<Rightarrow> nat \<Rightarrow> nat" where
  "open_after [] k = k"
| "open_after (OpAccept b # ops) k = open_after ops (if b then Suc k else k)"
| "open_after (OpClose # ops) k = open_after ops (k - 1)"
| "open_after (OpCloseAgain # ops) k = open_after ops k"

lemma run_within:
  assumes "counts n k l" "int k \<le> n" "0 < n" "within n ops k"
  shows "\<exists>l'. run ops l = Some (expected ops, l') \<and> counts n (open_after ops k) l'"
  using assms
proof (induction n ops k arbitrary: l rule: within.induct)
  case (2 n ops k)
  from accept_within [OF 2(2)] 2(5) obtain l1 where
    "Accept True l = Some (Conn, l1)" "counts n (Suc k) l1" by auto
  with 2(1) [of l1] 2(4,5) show ?case by auto
next
  case (3 n ops k)
  from accept_inner_error [OF 3(2)] 3(3,4) have a: "Accept False l = Some (ErrInner, l)" by (auto split: if_splits)
  from 3(1) [OF 3(2-4)] 3(5) obtain l' where
    "run ops l = Some (expected ops, l')" "counts n (open_after ops k) l'" by auto
  with a show ?case by simp
next
  case (4 n ops k)
  then obtain k' where k: "k = Suc k'" by (cases k) auto
  from close_within [of n k' l] 4(2,3) k obtain l1 where
    "Close Open l = Some (Closed, l1)" "counts n k' l1" by auto
  with 4(1) [of l1] 4(3-5) k show ?case by auto
next
  case (5 n ops k)
  then show ?case by (simp add: Close_def)
qed simp

section \<open>Beyond the limit\<close>

definition at :: "int \<Rightarrow> int \<Rightarrow> nat \<Rightarrow> listener" where
  "at n c s = \<lparr>cur = c, lmax = n, sem = s\<rparr>"

fun accepts :: "nat \<Rightarrow> listener \<Rightarrow> (accepted list \<times> listener) option" where
  "accepts 0 l = Some ([], l)"
| "accepts (Suc k) l = do { (a, l) \<leftarrow> Accept True l; (as, l) \<leftarrow> accepts k l; Some (a # as, l) }"

lemma accepts_append:
  assumes "accepts j l = Some (as, l1)" "accepts k l1 = Some (bs, l2)"
  shows "accepts (j + k) l = Some (as @ bs, l2)"
  using assms by (induction j arbitrary: l as) (auto simp: bind_eq_Some_conv split: prod.splits)

lemma accepts_snoc:
  assumes "accepts k l = Some (as, l1)" "Accept True l1 = Some (a, l2)"
  shows "accepts (Suc k) l = Some (as @ [a], l2)"
  using accepts_append [OF assms(1), of 1 "[a]" l2] assms(2) by simp

lemma accept_at:
  assumes "0 < n" "0 \<le> c" "c < 2 ^ 31 - 1"
  shows "c < n \<Longrightarrow> Accept True (at n c s) = Some (Conn, at n (c + 1) s)"
    and "n \<le> c \<Longrightarrow> int s < n \<Longrightarrow> Accept True (at n c s) = Some (Conn, at n (c + 1) (Suc s))"
    and "n \<le> c \<Longrightarrow> int s = n \<Longrightarrow> Accept True (at n c s) = Some (ErrLimit, at n c (s - 1))"
proof -
  have w: "wrap32 (c + 1) = c + 1" "wrap32 c = c" using assms by (auto intro!: wrap32_id)
  show "c < n \<Longrightarrow> Accept True (at n c s) = Some (Conn, at n (c + 1) s)"
    and "n \<le> c \<Longrightarrow> int s < n \<Longrightarrow> Accept True (at n c s) = Some (Conn, at n (c + 1) (Suc s))"
    and "n \<le> c \<Longrightarrow> int s = n \<Longrightarrow> Accept True (at n c s) = Some (ErrLimit, at n c (s - 1))"
    using w assms by (auto simp: Accept_def acquire_def release_def at_def Let_def)
qed

lemma accepts_first:
  assumes "0 < n" "int k \<le> n" "n < 2 ^ 31 - 1"
  shows "accepts k (at n 0 0) = Some (replicate k Conn, at n (int k) 0)"
  using assms(2)
proof (induction k)
  case (Suc k)
  then have "Accept True (at n (int k) 0) = Some (Conn, at n (int k + 1) 0)"
    using assms by (intro accept_at(1)) simp_all
  from accepts_snoc [OF _ this] Suc show ?case
    by (simp add: replicate_append_same add.commute del: accepts.simps)
qed simp

lemma accepts_second:
  assumes "0 < n" "int k \<le> n" "2 * n < 2 ^ 31 - 1"
  shows "accepts k (at n n 0) = Some (replicate k Conn, at n (n + int k) k)"
  using assms(2)
proof (induction k)
  case (Suc k)
  then have "Accept True (at n (n + int k) k) = Some (Conn, at n (n + int k + 1) (Suc k))"
    using assms by (intro accept_at(2)) simp_all
  from accepts_snoc [OF _ this] Suc show ?case
    by (simp add: replicate_append_same algebra_simps del: accepts.simps)
qed simp

lemma accepts_full:
  assumes "0 < n" "2 * int n < 2 ^ 31 - 1"
  shows "accepts (2 * n) (at (int n) 0 0) = Some (replicate (2 * n) Conn, at (int n) (2 * int n) n)"
proof -
  have "accepts n (at (int n) 0 0) = Some (replicate n Conn, at (int n) (int n) 0)"
    using assms by (intro accepts_first) simp_all
  from accepts_append [OF this accepts_second [of "int n" n]] assms
  show ?thesis by (simp only: mult_2 replicate_add)
qed

text \<open>A rejected connection takes a token that belongs to an open one; the next gets in with it.\<close>

lemma accepts_pairs:
  assumes "0 < n" "int s = n" "0 \<le> c" "n \<le> c" "c + int j < 2 ^ 31 - 1"
  shows "accepts (2 * j) (at n c s) = Some (concat (replicate j [ErrLimit, Conn]), at n (c + int j) s)"
  using assms(3-5)
proof (induction j arbitrary: c)
  case (Suc j)
  have "Accept True (at n c s) = Some (ErrLimit, at n c (s - 1))"
    using Suc.prems assms accept_at(3) [of n c s] by simp
  moreover have "Accept True (at n c (s - 1)) = Some (Conn, at n (c + 1) s)"
    using Suc.prems assms accept_at(2) [of n c "s - 1"] by simp
  moreover have "accepts (2 * j) (at n (c + 1) s) = Some (concat (replicate j [ErrLimit, Conn]), at n (c + 1 + int j) s)"
    using Suc.prems by (intro Suc.IH) simp_all
  ultimately show ?case by (simp add: algebra_simps)
qed simp

section \<open>The properties\<close>

text \<open>
  As long as it is asked for no more than \<open>n\<close> connections at a time, the listener does
  its work: under any sequence of accepts (whether the wrapped listener succeeds or fails) and
  closes (a second \<open>Close\<close> of the same connection included) that never has more than
  \<open>n\<close> open, every connection is let through, errors are passed on, no call blocks, and
  the counter is the number of connections open.
\<close>

lemma listener_within_limit:
  assumes "0 < n" "n < 2 ^ 31 - 1" "within n ops 0"
  shows "\<exists>l l'. NewLimitListener n = Some l \<and> run ops l = Some (expected ops, l') \<and>
    cur l' = int (open_after ops 0)"
proof -
  let ?l = "\<lparr>cur = 0, lmax = n, sem = 0\<rparr>"
  have "counts n 0 ?l" using assms by (simp add: counts_def)
  from run_within [OF this _ assms(1,3)] assms(1) show ?thesis
    by (auto simp: NewLimitListener_def counts_def)
qed

lemma listener_within_limit_witness:
  "\<exists>l l'. NewLimitListener 2 = Some l \<and>
     run [OpAccept True, OpAccept True, OpAccept False, OpClose, OpCloseAgain, OpAccept True] l =
       Some ([Conn, Conn, ErrInner, Conn], l') \<and> cur l' = 2"
  using listener_within_limit [of 2 "[OpAccept True, OpAccept True, OpAccept False, OpClose, OpCloseAgain, OpAccept True]"]
  by simp

text \<open>
  The limit does not hold beyond that. With none closed, the first \<open>2 * n\<close>
  connections are all accepted (\<open>n\<close> by the counter and \<open>n\<close> more by the channel), and
  from then on every rejected connection gives back a token it never had, so that every
  second one is accepted: \<open>2 * n + 2 * j\<close> attempts leave \<open>2 * n + j\<close> connections open.
\<close>

lemma listener_limit_not_kept:
  assumes "0 < n" "int (2 * n + j) < 2 ^ 31 - 1"
  shows "\<exists>l l'. NewLimitListener (int n) = Some l \<and>
    accepts (2 * n + 2 * j) l = Some (replicate (2 * n) Conn @ concat (replicate j [ErrLimit, Conn]), l') \<and>
    length (filter (\<lambda>a. a = Conn) (replicate (2 * n) Conn @ concat (replicate j [ErrLimit, Conn]))) = 2 * n + j"
proof -
  have n: "0 < int n" "int n < 2 ^ 31 - 1" "2 * int n < 2 ^ 31 - 1" using assms by simp_all
  have f: "accepts (2 * n) (at (int n) 0 0) = Some (replicate (2 * n) Conn, at (int n) (2 * int n) n)"
    using assms(1) n(3) by (rule accepts_full)
  have p: "accepts (2 * j) (at (int n) (2 * int n) n) =
      Some (concat (replicate j [ErrLimit, Conn]), at (int n) (2 * int n + int j) n)"
    using assms by (intro accepts_pairs) simp_all
  note accepts_append [OF f p]
  moreover have "length (filter (\<lambda>a. a = Conn) (concat (replicate j [ErrLimit, Conn]))) = j"
    by (induction j) simp_all
  moreover have "NewLimitListener (int n) = Some (at (int n) 0 0)" by (simp add: NewLimitListener_def at_def)
  ultimately show ?thesis by (intro exI conjI) simp_all
qed

lemma listener_limit_not_kept_witness:
  "\<exists>l l'. NewLimitListener 1 = Some l \<and>
     accepts 6 l = Some ([Conn, Conn, ErrLimit, Conn, ErrLimit, Conn], l')"
  using listener_limit_not_kept [of 1 2] by (auto simp: numeral_eq_Suc)

text \<open>
  Closing can block. After two connections are open on a listener for one and a third
  was rejected, the token of the second is gone: closing one of the two waits for a token
  that is not there.
\<close>

lemma close_can_block:
  assumes "0 < n" "int (2 * n) < 2 ^ 31 - 1"
  shows "\<exists>l l'. NewLimitListener (int n) = Some l \<and>
    accepts (2 * n + 1) l = Some (replicate (2 * n) Conn @ [ErrLimit], l') \<and>
    (\<exists>l''. run (replicate (n - 1) OpClose) l' = Some ([], l'') \<and> Close Open l'' = None)"
proof -
  have n: "0 < int n" "int n < 2 ^ 31 - 1" "2 * int n < 2 ^ 31 - 1" using assms by simp_all
  have a: "accepts (2 * n) (at (int n) 0 0) = Some (replicate (2 * n) Conn, at (int n) (2 * int n) n)"
    using assms(1) n(3) by (rule accepts_full)
  have "Accept True (at (int n) (2 * int n) n) = Some (ErrLimit, at (int n) (2 * int n) (n - 1))"
    using n by (intro accept_at(3)) simp_all
  from accepts_snoc [OF a this] have acc: "accepts (2 * n + 1) (at (int n) 0 0) =
      Some (replicate (2 * n) Conn @ [ErrLimit], at (int n) (2 * int n) (n - 1))"
    by (simp only: Suc_eq_plus1)
  have closes: "int m \<le> int n \<Longrightarrow> int n \<le> c \<Longrightarrow> c + int m < 2 ^ 31 - 1 \<Longrightarrow>
      run (replicate m OpClose) (at (int n) (c + int m) m) = Some ([], at (int n) c 0)" for m c
  proof (induction m arbitrary: c)
    case (Suc m)
    have w: "wrap32 (c + int m) = c + int m" using Suc.prems n(1) by (intro wrap32_id) simp_all
    have "Close Open (at (int n) (c + int (Suc m)) (Suc m)) = Some (Closed, at (int n) (c + int m) m)"
      using w Suc.prems by (simp add: Close_def release_def at_def Let_def)
    with Suc show ?case by simp
  qed simp
  let ?c = "int n + 1"
  have "run (replicate (n - 1) OpClose) (at (int n) (?c + int (n - 1)) (n - 1)) = Some ([], at (int n) ?c 0)"
    using assms by (intro closes) (simp_all add: of_nat_diff)
  moreover have "?c + int (n - 1) = 2 * int n" using assms by (simp add: of_nat_diff)
  moreover have "Close Open (at (int n) ?c 0) = None"
    using n wrap32_id [of "int n"] by (simp add: Close_def release_def at_def Let_def)
  moreover have "NewLimitListener (int n) = Some (at (int n) 0 0)" by (simp add: NewLimitListener_def at_def)
  ultimately show ?thesis using acc by (intro exI conjI) simp_all
qed

lemma close_can_block_witness:
  "\<exists>l l'. NewLimitListener 1 = Some l \<and> accepts 3 l = Some ([Conn, Conn, ErrLimit], l') \<and> Close Open l' = None"
  using close_can_block [of 1] by (auto simp: numeral_eq_Suc)

text \<open>
  The limit does not hold beyond that. With none closed, the first \<open>2 * n\<close>
  connections are all accepted (\<open>n\<close> by the counter and \<open>n\<close> more by the channel), and
  from then on every rejected connection gives back a token it never had, so that every
  second one is accepted: \<open>2 * n + 2 * j\<close> attempts leave \<open>2 * n + j\<close> connections
  open. And closing can block: after the first rejection a token is missing, and the
  \<open>n\<close>-th \<open>Close\<close> waits for it for ever.
\<close>

lemma listener_over_limit:
  assumes "0 < n" "int (2 * n + j) < 2 ^ 31 - 1"
  shows "\<exists>l. NewLimitListener (int n) = Some l \<and>
    (\<exists>l'. accepts (2 * n + 2 * j) l = Some (replicate (2 * n) Conn @ concat (replicate j [ErrLimit, Conn]), l') \<and>
      length (filter (\<lambda>a. a = Conn) (replicate (2 * n) Conn @ concat (replicate j [ErrLimit, Conn]))) = 2 * n + j) \<and>
    (\<exists>l'. accepts (2 * n + 1) l = Some (replicate (2 * n) Conn @ [ErrLimit], l') \<and>
      (\<exists>l''. run (replicate (n - 1) OpClose) l' = Some ([], l'') \<and> Close Open l'' = None))"
proof -
  have "int (2 * n) < 2 ^ 31 - 1" using assms(2) by simp
  with listener_limit_not_kept [OF assms] close_can_block [OF assms(1)] show ?thesis
    by (elim exE conjE) (metis option.inject)
qed

lemma listener_over_limit_witness:
  "\<exists>l. NewLimitListener 1 = Some l \<and>
     (\<exists>l'. accepts 6 l = Some ([Conn, Conn, ErrLimit, Conn, ErrLimit, Conn], l')) \<and>
     (\<exists>l'. accepts 3 l = Some ([Conn, Conn, ErrLimit], l') \<and> Close Open l' = None)"
  using listener_over_limit [of 1 2] by (auto simp: numeral_eq_Suc)

text \<open>
  The limit. As long as it is asked for no more than \<open>n\<close> connections at a time, the
  listener does its work: under any sequence of accepts (whether the wrapped listener
  succeeds or fails) and closes (a second \<open>Close\<close> of the same connection included) that
  never has more than \<open>n\<close> open, every connection is let through, errors are passed on, no
  call blocks, and the counter is the number of connections open. But the limit does not
  hold beyond that. With none closed, the first \<open>2 * n\<close> connections are all accepted
  (\<open>n\<close> by the counter and \<open>n\<close> more by the channel), and from then on every rejected
  connection gives back a token it never had, so that every second one is accepted:
  \<open>2 * n + 2 * j\<close> attempts leave \<open>2 * n + j\<close> connections open. And closing can block:
  after the first rejection a token is missing, and the \<open>n\<close>-th \<open>Close\<close> waits for it
  for ever.
\<close>

lemma listener_limit:
  assumes "0 < n" "int (2 * n + j) < 2 ^ 31 - 1"
  shows "\<exists>l. NewLimitListener (int n) = Some l \<and>
    (within (int n) ops 0 \<longrightarrow>
      (\<exists>l'. run ops l = Some (expected ops, l') \<and> cur l' = int (open_after ops 0))) \<and>
    (\<exists>l'. accepts (2 * n + 2 * j) l = Some (replicate (2 * n) Conn @ concat (replicate j [ErrLimit, Conn]), l') \<and>
      length (filter (\<lambda>a. a = Conn) (replicate (2 * n) Conn @ concat (replicate j [ErrLimit, Conn]))) = 2 * n + j) \<and>
    (\<exists>l'. accepts (2 * n + 1) l = Some (replicate (2 * n) Conn @ [ErrLimit], l') \<and>
      (\<exists>l''. run (replicate (n - 1) OpClose) l' = Some ([], l'') \<and> Close Open l'' = None))"
proof -
  have "0 < int n" "int n < 2 ^ 31 - 1" using assms by simp_all
  from listener_within_limit [OF this, of ops] listener_over_limit [OF assms] show ?thesis
    by (elim exE conjE) (metis option.inject)
qed

end
