(* ===== verification/ListenConc.thy ===== *)
theory ListenConc
  imports Listen
begin

text \<open>
  \<open>gnet/listen.go\<close> with its goroutines: the addition to the counter and the operation on
  the channel are two steps, in \<open>acquire\<close> as in \<open>release\<close>, and the accepts and closes
  of any number of goroutines fall between each other's steps. For
  the limit 0 the channel has no buffer: a send meets a receive that already waits, or finds none.
\<close>

section \<open>The steps\<close>

text \<open>
  One goroutine through \<open>Accept\<close> and the \<open>Close\<close> of its connection: before the
  addition; before the \<open>select\<close>; in the wrapped \<open>Accept\<close>, with what \<open>acquire\<close>
  said; with its connection; before the subtraction, then before the receive, with what it
  returns; and returned. \<open>Conn\<close> there is a connection that was let through and closed.
\<close>

datatype lpc = LBegin | LSelect | LInner bool | LOpen | LRelease accepted | LToken accepted | LDone accepted

text \<open>\<open>inner\<close>: whether the wrapped \<open>Accept\<close> gives a connection; \<open>None\<close>: it waits, or is done.\<close>

fun lpc_step :: "bool \<Rightarrow> lpc \<Rightarrow> listener \<Rightarrow> (lpc \<times> listener) option" where
  "lpc_step inner LBegin l =
     (let c = wrap32 (cur l + 1) in Some (if c > lmax l then LSelect else LInner True, l\<lparr>cur := c\<rparr>))"
| "lpc_step inner LSelect l =
     Some (if int (sem l) < lmax l then (LInner True, l\<lparr>sem := sem l + 1\<rparr>) else (LInner False, l))"
| "lpc_step inner (LInner ok) l =
     Some (if \<not> inner then LRelease ErrInner else if \<not> ok then LRelease ErrLimit else LOpen, l)"
| "lpc_step inner LOpen l = Some (LRelease Conn, l)"
| "lpc_step inner (LRelease r) l =
     (let c = wrap32 (cur l - 1) in Some (if c \<ge> lmax l then LToken r else LDone r, l\<lparr>cur := c\<rparr>))"
| "lpc_step inner (LToken r) l = (if sem l = 0 then None else Some (LDone r, l\<lparr>sem := sem l - 1\<rparr>))"
| "lpc_step inner (LDone r) l = None"

type_synonym lst_sys = "listener \<times> lpc list"

fun takes_token :: "lpc \<Rightarrow> bool" where
  "takes_token (LToken _) = True"
| "takes_token _ = False"

fun granted :: "lpc \<Rightarrow> lpc" where
  "granted (LToken r) = LDone r"
| "granted pc = pc"

text \<open>The goroutine \<open>i\<close> takes its step; without a buffer its send meets the receive of \<open>k\<close>.\<close>

definition lst_step :: "nat \<times> bool \<times> nat \<Rightarrow> lst_sys \<Rightarrow> lst_sys option" where
  "lst_step a s = (case (a, s) of ((i, inner, k), (l, pcs)) \<Rightarrow>
     if i < length pcs then
       if pcs ! i = LSelect \<and> lmax l = 0 \<and> list_ex takes_token pcs
       then if k < length pcs \<and> takes_token (pcs ! k)
            then Some (l, pcs[i := LInner True, k := granted (pcs ! k)]) else None
       else map_option (\<lambda>(pc, l). (l, pcs[i := pc])) (lpc_step inner (pcs ! i) l)
     else None)"

fun lst_run :: "(nat \<times> bool \<times> nat) list \<Rightarrow> lst_sys \<Rightarrow> lst_sys option" where
  "lst_run [] s = Some s"
| "lst_run (a # as) s = Option.bind (lst_step a s) (lst_run as)"

text \<open>Without interference the steps are the operations.\<close>

fun alone :: "nat \<Rightarrow> bool \<Rightarrow> lpc \<Rightarrow> listener \<Rightarrow> (lpc \<times> listener) option" where
  "alone 0 inner pc l = Some (pc, l)"
| "alone (Suc k) inner pc l = Option.bind (lpc_step inner pc l) (\<lambda>(pc, l). alone k inner pc l)"

lemma alone_add: "alone (j + k) inner pc l = Option.bind (alone j inner pc l) (\<lambda>(pc, l). alone k inner pc l)"
proof (induction j arbitrary: pc l)
  case (Suc j)
  then show ?case by (cases "lpc_step inner pc l") auto
qed simp

lemma acquire_alone: "\<exists>k. alone k inner LBegin l = Some (LInner (fst (acquire l)), snd (acquire l))"
proof (cases "wrap32 (cur l + 1) > lmax l")
  case True
  then show ?thesis by (intro exI [of _ 2]) (simp add: numeral_2_eq_2 acquire_def Let_def)
next
  case False
  then show ?thesis by (intro exI [of _ 1]) (simp add: acquire_def Let_def)
qed

lemma release_alone:
  "case release l of
     Some l' \<Rightarrow> \<exists>k. alone k inner (LRelease r) l = Some (LDone r, l')
   | None \<Rightarrow> \<exists>l'. alone 1 inner (LRelease r) l = Some (LToken r, l') \<and> lpc_step inner (LToken r) l' = None"
proof (cases "wrap32 (cur l - 1) \<ge> lmax l")
  case True
  then show ?thesis
    by (cases "sem l = 0") (auto simp: release_def Let_def intro!: exI [of _ 2] simp: numeral_2_eq_2)
next
  case False
  then show ?thesis by (simp add: release_def Let_def) (intro exI [of _ 1], simp)
qed

lemma accept_alone:
  assumes "Accept inner l = Some (r, l')"
  shows "\<exists>k. alone k inner LBegin l = Some (if r = Conn then LOpen else LDone r, l')"
proof -
  obtain ok l1 where a: "acquire l = (ok, l1)" by (cases "acquire l")
  from acquire_alone [of inner l] a obtain j where j: "alone j inner LBegin l = Some (LInner ok, l1)" by auto
  have rel: "\<exists>k. alone k inner LBegin l = Some (LDone e, l')"
    if "lpc_step inner (LInner ok) l1 = Some (LRelease e, l1)" "release l1 = Some l'" for e
  proof -
    from release_alone [where l = l1 and inner = inner and r = e] that(2) obtain k where "alone k inner (LRelease e) l1 = Some (LDone e, l')" by auto
    with that(1) j show ?thesis by (intro exI [of _ "j + Suc k"]) (subst alone_add, simp del: lpc_step.simps)
  qed
  show ?thesis
  proof (cases "inner \<and> ok")
    case True
    with assms a j show ?thesis
      by (intro exI [of _ "j + 1"], subst alone_add) (auto simp: Accept_def)
  next
    case False
    with assms a rel [of r] show ?thesis by (auto simp: Accept_def split: if_splits)
  qed
qed

section \<open>What the counter counts\<close>

fun counted :: "lpc \<Rightarrow> bool" where
  "counted LBegin = False"
| "counted (LToken _) = False"
| "counted (LDone _) = False"
| "counted _ = True"

definition in_flight :: "lpc list \<Rightarrow> nat" where
  "in_flight pcs = length (filter counted pcs)"

lemma in_flight_update:
  assumes "i < length pcs"
  shows "in_flight (pcs[i := pc]) + (if counted (pcs ! i) then 1 else 0) = in_flight pcs + (if counted pc then 1 else 0)"
proof -
  have "in_flight pcs = in_flight (take i pcs @ pcs ! i # drop (Suc i) pcs)"
    using id_take_nth_drop [OF assms] by simp
  then show ?thesis using assms by (simp add: in_flight_def upd_conv_take_nth_drop)
qed

definition lst_inv :: "int \<Rightarrow> lst_sys \<Rightarrow> bool" where
  "lst_inv n s \<longleftrightarrow> lmax (fst s) = n \<and> cur (fst s) = int (in_flight (snd s)) \<and> int (sem (fst s)) \<le> n"

lemma lpc_step_counts:
  assumes "lpc_step inner pc l = Some (pc', l')" "0 \<le> cur l" "cur l < 2 ^ 31 - 1" "counted pc \<Longrightarrow> 0 < cur l"
  shows "lmax l' = lmax l \<and> cur l' + (if counted pc then 1 else 0) = cur l + (if counted pc' then 1 else 0) \<and>
    (int (sem l) \<le> lmax l \<longrightarrow> int (sem l') \<le> lmax l)"
proof -
  have w: "wrap32 (cur l + 1) = cur l + 1" "counted pc \<Longrightarrow> wrap32 (cur l - 1) = cur l - 1"
    using assms(2-4) by (simp_all add: wrap32_id)
  show ?thesis
    using assms(1) w by (cases pc) (auto simp: Let_def split: if_splits)
qed

lemma counted_in_flight: "i < length pcs \<Longrightarrow> counted (pcs ! i) \<Longrightarrow> 0 < in_flight pcs"
  using nth_mem by (fastforce simp: in_flight_def filter_empty_conv)

lemma lst_stepE:
  assumes "lst_step a s = Some s'"
  obtains (own) i inner pc where "i < length (snd s)" "lpc_step inner (snd s ! i) (fst s) = Some (pc, fst s')"
    "snd s' = (snd s)[i := pc]"
  | (meet) i k r where "i < length (snd s)" "k < length (snd s)" "snd s ! i = LSelect" "snd s ! k = LToken r"
    "lmax (fst s) = 0" "fst s' = fst s" "snd s' = (snd s)[i := LInner True, k := LDone r]"
proof -
  obtain i inner k l pcs where s: "a = (i, inner, k)" "s = (l, pcs)" by (cases a; cases s)
  show thesis
  proof (cases "pcs ! i = LSelect \<and> lmax l = 0 \<and> list_ex takes_token pcs")
    case True
    with assms s have "i < length pcs" "k < length pcs" "takes_token (pcs ! k)"
      "s' = (l, pcs[i := LInner True, k := granted (pcs ! k)])"
      by (auto simp: lst_step_def split: if_splits)
    with True s meet [of i k] show thesis by (cases "pcs ! k") auto
  next
    case False
    have "i < length pcs" using assms s by (simp add: lst_step_def split: if_splits)
    moreover from this False assms s have
      "map_option (\<lambda>(pc, l). (l, pcs[i := pc])) (lpc_step inner (pcs ! i) l) = Some s'"
      unfolding lst_step_def s split by (simp only: if_True if_False)
    then obtain pc l' where "lpc_step inner (pcs ! i) l = Some (pc, l')" "s' = (l', pcs[i := pc])" by auto
    ultimately show thesis using own [of i inner pc] s by simp
  qed
qed

lemma lst_step_inv:
  assumes "lst_inv n s" "lst_step a s = Some s'" "int (length (snd s)) < 2 ^ 31 - 1"
  shows "lst_inv n s' \<and> length (snd s') = length (snd s)"
  using assms(2)
proof (cases rule: lst_stepE)
  case (own i inner pc)
  have c: "cur (fst s) = int (in_flight (snd s))" "in_flight (snd s) \<le> length (snd s)"
    using assms(1) by (simp_all add: lst_inv_def in_flight_def)
  from lpc_step_counts [OF own(2)] counted_in_flight [OF own(1)] in_flight_update [OF own(1), of pc] assms(1,3) c own(3)
  show ?thesis by (auto simp: lst_inv_def split: if_splits)
next
  case (meet i k r)
  then have "i \<noteq> k" by auto
  with in_flight_update [OF meet(1), of "LInner True"] in_flight_update [of k "(snd s)[i := LInner True]" "LDone r"] meet assms(1)
  show ?thesis by (simp add: lst_inv_def)
qed

lemma lst_run_inv:
  "lst_inv n s \<Longrightarrow> lst_run as s = Some s' \<Longrightarrow> int (length (snd s)) < 2 ^ 31 - 1 \<Longrightarrow> lst_inv n s'"
proof (induction as arbitrary: s)
  case (Cons a as)
  from Cons.prems(2) obtain s1 where s1: "lst_step a s = Some s1" "lst_run as s1 = Some s'"
    by (auto simp: bind_eq_Some_conv)
  from lst_step_inv [OF Cons.prems(1) s1(1) Cons.prems(3)] have "lst_inv n s1" "length (snd s1) = length (snd s)" by simp_all
  with Cons.IH [OF _ s1(2)] Cons.prems(3) show ?case by metis
qed simp

section \<open>Within the limit\<close>

text \<open>At no moment of the run more than \<open>n\<close> are counted.\<close>

fun within_limit :: "nat \<Rightarrow> (nat \<times> bool \<times> nat) list \<Rightarrow> lst_sys \<Rightarrow> bool" where
  "within_limit n [] s = (in_flight (snd s) \<le> n)"
| "within_limit n (a # as) s =
     (in_flight (snd s) \<le> n \<and> (case lst_step a s of None \<Rightarrow> True | Some s \<Rightarrow> within_limit n as s))"

text \<open>Not turned away by the limit, and not waiting for a token.\<close>

fun unlimited :: "lpc \<Rightarrow> bool" where
  "unlimited LSelect = False"
| "unlimited (LInner ok) = ok"
| "unlimited (LRelease r) = (r \<noteq> ErrLimit)"
| "unlimited (LToken _) = False"
| "unlimited (LDone r) = (r \<noteq> ErrLimit)"
| "unlimited _ = True"

lemma lpc_step_unlimited:
  assumes "lpc_step inner pc l = Some (pc', l')" "0 \<le> cur l" "cur l \<le> lmax l" "cur l < 2 ^ 31 - 1"
    "counted pc \<Longrightarrow> 0 < cur l" "unlimited pc" "cur l' \<le> lmax l"
  shows "unlimited pc' \<and> sem l' = sem l"
proof -
  have w: "wrap32 (cur l + 1) = cur l + 1" "counted pc \<Longrightarrow> wrap32 (cur l - 1) = cur l - 1"
    using assms(2-5) by (simp_all add: wrap32_id)
  show ?thesis
    using assms(1,3,6,7) w by (cases pc) (auto simp: Let_def split: if_splits)
qed

lemma within_limit_start: "within_limit n as s \<Longrightarrow> in_flight (snd s) \<le> n"
  by (cases as) simp_all

lemma lst_step_unlimited:
  assumes "lst_inv (int n) s" "lst_step a s = Some s'" "in_flight (snd s') \<le> n" "in_flight (snd s) \<le> n"
    and "\<forall>pc \<in> set (snd s). unlimited pc" "int (length (snd s)) < 2 ^ 31 - 1"
  shows "(\<forall>pc \<in> set (snd s'). unlimited pc) \<and> sem (fst s') = sem (fst s)"
  using assms(2)
proof (cases rule: lst_stepE)
  case (own i inner pc)
  have c: "cur (fst s) = int (in_flight (snd s))" "in_flight (snd s) \<le> length (snd s)" "lmax (fst s) = int n"
    using assms(1) by (simp_all add: lst_inv_def in_flight_def)
  have c': "cur (fst s') = int (in_flight (snd s'))"
    using lst_step_inv [OF assms(1,2,6)] by (simp add: lst_inv_def)
  have "unlimited pc \<and> sem (fst s') = sem (fst s)"
    by (rule lpc_step_unlimited [OF own(2)])
      (use counted_in_flight [OF own(1)] assms(3-6) c c' own(1) in auto)
  with assms(5) own(3) show ?thesis by (auto dest!: subsetD [OF set_update_subset_insert])
next
  case (meet i k r)
  with assms(5) have "unlimited LSelect" by (metis nth_mem)
  then show ?thesis by simp
qed

lemma lst_run_unlimited:
  assumes "lst_inv (int n) s" "lst_run as s = Some s'" "within_limit n as s"
    and "\<forall>pc \<in> set (snd s). unlimited pc" "int (length (snd s)) < 2 ^ 31 - 1"
  shows "(\<forall>pc \<in> set (snd s'). unlimited pc) \<and> sem (fst s') = sem (fst s)"
  using assms
proof (induction as arbitrary: s)
  case (Cons a as)
  from Cons.prems(2) obtain s1 where s1: "lst_step a s = Some s1" "lst_run as s1 = Some s'"
    by (auto simp: bind_eq_Some_conv)
  from Cons.prems(3) s1 have w: "in_flight (snd s) \<le> n" "within_limit n as s1" by simp_all
  from lst_step_inv [OF Cons.prems(1) s1(1) Cons.prems(5)]
    lst_step_unlimited [OF Cons.prems(1) s1(1) within_limit_start [OF w(2)] w(1) Cons.prems(4,5)]
    Cons.IH [OF _ s1(2) w(2)] Cons.prems(5) show ?case by simp
qed simp

section \<open>The limit zero\<close>

text \<open>An accept alone: where it can be, and what the counter says there.\<close>

fun lone :: "lst_sys \<Rightarrow> bool" where
  "lone (l, [pc]) = (lmax l = 0 \<and> sem l = 0 \<and>
     (case pc of LBegin \<Rightarrow> cur l = 0 | LSelect \<Rightarrow> cur l = 1 | LInner ok \<Rightarrow> \<not> ok \<and> cur l = 1
      | LRelease _ \<Rightarrow> cur l = 1 | LToken _ \<Rightarrow> cur l = 0 | _ \<Rightarrow> False))"
| "lone _ = False"

lemma lone_step: "lone s \<Longrightarrow> lst_step a s = Some s' \<Longrightarrow> lone s'"
  by (cases s rule: lone.cases)
    (auto simp: lst_step_def wrap32_def split: lpc.splits if_splits prod.splits)

lemma lone_run: "lone s \<Longrightarrow> lst_run as s = Some s' \<Longrightarrow> lone s'"
  by (induction as arbitrary: s) (auto simp: bind_eq_Some_conv dest: lone_step)

section \<open>The property\<close>

text \<open>
  A listener with the limit 0. The first accept is turned away and waits for a token; the second
  one's send meets that receive, so its connection is let through.
\<close>

definition two_at_zero :: "(nat \<times> bool \<times> nat) list" where
  "two_at_zero = [(0, True, 0), (0, True, 0), (0, True, 0), (0, True, 0), (1, True, 0), (1, True, 0), (1, True, 0)]"

text \<open>
  C32. The limit. Whatever goroutines accept and close, and however their atomic steps
  interleave, the counter is the number of calls and connections in flight, and the channel
  never holds more than \<open>n\<close> tokens. While no more than \<open>n\<close> are in flight at any moment,
  no goroutine is turned away by the limit or waits for a token; and one call after the other,
  with never more than \<open>n\<close> open (a second \<open>Close\<close> of the same connection included), every
  connection is let through and errors are passed on. But the limit does not hold beyond that. With none closed, the first \<open>2 * n\<close> connections are all accepted (\<open>n\<close> by
  the counter and \<open>n\<close> more by the channel), and from then on every rejected connection gives
  back a token it never had, so that every second one is accepted: \<open>2 * n + 2 * j\<close> attempts
  leave \<open>2 * n + j\<close> connections open. And closing can block: after the first rejection a token
  is missing, and the \<open>n\<close>-th \<open>Close\<close> waits for it for ever. With the limit 0 an accept
  that is alone lets no connection through and never returns; a second one lets its connection through.
\<close>

theorem listener_goroutines:
  assumes "0 < n" "int (2 * n + j) < 2 ^ 31 - 1" "int m < 2 ^ 31 - 1"
  shows "(\<exists>l. NewLimitListener (int n) = Some l \<and>
    (\<forall>as l' pcs. lst_run as (l, replicate m LBegin) = Some (l', pcs) \<longrightarrow>
      cur l' = int (in_flight pcs) \<and> sem l' \<le> n \<and>
      (within_limit n as (l, replicate m LBegin) \<longrightarrow> sem l' = 0 \<and> (\<forall>pc \<in> set pcs. unlimited pc))) \<and>
    (within (int n) ops 0 \<longrightarrow>
      (\<exists>l'. run ops l = Some (expected ops, l') \<and> cur l' = int (open_after ops 0))) \<and>
    (\<exists>l'. accepts (2 * n + 2 * j) l = Some (replicate (2 * n) Conn @ concat (replicate j [ErrLimit, Conn]), l') \<and>
      length (filter (\<lambda>a. a = Conn) (replicate (2 * n) Conn @ concat (replicate j [ErrLimit, Conn]))) = 2 * n + j) \<and>
    (\<exists>l'. accepts (2 * n + 1) l = Some (replicate (2 * n) Conn @ [ErrLimit], l') \<and>
      (\<exists>l''. run (replicate (n - 1) OpClose) l' = Some ([], l'') \<and> Close Open l'' = None))) \<and>
    (\<exists>l. NewLimitListener 0 = Some l \<and>
      (\<forall>as l' pcs. lst_run as (l, [LBegin]) = Some (l', pcs) \<longrightarrow> LOpen \<notin> set pcs \<and> (\<forall>x. LDone x \<notin> set pcs)) \<and>
      (\<exists>l'. lst_run two_at_zero (l, [LBegin, LBegin]) = Some (l', [LDone ErrLimit, LOpen])))"
proof (rule conjI)
  let ?l = "\<lparr>cur = 0, lmax = int n, sem = 0\<rparr>" and ?p = "replicate m LBegin"
  have new: "NewLimitListener (int n) = Some ?l" by (simp add: NewLimitListener_def)
  have "cur l' = int (in_flight pcs) \<and> sem l' \<le> n \<and>
      (within_limit n as (?l, ?p) \<longrightarrow> sem l' = 0 \<and> (\<forall>pc \<in> set pcs. unlimited pc))"
    if r: "lst_run as (?l, ?p) = Some (l', pcs)" for as l' pcs
  proof -
    have inv: "lst_inv (int n) (?l, ?p)" by (simp add: lst_inv_def in_flight_def)
    have len: "int (length (snd (?l, ?p))) < 2 ^ 31 - 1" using assms(3) by simp
    from lst_run_inv [OF inv r len] lst_run_unlimited [OF inv r _ _ len] show ?thesis by (auto simp: lst_inv_def)
  qed
  then show "\<exists>l. NewLimitListener (int n) = Some l \<and>
    (\<forall>as l' pcs. lst_run as (l, replicate m LBegin) = Some (l', pcs) \<longrightarrow>
      cur l' = int (in_flight pcs) \<and> sem l' \<le> n \<and>
      (within_limit n as (l, replicate m LBegin) \<longrightarrow> sem l' = 0 \<and> (\<forall>pc \<in> set pcs. unlimited pc))) \<and>
    (within (int n) ops 0 \<longrightarrow>
      (\<exists>l'. run ops l = Some (expected ops, l') \<and> cur l' = int (open_after ops 0))) \<and>
    (\<exists>l'. accepts (2 * n + 2 * j) l = Some (replicate (2 * n) Conn @ concat (replicate j [ErrLimit, Conn]), l') \<and>
      length (filter (\<lambda>a. a = Conn) (replicate (2 * n) Conn @ concat (replicate j [ErrLimit, Conn]))) = 2 * n + j) \<and>
    (\<exists>l'. accepts (2 * n + 1) l = Some (replicate (2 * n) Conn @ [ErrLimit], l') \<and>
      (\<exists>l''. run (replicate (n - 1) OpClose) l' = Some ([], l'') \<and> Close Open l'' = None))"
    using listener_limit [OF assms(1,2), of ops] unfolding new option.inject by blast
next
  let ?l = "\<lparr>cur = 0, lmax = 0, sem = 0\<rparr>"
  have "LOpen \<notin> set pcs \<and> (\<forall>x. LDone x \<notin> set pcs)" if "lst_run as (?l, [LBegin]) = Some (l', pcs)" for as l' pcs
  proof -
    have "lone (?l, [LBegin])" by simp
    from lone_run [OF this that] show ?thesis by (cases "(l', pcs)" rule: lone.cases) (auto split: lpc.splits)
  qed
  moreover have "lst_run two_at_zero (?l, [LBegin, LBegin]) = Some (?l\<lparr>cur := 1\<rparr>, [LDone ErrLimit, LOpen])" by code_simp
  moreover have "NewLimitListener 0 = Some ?l" by (simp add: NewLimitListener_def)
  ultimately show "\<exists>l. NewLimitListener 0 = Some l \<and>
      (\<forall>as l' pcs. lst_run as (l, [LBegin]) = Some (l', pcs) \<longrightarrow> LOpen \<notin> set pcs \<and> (\<forall>x. LDone x \<notin> set pcs)) \<and>
      (\<exists>l'. lst_run two_at_zero (l, [LBegin, LBegin]) = Some (l', [LDone ErrLimit, LOpen]))" by blast
qed

text \<open>One server and one client: with a limit of one, an accept between the two steps of a close.\<close>

theorem listener_goroutines_witness:
  "\<exists>l. NewLimitListener 1 = Some l \<and>
     (\<exists>l' pcs. lst_run [(0, True, 0), (0, True, 0), (0, True, 0), (1, True, 0), (1, True, 0), (1, True, 0), (0, True, 0)] (l, [LBegin, LBegin]) =
        Some (l', pcs) \<and> cur l' = int (in_flight pcs)) \<and>
     (\<exists>l'. run [OpAccept True, OpClose, OpCloseAgain, OpAccept False] l = Some ([Conn, ErrInner], l') \<and> cur l' = 0) \<and>
     (\<exists>l'. accepts 6 l = Some ([Conn, Conn, ErrLimit, Conn, ErrLimit, Conn], l')) \<and>
     (\<exists>l'. accepts 3 l = Some ([Conn, Conn, ErrLimit], l') \<and> Close Open l' = None)"
proof -
  let ?as = "[(0, True, 0), (0, True, 0), (0, True, 0), (1, True, 0), (1, True, 0), (1, True, 0), (0, True, 0)]"
  have "lst_run ?as (\<lparr>cur = 0, lmax = 1, sem = 0\<rparr>, [LBegin, LBegin]) \<noteq> None" by code_simp
  then obtain l' pcs where r: "lst_run ?as (\<lparr>cur = 0, lmax = 1, sem = 0\<rparr>, [LBegin, LBegin]) = Some (l', pcs)"
    by auto
  have new: "NewLimitListener 1 = Some \<lparr>cur = 0, lmax = 1, sem = 0\<rparr>" by (simp add: NewLimitListener_def)
  have m: "replicate 2 LBegin = [LBegin, LBegin]" by (simp add: numeral_2_eq_2)
  note t = listener_goroutines [of 1 2 2 "[OpAccept True, OpClose, OpCloseAgain, OpAccept False]", unfolded m of_nat_1 new option.inject]
  have "cur l' = int (in_flight pcs)" using t r by fastforce
  with t r show ?thesis unfolding new by (auto simp: numeral_eq_Suc simp del: lst_run.simps)
qed

end
