(* ===== verification/WorkerPool.thy ===== *)
theory WorkerPool
  imports Prelude "HOL-Library.Word"
begin

text \<open>
  \<open>gconcurrent/worker.go\<close>: the worker pool. The goroutines of the pool, the goroutines that
  call it and the one that shuts it down interleave; one step is one atomic operation of the
  code (an atomic load or add, taking or giving back the mutex, a channel operation). A step
  that is not enabled is \<open>None\<close>: the goroutine waits. Jobs are opaque values of type
  \<open>'j\<close>; when a job ends, and whether by a panic, is the choice of the step. The events that
  a step yields are not part of the state: they are what the properties speak of.
\<close>

section \<open>The state\<close>

record wp_option =
  InitWorkerNum :: int
  MaxWorkerNum :: int
  QueueSize :: int
  PanicFunc :: bool

record wp_stats =
  ActiveNum :: "32 word"
  WorkerNum :: "32 word"
  ExecuteNum :: "32 word"
  SubmitFailNum :: "32 word"
  PanicNum :: "32 word"

text \<open>A worker: not yet at its \<open>range\<close>, waiting there (for ever when the channel was
  already nil), holding a job at the statements of \<open>executeOne\<close>, or gone.\<close>

datatype 'j worker =
  WStart | WRange | WStuck | WGot 'j | WActive 'j | WRun 'j | WDefer 'j bool | WRecovered 'j | WExit

text \<open>A caller: the operation and the statement it is at, with the locals read so far.\<close>

datatype 'j wp_call = CExecute 'j | CSubmit 'j | CShutdown

datatype wp_pc =
  LoadActive | LoadWorkers int | Lock int | Grow int | Unlock | LoadQueue | Send bool
| CloseQueue | NilQueue | CancelCtx | Poll
| Returned | TimedOut | Panicked

record 'j pool =
  w_option :: wp_option
  stats :: wp_stats
  queue_nil :: bool
  queue_buf :: "'j list"
  queue_closed :: bool
  ctx_done :: bool
  mux :: "nat option"
  workers :: "'j worker list"
  calls :: "nat \<rightharpoonup> 'j wp_call \<times> wp_pc"

datatype 'j wp_event = Sent 'j | Got 'j | Started 'j | Ended 'j bool | Handled 'j | Refused 'j

abbreviation cap :: "'j pool \<Rightarrow> nat" where
  "cap w \<equiv> nat (QueueSize (w_option w))"

section \<open>Starting workers\<close>

text \<open>One iteration of \<open>run\<close>: the worker is counted and its goroutine started.\<close>

definition run_one :: "'j pool \<Rightarrow> 'j pool" where
  "run_one w =
     w\<lparr>stats := (stats w)\<lparr>WorkerNum := WorkerNum (stats w) + 1\<rparr>,
       workers := workers w @ [WStart]\<rparr>"

fun run_loop :: "nat \<Rightarrow> 'j pool \<Rightarrow> 'j pool" where
  "run_loop 0 w = w"
| "run_loop (Suc n) w = run_loop n (run_one w)"

definition default_option :: wp_option where
  "default_option = \<lparr>InitWorkerNum = 2, MaxWorkerNum = 50, QueueSize = 100, PanicFunc = False\<rparr>"

definition the_option :: "wp_option list \<Rightarrow> wp_option" where
  "the_option opt = (case opt of [] \<Rightarrow> default_option | cfg # _ \<Rightarrow> cfg)"

definition empty_pool :: "wp_option \<Rightarrow> 'j pool" where
  "empty_pool opt =
     \<lparr>w_option = opt, stats = \<lparr>ActiveNum = 0, WorkerNum = 0, ExecuteNum = 0, SubmitFailNum = 0, PanicNum = 0\<rparr>,
      queue_nil = False, queue_buf = [], queue_closed = False, ctx_done = False, mux = None,
      workers = [], calls = Map.empty\<rparr>"

text \<open>A channel of negative capacity is a panic.\<close>

definition NewWorkerPool :: "wp_option list \<Rightarrow> 'j pool option" where
  "NewWorkerPool opt =
     (let cfg = the_option opt
      in if QueueSize cfg < 0 then None
         else Some (run_loop (nat (InitWorkerNum cfg)) (empty_pool cfg)))"

definition Stats :: "'j pool \<Rightarrow> wp_stats" where
  "Stats w = stats w"

definition Option :: "'j pool \<Rightarrow> wp_option" where
  "Option w = w_option w"

section \<open>The steps of a worker\<close>

definition set_worker :: "nat \<Rightarrow> 'j worker \<Rightarrow> 'j pool \<Rightarrow> 'j pool" where
  "set_worker i p w = w\<lparr>workers := (workers w)[i := p]\<rparr>"

text \<open>\<open>for it := range w.queue\<close>: the channel is read once, then a job or the end.\<close>

definition worker_range :: "nat \<Rightarrow> 'j pool \<Rightarrow> ('j wp_event list \<times> 'j pool) option" where
  "worker_range i w =
     (case queue_buf w of
        it # b \<Rightarrow> Some ([Got it], set_worker i (WGot it) (w\<lparr>queue_buf := b\<rparr>))
      | [] \<Rightarrow> if queue_closed w then Some ([], set_worker i WExit w) else None)"

text \<open>\<open>executeOne\<close>; \<open>p\<close>: whether the job panics.\<close>

definition executeOne :: "bool \<Rightarrow> nat \<Rightarrow> 'j worker \<Rightarrow> 'j pool \<Rightarrow> ('j wp_event list \<times> 'j pool) option" where
  "executeOne p i pc w =
     (let st = stats w in
      case pc of
        WGot it \<Rightarrow> Some ([], set_worker i (WActive it) (w\<lparr>stats := st\<lparr>ActiveNum := ActiveNum st + 1\<rparr>\<rparr>))
      | WActive it \<Rightarrow>
          Some ([Started it], set_worker i (WRun it) (w\<lparr>stats := st\<lparr>ExecuteNum := ExecuteNum st + 1\<rparr>\<rparr>))
      | WRun it \<Rightarrow> Some ([Ended it p], set_worker i (WDefer it p) w)
      | WDefer it recovered \<Rightarrow>
          Some ([], set_worker i (if recovered then WRecovered it else WRange)
            (w\<lparr>stats := st\<lparr>ActiveNum := ActiveNum st - 1\<rparr>\<rparr>))
      | WRecovered it \<Rightarrow>
          Some (if PanicFunc (w_option w) then [Handled it] else [],
            set_worker i WRange (w\<lparr>stats := st\<lparr>PanicNum := PanicNum st + 1\<rparr>\<rparr>))
      | _ \<Rightarrow> None)"

definition worker_step :: "bool \<Rightarrow> nat \<Rightarrow> 'j pool \<Rightarrow> ('j wp_event list \<times> 'j pool) option" where
  "worker_step p i w =
     (if i < length (workers w) then
        (case workers w ! i of
           WStart \<Rightarrow> Some ([], set_worker i (if queue_nil w then WStuck else WRange) w)
         | WRange \<Rightarrow> worker_range i w
         | WStuck \<Rightarrow> None
         | WExit \<Rightarrow> None
         | pc \<Rightarrow> executeOne p i pc w)
      else None)"

section \<open>The steps of a caller\<close>

definition set_pc :: "nat \<Rightarrow> 'j wp_call \<Rightarrow> wp_pc \<Rightarrow> 'j pool \<Rightarrow> 'j pool" where
  "set_pc g c pc w = w\<lparr>calls := (calls w)(g \<mapsto> (c, pc))\<rparr>"

definition begin_call :: "nat \<Rightarrow> 'j wp_call \<Rightarrow> 'j pool \<Rightarrow> 'j pool option" where
  "begin_call g c w =
     (case calls w g of
        None \<Rightarrow> Some (set_pc g c (if c = CShutdown then CloseQueue else LoadActive) w)
      | Some _ \<Rightarrow> None)"

text \<open>The number of workers that \<open>incWorker\<close> starts, from the \<open>workerNum\<close> it has read.\<close>

definition incNum :: "int \<Rightarrow> int \<Rightarrow> int" where
  "incNum workerNum maxNum =
     (let inc = go_quot workerNum 2;
          inc = (if inc < 1 then 1 else inc)
      in if workerNum + inc > maxNum then maxNum - workerNum else inc)"

text \<open>\<open>incWorker\<close>, statement by statement; \<open>Grow k\<close> is its call of \<open>run\<close> with \<open>k\<close>
  iterations left.\<close>

definition incWorker :: "nat \<Rightarrow> 'j wp_call \<Rightarrow> wp_pc \<Rightarrow> 'j pool \<Rightarrow> 'j pool option" where
  "incWorker g c pc w =
     (case pc of
        LoadActive \<Rightarrow> Some (set_pc g c (LoadWorkers (sint (ActiveNum (stats w)))) w)
      | LoadWorkers activeNum \<Rightarrow>
          (let workerNum = sint (WorkerNum (stats w))
           in Some (set_pc g c
                (if activeNum = workerNum \<and> workerNum < MaxWorkerNum (w_option w)
                 then Lock workerNum else LoadQueue) w))
      | Lock workerNum \<Rightarrow>
          (case mux w of
             Some _ \<Rightarrow> None
           | None \<Rightarrow> Some (set_pc g c (Grow (incNum workerNum (MaxWorkerNum (w_option w)))) (w\<lparr>mux := Some g\<rparr>)))
      | Grow k \<Rightarrow>
          Some (if k > 0 then set_pc g c (Grow (k - 1)) (run_one w) else set_pc g c Unlock w)
      | Unlock \<Rightarrow> Some (set_pc g c LoadQueue (w\<lparr>mux := None\<rparr>))
      | _ \<Rightarrow> None)"

text \<open>\<open>Send n\<close>: at the send, on a nil channel when \<open>n\<close>. A send on a closed channel
  panics, on a nil one it waits for ever, on a full one until there is room.\<close>

definition send_step :: "nat \<Rightarrow> 'j \<Rightarrow> 'j wp_call \<Rightarrow> bool \<Rightarrow> 'j pool \<Rightarrow> ('j wp_event list \<times> 'j pool) option" where
  "send_step g it c n w =
     (if n then None
      else if queue_closed w then Some ([], set_pc g c Panicked w)
      else if length (queue_buf w) < cap w
      then Some ([Sent it], set_pc g c Returned (w\<lparr>queue_buf := queue_buf w @ [it]\<rparr>))
      else None)"

definition Shutdown :: "nat \<Rightarrow> wp_pc \<Rightarrow> bool \<Rightarrow> 'j pool \<Rightarrow> 'j pool option" where
  "Shutdown g pc timer w =
     (case pc of
        CloseQueue \<Rightarrow>
          Some (if queue_nil w \<or> queue_closed w then set_pc g CShutdown Panicked w
                else set_pc g CShutdown NilQueue (w\<lparr>queue_closed := True\<rparr>))
      | NilQueue \<Rightarrow> Some (set_pc g CShutdown CancelCtx (w\<lparr>queue_nil := True\<rparr>))
      | CancelCtx \<Rightarrow> Some (set_pc g CShutdown Poll (w\<lparr>ctx_done := True\<rparr>))
      | Poll \<Rightarrow>
          (if timer
           then Some (if ActiveNum (stats w) = 0 then set_pc g CShutdown Returned w else w)
           else Some (set_pc g CShutdown TimedOut w))
      | _ \<Rightarrow> None)"

definition job_of :: "'j wp_call \<Rightarrow> 'j option" where
  "job_of c = (case c of CExecute it \<Rightarrow> Some it | CSubmit it \<Rightarrow> Some it | CShutdown \<Rightarrow> None)"

text \<open>A step of a caller. \<open>choice\<close>: which case of its \<open>select\<close> runs, for a \<open>Submit\<close>
  the timer or the send, for a \<open>Shutdown\<close> the timer or the end of its context.\<close>

definition caller_step :: "bool \<Rightarrow> nat \<Rightarrow> 'j pool \<Rightarrow> ('j wp_event list \<times> 'j pool) option" where
  "caller_step choice g w =
     (case calls w g of
        None \<Rightarrow> None
      | Some (c, pc) \<Rightarrow>
          (case job_of c of
             None \<Rightarrow> map_option (Pair []) (Shutdown g pc choice w)
           | Some it \<Rightarrow>
               (case pc of
                  LoadQueue \<Rightarrow> Some ([], set_pc g c (Send (queue_nil w)) w)
                | Send n \<Rightarrow>
                    if choice \<and> c = CSubmit it
                    then Some ([Refused it], set_pc g c TimedOut
                      (w\<lparr>stats := (stats w)\<lparr>SubmitFailNum := SubmitFailNum (stats w) + 1\<rparr>\<rparr>))
                    else send_step g it c n w
                | _ \<Rightarrow> map_option (Pair []) (incWorker g c pc w))))"

text \<open>A send that meets a waiting worker: the job goes from the one to the other.\<close>

definition handoff :: "nat \<Rightarrow> nat \<Rightarrow> 'j pool \<Rightarrow> ('j wp_event list \<times> 'j pool) option" where
  "handoff g i w =
     (case calls w g of
        Some (c, Send False) \<Rightarrow>
          (case job_of c of
             None \<Rightarrow> None
           | Some it \<Rightarrow>
               if i < length (workers w) \<and> workers w ! i = WRange \<and> queue_buf w = [] \<and> \<not> queue_closed w
               then Some ([Sent it, Got it], set_pc g c Returned (set_worker i (WGot it) w))
               else None)
      | _ \<Rightarrow> None)"

section \<open>Runs\<close>

datatype 'j wp_step = SBegin nat "'j wp_call" | SCaller bool nat | SWorker bool nat | SHand nat nat

fun do_step :: "'j wp_step \<Rightarrow> 'j pool \<Rightarrow> ('j wp_event list \<times> 'j pool) option" where
  "do_step (SBegin g c) w = map_option (Pair []) (begin_call g c w)"
| "do_step (SCaller b g) w = caller_step b g w"
| "do_step (SWorker p i) w = worker_step p i w"
| "do_step (SHand g i) w = handoff g i w"

inductive wp_reach :: "wp_option list \<Rightarrow> 'j wp_event list \<Rightarrow> 'j pool \<Rightarrow> bool" for opt where
  start: "NewWorkerPool opt = Some w \<Longrightarrow> wp_reach opt [] w"
| step: "wp_reach opt es w \<Longrightarrow> do_step d w = Some (es', w') \<Longrightarrow> wp_reach opt (es @ es') w'"

fun do_steps :: "'j wp_step list \<Rightarrow> 'j pool \<Rightarrow> ('j wp_event list \<times> 'j pool) option" where
  "do_steps [] w = Some ([], w)"
| "do_steps (d # ds) w = do { (es, w) \<leftarrow> do_step d w; (es', w) \<leftarrow> do_steps ds w; Some (es @ es', w) }"

lemma reach_steps:
  "wp_reach opt es w \<Longrightarrow> do_steps ds w = Some (es', w') \<Longrightarrow> wp_reach opt (es @ es') w'"
proof (induction ds arbitrary: es w es')
  case (Cons d ds)
  then obtain e1 w1 e2 where "do_step d w = Some (e1, w1)" "do_steps ds w1 = Some (e2, w')" "es' = e1 @ e2"
    by (auto simp: bind_eq_Some_conv)
  with Cons.IH [OF wp_reach.step [OF Cons.prems(1)]] show ?case by simp
qed simp

end
