(* ===== verification/WorkerProps.thy ===== *)
theory WorkerProps
  imports WorkerPool "HOL-Library.Multiset"
begin

text \<open>
  What the worker pool guarantees: the accounting of jobs and counters in every reachable
  state, the bound on the number of workers and when it holds, and the shutdown.
\<close>

section \<open>Reading a history\<close>

definition sents :: "'j wp_event list \<Rightarrow> 'j list" where
  "sents es = concat (map (\<lambda>e. case e of Sent it \<Rightarrow> [it] | _ \<Rightarrow> []) es)"

definition gots :: "'j wp_event list \<Rightarrow> 'j list" where
  "gots es = concat (map (\<lambda>e. case e of Got it \<Rightarrow> [it] | _ \<Rightarrow> []) es)"

definition starts :: "'j wp_event list \<Rightarrow> 'j list" where
  "starts es = concat (map (\<lambda>e. case e of Started it \<Rightarrow> [it] | _ \<Rightarrow> []) es)"

definition ends :: "'j wp_event list \<Rightarrow> ('j \<times> bool) list" where
  "ends es = concat (map (\<lambda>e. case e of Ended it p \<Rightarrow> [(it, p)] | _ \<Rightarrow> []) es)"

definition refusals :: "'j wp_event list \<Rightarrow> 'j list" where
  "refusals es = concat (map (\<lambda>e. case e of Refused it \<Rightarrow> [it] | _ \<Rightarrow> []) es)"

lemma history_append [simp]:
  "sents (es @ fs) = sents es @ sents fs" "gots (es @ fs) = gots es @ gots fs"
  "starts (es @ fs) = starts es @ starts fs" "ends (es @ fs) = ends es @ ends fs"
  "refusals (es @ fs) = refusals es @ refusals fs"
  by (simp_all add: sents_def gots_def starts_def ends_def refusals_def)

lemma history_Nil [simp]:
  "sents [] = []" "gots [] = []" "starts [] = []" "ends [] = []" "refusals [] = []"
  by (simp_all add: sents_def gots_def starts_def ends_def refusals_def)

lemma history_Cons [simp]:
  "sents (Sent it # es) = it # sents es" "gots (Sent it # es) = gots es" "starts (Sent it # es) = starts es"
  "ends (Sent it # es) = ends es" "refusals (Sent it # es) = refusals es"
  "sents (Got it # es) = sents es" "gots (Got it # es) = it # gots es" "starts (Got it # es) = starts es"
  "ends (Got it # es) = ends es" "refusals (Got it # es) = refusals es"
  "sents (Started it # es) = sents es" "gots (Started it # es) = gots es" "starts (Started it # es) = it # starts es"
  "ends (Started it # es) = ends es" "refusals (Started it # es) = refusals es"
  "sents (Ended it p # es) = sents es" "gots (Ended it p # es) = gots es" "starts (Ended it p # es) = starts es"
  "ends (Ended it p # es) = (it, p) # ends es" "refusals (Ended it p # es) = refusals es"
  "sents (Handled it # es) = sents es" "gots (Handled it # es) = gots es" "starts (Handled it # es) = starts es"
  "ends (Handled it # es) = ends es" "refusals (Handled it # es) = refusals es"
  "sents (Refused it # es) = sents es" "gots (Refused it # es) = gots es" "starts (Refused it # es) = starts es"
  "ends (Refused it # es) = ends es" "refusals (Refused it # es) = it # refusals es"
  by (simp_all add: sents_def gots_def starts_def ends_def refusals_def)

text \<open>The jobs that the workers hold: taken and not started, and running.\<close>

fun taken_by :: "'j worker \<Rightarrow> 'j multiset" where
  "taken_by (WGot it) = {#it#}"
| "taken_by (WActive it) = {#it#}"
| "taken_by _ = {#}"

fun run_by :: "'j worker \<Rightarrow> 'j multiset" where
  "run_by (WRun it) = {#it#}"
| "run_by _ = {#}"

text \<open>The workers that \<open>ActiveNum\<close> counts, and those about to count a panic.\<close>

fun is_active :: "'j worker \<Rightarrow> bool" where
  "is_active (WActive _) = True"
| "is_active (WRun _) = True"
| "is_active (WDefer _ _) = True"
| "is_active _ = False"

fun owes_panic :: "'j worker \<Rightarrow> bool" where
  "owes_panic (WDefer _ p) = p"
| "owes_panic (WRecovered _) = True"
| "owes_panic _ = False"

abbreviation the_workers :: "('j worker \<Rightarrow> bool) \<Rightarrow> 'j pool \<Rightarrow> nat" where
  "the_workers P w \<equiv> length (filter P (workers w))"

definition accounted :: "'j wp_event list \<Rightarrow> 'j pool \<Rightarrow> bool" where
  "accounted es w \<longleftrightarrow>
     sents es = gots es @ queue_buf w \<and>
     mset (gots es) = mset (starts es) + \<Sum>\<^sub># (mset (map taken_by (workers w))) \<and>
     mset (starts es) = mset (map fst (ends es)) + \<Sum>\<^sub># (mset (map run_by (workers w))) \<and>
     length (queue_buf w) \<le> cap w"

definition counted :: "'j wp_event list \<Rightarrow> 'j pool \<Rightarrow> bool" where
  "counted es w \<longleftrightarrow>
     WorkerNum (stats w) = of_nat (length (workers w)) \<and>
     ActiveNum (stats w) = of_nat (the_workers is_active w) \<and>
     ExecuteNum (stats w) = of_nat (length (starts es)) \<and>
     SubmitFailNum (stats w) = of_nat (length (refusals es)) \<and>
     PanicNum (stats w) + of_nat (the_workers owes_panic w) = of_nat (length (filter snd (ends es)))"

section \<open>Every step keeps the accounts\<close>

text \<open>A step of worker \<open>i\<close> changes only its own place in the list.\<close>

lemma split_worker:
  assumes "i < length (workers w)"
  obtains us vs where "workers w = us @ workers w ! i # vs" "length us = i"
  using id_take_nth_drop [OF assms] assms by (metis length_take min.absorb4)

lemma worker_step_accounts:
  assumes "worker_step p i w = Some (es', w')"
  shows "accounted es w \<Longrightarrow> accounted (es @ es') w'"
    and "counted es w \<Longrightarrow> counted (es @ es') w'"
proof -
  have i: "i < length (workers w)" using assms by (simp add: worker_step_def split: if_splits)
  then obtain us vs where w: "workers w = us @ workers w ! i # vs" "length us = i" by (rule split_worker)
  note step = assms [unfolded worker_step_def worker_range_def executeOne_def set_worker_def]
  show "accounted es w \<Longrightarrow> accounted (es @ es') w'"
    using step i w
    by (auto simp: accounted_def Let_def list_update_append split: worker.splits list.splits if_splits)
  show "counted es w \<Longrightarrow> counted (es @ es') w'"
    using step i w
    by (auto simp: counted_def Let_def list_update_append ac_simps split: worker.splits list.splits if_splits)
qed


lemma run_one_accounts:
  "accounted es w \<Longrightarrow> accounted es (run_one w)" "counted es w \<Longrightarrow> counted es (run_one w)"
  by (auto simp: run_one_def accounted_def counted_def add.commute)

lemma run_loop_accounts:
  "accounted es w \<Longrightarrow> accounted es (run_loop n w)" "counted es w \<Longrightarrow> counted es (run_loop n w)"
  by (induction n arbitrary: w) (auto dest: run_one_accounts)

text \<open>Most steps of a caller touch nothing that is accounted for.\<close>

lemma accounts_frame [simp]:
  "accounted es (set_pc g c pc w) = accounted es w" "counted es (set_pc g c pc w) = counted es w"
  "accounted es (w\<lparr>mux := m\<rparr>) = accounted es w" "counted es (w\<lparr>mux := m\<rparr>) = counted es w"
  "accounted es (w\<lparr>queue_closed := b\<rparr>) = accounted es w" "counted es (w\<lparr>queue_closed := b\<rparr>) = counted es w"
  "accounted es (w\<lparr>queue_nil := b\<rparr>) = accounted es w" "counted es (w\<lparr>queue_nil := b\<rparr>) = counted es w"
  "accounted es (w\<lparr>ctx_done := b\<rparr>) = accounted es w" "counted es (w\<lparr>ctx_done := b\<rparr>) = counted es w"
  by (simp_all add: accounted_def counted_def set_pc_def)

lemma incWorker_accounts:
  assumes "incWorker g c pc w = Some w'"
  shows "accounted es w \<Longrightarrow> accounted es w'" and "counted es w \<Longrightarrow> counted es w'"
  using assms
  by (auto simp: incWorker_def Let_def run_one_accounts
      split: wp_pc.splits option.splits if_splits)

lemma Shutdown_accounts:
  assumes "Shutdown g pc b w = Some w'"
  shows "accounted es w' = accounted es w" and "counted es w' = counted es w"
  using assms
  by (auto simp: Shutdown_def split: wp_pc.splits if_splits)

lemma send_step_accounts:
  assumes "send_step g it c n w = Some (es', w')"
  shows "accounted es w \<Longrightarrow> accounted (es @ es') w'" and "counted es w \<Longrightarrow> counted (es @ es') w'"
  using assms by (auto simp: send_step_def accounted_def counted_def set_pc_def split: if_splits)

text \<open>What a step of a caller can be.\<close>

lemma caller_step_cases:
  assumes "caller_step b g w = Some (es', w')"
  obtains (shut) pc where "calls w g = Some (CShutdown, pc)" "es' = []" "Shutdown g pc b w = Some w'"
  | (load) c it where "calls w g = Some (c, LoadQueue)" "job_of c = Some it" "es' = []"
      "w' = set_pc g c (Send (queue_nil w)) w"
  | (send) c it n where "calls w g = Some (c, Send n)" "job_of c = Some it" "send_step g it c n w = Some (es', w')"
  | (late) c it n where "calls w g = Some (c, Send n)" "job_of c = Some it" "es' = [Refused it]"
      "w' = set_pc g c TimedOut (w\<lparr>stats := (stats w)\<lparr>SubmitFailNum := SubmitFailNum (stats w) + 1\<rparr>\<rparr>)"
  | (inc) c it pc where "calls w g = Some (c, pc)" "job_of c = Some it" "es' = []" "incWorker g c pc w = Some w'"
proof -
  from assms obtain c pc where c: "calls w g = Some (c, pc)"
    by (auto simp: caller_step_def split: option.splits)
  note step = assms [unfolded caller_step_def c, simplified]
  show thesis
  proof (cases "job_of c")
    case None
    then have "c = CShutdown" by (cases c) (simp_all add: job_of_def)
    with None step show thesis by (intro shut [of pc]) (auto simp: c)
  next
    case (Some it)
    show thesis
    proof (cases pc)
      case LoadQueue
      with Some step show thesis by (intro load [of c it]) (auto simp: c)
    next
      case (Send n)
      show thesis
      proof (cases "b \<and> c = CSubmit it")
        case True
        with Some Send step show thesis by (intro late [of c n it]) (auto simp: c)
      next
        case False
        with Some Send step have "send_step g it c n w = Some (es', w')" by (auto split: if_splits)
        with Some Send show thesis by (intro send [of c n it]) (simp_all add: c)
      qed
    qed (use Some step c in \<open>auto intro: inc [of c _ it]\<close>)
  qed
qed

lemma caller_step_accounts:
  assumes "caller_step b g w = Some (es', w')"
  shows "accounted es w \<Longrightarrow> accounted (es @ es') w'" and "counted es w \<Longrightarrow> counted (es @ es') w'"
  using assms
proof (atomize (full), cases rule: caller_step_cases)
  case shut
  then show "(accounted es w \<longrightarrow> accounted (es @ es') w') \<and> (counted es w \<longrightarrow> counted (es @ es') w')"
    by (simp add: Shutdown_accounts)
next
  case send
  then show "(accounted es w \<longrightarrow> accounted (es @ es') w') \<and> (counted es w \<longrightarrow> counted (es @ es') w')"
    using send_step_accounts [OF send(3)] by simp
next
  case late
  then show "(accounted es w \<longrightarrow> accounted (es @ es') w') \<and> (counted es w \<longrightarrow> counted (es @ es') w')"
    by (simp add: accounted_def counted_def set_pc_def)
next
  case inc
  then show "(accounted es w \<longrightarrow> accounted (es @ es') w') \<and> (counted es w \<longrightarrow> counted (es @ es') w')"
    using incWorker_accounts [OF inc(4)] by simp
qed simp

lemma handoff_accounts:
  assumes "handoff g i w = Some (es', w')"
  shows "accounted es w \<Longrightarrow> accounted (es @ es') w'" and "counted es w \<Longrightarrow> counted (es @ es') w'"
proof -
  from assms obtain c it where i: "i < length (workers w)" "workers w ! i = WRange" "queue_buf w = []"
    and e: "es' = [Sent it, Got it]" and w': "w' = set_pc g c Returned (set_worker i (WGot it) w)"
    by (auto simp: handoff_def split: option.splits prod.splits wp_pc.splits bool.splits if_splits)
  from i(1) obtain us vs where "workers w = us @ workers w ! i # vs" "length us = i" by (rule split_worker)
  then show "accounted es w \<Longrightarrow> accounted (es @ es') w'" and "counted es w \<Longrightarrow> counted (es @ es') w'"
    using i unfolding e w'
    by (auto simp: accounted_def counted_def set_worker_def set_pc_def list_update_append)
qed

lemma do_step_accounts:
  assumes "do_step d w = Some (es', w')" "accounted es w" "counted es w"
  shows "accounted (es @ es') w' \<and> counted (es @ es') w'"
proof (cases d)
  case (SBegin g c)
  then show ?thesis using assms by (auto simp: begin_call_def split: option.splits)
next
  case (SCaller b g)
  then show ?thesis using assms caller_step_accounts by auto
next
  case (SWorker p i)
  then show ?thesis using assms worker_step_accounts by auto
next
  case (SHand g i)
  then show ?thesis using assms handoff_accounts by auto
qed

lemma reach_accounts: "wp_reach opt es w \<Longrightarrow> accounted es w \<and> counted es w"
proof (induction rule: wp_reach.induct)
  case (start w)
  then show ?case
    by (auto simp: NewWorkerPool_def Let_def intro!: run_loop_accounts split: if_splits)
      (auto simp: empty_pool_def accounted_def counted_def)
next
  case (step es w d es' w')
  then show ?case using do_step_accounts by blast
qed

section \<open>One call of incWorker at a time\<close>

text \<open>The callers between the decision of \<open>incWorker\<close> to grow and the end of its \<open>run\<close>.\<close>

definition growing :: "'j pool \<Rightarrow> nat set" where
  "growing w = {g. \<exists>c n. calls w g = Some (c, Lock n) \<or> calls w g = Some (c, Grow n)}"

inductive solo_reach :: "wp_option list \<Rightarrow> 'j wp_event list \<Rightarrow> 'j pool \<Rightarrow> bool" for opt where
  start: "NewWorkerPool opt = Some w \<Longrightarrow> solo_reach opt [] w"
| step: "solo_reach opt es w \<Longrightarrow> do_step d w = Some (es', w') \<Longrightarrow>
    (\<forall>g \<in> growing w'. \<forall>h \<in> growing w'. g = h) \<Longrightarrow> solo_reach opt (es @ es') w'"

lemma solo_reachable: "solo_reach opt es w \<Longrightarrow> wp_reach opt es w"
  by (induction rule: solo_reach.induct) (auto intro: wp_reach.intros)

text \<open>
  What keeps the number of workers within \<open>m\<close>: a decision to grow was taken on the
  present number, and the rest of a \<open>run\<close> still fits.
\<close>

definition pool_limit :: "wp_option \<Rightarrow> int" where
  "pool_limit opt = max 0 (max (InitWorkerNum opt) (MaxWorkerNum opt))"

definition within_limit :: "'j pool \<Rightarrow> bool" where
  "within_limit w \<longleftrightarrow>
     int (length (workers w)) \<le> pool_limit (w_option w) \<and>
     (\<forall>g c n. calls w g = Some (c, Lock n) \<longrightarrow> n = int (length (workers w)) \<and> n < MaxWorkerNum (w_option w)) \<and>
     (\<forall>g c k. calls w g = Some (c, Grow k) \<longrightarrow> 0 < k \<longrightarrow>
        int (length (workers w)) + k \<le> MaxWorkerNum (w_option w))"

lemma incNum_fits: "0 \<le> n \<Longrightarrow> n < m \<Longrightarrow> 1 \<le> incNum n m \<and> n + incNum n m \<le> m"
  by (simp add: incNum_def Let_def go_quot_nonneg)

lemma set_worker_frame [simp]:
  "length (workers (set_worker i p w)) = length (workers w)" "calls (set_worker i p w) = calls w"
  "w_option (set_worker i p w) = w_option w"
  by (simp_all add: set_worker_def)

lemma worker_step_frame:
  assumes "worker_step p i w = Some (es', w')"
  shows "length (workers w') = length (workers w) \<and> calls w' = calls w \<and> w_option w' = w_option w"
  using assms
  by (auto simp: worker_step_def worker_range_def executeOne_def Let_def
      split: worker.splits list.splits if_splits)

lemma within_limit_frame:
  assumes "within_limit w" "length (workers w') = length (workers w)" "w_option w' = w_option w"
    and "\<And>g c n. calls w' g = Some (c, Lock n) \<Longrightarrow> calls w g = Some (c, Lock n)"
    and "\<And>g c n. calls w' g = Some (c, Grow n) \<Longrightarrow> calls w g = Some (c, Grow n)"
  shows "within_limit w'"
  using assms unfolding within_limit_def by metis

lemma set_pc_frame [simp]:
  "workers (set_pc g c pc w) = workers w" "w_option (set_pc g c pc w) = w_option w"
  "calls (set_pc g c pc w) h = (if h = g then Some (c, pc) else calls w h)"
  "stats (set_pc g c pc w) = stats w"
  by (simp_all add: set_pc_def)

text \<open>The steps of a caller outside \<open>incWorker\<close> start no worker and decide nothing.\<close>

lemma other_frame:
  "Shutdown g pc b w = Some w' \<Longrightarrow> workers w' = workers w \<and> w_option w' = w_option w \<and>
     (\<forall>h c n. calls w' h = Some (c, Lock n) \<or> calls w' h = Some (c, Grow n) \<longrightarrow> calls w h = calls w' h)"
  "send_step g it c n w = Some (es', w') \<Longrightarrow> workers w' = workers w \<and> w_option w' = w_option w \<and>
     (\<forall>h c n. calls w' h = Some (c, Lock n) \<or> calls w' h = Some (c, Grow n) \<longrightarrow> calls w h = calls w' h)"
  by (auto simp: Shutdown_def send_step_def split: wp_pc.splits if_splits)

lemma within_limit_other:
  assumes "within_limit w" "workers w' = workers w \<and> w_option w' = w_option w \<and>
     (\<forall>h c n. calls w' h = Some (c, Lock n) \<or> calls w' h = Some (c, Grow n) \<longrightarrow> calls w h = calls w' h)"
  shows "within_limit w'"
proof (rule within_limit_frame [OF assms(1)])
  show "length (workers w') = length (workers w)" "w_option w' = w_option w" using assms(2) by simp_all
  show "calls w h = Some (d, Lock n)" if "calls w' h = Some (d, Lock n)" for h d n
    using assms(2) that by metis
  show "calls w h = Some (d, Grow n)" if "calls w' h = Some (d, Grow n)" for h d n
    using assms(2) that by metis
qed

lemma counted_workers:
  assumes "counted es w" "within_limit w" "pool_limit (w_option w) < 2 ^ 31"
  shows "sint (WorkerNum (stats w)) = int (length (workers w))"
proof -
  have "length (workers w) < 2 ^ 31" using assms(2,3) by (simp add: within_limit_def)
  then have "sint (of_nat (length (workers w)) :: 32 word) = int (length (workers w))"
    by (simp add: signed_of_nat signed_take_bit_int_eq_self)
  then show ?thesis using assms(1) by (simp add: counted_def)
qed

lemma incWorker_within:
  assumes "incWorker g c pc w = Some w'" "calls w g = Some (c, pc)" "within_limit w"
    and "sint (WorkerNum (stats w)) = int (length (workers w))"
    and "\<forall>g \<in> growing w. \<forall>h \<in> growing w. g = h"
  shows "within_limit w'"
proof (cases pc)
  case LoadActive
  then have "w' = set_pc g c (LoadWorkers (sint (ActiveNum (stats w)))) w" using assms(1) by (simp add: incWorker_def)
  then show ?thesis by (auto intro!: within_limit_other [OF assms(3)] split: if_splits)
next
  case (LoadWorkers a)
  then have "w' = set_pc g c (if a = int (length (workers w)) \<and> int (length (workers w)) < MaxWorkerNum (w_option w)
      then Lock (int (length (workers w))) else LoadQueue) w"
    using assms(1,4) by (simp add: incWorker_def Let_def)
  then show ?thesis using assms(3) by (auto simp: within_limit_def)
next
  case (Lock n)
  then have n: "n = int (length (workers w))" "n < MaxWorkerNum (w_option w)"
    using assms(2,3) unfolding within_limit_def by blast+
  from Lock have "w' = set_pc g c (Grow (incNum n (MaxWorkerNum (w_option w)))) (w\<lparr>mux := Some g\<rparr>)"
    using assms(1) by (simp add: incWorker_def split: option.splits)
  then show ?thesis using assms(3) n incNum_fits [of n "MaxWorkerNum (w_option w)"]
    by (auto simp: within_limit_def)
next
  case (Grow k)
  have only: "h = g" if "calls w h = Some (d, Lock n) \<or> calls w h = Some (d, Grow n)" for h d n
    using assms(2,5) Grow that unfolding growing_def by blast
  have k: "0 < k \<Longrightarrow> int (length (workers w)) + k \<le> MaxWorkerNum (w_option w)"
    using assms(2,3) Grow unfolding within_limit_def by blast
  have "w' = (if k > 0 then set_pc g c (Grow (k - 1)) (run_one w) else set_pc g c Unlock w)"
    using assms(1) Grow by (simp add: incWorker_def)
  then show ?thesis using assms(3) k only
    by (auto simp: within_limit_def run_one_def pool_limit_def split: if_splits)
next
  case Unlock
  then have "w' = set_pc g c LoadQueue (w\<lparr>mux := None\<rparr>)" using assms(1) by (simp add: incWorker_def)
  then show ?thesis by (auto intro!: within_limit_other [OF assms(3)] split: if_splits)
qed (use assms(1) in \<open>simp_all add: incWorker_def\<close>)

lemma do_step_within:
  assumes "do_step d w = Some (es', w')" "within_limit w"
    and "sint (WorkerNum (stats w)) = int (length (workers w))"
    and "\<forall>g \<in> growing w. \<forall>h \<in> growing w. g = h"
  shows "within_limit w'"
proof (cases d)
  case (SBegin g c)
  then show ?thesis using assms(1)
    by (auto simp: begin_call_def intro!: within_limit_other [OF assms(2)] split: option.splits if_splits)
next
  case (SCaller b g)
  then have "caller_step b g w = Some (es', w')" using assms(1) by simp
  then show ?thesis
  proof (cases rule: caller_step_cases)
    case shut
    then show ?thesis using within_limit_other [OF assms(2)] other_frame(1) by blast
  next
    case send
    then show ?thesis using within_limit_other [OF assms(2) other_frame(2) [OF send(3)]] by simp
  next
    case inc
    then show ?thesis using incWorker_within assms(2-4) by blast
  qed (auto intro!: within_limit_other [OF assms(2)] split: if_splits)
next
  case (SWorker p i)
  then have "worker_step p i w = Some (es', w')" using assms(1) by simp
  from worker_step_frame [OF this] show ?thesis by (intro within_limit_frame [OF assms(2)]) simp_all
next
  case (SHand g i)
  then show ?thesis using assms(1)
    by (auto simp: handoff_def intro!: within_limit_frame [OF assms(2)]
        split: option.splits prod.splits wp_pc.splits bool.splits if_splits)
qed

lemma option_fixed: "do_step d w = Some (es', w') \<Longrightarrow> w_option w' = w_option w"
proof (cases d)
  case (SCaller b g)
  moreover assume "do_step d w = Some (es', w')"
  ultimately have "caller_step b g w = Some (es', w')" by simp
  then show ?thesis
  proof (cases rule: caller_step_cases)
    case inc
    then show ?thesis
      by (auto simp: incWorker_def run_one_def Let_def split: wp_pc.splits option.splits if_splits)
  qed (auto dest: other_frame)
qed (auto simp: begin_call_def handoff_def dest: worker_step_frame
    split: option.splits prod.splits wp_pc.splits bool.splits if_splits)

lemma run_loop_workers: "workers (run_loop n w) = workers w @ replicate n WStart"
  "w_option (run_loop n w) = w_option w" "calls (run_loop n w) = calls w"
  by (induction n arbitrary: w) (simp_all add: run_one_def replicate_append_same)

lemma solo_within:
  assumes "solo_reach opt es w" "pool_limit (the_option opt) < 2 ^ 31"
  shows "within_limit w \<and> w_option w = the_option opt \<and> (\<forall>g \<in> growing w. \<forall>h \<in> growing w. g = h)"
  using assms(1)
proof (induction rule: solo_reach.induct)
  case (start w)
  then have "w = run_loop (nat (InitWorkerNum (the_option opt))) (empty_pool (the_option opt))"
    by (simp add: NewWorkerPool_def Let_def split: if_splits)
  then show ?case
    by (auto simp: run_loop_workers within_limit_def growing_def empty_pool_def pool_limit_def)
next
  case (step es w d es' w')
  have "counted es w" using solo_reachable [OF step(1)] reach_accounts by blast
  with step.IH assms(2) have "sint (WorkerNum (stats w)) = int (length (workers w))"
    by (intro counted_workers) simp_all
  with step show ?case using do_step_within [OF step(2)] option_fixed [OF step(2)] by simp
qed

section \<open>Callers that decide together\<close>

text \<open>
  A pool of one worker, busy, that may grow to two: \<open>busy it\<close> after the job \<open>it\<close>
  was accepted and started.
\<close>

definition small :: wp_option where
  "small = \<lparr>InitWorkerNum = 1, MaxWorkerNum = 2, QueueSize = 1, PanicFunc = False\<rparr>"

definition busy_steps :: "'j \<Rightarrow> 'j wp_step list" where
  "busy_steps it =
     [SWorker False 0, SBegin 0 (CExecute it), SCaller False 0, SCaller False 0, SCaller False 0, SCaller False 0,
      SWorker False 0, SWorker False 0]"

definition busy :: "'j \<Rightarrow> (nat \<rightharpoonup> 'j wp_call \<times> wp_pc) \<Rightarrow> nat \<Rightarrow> 'j pool" where
  "busy it cs n =
     \<lparr>w_option = small,
      stats = \<lparr>ActiveNum = 1, WorkerNum = of_nat (Suc n), ExecuteNum = 0, SubmitFailNum = 0, PanicNum = 0\<rparr>,
      queue_nil = False, queue_buf = [], queue_closed = False, ctx_done = False, mux = None,
      workers = WActive it # replicate n WStart, calls = cs\<rparr>"

lemmas step_defs = worker_step_def worker_range_def executeOne_def begin_call_def caller_step_def
  incWorker_def send_step_def set_worker_def set_pc_def job_of_def Let_def

lemma busy_reached:
  "\<exists>w es. NewWorkerPool [small] = Some w \<and>
     do_steps (busy_steps it) w = Some (es, busy it [0 \<mapsto> (CExecute it, Returned)] 0)"
  by (simp add: NewWorkerPool_def the_option_def small_def empty_pool_def run_one_def busy_steps_def
      busy_def step_defs numeral_eq_Suc)

lemma do_steps_append:
  "do_steps ds w = Some (es, w1) \<Longrightarrow> do_steps ds' w1 = Some (es', w2) \<Longrightarrow>
   do_steps (ds @ ds') w = Some (es @ es', w2)"
  by (induction ds arbitrary: w es) (auto simp: bind_eq_Some_conv)

text \<open>Call \<open>g\<close> decides to grow; later it grows by the one worker it decided on.\<close>

definition decide :: "'j \<Rightarrow> nat \<Rightarrow> 'j wp_step list" where
  "decide it g = [SBegin g (CExecute it), SCaller False g, SCaller False g]"

definition grow :: "nat \<Rightarrow> 'j wp_step list" where
  "grow g = [SCaller False g, SCaller False g, SCaller False g, SCaller False g]"

definition deciding :: "'j \<Rightarrow> nat \<Rightarrow> nat \<Rightarrow> nat \<rightharpoonup> 'j wp_call \<times> wp_pc" where
  "deciding it n k g =
     (if g = 0 then Some (CExecute it, Returned)
      else if g \<le> k then Some (CExecute it, LoadQueue)
      else if g \<le> n then Some (CExecute it, Lock 1) else None)"

lemma decide_one:
  "do_steps (decide it (Suc n)) (busy it (deciding it n 0) 0) = Some ([], busy it (deciding it (Suc n) 0) 0)"
proof -
  have "(deciding it n 0)(Suc n \<mapsto> (CExecute it, Lock 1)) = deciding it (Suc n) 0"
    by (auto simp: deciding_def fun_eq_iff)
  moreover have "deciding it n 0 (Suc n) = None" by (simp add: deciding_def)
  ultimately show ?thesis by (simp add: decide_def busy_def step_defs small_def)
qed

lemma grow_one:
  assumes "k < n"
  shows "do_steps (grow (Suc k)) (busy it (deciding it n k) k) = Some ([], busy it (deciding it n (Suc k)) (Suc k))"
proof -
  have "(deciding it n k)(Suc k \<mapsto> (CExecute it, LoadQueue)) = deciding it n (Suc k)"
    using assms by (auto simp: deciding_def fun_eq_iff)
  moreover have "deciding it n k (Suc k) = Some (CExecute it, Lock 1)" using assms by (simp add: deciding_def)
  moreover have "incNum 1 2 = 1" by (simp add: incNum_def go_quot_def)
  ultimately show ?thesis
    by (simp add: grow_def busy_def step_defs small_def run_one_def replicate_append_same)
qed

lemma decide_all:
  "do_steps (concat (map (decide it) [1..<Suc n])) (busy it (deciding it 0 0) 0) = Some ([], busy it (deciding it n 0) 0)"
proof (induction n)
  case (Suc n)
  from do_steps_append [OF Suc decide_one] show ?case by simp
qed simp

lemma grow_all:
  "k \<le> n \<Longrightarrow> do_steps (concat (map grow [1..<Suc k])) (busy it (deciding it n 0) 0) =
    Some ([], busy it (deciding it n k) k)"
proof (induction k)
  case (Suc k)
  then have "do_steps (concat (map grow [1..<Suc k])) (busy it (deciding it n 0) 0) = Some ([], busy it (deciding it n k) k)"
    by simp
  from do_steps_append [OF this grow_one [of k n]] Suc.prems show ?case by simp
qed simp

lemma overshoot:
  "\<exists>es w. wp_reach [small] es (w :: 'j pool) \<and> length (workers w) = Suc n \<and> WorkerNum (stats w) = of_nat (Suc n)"
proof -
  fix it :: 'j
  have d: "[0 \<mapsto> (CExecute it, Returned)] = deciding it 0 0" by (auto simp: deciding_def fun_eq_iff)
  from busy_reached [of it] obtain w es where
    "NewWorkerPool [small] = Some w" "do_steps (busy_steps it) w = Some (es, busy it (deciding it 0 0) 0)"
    unfolding d by blast
  from reach_steps [OF wp_reach.start [OF this(1)] this(2)]
  have "wp_reach [small] es (busy it (deciding it 0 0) 0)" by simp
  from reach_steps [OF reach_steps [OF this decide_all [of it n]] grow_all [OF order_refl]]
  show ?thesis by (intro exI conjI, assumption) (simp_all add: busy_def)
qed

section \<open>Draining the queue\<close>

text \<open>A worker that goes on taking jobs; work left to do, counted in steps.\<close>

definition live :: "'j pool \<Rightarrow> nat \<Rightarrow> bool" where
  "live w j \<longleftrightarrow> j < length (workers w) \<and> workers w ! j \<noteq> WStuck \<and> workers w ! j \<noteq> WExit \<and>
     (workers w ! j = WStart \<longrightarrow> \<not> queue_nil w)"

fun steps_left :: "'j worker \<Rightarrow> nat" where
  "steps_left WStart = 1"
| "steps_left WRange = 0"
| "steps_left WStuck = 0"
| "steps_left (WGot _) = 5"
| "steps_left (WActive _) = 4"
| "steps_left (WRun _) = 3"
| "steps_left (WDefer _ _) = 2"
| "steps_left (WRecovered _) = 1"
| "steps_left WExit = 0"

definition work_left :: "'j pool \<Rightarrow> nat" where
  "work_left w = 6 * length (queue_buf w) + sum_list (map steps_left (workers w))"

definition drained :: "'j pool \<Rightarrow> bool" where
  "drained w \<longleftrightarrow> queue_buf w = [] \<and> (\<forall>p \<in> set (workers w). taken_by p = {#} \<and> run_by p = {#})"

lemma drain_worker:
  assumes "i < length (workers w)" "workers w ! i \<noteq> WStuck" "workers w ! i \<noteq> WExit"
    and "workers w ! i = WRange \<Longrightarrow> queue_buf w \<noteq> []"
  shows "\<exists>es' w'. worker_step False i w = Some (es', w') \<and> work_left w' < work_left w \<and>
    (\<forall>j. live w j \<longrightarrow> live w' j)"
proof -
  obtain us vs where w: "workers w = us @ workers w ! i # vs" "length us = i"
    using assms(1) by (rule split_worker)
  obtain es' w' where step: "worker_step False i w = Some (es', w')"
    using assms by (cases "workers w ! i"; cases "queue_buf w")
      (auto simp: worker_step_def worker_range_def executeOne_def Let_def)
  note steps = step [unfolded worker_step_def worker_range_def executeOne_def set_worker_def Let_def]
  have "work_left w' < work_left w"
    using steps assms w
    by (auto simp: work_left_def list_update_append split: worker.splits list.splits if_splits)
  moreover have "live w j \<longrightarrow> live w' j" for j
    using steps assms
    by (auto simp: live_def nth_list_update split: worker.splits list.splits if_splits)
  ultimately show ?thesis using step by blast
qed

lemma drain:
  "live w j \<Longrightarrow> \<exists>ds es' w'. (\<forall>d \<in> set ds. \<exists>i. d = SWorker False i) \<and> do_steps ds w = Some (es', w') \<and> drained w'"
proof (induction "work_left w" arbitrary: w rule: less_induct)
  case less
  show ?case
  proof (cases "drained w")
    case True
    then show ?thesis by (intro exI [of _ "[]"]) auto
  next
    case False
    then have "\<exists>i. i < length (workers w) \<and> workers w ! i \<noteq> WStuck \<and> workers w ! i \<noteq> WExit \<and>
        (workers w ! i = WRange \<longrightarrow> queue_buf w \<noteq> [])"
    proof (cases "queue_buf w = []")
      case True
      with False obtain p where "p \<in> set (workers w)" "taken_by p \<noteq> {#} \<or> run_by p \<noteq> {#}"
        by (auto simp: drained_def)
      then show ?thesis by (cases p) (auto simp: in_set_conv_nth)
    next
      case False
      with less.prems show ?thesis by (auto simp: live_def)
    qed
    then obtain i es1 w1 where "worker_step False i w = Some (es1, w1)" "work_left w1 < work_left w" "live w1 j"
      using drain_worker less.prems by blast
    with less.hyps [of w1] obtain ds es' w' where "\<forall>d \<in> set ds. \<exists>i. d = SWorker False i"
      "do_steps ds w1 = Some (es', w')" "drained w'" by blast
    with \<open>worker_step False i w = Some (es1, w1)\<close> show ?thesis
      by (intro exI [of _ "SWorker False i # ds"]) auto
  qed
qed

section \<open>Workers that never see the queue\<close>

definition shut :: "'j pool \<Rightarrow> bool" where
  "shut w \<longleftrightarrow> queue_nil w \<and> queue_closed w \<and> set (workers w) \<subseteq> {WStart, WStuck}"

lemma shut_step:
  assumes "shut w" "do_step d w = Some (es', w')"
  shows "shut w' \<and> starts es' = []"
proof (cases d)
  case (SBegin g c)
  then show ?thesis using assms by (auto simp: begin_call_def shut_def set_pc_def split: option.splits)
next
  case (SCaller b g)
  then have "caller_step b g w = Some (es', w')" using assms(2) by simp
  then show ?thesis
  proof (cases rule: caller_step_cases)
    case (shut pc)
    from shut(2,3) show ?thesis using assms(1)
      by (auto simp: Shutdown_def shut_def set_pc_def split: wp_pc.splits if_splits)
  next
    case (send c it n)
    from send(3) show ?thesis using assms(1)
      by (auto simp: send_step_def shut_def set_pc_def split: if_splits)
  next
    case (inc c it pc)
    from inc(3,4) show ?thesis using assms(1)
      by (auto simp: incWorker_def run_one_def Let_def shut_def set_pc_def split: wp_pc.splits option.splits if_splits)
  qed (use assms(1) in \<open>auto simp: shut_def set_pc_def\<close>)
next
  case (SWorker p i)
  then have "i < length (workers w)" "worker_step p i w = Some (es', w')"
    using assms(2) by (auto simp: worker_step_def split: if_splits)
  moreover from this(1) have "workers w ! i \<in> {WStart, WStuck}"
    using assms(1) nth_mem by (fastforce simp: shut_def)
  ultimately have "es' = [] \<and> w' = set_worker i WStuck w"
    using assms(1) by (auto simp: worker_step_def shut_def split: if_splits)
  moreover have "set ((workers w)[i := WStuck]) \<subseteq> {WStart, WStuck}"
    using assms(1) set_update_subset_insert [of "workers w" i WStuck] by (auto simp: shut_def)
  ultimately show ?thesis using assms(1) by (simp add: shut_def set_worker_def)
next
  case (SHand g i)
  then have "WRange \<in> set (workers w)" using assms(2)
    by (auto simp: handoff_def in_set_conv_nth split: option.splits prod.splits wp_pc.splits bool.splits if_splits)
  then show ?thesis using assms(1) by (auto simp: shut_def)
qed

lemma shut_steps:
  "shut w \<Longrightarrow> do_steps ds w = Some (es', w') \<Longrightarrow> starts es' = []"
proof (induction ds arbitrary: w es')
  case (Cons d ds)
  then obtain e1 w1 e2 where "do_step d w = Some (e1, w1)" "do_steps ds w1 = Some (e2, w')" "es' = e1 @ e2"
    by (auto simp: bind_eq_Some_conv)
  with shut_step [OF Cons.prems(1)] Cons.IH [of w1 e2] show ?case by simp
qed simp

definition lost :: "'j \<Rightarrow> 'j pool" where
  "lost it =
     \<lparr>w_option = small, stats = \<lparr>ActiveNum = 0, WorkerNum = 1, ExecuteNum = 0, SubmitFailNum = 0, PanicNum = 0\<rparr>,
      queue_nil = True, queue_buf = [it], queue_closed = True, ctx_done = True, mux = None,
      workers = [WStuck], calls = [0 \<mapsto> (CExecute it, Returned), 1 \<mapsto> (CShutdown, Returned)]\<rparr>"

lemma new_small:
  "NewWorkerPool [small] = Some (run_one (empty_pool small))"
  by (simp add: NewWorkerPool_def the_option_def small_def)

definition accepted_pool :: "'j \<Rightarrow> 'j pool" where
  "accepted_pool it =
     (run_one (empty_pool small))\<lparr>queue_buf := [it], calls := [0 \<mapsto> (CExecute it, Returned)]\<rparr>"

lemma accepted_reached:
  "do_steps [SBegin 0 (CExecute it), SCaller False 0, SCaller False 0, SCaller False 0, SCaller False 0]
     (run_one (empty_pool small)) = Some ([Sent it], accepted_pool it)"
  by (simp add: run_one_def empty_pool_def small_def accepted_pool_def step_defs)

lemma caller_shutdown:
  "calls w g = Some (CShutdown, pc) \<Longrightarrow> caller_step b g w = map_option (Pair []) (Shutdown g pc b w)"
  by (simp add: caller_step_def job_of_def)

lemma lost_reached:
  "do_steps [SBegin 1 CShutdown, SCaller True 1, SCaller True 1, SCaller True 1, SCaller True 1, SWorker False 0]
     (accepted_pool it) = Some ([], lost it)"
  by (simp add: accepted_pool_def run_one_def empty_pool_def lost_def begin_call_def caller_shutdown Shutdown_def
      set_pc_def worker_step_def set_worker_def fun_upd_twist)

section \<open>The properties\<close>

text \<open>
  Accounting. In every reachable state of a pool, whatever goroutines call it and
  however they interleave: workers receive the jobs in the order in which they were
  accepted (the jobs received, followed by the queue, are the jobs accepted), the queue
  never exceeds its size, every accepted job is in exactly one place (queued, taken by a
  worker, running, ended), and the numbers of \<open>Stats\<close> are what happened, modulo
  \<open>2 ^ 32\<close>: \<open>ExecuteNum\<close> the jobs started, \<open>SubmitFailNum\<close> the submissions
  that timed out, \<open>PanicNum\<close> the jobs that panicked less those whose worker has not
  counted them yet.
\<close>

lemma pool_accounts:
  assumes "wp_reach opt es w"
  shows "sents es = gots es @ queue_buf w \<and> length (queue_buf w) \<le> cap w \<and>
    mset (sents es) = mset (queue_buf w) + \<Sum>\<^sub># (mset (map taken_by (workers w))) +
      \<Sum>\<^sub># (mset (map run_by (workers w))) + mset (map fst (ends es)) \<and>
    Stats w = \<lparr>ActiveNum = of_nat (length (filter is_active (workers w))),
      WorkerNum = of_nat (length (workers w)), ExecuteNum = of_nat (length (starts es)),
      SubmitFailNum = of_nat (length (refusals es)),
      PanicNum = of_nat (length (filter snd (ends es))) - of_nat (length (filter owes_panic (workers w)))\<rparr>"
proof -
  from reach_accounts [OF assms] have "accounted es w" "counted es w" by blast+
  then show ?thesis by (auto simp: accounted_def counted_def Stats_def eq_diff_eq)
qed

text \<open>
  C12. The number of workers. While at most one caller at a time is between its decision
  to grow and the end of its growing, the pool never has more workers than the larger of
  \<open>InitWorkerNum\<close> and \<open>MaxWorkerNum\<close>. Callers that decide together are not held
  back, since \<open>incWorker\<close> does not look again once it has the mutex: a pool with
  \<open>MaxWorkerNum = 2\<close> reaches any number of workers.
\<close>

theorem worker_number:
  assumes "pool_limit (the_option opt) < 2 ^ 31"
  shows "(\<forall>es (w :: 'j pool). solo_reach opt es w \<longrightarrow> sint (WorkerNum (Stats w)) \<le> pool_limit (the_option opt)) \<and>
    (\<forall>n. \<exists>es (w :: 'j pool). wp_reach [small] es w \<and> MaxWorkerNum small = 2 \<and> WorkerNum (Stats w) = of_nat (Suc n))"
proof (intro conjI allI impI)
  fix es and w :: "'j pool" assume w: "solo_reach opt es w"
  from solo_within [OF this assms] have l: "within_limit w" "w_option w = the_option opt" by simp_all
  have "counted es w" using solo_reachable [OF w] reach_accounts by blast
  from counted_workers [OF this l(1)] l assms show "sint (WorkerNum (Stats w)) \<le> pool_limit (the_option opt)"
    by (simp add: Stats_def within_limit_def)
next
  fix n show "\<exists>es (w :: 'j pool). wp_reach [small] es w \<and> MaxWorkerNum small = 2 \<and> WorkerNum (Stats w) = of_nat (Suc n)"
    using overshoot [of n] by (auto simp: Stats_def small_def)
qed

theorem worker_number_witness:
  "(\<exists>w :: nat pool. NewWorkerPool [] = Some w \<and> sint (WorkerNum (Stats w)) \<le> 50) \<and>
   (\<exists>es (w :: nat pool). wp_reach [small] es w \<and> WorkerNum (Stats w) = 5)"
proof -
  have l: "pool_limit (the_option []) = 50" by (simp add: pool_limit_def the_option_def default_option_def)
  then have "pool_limit (the_option []) < 2 ^ 31" by simp
  note n = worker_number [OF this, where 'j = nat]
  obtain w :: "nat pool" where w: "NewWorkerPool [] = Some w"
    by (simp add: NewWorkerPool_def the_option_def default_option_def)
  then have "solo_reach [] [] w" by (rule solo_reach.start)
  then have "sint (WorkerNum (Stats w)) \<le> 50" using n l by simp
  moreover from n obtain es and v :: "nat pool" where "wp_reach [small] es v" "WorkerNum (Stats v) = of_nat (Suc 4)"
    by blast
  ultimately show ?thesis using w by auto
qed

text \<open>
  As long as one worker has seen the queue (or can still see it), no accepted job is
  lost: from every reachable state the workers alone can go on until the queue is empty,
  no job is held back, and every accepted job has ended. This holds after
  \<open>Shutdown\<close> too.
\<close>

lemma worker_pool_drains:
  assumes "wp_reach opt es w" "live w j"
  shows "\<exists>ds es' w'. (\<forall>d \<in> set ds. \<exists>i. d = SWorker False i) \<and> do_steps ds w = Some (es', w') \<and>
    queue_buf w' = [] \<and> mset (sents (es @ es')) = mset (map fst (ends (es @ es')))"
proof -
  from drain [OF assms(2)] obtain ds es' w' where ds: "\<forall>d \<in> set ds. \<exists>i. d = SWorker False i"
    "do_steps ds w = Some (es', w')" and w': "drained w'" by blast
  from reach_accounts [OF reach_steps [OF assms(1) ds(2)]] have "accounted (es @ es') w'" by simp
  moreover have "\<Sum>\<^sub># (mset (map taken_by (workers w'))) = {#}" "\<Sum>\<^sub># (mset (map run_by (workers w'))) = {#}"
    using w' by (auto simp: drained_def)
  ultimately have "mset (sents (es @ es')) = mset (map fst (ends (es @ es')))" "queue_buf w' = []"
    using w' unfolding accounted_def drained_def by auto
  with ds show ?thesis by blast
qed

lemma worker_pool_drains_witness:
  "\<exists>ds es' w'. do_steps ds (accepted_pool (7::nat)) = Some (es', w') \<and> mset (map fst (ends es')) = {#7#} + mset (sents es')"
proof -
  have "wp_reach [small] ([] @ [Sent (7::nat)]) (accepted_pool 7)"
    using reach_steps [OF wp_reach.start [OF new_small] accepted_reached] .
  moreover have "live (accepted_pool (7::nat)) 0"
    by (simp add: live_def accepted_pool_def run_one_def empty_pool_def)
  ultimately have "\<exists>ds es' w'. (\<forall>d \<in> set ds. \<exists>i. d = SWorker False i) \<and> do_steps ds (accepted_pool (7::nat)) = Some (es', w') \<and>
    queue_buf w' = [] \<and> mset (sents (([] @ [Sent 7]) @ es')) = mset (map fst (ends (([] @ [Sent 7]) @ es')))"
    by (rule worker_pool_drains)
  then show ?thesis by (elim exE) (intro exI, auto)
qed

text \<open>
  A job can be lost. A worker whose goroutine gets going only after \<open>Shutdown\<close> has
  set \<open>queue\<close> to nil waits on the nil channel for ever: there is a run in which
  \<open>Execute\<close> has accepted a job and \<open>Shutdown\<close> has returned because no worker is
  active, and the job is never started, whatever happens from then on.
\<close>

lemma shutdown_loses_job:
  "\<exists>es w. wp_reach [small] es w \<and> sents es = [it] \<and>
     calls w 0 = Some (CExecute it, Returned) \<and> calls w 1 = Some (CShutdown, Returned) \<and>
     (\<forall>ds es' w'. do_steps ds w = Some (es', w') \<longrightarrow> starts (es @ es') = [])"
proof -
  from reach_steps [OF wp_reach.start [OF new_small] accepted_reached]
  have "wp_reach [small] [Sent it] (accepted_pool it)" by simp
  from reach_steps [OF this lost_reached] have "wp_reach [small] [Sent it] (lost it)" by simp
  moreover have "shut (lost it)" by (simp add: shut_def lost_def)
  ultimately show ?thesis
    by (intro exI [of _ "[Sent it]"] exI [of _ "lost it"]) (auto simp: lost_def dest: shut_steps)
qed

lemma shutdown_loses_job_witness:
  "\<exists>es w. wp_reach [small] es w \<and> sents es = [7 :: nat]"
  using shutdown_loses_job [of "7 :: nat"] by blast

text \<open>
  C13. What becomes of the accepted jobs. As long as one worker has seen the queue (or can
  still see it), none is lost: from every reachable state the workers alone can go on until
  the queue is empty, no job is held back, and every accepted job has ended; this holds
  after \<open>Shutdown\<close> too. But a worker whose goroutine gets going only after
  \<open>Shutdown\<close> has set \<open>queue\<close> to nil waits on the nil channel for ever: there is a run
  in which \<open>Execute\<close> has accepted a job and \<open>Shutdown\<close> has returned because no
  worker is active, and the job is never started, whatever happens from then on.
\<close>

theorem worker_pool_jobs:
  "(wp_reach opt es w \<and> live w j \<longrightarrow>
     (\<exists>ds es' w'. (\<forall>d \<in> set ds. \<exists>i. d = SWorker False i) \<and> do_steps ds w = Some (es', w') \<and>
       queue_buf w' = [] \<and> mset (sents (es @ es')) = mset (map fst (ends (es @ es'))))) \<and>
   (\<exists>es w. wp_reach [small] es w \<and> sents es = [it] \<and>
     calls w 0 = Some (CExecute it, Returned) \<and> calls w 1 = Some (CShutdown, Returned) \<and>
     (\<forall>ds es' w'. do_steps ds w = Some (es', w') \<longrightarrow> starts (es @ es') = []))"
  by (rule conjI) (intro impI, elim conjE, erule (1) worker_pool_drains, rule shutdown_loses_job)

theorem worker_pool_jobs_witness:
  "(\<exists>ds es' w'. do_steps ds (accepted_pool (7::nat)) = Some (es', w') \<and> mset (map fst (ends es')) = {#7#} + mset (sents es')) \<and>
   (\<exists>es w. wp_reach [small] es w \<and> sents es = [8 :: nat])"
proof -
  have r: "wp_reach [small] ([] @ [Sent (7::nat)]) (accepted_pool 7)"
    using reach_steps [OF wp_reach.start [OF new_small] accepted_reached] .
  have l: "live (accepted_pool (7::nat)) 0"
    by (simp add: live_def accepted_pool_def run_one_def empty_pool_def)
  note t = worker_pool_jobs [of "[small]" "[] @ [Sent 7]" "accepted_pool 7" 0 8]
  from t [THEN conjunct1, rule_format, OF conjI, OF r l]
  have "\<exists>ds es' w'. do_steps ds (accepted_pool (7::nat)) = Some (es', w') \<and> mset (map fst (ends es')) = {#7#} + mset (sents es')"
    by (elim exE) (intro exI, auto)
  with t [THEN conjunct2] show ?thesis by blast
qed

end
