(* ===== verification/WorkerPanics.thy ===== *)
theory WorkerPanics
  imports WorkerProps
begin

text \<open>
  \<open>gconcurrent/worker.go\<close>: jobs that panic, and what the callback of the pool is told of
  them. A job travels as an item with the name of its function, which the run-time knows.
\<close>

section \<open>Items\<close>

record 'f queueItem =
  jobFunc :: 'f
  funcName :: string

definition toItem :: "('f \<Rightarrow> string) \<Rightarrow> 'f \<Rightarrow> 'f queueItem" where
  "toItem FuncForPC jf = \<lparr>jobFunc = jf, funcName = FuncForPC jf\<rparr>"

lemma toItem_name: "it = toItem nm (jobFunc it) \<Longrightarrow> funcName it = nm (jobFunc it)"
  by (cases it) (simp add: toItem_def)

text \<open>The calls of the pool make the items themselves.\<close>

fun made_item :: "('f \<Rightarrow> string) \<Rightarrow> 'f queueItem wp_step \<Rightarrow> bool" where
  "made_item nm (SBegin g c) = (case job_of c of None \<Rightarrow> True | Some it \<Rightarrow> it = toItem nm (jobFunc it))"
| "made_item nm _ = True"

section \<open>Panics owed to the callback\<close>

definition handled :: "'j wp_event list \<Rightarrow> 'j list" where
  "handled es = concat (map (\<lambda>e. case e of Handled it \<Rightarrow> [it] | _ \<Rightarrow> []) es)"

lemma handled_simps [simp]:
  "handled [] = []" "handled (es @ fs) = handled es @ handled fs"
  "handled (Sent it # es) = handled es" "handled (Got it # es) = handled es" "handled (Started it # es) = handled es"
  "handled (Ended it p # es) = handled es" "handled (Refused it # es) = handled es"
  "handled (Handled it # es) = it # handled es"
  by (simp_all add: handled_def)

abbreviation panicked :: "'j wp_event list \<Rightarrow> 'j list" where
  "panicked es \<equiv> map fst (filter snd (ends es))"

fun owed_by :: "'j worker \<Rightarrow> 'j multiset" where
  "owed_by (WDefer it p) = (if p then {#it#} else {#})"
| "owed_by (WRecovered it) = {#it#}"
| "owed_by _ = {#}"

definition reported :: "'j wp_event list \<Rightarrow> 'j pool \<Rightarrow> bool" where
  "reported es w \<longleftrightarrow>
     (if PanicFunc (w_option w)
      then mset (handled es) + \<Sum>\<^sub># (mset (map owed_by (workers w))) = mset (panicked es)
      else handled es = [])"

lemma worker_step_reported:
  assumes "worker_step p i w = Some (es', w')" "reported es w"
  shows "reported (es @ es') w'"
proof -
  have i: "i < length (workers w)" using assms(1) by (simp add: worker_step_def split: if_splits)
  then obtain us vs where w: "workers w = us @ workers w ! i # vs" "length us = i" by (rule split_worker)
  note step = assms(1) [unfolded worker_step_def worker_range_def executeOne_def set_worker_def]
  show ?thesis
    using step i w assms(2)
    by (auto simp: reported_def Let_def list_update_append split: worker.splits list.splits if_splits)
qed

text \<open>A caller only adds workers that have not begun.\<close>

definition grows :: "'j pool \<Rightarrow> 'j pool \<Rightarrow> bool" where
  "grows w w' \<longleftrightarrow> w_option w' = w_option w \<and> (\<exists>n. workers w' = workers w @ replicate n WStart)"

lemma grows_refl: "w_option w' = w_option w \<Longrightarrow> workers w' = workers w \<Longrightarrow> grows w w'"
  by (auto simp: grows_def intro: exI [of _ 0])

lemma sum_empties [simp]: "\<Sum>\<^sub># (replicate_mset n {#}) = {#}"
  by (induction n) simp_all

lemma grows_reported:
  "grows w w' \<Longrightarrow> handled es' = [] \<Longrightarrow> ends es' = [] \<Longrightarrow> reported es w \<Longrightarrow> reported (es @ es') w'"
  by (auto simp: grows_def reported_def)

lemma run_one_grows: "grows w (run_one w)"
  unfolding grows_def run_one_def by (intro conjI exI [of _ 1]) simp_all

lemma caller_step_grows:
  assumes "caller_step b g w = Some (es', w')"
  shows "grows w w' \<and> handled es' = [] \<and> ends es' = []"
  using assms
proof (cases rule: caller_step_cases)
  case shut
  then show ?thesis
    by (auto simp: Shutdown_def set_pc_def intro!: grows_refl split: wp_pc.splits if_splits)
next
  case send
  then show ?thesis by (auto simp: send_step_def set_pc_def intro!: grows_refl split: if_splits)
next
  case inc
  then show ?thesis
    using run_one_grows [of w]
    by (auto simp: incWorker_def Let_def set_pc_def grows_def intro: exI [of _ "0 :: nat"]
        split: wp_pc.splits option.splits if_splits)
qed (auto simp: set_pc_def intro!: grows_refl)

lemma run_loop_grows: "grows w (run_loop n w)"
  unfolding grows_def using run_loop_workers(1,2) by blast

lemma reach_reported: "wp_reach opt es w \<Longrightarrow> reported es w"
proof (induction rule: wp_reach.induct)
  case (start w)
  then have "w = run_loop (nat (InitWorkerNum (the_option opt))) (empty_pool (the_option opt))"
    by (simp add: NewWorkerPool_def Let_def split: if_splits)
  moreover have "reported [] (empty_pool (the_option opt))" by (simp add: reported_def empty_pool_def)
  ultimately show ?case using grows_reported [OF run_loop_grows, of "[]" "[]"] by fastforce
next
  case (step es w d es' w')
  show ?case
  proof (cases d)
    case (SBegin g c)
    with step show ?thesis by (auto simp: begin_call_def set_pc_def reported_def split: option.splits)
  next
    case (SCaller b g)
    with step.hyps(2) have "grows w w' \<and> handled es' = [] \<and> ends es' = []" by (simp add: caller_step_grows)
    with step.IH grows_reported [of w w' es' es] show ?thesis by blast
  next
    case (SWorker p i)
    with step worker_step_reported show ?thesis by simp
  next
    case (SHand g i)
    with step.hyps(2) obtain c it where h: "es' = [Sent it, Got it]" "i < length (workers w)" "workers w ! i = WRange"
      "w' = set_pc g c Returned (set_worker i (WGot it) w)"
      by (auto simp: handoff_def split: option.splits wp_pc.splits if_splits bool.splits)
    from h(2) obtain us vs where "workers w = us @ workers w ! i # vs" "length us = i" by (rule split_worker)
    with h step.IH show ?thesis by (auto simp: reported_def set_pc_def set_worker_def list_update_append)
  qed
qed

section \<open>Items stay as they were made\<close>

fun item_of :: "'j worker \<Rightarrow> 'j option" where
  "item_of (WGot it) = Some it"
| "item_of (WActive it) = Some it"
| "item_of (WRun it) = Some it"
| "item_of (WDefer it _) = Some it"
| "item_of (WRecovered it) = Some it"
| "item_of _ = None"

fun event_item :: "'j wp_event \<Rightarrow> 'j" where
  "event_item (Sent it) = it"
| "event_item (Got it) = it"
| "event_item (Started it) = it"
| "event_item (Ended it _) = it"
| "event_item (Handled it) = it"
| "event_item (Refused it) = it"

definition calls_ok :: "('j \<Rightarrow> bool) \<Rightarrow> (nat \<rightharpoonup> 'j wp_call \<times> wp_pc) \<Rightarrow> bool" where
  "calls_ok P m \<longleftrightarrow> (\<forall>g c pc. m g = Some (c, pc) \<longrightarrow> pred_option P (job_of c))"

lemma calls_okD: "calls_ok P m \<Longrightarrow> m g = Some (c, pc) \<Longrightarrow> pred_option P (job_of c)"
  by (auto simp: calls_ok_def)

lemma calls_ok_upd [simp]: "calls_ok P m \<Longrightarrow> calls_ok P (m(g \<mapsto> (c, pc))) \<longleftrightarrow> pred_option P (job_of c)"
  by (auto simp: calls_ok_def)

definition items_ok :: "('j \<Rightarrow> bool) \<Rightarrow> 'j wp_event list \<Rightarrow> 'j pool \<Rightarrow> bool" where
  "items_ok P es w \<longleftrightarrow> (\<forall>e \<in> set es. P (event_item e)) \<and> (\<forall>it \<in> set (queue_buf w). P it) \<and>
     (\<forall>x \<in> set (workers w). pred_option P (item_of x)) \<and>
     calls_ok P (calls w)"

lemma worker_step_items:
  assumes "worker_step p i w = Some (es', w')" "items_ok P es w"
  shows "items_ok P (es @ es') w'"
proof -
  have i: "i < length (workers w)" using assms(1) by (simp add: worker_step_def split: if_splits)
  then have "pred_option P (item_of (workers w ! i))" using assms(2) by (simp add: items_ok_def)
  with assms(2) show ?thesis
    using assms(1) [unfolded worker_step_def worker_range_def executeOne_def set_worker_def]
    by (auto simp: items_ok_def Let_def split: worker.splits list.splits if_splits
        dest!: subsetD [OF set_update_subset_insert])
qed

lemma calls_items:
  assumes "items_ok P es w" "grows w w'" "\<forall>e \<in> set es'. P (event_item e)" "\<forall>it \<in> set (queue_buf w'). P it"
    "calls_ok P (calls w')"
  shows "items_ok P (es @ es') w'"
  using assms by (auto simp: items_ok_def grows_def)

lemma caller_step_items:
  assumes "caller_step b g w = Some (es', w')" "items_ok P es w"
  shows "items_ok P (es @ es') w'"
proof (rule calls_items [OF assms(2)])
  show "grows w w'" using caller_step_grows [OF assms(1)] by blast
  have old: "calls_ok P (calls w)" "\<forall>it \<in> set (queue_buf w). P it"
    using assms(2) by (simp_all add: items_ok_def)
  note d = calls_okD [OF old(1)]
  from assms(1) have "(\<forall>e \<in> set es'. P (event_item e)) \<and> (\<forall>it \<in> set (queue_buf w'). P it) \<and> calls_ok P (calls w')"
  proof (cases rule: caller_step_cases)
    case shut
    with old d [OF shut(1)] show ?thesis
      by (auto simp: Shutdown_def set_pc_def split: wp_pc.splits if_splits)
  next
    case load
    with old d [OF load(1)] show ?thesis by (auto simp: set_pc_def)
  next
    case send
    with old d [OF send(1)] show ?thesis
      by (auto simp: send_step_def set_pc_def split: if_splits)
  next
    case late
    with old d [OF late(1)] show ?thesis by (auto simp: set_pc_def)
  next
    case inc
    with old d [OF inc(1)] show ?thesis
      by (auto simp: incWorker_def Let_def set_pc_def run_one_def
          split: wp_pc.splits option.splits if_splits)
  qed
  then show "\<forall>e \<in> set es'. P (event_item e)" "\<forall>it \<in> set (queue_buf w'). P it" "calls_ok P (calls w')" by blast+
qed

lemma do_step_items:
  assumes "do_step d w = Some (es', w')" "items_ok P es w" "\<And>g c. d = SBegin g c \<Longrightarrow> pred_option P (job_of c)"
  shows "items_ok P (es @ es') w'"
proof (cases d)
  case (SBegin g c)
  with assms show ?thesis
    by (auto simp: begin_call_def set_pc_def items_ok_def split: option.splits)
next
  case (SCaller b g)
  with assms caller_step_items show ?thesis by simp
next
  case (SWorker p i)
  with assms worker_step_items show ?thesis by simp
next
  case (SHand g i)
  with assms(1) obtain c it where h: "calls w g = Some (c, Send False)" "job_of c = Some it" "es' = [Sent it, Got it]"
    "w' = set_pc g c Returned (set_worker i (WGot it) w)"
    by (auto simp: handoff_def split: option.splits wp_pc.splits if_splits bool.splits)
  have "calls_ok P (calls w)" using assms(2) by (simp add: items_ok_def)
  from calls_okD [OF this h(1)] h assms(2) show ?thesis
    by (auto simp: items_ok_def set_pc_def set_worker_def dest!: subsetD [OF set_update_subset_insert])
qed

lemma do_steps_items:
  "do_steps ds w = Some (es', w') \<Longrightarrow> items_ok P es w \<Longrightarrow> (\<And>g c. SBegin g c \<in> set ds \<Longrightarrow> pred_option P (job_of c)) \<Longrightarrow>
   items_ok P (es @ es') w'"
proof (induction ds arbitrary: es w es')
  case (Cons d ds)
  then obtain e1 w1 e2 where s: "do_step d w = Some (e1, w1)" "do_steps ds w1 = Some (e2, w')" "es' = e1 @ e2"
    by (auto simp: bind_eq_Some_conv)
  have "items_ok P (es @ e1) w1" by (rule do_step_items [OF s(1) Cons.prems(2)]) (use Cons.prems(3) in auto)
  from Cons.IH [OF s(2) this] Cons.prems(3) have "items_ok P ((es @ e1) @ e2) w'" by auto
  with s(3) show ?case by simp
qed simp

lemma queue_run_loop: "queue_buf (run_loop n w) = queue_buf w"
  by (induction n arbitrary: w) (simp_all add: run_one_def)

lemma new_items:
  assumes "NewWorkerPool opt = Some w"
  shows "items_ok P [] w"
proof -
  from assms have w: "w = run_loop (nat (InitWorkerNum (the_option opt))) (empty_pool (the_option opt))"
    by (simp add: NewWorkerPool_def Let_def split: if_splits)
  have e: "items_ok P [] (empty_pool (the_option opt))" by (simp add: items_ok_def calls_ok_def empty_pool_def)
  have "items_ok P ([] @ []) w" unfolding w
    by (rule calls_items [OF e run_loop_grows]) (simp_all add: queue_run_loop run_loop_workers empty_pool_def calls_ok_def)
  then show ?thesis by simp
qed

lemma reach_option: "wp_reach opt es w \<Longrightarrow> w_option w = the_option opt"
proof (induction rule: wp_reach.induct)
  case (start w)
  then show ?case by (auto simp: NewWorkerPool_def Let_def run_loop_workers empty_pool_def split: if_splits)
next
  case (step es w d es' w')
  then show ?case by (simp add: option_fixed)
qed

lemma panicked_items:
  "(\<And>it. P it \<Longrightarrow> Q it) \<Longrightarrow> \<forall>e \<in> set es. P (event_item e) \<Longrightarrow> \<forall>it \<in> set (panicked es). Q it"
  by (auto simp: ends_def split: wp_event.splits)

section \<open>The property\<close>

lemma callback_owed:
  assumes "NewWorkerPool opt = Some w0" "do_steps ds w0 = Some (es, w)" "\<forall>d \<in> set ds. made_item nm d"
  shows "if PanicFunc (the_option opt)
    then mset (map funcName (handled es)) + image_mset funcName (\<Sum>\<^sub># (mset (map owed_by (workers w)))) =
      mset (map (nm \<circ> jobFunc) (panicked es))
    else handled es = []"
proof -
  let ?P = "\<lambda>it. it = toItem nm (jobFunc it)"
  have r: "wp_reach opt es w" using reach_steps [OF wp_reach.start [OF assms(1)] assms(2)] by simp
  have o: "w_option w = the_option opt" by (rule reach_option [OF r])
  have "pred_option ?P (job_of c)" if "SBegin g c \<in> set ds" for g c
    using assms(3) that by (cases "job_of c") fastforce+
  from do_steps_items [OF assms(2) new_items [OF assms(1)] this] have "\<forall>e \<in> set es. ?P (event_item e)"
    by (simp add: items_ok_def)
  then have f: "\<forall>it \<in> set (panicked es). funcName it = nm (jobFunc it)"
    using panicked_items [of ?P "\<lambda>it. funcName it = nm (jobFunc it)"] toItem_name by metis
  have p: "map funcName (panicked es) = map (nm \<circ> jobFunc) (panicked es)"
  proof (rule map_cong [OF refl])
    fix it assume "it \<in> set (panicked es)"
    from bspec [OF f this] show "funcName it = (nm \<circ> jobFunc) it" by (simp only: comp_apply)
  qed
  show ?thesis
  proof (cases "PanicFunc (the_option opt)")
    case True
    with reach_reported [OF r] o have
      "mset (handled es) + \<Sum>\<^sub># (mset (map owed_by (workers w))) = mset (panicked es)" by (simp add: reported_def)
    then have "image_mset funcName (mset (handled es) + \<Sum>\<^sub># (mset (map owed_by (workers w)))) =
      image_mset funcName (mset (panicked es))" by (rule arg_cong)
    with True p show ?thesis by (metis (no_types, lifting) image_mset_union mset_map)
  next
    case False
    with reach_reported [OF r] o show ?thesis by (simp add: reported_def)
  qed
qed

section \<open>The property\<close>

text \<open>
  C11. Accounting. Whatever goroutines call a pool and however they interleave: workers receive
  the jobs in the order in which they were accepted (the jobs received, followed by the queue,
  are the jobs accepted), the queue never exceeds its size, every accepted job is in exactly one
  place (queued, taken by a worker, running, ended), and the numbers of \<open>Stats\<close> are what
  happened, modulo \<open>2 ^ 32\<close>: \<open>ExecuteNum\<close> the jobs started, \<open>SubmitFailNum\<close> the
  submissions that timed out, \<open>PanicNum\<close> the jobs that panicked less those whose worker has
  not counted them yet. A pool with a callback calls it exactly once for every job that has
  panicked, with the name of the function that was submitted, except for those whose worker is
  still on its way from the panic to the callback; a pool without one calls nothing.
\<close>

theorem worker_pool_accounts:
  assumes "NewWorkerPool opt = Some w0" "do_steps ds w0 = Some (es, w)" "\<forall>d \<in> set ds. made_item nm d"
  shows "sents es = gots es @ queue_buf w \<and> length (queue_buf w) \<le> cap w \<and>
    mset (sents es) = mset (queue_buf w) + \<Sum>\<^sub># (mset (map taken_by (workers w))) +
      \<Sum>\<^sub># (mset (map run_by (workers w))) + mset (map fst (ends es)) \<and>
    Stats w = \<lparr>ActiveNum = of_nat (length (filter is_active (workers w))),
      WorkerNum = of_nat (length (workers w)), ExecuteNum = of_nat (length (starts es)),
      SubmitFailNum = of_nat (length (refusals es)),
      PanicNum = of_nat (length (panicked es)) - of_nat (length (filter owes_panic (workers w)))\<rparr> \<and>
    (if PanicFunc (the_option opt)
     then mset (map funcName (handled es)) + image_mset funcName (\<Sum>\<^sub># (mset (map owed_by (workers w)))) =
       mset (map (nm \<circ> jobFunc) (panicked es))
     else handled es = [])"
proof -
  have "wp_reach opt es w" using reach_steps [OF wp_reach.start [OF assms(1)] assms(2)] by simp
  from pool_accounts [OF this] callback_owed [OF assms] show ?thesis
    unfolding length_map by (elim conjE) (intro conjI)
qed

text \<open>One worker takes a job, which panics, and reports it.\<close>

theorem worker_pool_accounts_witness:
  "\<exists>w0 es w. NewWorkerPool [small\<lparr>PanicFunc := True\<rparr>] = Some w0 \<and>
     do_steps ([SBegin 0 (CExecute (toItem (\<lambda>_. ''job'') (7 :: nat)))] @ replicate 4 (SCaller False 0) @
       replicate 7 (SWorker True 0)) w0 = Some (es, w) \<and>
     map funcName (handled es) = [''job''] \<and> PanicNum (Stats w) = 1"
proof -
  let ?ds = "[SBegin 0 (CExecute (toItem (\<lambda>_. ''job'') (7 :: nat)))] @ replicate 4 (SCaller False 0) @ replicate 7 (SWorker True 0)"
  obtain w0 :: "nat queueItem pool" where w0: "NewWorkerPool [small\<lparr>PanicFunc := True\<rparr>] = Some w0"
    by (simp add: NewWorkerPool_def the_option_def small_def)
  have r: "Option.bind (NewWorkerPool [small\<lparr>PanicFunc := True\<rparr>]) (\<lambda>w0. map_option (\<lambda>(es, w).
      (length (panicked es), map owed_by (workers w), map owes_panic (workers w))) (do_steps ?ds w0)) = Some (1, [{#}], [False])"
    by code_simp
  obtain es w where s: "do_steps ?ds w0 = Some (es, w)" "length (panicked es) = 1" "map owed_by (workers w) = [{#}]"
    "map owes_panic (workers w) = [False]" using r by (auto simp: w0 simp del: do_steps.simps)
  from s(4) have "filter owes_panic (workers w) = []" by (auto simp: filter_empty_conv)
  have "\<forall>d \<in> set ?ds. made_item (\<lambda>_. ''job'') d" by (simp add: toItem_def job_of_def)
  from worker_pool_accounts [OF w0 s(1) this] have
    t: "Stats w = \<lparr>ActiveNum = of_nat (length (filter is_active (workers w))),
      WorkerNum = of_nat (length (workers w)), ExecuteNum = of_nat (length (starts es)),
      SubmitFailNum = of_nat (length (refusals es)),
      PanicNum = of_nat (length (panicked es)) - of_nat (length (filter owes_panic (workers w)))\<rparr>"
    "if PanicFunc (the_option [small\<lparr>PanicFunc := True\<rparr>])
     then mset (map funcName (handled es)) + image_mset funcName (\<Sum>\<^sub># (mset (map owed_by (workers w)))) =
       mset (map ((\<lambda>_. ''job'') \<circ> jobFunc) (panicked es))
     else handled es = []" by blast+
  have o: "PanicFunc (the_option [small\<lparr>PanicFunc := True\<rparr>])" by (simp add: the_option_def)
  have e: "mset (map owed_by (workers w)) = {#{#}#}" by (simp only: s(3) mset.simps)
  have c: "mset (map ((\<lambda>_. ''job'') \<circ> jobFunc) (panicked es)) = {#''job''#}"
    using s(2) by (cases "panicked es") (simp_all del: mset_map)
  from t(2) [unfolded if_P [OF o] e c] have "mset (map funcName (handled es)) = {#''job''#}" by simp
  then have "map funcName (handled es) = [''job'']" by (simp del: mset_map)
  moreover have "PanicNum (Stats w) = 1"
    using t(1) s(2) \<open>filter owes_panic (workers w) = []\<close> by simp
  ultimately show ?thesis using w0 s(1) by (intro exI conjI)
qed

end
