(* ===== verification/FloatGo.thy ===== *)
theory FloatGo
  imports Complex_Main Prelude
begin

text \<open>
  Go's \<open>float64\<close>: the finite values as rationals, the infinities and NaN, with every
  operation rounded to the nearest value of 53 significant bits, ties to even, over the
  subnormal range and with overflow to the infinities, as IEEE 754 and the language ask.
  Zeros carry no sign: none of the components divides by a zero or prints one with a sign.
  Everything computes. What the components need of it is that integers up to
  \<open>2 ^ 53\<close> are exact and that rounding never moves a value past one of them.
\<close>

section \<open>Integer square root\<close>

fun isqrt :: "nat \<Rightarrow> nat" where
  "isqrt n =
     (if n = 0 then 0
      else let r = 2 * isqrt (n div 4) in if (r + 1) ^ 2 \<le> n then r + 1 else r)"

declare isqrt.simps [simp del]

lemma isqrt_bounds: "(isqrt n) ^ 2 \<le> n \<and> n < (isqrt n + 1) ^ 2"
proof (induction n rule: isqrt.induct)
  case (1 n)
  show ?case
  proof (cases "n = 0")
    case True
    then show ?thesis by (simp add: isqrt.simps)
  next
    case False
    let ?s = "isqrt (n div 4)"
    from 1 [OF False] have "?s ^ 2 \<le> n div 4" "n div 4 < (?s + 1) ^ 2" by simp_all
    then have "4 * ?s ^ 2 \<le> n" "n < 4 * (?s + 1) ^ 2" by linarith+
    then have "(2 * ?s) ^ 2 \<le> n" "n < (2 * ?s + 1 + 1) ^ 2"
      by (simp_all add: power2_eq_square algebra_simps)
    then show ?thesis using False by (auto simp: Let_def isqrt.simps [of n])
  qed
qed

lemma isqrt_le_iff: "k \<le> isqrt n \<longleftrightarrow> k ^ 2 \<le> n"
proof
  assume "k \<le> isqrt n"
  then have "k ^ 2 \<le> (isqrt n) ^ 2" by (rule power_mono) simp
  with isqrt_bounds [of n] show "k ^ 2 \<le> n" by linarith
next
  assume "k ^ 2 \<le> n"
  with isqrt_bounds [of n] have "k ^ 2 < (isqrt n + 1) ^ 2" by linarith
  then show "k \<le> isqrt n" by (auto dest: power_less_imp_less_base)
qed

section \<open>Rounding\<close>

definition round_even :: "rat \<Rightarrow> int" where
  "round_even x =
     (let f = \<lfloor>x\<rfloor>; d = x - of_int f
      in if d < 1 / 2 then f else if d > 1 / 2 then f + 1 else if even f then f else f + 1)"

lemma round_even_of_int [simp]: "round_even (of_int n) = n"
  by (simp add: round_even_def)

lemma round_even_ge: "of_int n \<le> x \<Longrightarrow> n \<le> round_even x"
  by (auto simp: round_even_def Let_def le_floor_iff intro: add_increasing2)

lemma round_even_le: "x \<le> of_int n \<Longrightarrow> round_even x \<le> n"
proof -
  assume x: "x \<le> of_int n"
  show "round_even x \<le> n"
  proof (cases "x = of_int n")
    case False
    with x have "\<lfloor>x\<rfloor> < n" by (simp add: floor_less_iff)
    then show ?thesis by (auto simp: round_even_def Let_def)
  qed simp
qed

lemma round_even_near: "\<bar>of_int (round_even x) - x\<bar> \<le> 1 / 2"
proof -
  have "of_int \<lfloor>x\<rfloor> \<le> x" "x < of_int \<lfloor>x\<rfloor> + 1" by linarith+
  then show ?thesis by (auto simp: round_even_def Let_def)
qed

text \<open>The exponent of a positive value: \<open>2 ^ ilog2 x \<le> x < 2 ^ (ilog2 x + 1)\<close>.\<close>

fun bits :: "nat \<Rightarrow> nat" where
  "bits n = (if n = 0 then 0 else Suc (bits (n div 2)))"

declare bits.simps [simp del]

lemma bits_bounds: "0 < n \<Longrightarrow> 2 ^ (bits n - 1) \<le> n \<and> n < 2 ^ bits n \<and> 0 < bits n"
proof (induction n rule: bits.induct)
  case (1 n)
  show ?case
  proof (cases "n div 2 = 0")
    case True
    with 1(2) have "n = 1" by linarith
    then show ?thesis by (simp add: bits.simps)
  next
    case False
    with 1 have IH: "2 ^ (bits (n div 2) - 1) \<le> n div 2" "n div 2 < 2 ^ bits (n div 2)" "0 < bits (n div 2)" by simp_all
    from IH(3) obtain k where k: "bits (n div 2) = Suc k" by (cases "bits (n div 2)") simp_all
    have "bits n = Suc (Suc k)" using 1(2) k by (simp add: bits.simps [of n])
    moreover have "2 * 2 ^ k \<le> n \<and> n < 4 * 2 ^ k" using IH k by auto
    ultimately show ?thesis by simp
  qed
qed

definition ilog2 :: "rat \<Rightarrow> int" where
  "ilog2 x =
     (let (p, q) = quotient_of x;
          e = int (bits (nat p)) - int (bits (nat q))
      in if 2 powi e \<le> x then e else e - 1)"

lemma ilog2_bounds:
  assumes "0 < x"
  shows "2 powi (ilog2 x) \<le> x" "x < 2 powi (ilog2 x + 1)"
proof -
  obtain p q where pq: "quotient_of x = (p, q)" by (cases "quotient_of x")
  then have x: "x = of_int p / of_int q" and q: "0 < q" by (auto simp: quotient_of_div quotient_of_denom_pos)
  with assms have p: "0 < p" by (simp add: zero_less_divide_iff)
  let ?a = "bits (nat p)" and ?b = "bits (nat q)"
  define e where "e = int ?a - int ?b"
  have P: "2 powi (int ?a - 1) \<le> (of_int p :: rat)" "(of_int p :: rat) < 2 powi (int ?a)"
    and Q: "2 powi (int ?b - 1) \<le> (of_int q :: rat)" "(of_int q :: rat) < 2 powi (int ?b)"
  proof -
    have bounds: "2 powi (int (bits (nat r)) - 1) \<le> (of_int r :: rat) \<and> (of_int r :: rat) < 2 powi (int (bits (nat r)))"
      if r: "0 < r" for r :: int
    proof -
      define b where "b = bits (nat r)"
      from bits_bounds [of "nat r"] r
      have b: "2 ^ (b - 1) \<le> nat r" "nat r < 2 ^ b" "0 < b" by (simp_all add: b_def)
      have "(2 :: rat) ^ (b - 1) \<le> of_nat (nat r)" "of_nat (nat r) < (2 :: rat) ^ b"
        using b(1,2) by (metis of_nat_le_iff of_nat_numeral of_nat_power, metis of_nat_less_iff of_nat_numeral of_nat_power)
      moreover have "of_nat (nat r) = (of_int r :: rat)" using r by (simp add: of_nat_nat)
      moreover have "int b - 1 = int (b - 1)" using b(3) by simp
      ultimately show ?thesis unfolding b_def [symmetric] by (simp only: power_int_of_nat simp_thms)
    qed
    show "2 powi (int ?a - 1) \<le> (of_int p :: rat)" "(of_int p :: rat) < 2 powi (int ?a)"
      "2 powi (int ?b - 1) \<le> (of_int q :: rat)" "(of_int q :: rat) < 2 powi (int ?b)"
      using bounds p q by blast+
  qed
  have low: "2 powi (e - 1) \<le> x"
  proof -
    have "2 powi (e - 1) = (2 powi (int ?a - 1)) / (2 powi int ?b :: rat)"
      unfolding e_def by (subst power_int_diff [symmetric]) (simp_all add: algebra_simps)
    also have "\<dots> \<le> of_int p / of_int q" using P(1) Q(2) q p by (intro frac_le) (simp_all add: less_imp_le)
    finally show ?thesis by (simp add: x)
  qed
  have high: "x < 2 powi (e + 1)"
  proof -
    have "of_int p / of_int q < (2 powi int ?a) / (2 powi (int ?b - 1) :: rat)"
      using P(2) Q(1) q p by (intro frac_less) simp_all
    also have "\<dots> = 2 powi (e + 1)"
      unfolding e_def by (subst power_int_diff [symmetric]) (simp_all add: algebra_simps)
    finally show ?thesis by (simp add: x)
  qed
  have i: "ilog2 x = (if 2 powi e \<le> x then e else e - 1)" by (simp add: ilog2_def pq e_def Let_def)
  show "2 powi (ilog2 x) \<le> x" using low by (simp add: i)
  show "x < 2 powi (ilog2 x + 1)" using high by (simp add: i)
qed

section \<open>Values and operations\<close>

datatype f64 = Fin rat | PInf | NInf | NaN

text \<open>The unit in the last place at \<open>x\<close>, and the rounded value.\<close>

definition ulp_exp :: "rat \<Rightarrow> int" where
  "ulp_exp x = max (- 1074) (ilog2 \<bar>x\<bar> - 52)"

definition round53 :: "rat \<Rightarrow> rat" where
  "round53 x =
     (if x = 0 then 0 else of_int (round_even (x / 2 powi (ulp_exp x))) * 2 powi (ulp_exp x))"

definition fl :: "rat \<Rightarrow> f64" where
  "fl x =
     (let r = round53 x
      in if r \<ge> 2 ^ 1024 then PInf else if r \<le> - (2 ^ 1024) then NInf else Fin r)"

fun f_neg :: "f64 \<Rightarrow> f64" where
  "f_neg (Fin x) = Fin (- x)"
| "f_neg PInf = NInf"
| "f_neg NInf = PInf"
| "f_neg NaN = NaN"

fun f_add :: "f64 \<Rightarrow> f64 \<Rightarrow> f64" where
  "f_add (Fin x) (Fin y) = fl (x + y)"
| "f_add NaN _ = NaN"
| "f_add _ NaN = NaN"
| "f_add PInf NInf = NaN"
| "f_add NInf PInf = NaN"
| "f_add PInf _ = PInf"
| "f_add NInf _ = NInf"
| "f_add _ y = y"

definition f_sub :: "f64 \<Rightarrow> f64 \<Rightarrow> f64" where
  "f_sub x y = f_add x (f_neg y)"

definition inf_of :: "rat \<Rightarrow> f64" where
  "inf_of s = (if s > 0 then PInf else if s < 0 then NInf else NaN)"

fun f_sgn :: "f64 \<Rightarrow> rat" where
  "f_sgn (Fin x) = sgn x"
| "f_sgn PInf = 1"
| "f_sgn NInf = - 1"
| "f_sgn NaN = 0"

fun f_mul :: "f64 \<Rightarrow> f64 \<Rightarrow> f64" where
  "f_mul (Fin x) (Fin y) = fl (x * y)"
| "f_mul NaN _ = NaN"
| "f_mul _ NaN = NaN"
| "f_mul x y = inf_of (f_sgn x * f_sgn y)"

fun f_div :: "f64 \<Rightarrow> f64 \<Rightarrow> f64" where
  "f_div (Fin x) (Fin y) = (if y = 0 then inf_of x else fl (x / y))"
| "f_div NaN _ = NaN"
| "f_div _ NaN = NaN"
| "f_div (Fin x) _ = Fin 0"
| "f_div x (Fin y) = inf_of (f_sgn x * (if y < 0 then - 1 else 1))"
| "f_div _ _ = NaN"

text \<open>The square root of a value \<open>x > 0\<close> at the precision of the result, with the half
  above the integer root decided exactly.\<close>

definition sqrt_exp :: "rat \<Rightarrow> int" where
  "sqrt_exp x = ilog2 x div 2 - 52"

definition sqrt_round :: "rat \<Rightarrow> int" where
  "sqrt_round y =
     (let n = int (isqrt (nat \<lfloor>y\<rfloor>));
          h = (of_int n + 1 / 2) ^ 2
      in if y < h then n else if y > h then n + 1 else if even n then n else n + 1)"

definition sqrt53 :: "rat \<Rightarrow> rat" where
  "sqrt53 x = (let e = sqrt_exp x in of_int (sqrt_round (x / (2 powi e) ^ 2)) * 2 powi e)"

fun f_sqrt :: "f64 \<Rightarrow> f64" where
  "f_sqrt (Fin x) = (if x < 0 then NaN else if x = 0 then Fin 0 else fl (sqrt53 x))"
| "f_sqrt PInf = PInf"
| "f_sqrt _ = NaN"

text \<open>Comparisons are false as soon as one side is NaN.\<close>

fun f_lt :: "f64 \<Rightarrow> f64 \<Rightarrow> bool" where
  "f_lt (Fin x) (Fin y) = (x < y)"
| "f_lt NaN _ = False"
| "f_lt _ NaN = False"
| "f_lt NInf y = (y \<noteq> NInf)"
| "f_lt x PInf = (x \<noteq> PInf)"
| "f_lt _ _ = False"

definition f_of_int :: "int \<Rightarrow> f64" where
  "f_of_int n = fl (of_int n)"

text \<open>\<open>math.Min\<close> and \<open>math.Max\<close>.\<close>

definition f_min :: "f64 \<Rightarrow> f64 \<Rightarrow> f64" where
  "f_min x y =
     (if x = NInf \<or> y = NInf then NInf else if x = NaN \<or> y = NaN then NaN
      else if f_lt x y then x else y)"

definition f_max :: "f64 \<Rightarrow> f64 \<Rightarrow> f64" where
  "f_max x y =
     (if x = PInf \<or> y = PInf then PInf else if x = NaN \<or> y = NaN then NaN
      else if f_lt y x then x else y)"

text \<open>The conversion to \<open>int64\<close> truncates. Out of range, where the language leaves the
  result to the implementation, it is that of amd64, the smallest integer.\<close>

definition trunc :: "rat \<Rightarrow> int" where
  "trunc x = (if x < 0 then - \<lfloor>- x\<rfloor> else \<lfloor>x\<rfloor>)"

definition f_to_int :: "f64 \<Rightarrow> int" where
  "f_to_int x =
     (case x of
        Fin r \<Rightarrow> if in_int64 (trunc r) then trunc r else - (2 ^ 63)
      | _ \<Rightarrow> - (2 ^ 63))"

section \<open>Rounding never passes a value of 53 bits\<close>

lemma powi_split: "(2 powi k :: rat) = of_int (2 ^ nat (k - u)) * 2 powi u" if "u \<le> k"
proof -
  have "(2 powi k :: rat) = 2 powi (k - u) * 2 powi u" by (simp flip: power_int_add)
  also have "2 powi (k - u) = (of_int (2 ^ nat (k - u)) :: rat)" using that by (simp add: power_int_def)
  finally show ?thesis .
qed

text \<open>The values that have 53 significant bits.\<close>

definition short :: "rat \<Rightarrow> bool" where
  "short r \<longleftrightarrow> (\<exists>m k. r = of_int m * 2 powi k \<and> 0 \<le> m \<and> m \<le> 2 ^ 53 \<and> - 1074 \<le> k)"

lemma short_int: "0 \<le> m \<Longrightarrow> m \<le> 2 ^ 53 \<Longrightarrow> short (of_int m)"
  unfolding short_def by (intro exI [of _ m] exI [of _ 0]) simp

lemma short_power: "- 1074 \<le> k \<Longrightarrow> short (2 powi k)"
  unfolding short_def by (intro exI [of _ 1] exI [of _ k]) simp

lemma short_cases:
  assumes "0 < x" "short r"
  obtains n where "r = of_int n * 2 powi (ulp_exp x)"
  | "r \<le> 2 ^ 52 * 2 powi (ulp_exp x)" "2 ^ 52 * 2 powi (ulp_exp x) \<le> x"
proof -
  obtain m k where r: "r = of_int m * 2 powi k" and m: "0 \<le> m" "m \<le> 2 ^ 53" and k: "- 1074 \<le> k"
    using assms(2) unfolding short_def by blast
  show thesis
  proof (cases "ulp_exp x \<le> k")
    case True
    from powi_split [OF this] have "r = of_int (m * 2 ^ nat (k - ulp_exp x)) * 2 powi (ulp_exp x)"
      by (simp add: r)
    then show thesis by (rule that(1))
  next
    case False
    with k have u: "ulp_exp x = ilog2 x - 52" using assms(1) by (simp add: ulp_exp_def max_def split: if_splits)
    have "2 powi (ilog2 x) = (2 powi 52 :: rat) * 2 powi (ulp_exp x)"
      unfolding u by (simp add: power_int_diff)
    then have "2 ^ 52 * 2 powi (ulp_exp x) \<le> x" using ilog2_bounds(1) [OF assms(1)] by simp
    moreover have "r \<le> 2 ^ 52 * 2 powi (ulp_exp x)"
    proof -
      have "(of_int m :: rat) \<le> of_int (2 ^ 53)" using m(2) by (simp only: of_int_le_iff)
      then have "r \<le> 2 ^ 53 * 2 powi k" unfolding r by (intro mult_right_mono) simp_all
      also have "(2 :: rat) ^ 53 * 2 powi k = 2 ^ 52 * 2 powi (k + 1)" by (simp add: power_int_add)
      also have "(2 powi (k + 1) :: rat) \<le> 2 powi (ulp_exp x)" using False by (intro power_int_increasing) simp_all
      then have "(2 :: rat) ^ 52 * 2 powi (k + 1) \<le> 2 ^ 52 * 2 powi (ulp_exp x)" by simp
      finally show ?thesis .
    qed
    ultimately show thesis by (intro that(2))
  qed
qed

lemma round53_pos: "0 < x \<Longrightarrow> round53 x = of_int (round_even (x / 2 powi (ulp_exp x))) * 2 powi (ulp_exp x)"
  by (simp add: round53_def)

lemma round53_ge:
  assumes "0 < x" "short r" "r \<le> x"
  shows "r \<le> round53 x"
proof -
  let ?u = "2 powi (ulp_exp x) :: rat"
  have up: "of_int n * ?u \<le> round53 x" if "of_int n * ?u \<le> x" for n
  proof -
    from that have "of_int n \<le> x / ?u" by (simp add: pos_le_divide_eq)
    then have "n \<le> round_even (x / ?u)" by (rule round_even_ge)
    then show ?thesis using assms(1) by (simp add: round53_pos)
  qed
  from assms(1,2) show ?thesis
  proof (cases rule: short_cases)
    case (1 n)
    then show ?thesis using assms(3) up by simp
  next
    case 2
    then have "of_int (2 ^ 52) * ?u \<le> round53 x" by (intro up) simp
    with 2 show ?thesis by simp
  qed
qed

lemma round53_le:
  assumes "0 < x" "short r" "x \<le> r"
  shows "round53 x \<le> r"
proof -
  let ?u = "2 powi (ulp_exp x) :: rat"
  have down: "round53 x \<le> of_int n * ?u" if "x \<le> of_int n * ?u" for n
  proof -
    from that have "x / ?u \<le> of_int n" by (simp add: pos_divide_le_eq)
    then have "round_even (x / ?u) \<le> n" by (rule round_even_le)
    then show ?thesis using assms(1) by (simp add: round53_pos)
  qed
  from assms(1,2) show ?thesis
  proof (cases rule: short_cases)
    case (1 n)
    then show ?thesis using assms(3) down by simp
  next
    case 2
    with assms(3) have "round53 x \<le> of_int (2 ^ 52) * ?u" by (intro down) simp
    with 2 assms(3) show ?thesis by simp
  qed
qed

lemma round53_short: "short r \<Longrightarrow> round53 r = r"
proof (cases "r = 0")
  case False
  assume r: "short r"
  then have "0 \<le> r" unfolding short_def by auto
  with False have "0 < r" by simp
  with r round53_ge [OF _ r order_refl] round53_le [OF _ r order_refl] show ?thesis by (simp add: antisym)
qed (simp add: round53_def)

lemma round53_nonneg: "0 \<le> x \<Longrightarrow> 0 \<le> round53 x"
proof (cases "x = 0")
  case False
  moreover assume "0 \<le> x"
  ultimately have "0 < x" by simp
  from round53_ge [OF this, of 0] short_int [of 0] this show ?thesis by simp
qed (simp add: round53_def)

text \<open>The error of rounding is at most half a unit: relative to a normal value, at most
  \<open>2 ^ -53\<close>.\<close>

lemma round53_error:
  assumes "2 powi (- 1022) \<le> x"
  shows "\<bar>round53 x - x\<bar> \<le> x / 2 ^ 53"
proof -
  have pos: "0 < x" using assms zero_less_power_int [of 2 "- 1022"] by (meson less_le_trans zero_less_numeral)
  let ?u = "2 powi (ulp_exp x) :: rat"
  have "- 1022 < ilog2 x + 1"
  proof (rule ccontr)
    assume "\<not> - 1022 < ilog2 x + 1"
    then have "(2 powi (ilog2 x + 1) :: rat) \<le> 2 powi (- 1022)" by (intro power_int_increasing) simp_all
    with ilog2_bounds(2) [OF pos] assms show False by simp
  qed
  then have u: "ulp_exp x = ilog2 x - 52" using pos by (simp add: ulp_exp_def)
  have "2 powi (ilog2 x) = (2 powi 52 :: rat) * ?u" unfolding u by (simp add: power_int_diff)
  with ilog2_bounds(1) [OF pos] have ux: "?u \<le> x / 2 ^ 52" by simp
  have "round53 x - x = (of_int (round_even (x / ?u)) - x / ?u) * ?u"
    using pos by (simp add: round53_pos algebra_simps)
  also have "\<bar>\<dots>\<bar> \<le> 1 / 2 * ?u"
    unfolding abs_mult using round_even_near [of "x / ?u"] by (intro mult_mono) simp_all
  also have "\<dots> \<le> x / 2 ^ 53" using ux by simp
  finally show ?thesis .
qed

lemma fl_Fin:
  assumes "0 \<le> x" "x \<le> 2 ^ 1023"
  shows "fl x = Fin (round53 x)"
proof (cases "x = 0")
  case False
  then have "0 < x" using assms(1) by simp
  have "round53 x \<le> 2 powi 1023"
    using assms by (intro round53_le \<open>0 < x\<close> short_power) simp_all
  also have "(2 powi 1023 :: rat) < 2 ^ 1024" by (simp add: power_int_def)
  finally show ?thesis using round53_nonneg [OF assms(1)] by (simp add: fl_def Let_def)
qed (simp add: fl_def round53_def)

lemma fl_short: "short r \<Longrightarrow> r \<le> 2 ^ 1023 \<Longrightarrow> fl r = Fin r"
  by (subst fl_Fin) (auto simp: round53_short short_def)

lemma f_of_int_small: "0 \<le> n \<Longrightarrow> n \<le> 2 ^ 53 \<Longrightarrow> f_of_int n = Fin (of_int n)"
proof -
  assume n: "0 \<le> n" "n \<le> 2 ^ 53"
  then have "(of_int n :: rat) \<le> of_int (2 ^ 53)" by (simp only: of_int_le_iff)
  also have "\<dots> \<le> 2 ^ 1023" by simp
  finally show ?thesis unfolding f_of_int_def using n by (intro fl_short short_int) simp_all
qed

lemma f_of_int_64:
  assumes "0 \<le> n" "n < 2 ^ 63"
  shows "f_of_int n = Fin (round53 (of_int n)) \<and> round53 (of_int n) \<le> 2 ^ 63 \<and> (0 < n \<longrightarrow> 1 \<le> round53 (of_int n))"
proof -
  have n: "(of_int n :: rat) \<le> 2 ^ 63" using assms(2) by (metis less_imp_le of_int_le_iff of_int_numeral of_int_power)
  have "fl (of_int n) = Fin (round53 (of_int n))" using assms(1) n by (intro fl_Fin) simp_all
  moreover have "round53 (of_int n) \<le> 2 ^ 63 \<and> (0 < n \<longrightarrow> 1 \<le> round53 (of_int n))"
  proof (cases "n = 0")
    case False
    with assms(1) have "0 < (of_int n :: rat)" "1 \<le> (of_int n :: rat)" by simp_all
    moreover have "short (2 ^ 63)" using short_power [of 63] by (simp add: power_int_def)
    moreover have "short 1" using short_power [of 0] by simp
    ultimately show ?thesis using n round53_le round53_ge by blast
  qed (simp add: round53_def)
  ultimately show ?thesis by (simp add: f_of_int_def)
qed

section \<open>Rounding of negative values\<close>

lemma round_even_neg: "round_even (- x) = - round_even x"
proof (cases "x = of_int \<lfloor>x\<rfloor>")
  case True
  then have "round_even x = \<lfloor>x\<rfloor>" "round_even (- x) = - \<lfloor>x\<rfloor>"
    using round_even_of_int [of "\<lfloor>x\<rfloor>"] round_even_of_int [of "- \<lfloor>x\<rfloor>"] by simp_all
  then show ?thesis by simp
next
  case False
  then have "\<lfloor>- x\<rfloor> = - \<lfloor>x\<rfloor> - 1"
    by (intro floor_unique) (simp_all, linarith+)
  then show ?thesis by (auto simp: round_even_def Let_def)
qed

lemma round53_neg: "round53 (- x) = - round53 x"
  by (simp add: round53_def ulp_exp_def round_even_neg)

lemma round53_abs_le:
  assumes "\<bar>x\<bar> \<le> r" "short r"
  shows "\<bar>round53 x\<bar> \<le> r"
proof -
  have pos: "0 \<le> y \<Longrightarrow> y \<le> r \<Longrightarrow> 0 \<le> round53 y \<and> round53 y \<le> r" for y
    using round53_nonneg [of y] round53_le [OF _ assms(2), of y] assms
    by (cases "y = 0") (simp_all add: round53_def)
  show ?thesis
  proof (cases "0 \<le> x")
    case True
    then show ?thesis using pos [of x] assms(1) by simp
  next
    case False
    then show ?thesis using pos [of "- x"] assms(1) by (simp add: round53_neg)
  qed
qed

lemma fl_abs:
  assumes "\<bar>x\<bar> \<le> r" "short r" "r \<le> 2 ^ 1023"
  shows "fl x = Fin (round53 x) \<and> \<bar>round53 x\<bar> \<le> r"
proof -
  have r: "\<bar>round53 x\<bar> \<le> r" by (rule round53_abs_le [OF assms(1,2)])
  have "(2 :: rat) ^ 1023 < 2 ^ 1024" by (rule power_strict_increasing) simp_all
  with r assms(3) have "round53 x < 2 ^ 1024" "- (2 ^ 1024) < round53 x" by linarith+
  then show ?thesis using r by (simp add: fl_def)
qed

section \<open>Square roots and integers\<close>

lemma sqrt53_aux:
  assumes "0 \<le> (y :: rat)"
  defines "n \<equiv> int (isqrt (nat \<lfloor>y\<rfloor>))"
  shows "(of_int n) ^ 2 \<le> y" "y < (of_int n + 1) ^ 2"
proof -
  have f: "0 \<le> \<lfloor>y\<rfloor>" using assms(1) by simp
  have "n ^ 2 \<le> \<lfloor>y\<rfloor>" "\<lfloor>y\<rfloor> < (n + 1) ^ 2"
  proof -
    have "int ((isqrt (nat \<lfloor>y\<rfloor>)) ^ 2) \<le> int (nat \<lfloor>y\<rfloor>)" "int (nat \<lfloor>y\<rfloor>) < int ((isqrt (nat \<lfloor>y\<rfloor>) + 1) ^ 2)"
      using isqrt_bounds [of "nat \<lfloor>y\<rfloor>"] by (simp_all only: of_nat_le_iff of_nat_less_iff)
    then show "n ^ 2 \<le> \<lfloor>y\<rfloor>" "\<lfloor>y\<rfloor> < (n + 1) ^ 2" using f by (simp_all add: n_def add.commute)
  qed
  then have "of_int (n ^ 2) \<le> y" "y < of_int ((n + 1) ^ 2)" by (simp_all only: le_floor_iff floor_less_iff)
  then show "(of_int n) ^ 2 \<le> y" "y < (of_int n + 1) ^ 2" by simp_all
qed

lemma sqrt_round_ge:
  assumes "0 \<le> y" "of_int j ^ 2 \<le> y"
  shows "j \<le> sqrt_round y"
proof -
  define n where "n = int (isqrt (nat \<lfloor>y\<rfloor>))"
  have "0 \<le> n" by (simp add: n_def)
  have "(of_int j :: rat) ^ 2 < (of_int n + 1) ^ 2"
    using sqrt53_aux(2) [OF assms(1)] assms(2) unfolding n_def by (rule order.strict_trans1 [rotated])
  then have "(of_int j :: rat) < of_int n + 1" by (rule power_less_imp_less_base) (use \<open>0 \<le> n\<close> in simp)
  then have "j \<le> n" by linarith
  then show ?thesis unfolding sqrt_round_def n_def [symmetric] Let_def by simp
qed

lemma sqrt_round_le:
  assumes "0 \<le> y" "y \<le> of_int j ^ 2" "0 \<le> j"
  shows "sqrt_round y \<le> j"
proof -
  define n where "n = int (isqrt (nat \<lfloor>y\<rfloor>))"
  have n0: "0 \<le> n" by (simp add: n_def)
  have n: "(of_int n) ^ 2 \<le> y" using sqrt53_aux(1) [OF assms(1)] by (simp add: n_def)
  show ?thesis
  proof (cases "n < j")
    case True
    then show ?thesis unfolding sqrt_round_def n_def [symmetric] Let_def by simp
  next
    case False
    have "(of_int n :: rat) ^ 2 \<le> of_int j ^ 2" using n assms(2) by (rule order_trans)
    then have "(of_int n :: rat) \<le> of_int j" by (rule power2_le_imp_le) (use assms(3) in simp)
    with False have j: "j = n" by simp
    have "y < (of_int n + 1 / 2) ^ 2"
    proof -
      have "(of_int n :: rat) ^ 2 < (of_int n + 1 / 2) ^ 2" by (rule power_strict_mono) (use n0 in simp_all)
      with assms(2) show ?thesis unfolding j by (rule order.strict_trans1)
    qed
    then show ?thesis unfolding sqrt_round_def n_def [symmetric] Let_def j by simp
  qed
qed

lemma sqrt53_int:
  assumes "0 < x" "x < 2 ^ 100" "0 \<le> k"
  shows "of_int k ^ 2 \<le> x \<Longrightarrow> of_int k \<le> sqrt53 x" and "x \<le> of_int k ^ 2 \<Longrightarrow> sqrt53 x \<le> of_int k"
proof -
  have "ilog2 x < 100"
  proof (rule ccontr)
    assume "\<not> ilog2 x < 100"
    then have "(2 powi 100 :: rat) \<le> 2 powi (ilog2 x)" by (intro power_int_increasing) simp_all
    with ilog2_bounds(1) [OF assms(1)] assms(2) show False by simp
  qed
  then have e: "sqrt_exp x \<le> 0" by (simp add: sqrt_exp_def)
  define u where "u = (2 powi (sqrt_exp x) :: rat)"
  define m where "m = k * 2 ^ nat (- sqrt_exp x)"
  have u: "0 < u" by (simp add: u_def)
  have k: "of_int k = of_int m * u" using powi_split [OF e] by (simp add: m_def u_def)
  have m: "0 \<le> m" using assms(3) by (simp add: m_def)
  have s: "sqrt53 x = of_int (sqrt_round (x / u ^ 2)) * u" by (simp add: sqrt53_def Let_def u_def)
  have y: "0 \<le> x / u ^ 2" using assms(1) by simp
  show "of_int k ^ 2 \<le> x \<Longrightarrow> of_int k \<le> sqrt53 x"
  proof -
    assume "of_int k ^ 2 \<le> x"
    then have "of_int m ^ 2 \<le> x / u ^ 2" using u by (simp add: k power_mult_distrib pos_le_divide_eq)
    from sqrt_round_ge [OF y this] show ?thesis using u unfolding s k by simp
  qed
  show "x \<le> of_int k ^ 2 \<Longrightarrow> sqrt53 x \<le> of_int k"
  proof -
    assume "x \<le> of_int k ^ 2"
    then have "x / u ^ 2 \<le> of_int m ^ 2" using u by (simp add: k power_mult_distrib pos_divide_le_eq)
    from sqrt_round_le [OF y this m] show ?thesis using u unfolding s k by simp
  qed
qed

lemma f_sqrt_int:
  assumes "0 < x" "x < 2 ^ 100" "1 \<le> j" "of_int j ^ 2 \<le> x" "x \<le> of_int k ^ 2" "j \<le> k" "k \<le> 2 ^ 53"
  shows "\<exists>s. f_sqrt (Fin x) = Fin s \<and> of_int j \<le> s \<and> s \<le> of_int k"
proof -
  have s: "of_int j \<le> sqrt53 x" "sqrt53 x \<le> of_int k" using sqrt53_int [OF assms(1,2)] assms by simp_all
  have "(1 :: rat) \<le> of_int j" using assms(3) by simp
  with s have pos: "0 < sqrt53 x" by linarith
  have "(of_int k :: rat) \<le> of_int (2 ^ 53)" using assms(7) by (simp only: of_int_le_iff)
  also have "\<dots> \<le> 2 ^ 1023" by simp
  finally have "fl (sqrt53 x) = Fin (round53 (sqrt53 x))" using s pos by (intro fl_Fin) simp_all
  moreover have "of_int j \<le> round53 (sqrt53 x)" "round53 (sqrt53 x) \<le> of_int k"
    using s pos assms by (intro round53_ge round53_le short_int; simp)+
  ultimately show ?thesis using assms(1) by simp
qed

end
