(* ===== verification/Vegas.thy ===== *)
theory Vegas
  imports FloatGo "HOL-Library.Multiset"
begin

text \<open>
  \<open>grate/sample.go\<close> and \<open>grate/vegas.go\<close>: the limiter in the manner of TCP Vegas. The
  samples are a store, since a finishing request may still hold one that was replaced;
  \<open>sample\<close> is the index of the current one. A finishing request runs in two steps:
  up to the lock (\<open>done_add\<close>) and with it (\<open>done_locked\<close>); other requests run in
  between. The clock and the random number are arguments. Integers are \<open>int64\<close> and wrap.
  \<open>None\<close> is a panic.
\<close>

section \<open>Samples\<close>

record sample =
  s_count :: int
  s_maxInFlight :: int
  s_drop :: int
  s_totalRTT :: int

definition new_sample :: sample where
  "new_sample = \<lparr>s_count = 0, s_maxInFlight = 0, s_drop = 0, s_totalRTT = 0\<rparr>"

definition sample_Add :: "int \<Rightarrow> int \<Rightarrow> bool \<Rightarrow> sample \<Rightarrow> sample" where
  "sample_Add rtt inFlight dropped s =
     \<lparr>s_count = wrap64 (s_count s + 1),
      s_maxInFlight = (if s_maxInFlight s < inFlight then inFlight else s_maxInFlight s),
      s_drop = (if dropped then 1 else s_drop s),
      s_totalRTT = wrap64 (s_totalRTT s + rtt)\<rparr>"

definition RTT :: "sample \<Rightarrow> int" where
  "RTT s = (if s_count s = 0 then 0 else wrap64 (go_quot (s_totalRTT s) (s_count s)))"

definition MaxInFlight :: "sample \<Rightarrow> int" where
  "MaxInFlight s = s_maxInFlight s"

definition Count :: "sample \<Rightarrow> int" where
  "Count s = s_count s"

definition sample_Drop :: "sample \<Rightarrow> bool" where
  "sample_Drop s \<longleftrightarrow> s_drop s = 1"

section \<open>The limiter\<close>

datatype operation = Success | Ignore | Drop

record vegas =
  limit :: int
  inFlight :: int
  updateTime :: int
  minRTT :: int
  probes :: int
  samples :: "sample list"
  cur_sample :: nat

definition minWindowTime :: int where "minWindowTime = 500000000"
definition maxWindowTime :: int where "maxWindowTime = 2000000000"
definition minLimit :: int where "minLimit = 8"
definition maxLimit :: int where "maxLimit = 2048"

definition NewVegas :: vegas where
  "NewVegas = \<lparr>limit = minLimit, inFlight = 0, updateTime = 0, minRTT = 0, probes = 100,
     samples = [new_sample], cur_sample = 0\<rparr>"

record vegas_stats =
  st_Limit :: int
  st_InFlight :: int
  st_MinRTT :: int
  st_LastRTT :: int

definition vegas_Stats :: "vegas \<Rightarrow> vegas_stats" where
  "vegas_Stats v = \<lparr>st_Limit = limit v, st_InFlight = inFlight v, st_MinRTT = minRTT v,
     st_LastRTT = RTT (samples v ! cur_sample v)\<rparr>"

text \<open>\<open>Acquire\<close>: the number in flight that the returned function keeps, and success.\<close>

definition Acquire :: "vegas \<Rightarrow> int \<times> bool \<times> vegas" where
  "Acquire v =
     (let n = wrap64 (inFlight v + 1);
          v = v\<lparr>inFlight := n\<rparr>
      in (n, n \<le> limit v, v))"

definition addToSample :: "nat \<Rightarrow> int \<Rightarrow> int \<Rightarrow> operation \<Rightarrow> vegas \<Rightarrow> vegas" where
  "addToSample s rtt inFl op v =
     (if op = Drop then v\<lparr>samples := (samples v)[s := sample_Add rtt inFl True (samples v ! s)]\<rparr>
      else if op = Success then v\<lparr>samples := (samples v)[s := sample_Add rtt inFl False (samples v ! s)]\<rparr>
      else v)"

text \<open>The returned function up to the lock. The result is the sample and the time with which
  it goes on to the lock, if it does.\<close>

definition done_add :: "int \<Rightarrow> int \<Rightarrow> int \<Rightarrow> operation \<Rightarrow> vegas \<Rightarrow> (nat \<times> int) option \<times> vegas" where
  "done_add now start inFl op v =
     (let v = v\<lparr>inFlight := wrap64 (inFlight v - 1)\<rparr>
      in if op = Ignore then (None, v)
         else
           (let rtt = wrap64 (now - start);
                s = cur_sample v;
                v = addToSample s rtt inFl op v
            in if now > updateTime v \<and> Count (samples v ! s) \<ge> 16 then (Some (s, now), v) else (None, v)))"

definition newUpdateTime :: "int \<Rightarrow> int \<Rightarrow> vegas \<Rightarrow> vegas" where
  "newUpdateTime lastRTT now v =
     (let window = wrap64 (lastRTT * 5)
      in v\<lparr>updateTime :=
             (if window < minWindowTime then wrap64 (now + minWindowTime)
              else if window > maxWindowTime then wrap64 (now + maxWindowTime)
              else wrap64 (now + window))\<rparr>)"

text \<open>\<open>rnd n\<close>: what \<open>rand.Int63n(n)\<close> returns, a number in \<open>[0, n)\<close>; it panics for
  \<open>n \<le> 0\<close>.\<close>

definition newMinRTT :: "(int \<Rightarrow> int) \<Rightarrow> sample \<Rightarrow> int \<Rightarrow> int \<Rightarrow> vegas \<Rightarrow> vegas option" where
  "newMinRTT rnd s lastRTT lm v =
     (let v = v\<lparr>probes := wrap64 (probes v - 1)\<rparr>;
          maxFlight = MaxInFlight s
      in map_option
           (\<lambda>v. if minRTT v = 0 \<or> lastRTT < minRTT v then v\<lparr>minRTT := lastRTT\<rparr> else v)
           (if probes v \<le> 0 \<and> (wrap64 (maxFlight * 2) < limit v \<or> maxFlight \<le> minLimit)
            then if wrap64 (3 * lm) \<le> 0 then None
                 else Some (v\<lparr>probes := wrap64 (wrap64 (3 * lm) + rnd (wrap64 (3 * lm))), minRTT := lastRTT\<rparr>)
            else Some v))"

definition storeLimit :: "f64 \<Rightarrow> vegas \<Rightarrow> vegas" where
  "storeLimit newLimit v =
     v\<lparr>limit := f_to_int (f_max (f_of_int minLimit) (f_min (f_of_int maxLimit) newLimit))\<rparr>"

definition newLimit :: "sample \<Rightarrow> int \<Rightarrow> int \<Rightarrow> vegas \<Rightarrow> vegas" where
  "newLimit s lastRTT lm v =
     (let queue = f_mul (f_of_int lm) (f_sub (Fin 1) (f_div (f_of_int (minRTT v)) (f_of_int lastRTT)));
          threshold = f_div (f_sqrt (f_of_int lm)) (Fin 2)
      in if sample_Drop s then storeLimit (f_sub (f_of_int lm) threshold) v
         else if wrap64 (MaxInFlight s * 2) < limit v then v
         else if f_lt queue threshold then storeLimit (f_add (f_of_int lm) (f_mul (Fin 6) threshold)) v
         else if f_lt queue (f_mul (Fin 2) threshold) then storeLimit (f_add (f_of_int lm) (f_mul (Fin 3) threshold)) v
         else if f_lt queue (f_mul (Fin 3) threshold) then storeLimit (f_add (f_of_int lm) threshold) v
         else if f_lt (f_mul (Fin 6) threshold) queue then storeLimit (f_sub (f_of_int lm) threshold) v
         else v)"

text \<open>The section under the lock.\<close>

definition done_locked :: "(int \<Rightarrow> int) \<Rightarrow> nat \<Rightarrow> int \<Rightarrow> vegas \<Rightarrow> vegas option" where
  "done_locked rnd s now v =
     (if cur_sample v \<noteq> s then Some v
      else
        (let v = v\<lparr>samples := samples v @ [new_sample], cur_sample := length (samples v)\<rparr>;
             smp = samples v ! s;
             lastRTT = RTT smp
         in if lastRTT \<le> 0 then Some v
            else
              (let lm = limit v;
                   v = newUpdateTime lastRTT now v
               in map_option (newLimit smp lastRTT lm) (newMinRTT rnd smp lastRTT lm v))))"

section \<open>The limit\<close>

definition limit_ok :: "int \<Rightarrow> bool" where
  "limit_ok n \<longleftrightarrow> minLimit \<le> n \<and> n \<le> maxLimit"

lemmas limit_defs = limit_ok_def minLimit_def maxLimit_def

lemma f_of_int_limits [simp]: "f_of_int minLimit = Fin 8" "f_of_int maxLimit = Fin 2048"
  by (simp_all add: minLimit_def maxLimit_def f_of_int_small)

lemma f_of_int_limit: "limit_ok n \<Longrightarrow> f_of_int n = Fin (of_int n)"
  by (intro f_of_int_small) (simp_all add: limit_defs)

lemma trunc_between: "of_int a \<le> x \<Longrightarrow> 0 \<le> a \<Longrightarrow> a \<le> trunc x"
  "x < of_int b + 1 \<Longrightarrow> 0 \<le> x \<Longrightarrow> trunc x \<le> b"
  by (auto simp: trunc_def le_floor_iff floor_le_iff)

text \<open>Whatever is stored, infinities and NaN included, the limit stays in its range. For a
  finite value it is the value, cut to the range and truncated.\<close>

lemma store_Fin:
  "limit (storeLimit (Fin x) v) = trunc (max 8 (min 2048 x))"
proof -
  have r: "8 \<le> max 8 (min 2048 x)" "max 8 (min 2048 x) \<le> 2048" by simp_all
  then have "8 \<le> trunc (max 8 (min 2048 x))" "trunc (max 8 (min 2048 x)) \<le> 2048"
    by (auto intro!: trunc_between)
  then show ?thesis
    by (auto simp: storeLimit_def f_max_def f_min_def f_to_int_def max_def min_def)
qed

text \<open>The threshold, half the root of the limit, between two integers halved.\<close>

lemma half_short: "0 \<le> k \<Longrightarrow> k \<le> 2 ^ 53 \<Longrightarrow> short (of_int k / 2)"
  unfolding short_def
  by (rule exI [of _ k], rule exI [of _ "- 1"]) (simp add: power_int_def)

lemma fl_between:
  assumes "short a" "short b" "a \<le> x" "x \<le> b" "0 < x" "b \<le> 2 ^ 60"
  shows "\<exists>z. fl x = Fin z \<and> a \<le> z \<and> z \<le> b"
proof -
  have "(2 :: rat) ^ 60 \<le> 2 ^ 1023" by (rule power_increasing) simp_all
  then have "x \<le> 2 ^ 1023" using assms(4,6) by linarith
  with assms round53_ge [OF assms(5,1,3)] round53_le [OF assms(5,2,4)] show ?thesis
    by (simp add: fl_Fin)
qed

lemma threshold_bounds:
  assumes "limit_ok n" "1 \<le> j" "j ^ 2 \<le> n" "n \<le> k ^ 2" "j \<le> k" "k \<le> 2 ^ 20"
  shows "\<exists>t. f_div (f_sqrt (f_of_int n)) (Fin 2) = Fin t \<and> of_int j / 2 \<le> t \<and> t \<le> of_int k / 2"
proof -
  have n: "(0 :: rat) < of_int n" "(of_int n :: rat) < 2 ^ 100" using assms(1) by (simp_all add: limit_defs)
  have jk: "(of_int j :: rat) ^ 2 \<le> of_int n" "(of_int n :: rat) \<le> of_int k ^ 2"
    using assms(3,4) by (metis of_int_le_iff of_int_power)+
  obtain s where s: "f_sqrt (Fin (of_int n)) = Fin s" "of_int j \<le> s" "s \<le> of_int k"
    using f_sqrt_int [OF n assms(2) jk assms(5)] assms(6) by auto
  have "(1 :: rat) \<le> of_int j" "(of_int k :: rat) \<le> 2 ^ 20" using assms(2,6) by (simp, metis of_int_le_iff of_int_numeral of_int_power)
  then have "\<exists>t. fl (s / 2) = Fin t \<and> of_int j / 2 \<le> t \<and> t \<le> of_int k / 2"
    using s assms by (intro fl_between half_short) simp_all
  then show ?thesis using s(1) assms(1) by (simp add: f_of_int_limit)
qed

lemma threshold_ok:
  assumes "limit_ok n"
  obtains t where "f_div (f_sqrt (f_of_int n)) (Fin 2) = Fin t" "1 \<le> t" "t \<le> 23" "t \<le> of_int n / 2"
proof -
  have n: "8 \<le> n" "n \<le> 2048" using assms by (simp_all add: limit_defs)
  then have "n \<le> n ^ 2" by (simp add: power2_eq_square)
  from threshold_bounds [OF assms, of 2 46] n obtain t
    where t: "f_div (f_sqrt (f_of_int n)) (Fin 2) = Fin t" "1 \<le> t" "t \<le> 23" by auto
  from threshold_bounds [OF assms, of 2 n] n \<open>n \<le> n ^ 2\<close> t(1) have "t \<le> of_int n / 2" by auto
  with t show thesis by (rule that)
qed

text \<open>Adding to the limit and taking from it, as the limit that is stored.\<close>

lemma store_up:
  assumes "limit_ok n" "1 \<le> a" "of_int a \<le> x" "x \<le> 200"
  shows "\<exists>y. f_add (f_of_int n) (Fin x) = Fin y \<and> limit (storeLimit (Fin y) v) \<ge> min 2048 (n + a) \<and>
    limit_ok (limit (storeLimit (Fin y) v))"
proof -
  have n: "8 \<le> n" "n \<le> 2048" using assms(1) by (simp_all add: limit_defs)
  then have r: "(8 :: rat) \<le> of_int n" "(of_int n :: rat) \<le> 2048" by simp_all
  have a: "(1 :: rat) \<le> of_int a" "(of_int a :: rat) \<le> 200" using assms(2-4) by (simp, linarith)
  then have "a \<le> 200" by simp
  have "\<exists>y. fl (of_int n + x) = Fin y \<and> of_int (n + a) \<le> y \<and> y \<le> of_int (n + 200)"
    using n r a assms(2-4) \<open>a \<le> 200\<close> by (intro fl_between short_int) simp_all
  then obtain y where y: "fl (of_int n + x) = Fin y" "of_int (n + a) \<le> y" by blast
  have "min 2048 (n + a) \<le> trunc (max 8 (min 2048 y))"
    using y(2) n assms(2) by (intro trunc_between(1)) (auto simp: min_def max_def)
  moreover have "trunc (max 8 (min 2048 y)) \<le> 2048" by (rule trunc_between(2)) simp_all
  moreover have "8 \<le> trunc (max 8 (min 2048 y))" by (rule trunc_between(1)) simp_all
  ultimately show ?thesis using y(1) assms(1) unfolding f_of_int_limit [OF assms(1)]
    by (auto simp: store_Fin limit_ok_def minLimit_def maxLimit_def)
qed

lemma store_down:
  assumes "limit_ok n" "1 \<le> x" "x \<le> of_int n / 2"
  shows "\<exists>y. f_sub (f_of_int n) (Fin x) = Fin y \<and> limit (storeLimit (Fin y) v) \<le> max 8 (n - 1) \<and>
    limit_ok (limit (storeLimit (Fin y) v))"
proof -
  have n: "8 \<le> n" "n \<le> 2048" using assms(1) by (simp_all add: limit_defs)
  then have r: "(8 :: rat) \<le> of_int n" "(of_int n :: rat) \<le> 2048" by simp_all
  have "\<exists>y. fl (of_int n - x) = Fin y \<and> of_int 0 \<le> y \<and> y \<le> of_int (n - 1)"
    using n r assms(2,3) by (intro fl_between short_int) simp_all
  then obtain y where y: "fl (of_int n - x) = Fin y" "y \<le> of_int (n - 1)" by blast
  have "trunc (max 8 (min 2048 y)) \<le> max 8 (n - 1)"
    using y(2) by (intro trunc_between(2)) (auto simp: min_def max_def)
  moreover have "trunc (max 8 (min 2048 y)) \<le> 2048" by (rule trunc_between(2)) simp_all
  moreover have "8 \<le> trunc (max 8 (min 2048 y))" by (rule trunc_between(1)) simp_all
  ultimately show ?thesis using y(1) assms(1) unfolding f_of_int_limit [OF assms(1)]
    by (auto simp: store_Fin limit_ok_def minLimit_def maxLimit_def f_sub_def)
qed

lemma times_threshold:
  assumes "1 \<le> t" "t \<le> 23" "1 \<le> c" "c \<le> 6"
  shows "\<exists>z. f_mul (Fin (of_int c)) (Fin t) = Fin z \<and> of_int c \<le> z \<and> z \<le> 200"
proof -
  have c: "(1 :: rat) \<le> of_int c" "(of_int c :: rat) \<le> 6" using assms(3,4) by simp_all
  have "of_int c * 1 \<le> of_int c * t" using c assms(1) by (intro mult_left_mono) simp_all
  moreover have "of_int c * t \<le> 6 * 23" using c assms(1,2) by (intro mult_mono) simp_all
  moreover have "short (200 :: rat)" using short_int [of 200] by simp
  ultimately show ?thesis
    using c assms(3,4) fl_between [of "of_int c" 200 "of_int c * t"] short_int [of c] by auto
qed

text \<open>The rule of \<open>newLimit\<close>, with its threshold \<open>t\<close> and its values stored.\<close>

lemma newLimit_rule:
  fixes lastRTT n :: int and v :: vegas and s :: sample
  assumes "limit_ok n" "limit v = n"
  defines "queue \<equiv> f_mul (f_of_int n) (f_sub (Fin 1) (f_div (f_of_int (minRTT v)) (f_of_int lastRTT)))"
  obtains t where "f_div (f_sqrt (f_of_int n)) (Fin 2) = Fin t" "1 \<le> t" "t \<le> 23" "t \<le> of_int n / 2"
    "limit_ok (limit (newLimit s lastRTT n v))"
    "sample_Drop s \<Longrightarrow> limit (newLimit s lastRTT n v) \<le> max 8 (n - 1)"
    "\<not> sample_Drop s \<Longrightarrow> wrap64 (MaxInFlight s * 2) < n \<Longrightarrow> limit (newLimit s lastRTT n v) = n"
    "\<not> sample_Drop s \<Longrightarrow> \<not> wrap64 (MaxInFlight s * 2) < n \<Longrightarrow> f_lt queue (Fin t) \<Longrightarrow>
       min 2048 (n + 6) \<le> limit (newLimit s lastRTT n v)"
    "\<not> sample_Drop s \<Longrightarrow> \<not> wrap64 (MaxInFlight s * 2) < n \<Longrightarrow> \<not> f_lt queue (Fin t) \<Longrightarrow>
       \<not> f_lt queue (f_mul (Fin 2) (Fin t)) \<Longrightarrow> \<not> f_lt queue (f_mul (Fin 3) (Fin t)) \<Longrightarrow>
       f_lt (f_mul (Fin 6) (Fin t)) queue \<Longrightarrow> limit (newLimit s lastRTT n v) \<le> max 8 (n - 1)"
proof -
  from assms(1) obtain t where t: "f_div (f_sqrt (f_of_int n)) (Fin 2) = Fin t" "1 \<le> t" "t \<le> 23" "t \<le> of_int n / 2"
    by (rule threshold_ok)
  obtain z3 z6 where z: "f_mul (Fin 3) (Fin t) = Fin z3" "3 \<le> z3" "z3 \<le> 200"
    "f_mul (Fin 6) (Fin t) = Fin z6" "6 \<le> z6" "z6 \<le> 200"
    using times_threshold [OF t(2,3), of 3] times_threshold [OF t(2,3), of 6] by auto
  obtain yd y1 y3 y6 where y: "f_sub (f_of_int n) (Fin t) = Fin yd" "limit (storeLimit (Fin yd) v) \<le> max 8 (n - 1)"
    "limit_ok (limit (storeLimit (Fin yd) v))"
    "f_add (f_of_int n) (Fin t) = Fin y1" "limit_ok (limit (storeLimit (Fin y1) v))"
    "f_add (f_of_int n) (Fin z3) = Fin y3" "limit_ok (limit (storeLimit (Fin y3) v))"
    "f_add (f_of_int n) (Fin z6) = Fin y6" "limit_ok (limit (storeLimit (Fin y6) v))"
    "min 2048 (n + 6) \<le> limit (storeLimit (Fin y6) v)"
    using store_down [OF assms(1) t(2,4), of v] store_up [OF assms(1), of 1 t v] store_up [OF assms(1), of 3 z3 v]
      store_up [OF assms(1), of 6 z6 v] t z by auto
  note rule = newLimit_def [of s lastRTT n v, folded queue_def, unfolded t(1) Let_def assms(2)]
  show thesis
  proof (rule that [OF t])
    show "limit_ok (limit (newLimit s lastRTT n v))"
      using assms(1,2) y(3,5,7,9) unfolding rule z(1,4) y(1,4,6,8) by (simp split: if_split)
    show "sample_Drop s \<Longrightarrow> limit (newLimit s lastRTT n v) \<le> max 8 (n - 1)"
      using y(2) unfolding rule z(1,4) y(1,4,6,8) by simp
    show "\<not> sample_Drop s \<Longrightarrow> wrap64 (MaxInFlight s * 2) < n \<Longrightarrow> limit (newLimit s lastRTT n v) = n"
      using assms(2) unfolding rule by simp
    show "\<not> sample_Drop s \<Longrightarrow> \<not> wrap64 (MaxInFlight s * 2) < n \<Longrightarrow> f_lt queue (Fin t) \<Longrightarrow>
       min 2048 (n + 6) \<le> limit (newLimit s lastRTT n v)"
      using y(10) unfolding rule z(1,4) y(1,4,6,8) by simp
    show "\<not> sample_Drop s \<Longrightarrow> \<not> wrap64 (MaxInFlight s * 2) < n \<Longrightarrow> \<not> f_lt queue (Fin t) \<Longrightarrow>
       \<not> f_lt queue (f_mul (Fin 2) (Fin t)) \<Longrightarrow> \<not> f_lt queue (f_mul (Fin 3) (Fin t)) \<Longrightarrow>
       f_lt (f_mul (Fin 6) (Fin t)) queue \<Longrightarrow> limit (newLimit s lastRTT n v) \<le> max 8 (n - 1)"
      using y(2) unfolding rule y(1) by simp
  qed
qed

section \<open>Requests that come and go\<close>

text \<open>\<open>out\<close>: what the requests in flight hold; \<open>pend\<close>: those that go on to the lock.\<close>

inductive vegas_reach :: "vegas \<Rightarrow> int multiset \<Rightarrow> (nat \<times> int) multiset \<Rightarrow> bool" where
  start: "vegas_reach NewVegas {#} {#}"
| acquire: "vegas_reach v out pend \<Longrightarrow> Acquire v = (n, ok, v') \<Longrightarrow> vegas_reach v' (add_mset n out) pend"
| finish: "vegas_reach v (add_mset n out) pend \<Longrightarrow> done_add now begun n op v = (p, v') \<Longrightarrow>
    vegas_reach v' out (case p of None \<Rightarrow> pend | Some q \<Rightarrow> add_mset q pend)"
| locked: "vegas_reach v out (add_mset (s, now) pend) \<Longrightarrow> \<forall>n > 0. 0 \<le> rnd n \<and> rnd n < n \<Longrightarrow>
    done_locked rnd s now v = Some v' \<Longrightarrow> vegas_reach v' out pend"

definition vegas_ok :: "vegas \<Rightarrow> int multiset \<Rightarrow> bool" where
  "vegas_ok v out \<longleftrightarrow> limit_ok (limit v) \<and> inFlight v = wrap64 (int (size out))"

lemma wrap64_add: "wrap64 (wrap64 x + y) = wrap64 (x + y)"
proof -
  have "(wrap64 x + y + 2 ^ 63) mod 2 ^ 64 = ((x + 2 ^ 63) mod 2 ^ 64 + y) mod 2 ^ 64"
    by (simp add: wrap64_def)
  also have "\<dots> = (x + 2 ^ 63 + y) mod 2 ^ 64" by (rule mod_add_left_eq)
  finally show ?thesis by (simp add: wrap64_def algebra_simps)
qed

lemma newMinRTT_frame:
  assumes "limit_ok lm"
  shows "\<exists>v'. newMinRTT rnd s r lm v = Some v' \<and> limit v' = limit v \<and> inFlight v' = inFlight v"
proof -
  have "wrap64 (3 * lm) = 3 * lm" using assms by (intro wrap64_id) (simp_all add: limit_defs)
  then have "0 < wrap64 (3 * lm)" using assms by (simp add: limit_defs)
  then show ?thesis by (auto simp: newMinRTT_def Let_def)
qed

lemma newLimit_inFlight [simp]: "inFlight (newLimit s r lm v) = inFlight v"
  by (simp add: newLimit_def storeLimit_def Let_def)

lemma done_locked_ok:
  assumes "vegas_ok v out"
  shows "\<exists>v'. done_locked rnd s now v = Some v' \<and> vegas_ok v' out"
proof (cases "cur_sample v \<noteq> s \<or> RTT ((samples v @ [new_sample]) ! s) \<le> 0")
  case True
  then show ?thesis using assms by (auto simp: done_locked_def Let_def vegas_ok_def)
next
  case False
  define smp where "smp = (samples v @ [new_sample]) ! s"
  define v1 where "v1 = newUpdateTime (RTT smp) now (v\<lparr>samples := samples v @ [new_sample], cur_sample := length (samples v)\<rparr>)"
  have v1: "limit v1 = limit v" "inFlight v1 = inFlight v" by (simp_all add: v1_def newUpdateTime_def Let_def)
  have ok: "limit_ok (limit v)" using assms by (simp add: vegas_ok_def)
  from newMinRTT_frame [OF ok, of rnd smp "RTT smp" v1] v1 obtain v2 where
    v2: "newMinRTT rnd smp (RTT smp) (limit v) v1 = Some v2" "limit v2 = limit v" "inFlight v2 = inFlight v" by auto
  have "limit_ok (limit (newLimit smp (RTT smp) (limit v) v2))"
    using newLimit_rule [OF ok v2(2), where lastRTT = "RTT smp" and s = smp] by blast
  moreover have "done_locked rnd s now v = Some (newLimit smp (RTT smp) (limit v) v2)"
    using False v2(1) by (simp add: done_locked_def Let_def smp_def v1_def)
  ultimately show ?thesis using assms v2(3) by (simp add: vegas_ok_def)
qed

lemma done_add_ok:
  assumes "vegas_ok v (add_mset n out)" "done_add now begun n op v = (p, v')"
  shows "vegas_ok v' out"
proof -
  have "limit v' = limit v \<and> inFlight v' = wrap64 (inFlight v - 1)"
    using assms(2) by (auto simp: done_add_def addToSample_def Let_def split: if_splits)
  moreover have "wrap64 (wrap64 (int (size out) + 1) - 1) = wrap64 (int (size out))"
    using wrap64_add [of "int (size out) + 1" "- 1"] by simp
  ultimately show ?thesis using assms(1) by (simp add: vegas_ok_def add.commute)
qed

lemma reach_vegas_ok: "vegas_reach v out pend \<Longrightarrow> vegas_ok v out"
proof (induction rule: vegas_reach.induct)
  case start
  then show ?case by (simp add: vegas_ok_def NewVegas_def limit_defs wrap64_id)
next
  case (acquire v out pend n ok v')
  then show ?case using wrap64_add [of "int (size out)" 1]
    by (auto simp: Acquire_def Let_def vegas_ok_def add.commute)
next
  case (finish v n out pend now begun op p v')
  then show ?case using done_add_ok by blast
next
  case (locked v out s now pend rnd v')
  then show ?case using done_locked_ok [of v out rnd s now] by auto
qed

section \<open>The queue that Vegas estimates\<close>

definition queue_est :: "int \<Rightarrow> int \<Rightarrow> int \<Rightarrow> f64" where
  "queue_est n m r = f_mul (f_of_int n) (f_sub (Fin 1) (f_div (f_of_int m) (f_of_int r)))"

lemma short_small: "short 0" "short 1" "short (1 / 2)"
  using short_int [of 0] short_int [of 1] half_short [of 1] by simp_all

lemma fl_0_1 [simp]: "fl 0 = Fin 0" "fl 1 = Fin 1"
  using fl_short [OF short_small(1)] fl_short [OF short_small(2)] by simp_all

lemma queue_none:
  assumes "limit_ok n" "0 < r" "r < 2 ^ 63"
  shows "queue_est n r r = Fin 0"
  using assms f_of_int_64 [of r] by (simp add: queue_est_def f_of_int_limit f_sub_def)

lemma queue_long:
  assumes "limit_ok n" "0 < m" "3 * m \<le> r" "r < 2 ^ 63"
  shows "\<exists>z. queue_est n m r = Fin z \<and> of_int n / 2 \<le> z"
proof -
  define a where "a = round53 (of_int m)"
  define b where "b = round53 (of_int r)"
  have ab: "f_of_int m = Fin a" "f_of_int r = Fin b" "1 \<le> a" "1 \<le> b"
    using f_of_int_64 [of m] f_of_int_64 [of r] assms by (simp_all add: a_def b_def)
  have normal: "(2 powi (- 1022) :: rat) \<le> 2 powi 0" by (rule power_int_increasing) simp_all
  have mr: "(1 :: rat) \<le> of_int m" "(1 :: rat) \<le> of_int r" "3 * (of_int m :: rat) \<le> of_int r"
  proof -
    have "1 \<le> m" "1 \<le> r" using assms by simp_all
    then show "(1 :: rat) \<le> of_int m" "(1 :: rat) \<le> of_int r" by simp_all
    show "3 * (of_int m :: rat) \<le> of_int r" using assms(3) by (metis of_int_le_iff of_int_mult of_int_numeral)
  qed
  have "\<bar>a - of_int m\<bar> \<le> of_int m / 2 ^ 53" "\<bar>b - of_int r\<bar> \<le> of_int r / 2 ^ 53"
    using round53_error [of "of_int m"] round53_error [of "of_int r"] normal mr unfolding a_def b_def by simp_all
  then have "a \<le> of_int m + of_int m / 2 ^ 53" "of_int r - of_int r / 2 ^ 53 \<le> b" by linarith+
  with mr have "2 * a \<le> b" by simp
  then have "0 < a / b" "a / b \<le> 1 / 2" using ab by (simp_all add: field_simps)
  then obtain z1 where z1: "fl (a / b) = Fin z1" "0 \<le> z1" "z1 \<le> 1 / 2"
    using fl_between [of 0 "1 / 2" "a / b"] short_small by auto
  then obtain z2 where z2: "fl (1 - z1) = Fin z2" "1 / 2 \<le> z2" "z2 \<le> 1"
    using fl_between [of "1 / 2" 1 "1 - z1"] short_small by auto
  have n: "8 \<le> n" "n \<le> 2048" using assms(1) by (simp_all add: limit_defs)
  then have r: "(8 :: rat) \<le> of_int n" "(of_int n :: rat) \<le> 2048" by simp_all
  have "of_int n * (1 / 2) \<le> of_int n * z2" "of_int n * z2 \<le> of_int n * 1"
    using z2 r by (intro mult_left_mono; simp)+
  then have "\<exists>z. fl (of_int n * z2) = Fin z \<and> of_int n / 2 \<le> z \<and> z \<le> of_int n"
    using n r z2 by (intro fl_between half_short short_int) simp_all
  then show ?thesis using z1(1) z2(1) ab assms(1) by (auto simp: queue_est_def f_of_int_limit f_sub_def)
qed

text \<open>From a limit of 64 on, the queue that a tripled round trip makes is above every
  threshold of the rule.\<close>

lemma root_sixth:
  assumes "64 \<le> (n :: int)" "n \<le> 2048"
  shows "\<exists>k. n \<le> k ^ 2 \<and> 6 * k < n \<and> 2 \<le> k \<and> k \<le> 2 ^ 20"
proof -
  let ?r = "int (isqrt (nat n))"
  have "int ((isqrt (nat n)) ^ 2) \<le> n" "n < int ((isqrt (nat n) + 1) ^ 2)"
    using isqrt_bounds [of "nat n"] assms by linarith+
  then have b: "?r ^ 2 \<le> n" "n < (?r + 1) ^ 2" by (simp_all add: add.commute)
  have "8 \<le> isqrt (nat n)" using assms(1) by (subst isqrt_le_iff) simp
  then have r: "8 \<le> ?r" by simp
  then have "8 * ?r \<le> ?r ^ 2" by (simp add: power2_eq_square)
  moreover have "?r + 1 \<le> 2 ^ 20" using calculation b(1) assms(2) by simp
  ultimately show ?thesis using b r by (intro exI [of _ "?r + 1"]) simp
qed

lemma long_queue_rule:
  assumes "limit_ok n" "64 \<le> n" "of_int n / 2 \<le> z" "f_div (f_sqrt (f_of_int n)) (Fin 2) = Fin t" "1 \<le> t"
  shows "\<not> f_lt (Fin z) (Fin t) \<and> \<not> f_lt (Fin z) (f_mul (Fin 2) (Fin t)) \<and>
    \<not> f_lt (Fin z) (f_mul (Fin 3) (Fin t)) \<and> f_lt (f_mul (Fin 6) (Fin t)) (Fin z)"
proof -
  have n: "n \<le> 2048" using assms(1) by (simp add: limit_defs)
  from root_sixth [OF assms(2) n] obtain k where k: "n \<le> k ^ 2" "6 * k < n" "2 \<le> k" "k \<le> 2 ^ 20" by blast
  have t: "t \<le> of_int k / 2"
    using threshold_bounds [OF assms(1), of 2 k] k assms(2,4) by auto
  have kn: "6 * (of_int k :: rat) < of_int n" using k(2) by (metis of_int_less_iff of_int_mult of_int_numeral)
  have c: "\<exists>y. f_mul (Fin (of_int c)) (Fin t) = Fin y \<and> y \<le> of_int (c * k) / 2" if "1 \<le> c" "c \<le> 6" for c
  proof -
    have cr: "(1 :: rat) \<le> of_int c" "(of_int c :: rat) \<le> 6" using that by simp_all
    have "of_int c * t \<le> of_int c * (of_int k / 2)" using cr t by (intro mult_left_mono) simp_all
    moreover have "0 < of_int c * t" using cr assms(5) by simp
    moreover have ck: "0 \<le> c * k" "c * k \<le> 6 * 2 ^ 20" using that k by (simp, intro mult_mono) simp_all
    moreover have "(of_int (c * k) :: rat) \<le> of_int (6 * 2 ^ 20)" using ck(2) by (simp only: of_int_le_iff)
    ultimately have "\<exists>y. fl (of_int c * t) = Fin y \<and> 0 \<le> y \<and> y \<le> of_int (c * k) / 2"
      by (intro fl_between half_short short_small) simp_all
    then show ?thesis by auto
  qed
  have "0 < (of_int k :: rat)" using k(3) by simp
  with c [of 2] c [of 3] c [of 6] t assms(3) kn show ?thesis by auto
qed

section \<open>The properties\<close>

text \<open>
  C14. In every state that requests can bring the limiter to, in whatever order they come
  and finish and whatever the clock and the random numbers are: the limit lies between 8
  and 2048, \<open>inFlight\<close> counts the requests in flight (modulo \<open>2 ^ 64\<close>), the section
  under the lock does not panic, and a request is let through exactly if with it there
  are no more than \<open>limit\<close> in flight.
\<close>

theorem vegas_safe:
  assumes "vegas_reach v out pend"
  shows "8 \<le> limit v \<and> limit v \<le> 2048 \<and> inFlight v = wrap64 (int (size out)) \<and>
    (\<forall>(s, now) \<in># pend. done_locked rnd s now v \<noteq> None) \<and>
    (\<exists>n v'. Acquire v = (n, wrap64 (int (size out) + 1) \<le> limit v, v'))"
proof -
  from reach_vegas_ok [OF assms] have ok: "vegas_ok v out" .
  have "done_locked rnd s now v \<noteq> None" for s now using done_locked_ok [OF ok, of rnd s now] by auto
  then show ?thesis using ok
    by (simp add: vegas_ok_def limit_defs Acquire_def case_prod_beta Let_def wrap64_add)
qed

lemma vegas_reach_two:
  "vegas_reach (NewVegas\<lparr>inFlight := 2\<rparr>) {#1, 2#} {#}"
proof -
  have "vegas_reach (NewVegas\<lparr>inFlight := 1\<rparr>) {#1#} {#}"
    using vegas_reach.acquire [OF vegas_reach.start, of 1 True] by (simp add: Acquire_def NewVegas_def minLimit_def wrap64_def)
  from vegas_reach.acquire [OF this, of 2 True] show ?thesis
    by (simp add: Acquire_def NewVegas_def minLimit_def wrap64_def add_mset_commute)
qed

theorem vegas_safe_witness:
  "8 \<le> limit (NewVegas\<lparr>inFlight := 2\<rparr>) \<and> inFlight (NewVegas\<lparr>inFlight := 2\<rparr>) = 2"
  using vegas_safe [OF vegas_reach_two] by (simp add: wrap64_def)

text \<open>
  C15. How the limit moves, for a limit \<open>n\<close> in its range and with all arithmetic done in
  \<open>float64\<close>: a sample with a dropped request lowers it (unless it is 8); otherwise it stays
  while no more than half of it is used; in use, it grows by at least 6 (up to 2048) when
  the round trip is the shortest known, and, from 64 on, it falls when the round trip is
  three times the shortest.
\<close>

theorem vegas_limit_moves:
  assumes "8 \<le> n" "n \<le> 2048" "limit v = n" "0 < minRTT v" "minRTT v \<le> r" "r < 2 ^ 63"
  shows "(sample_Drop s \<longrightarrow> limit (newLimit s r n v) \<le> max 8 (n - 1)) \<and>
    (\<not> sample_Drop s \<and> wrap64 (MaxInFlight s * 2) < n \<longrightarrow> limit (newLimit s r n v) = n) \<and>
    (\<not> sample_Drop s \<and> n \<le> wrap64 (MaxInFlight s * 2) \<and> r = minRTT v \<longrightarrow>
       min 2048 (n + 6) \<le> limit (newLimit s r n v)) \<and>
    (\<not> sample_Drop s \<and> n \<le> wrap64 (MaxInFlight s * 2) \<and> 3 * minRTT v \<le> r \<and> 64 \<le> n \<longrightarrow>
       limit (newLimit s r n v) \<le> n - 1)"
proof -
  have ok: "limit_ok n" using assms by (simp add: limit_defs)
  show ?thesis
  proof (rule newLimit_rule [OF ok assms(3), where lastRTT = r and s = s, folded queue_est_def], goal_cases)
    case (1 t)
    have up: "f_lt (queue_est n (minRTT v) r) (Fin t)" if "r = minRTT v"
      using queue_none [OF ok] assms(4,6) 1(2) that by simp
    have down: "limit (newLimit s r n v) \<le> n - 1"
      if "\<not> sample_Drop s" "\<not> wrap64 (MaxInFlight s * 2) < n" "3 * minRTT v \<le> r" "64 \<le> n"
    proof -
      from queue_long [OF ok assms(4) that(3) assms(6)] obtain z where
        z: "queue_est n (minRTT v) r = Fin z" "of_int n / 2 \<le> z" by blast
      have "limit (newLimit s r n v) \<le> max 8 (n - 1)"
        using long_queue_rule [OF ok that(4) z(2) 1(1,2)] by (intro 1(9) that(1,2)) (simp_all only: z(1) simp_thms)
      then show ?thesis using that(4) by simp
    qed
    show ?thesis
      using 1(6) 1(7) 1(8) up down by (intro conjI impI; (elim conjE)?) (simp_all only: not_less simp_thms)
  qed
qed

theorem vegas_limit_moves_witness:
  "100 + 6 \<le> limit (newLimit \<lparr>s_count = 16, s_maxInFlight = 90, s_drop = 0, s_totalRTT = 16000\<rparr> 1000 100
     (NewVegas\<lparr>limit := 100, minRTT := 1000\<rparr>))"
  using vegas_limit_moves [of 100 "NewVegas\<lparr>limit := 100, minRTT := 1000\<rparr>" 1000
    "\<lparr>s_count = 16, s_maxInFlight = 90, s_drop = 0, s_totalRTT = 16000\<rparr>"]
  by (simp add: sample_Drop_def MaxInFlight_def wrap64_def)

end
