(* ===== verification/CoDel.thy ===== *)
theory CoDel
  imports FloatGo
begin

text \<open>
  \<open>grate/codel.go\<close>: the queue of waiting requests. A channel is a number; \<open>c_pool\<close> are
  the channels in the \<open>sync.Pool\<close>, \<open>fresh\<close> the next that its \<open>New\<close> makes;
  \<open>waiting\<close> are the goroutines parked in a receive, with their channel, in order of
  arrival, and \<open>told\<close> the receives completed and not yet seen by their goroutine. Times
  are milliseconds and an argument.
\<close>

record codel_option =
  Target :: int
  Internal :: int

record packet =
  dropChan :: nat
  timestamp :: int

record codel =
  c_pool :: "nat list"
  fresh :: nat
  packets :: "packet list"
  c_option :: codel_option
  count :: int
  dropping :: bool
  faTime :: int
  dropNext :: int
  waiting :: "(nat \<times> nat) list"
  told :: "(nat \<times> bool) list"

datatype codel_error = ErrLimitExceed | ErrDeadline

definition NewCoDel :: "codel_option list \<Rightarrow> codel" where
  "NewCoDel opt =
     \<lparr>c_pool = [], fresh = 0, packets = [],
      c_option = (case opt of [] \<Rightarrow> \<lparr>Target = 50, Internal = 500\<rparr> | cfg # _ \<Rightarrow> cfg),
      count = 0, dropping = False, faTime = 0, dropNext = 0, waiting = [], told = []\<rparr>"

record codel_stats =
  cs_Dropping :: bool
  cs_FaTime :: int
  cs_DropNext :: int
  cs_Packets :: int

definition codel_Stats :: "codel \<Rightarrow> codel_stats" where
  "codel_Stats q = \<lparr>cs_Dropping = dropping q, cs_FaTime = faTime q, cs_DropNext = dropNext q,
     cs_Packets = int (length (packets q))\<rparr>"

section \<open>The decision\<close>

definition controlLaw :: "int \<Rightarrow> codel \<Rightarrow> int \<times> codel" where
  "controlLaw now q =
     (let next = wrap64 (now + f_to_int (f_div (f_of_int (Internal (c_option q))) (f_sqrt (f_of_int (count q)))))
      in (next, q\<lparr>dropNext := next\<rparr>))"

definition checkFaTime :: "int \<Rightarrow> int \<Rightarrow> codel \<Rightarrow> bool \<times> codel" where
  "checkFaTime now elapsed q =
     (if elapsed < Target (c_option q) then (False, q\<lparr>faTime := 0\<rparr>)
      else if faTime q = 0 then (False, q\<lparr>faTime := wrap64 (now + Internal (c_option q))\<rparr>)
      else (now \<ge> faTime q, q))"

text \<open>The number of drops that a new dropping cycle starts from.\<close>

definition restart :: "int \<Rightarrow> codel \<Rightarrow> codel" where
  "restart now q =
     q\<lparr>dropping := True,
       count := (if wrap64 (now - dropNext q) < Internal (c_option q)
                 then (if count q > 2 then count q - 2 else 1) else 1)\<rparr>"

definition judge :: "int \<Rightarrow> packet \<Rightarrow> codel \<Rightarrow> bool \<times> codel" where
  "judge now p q =
     (let elapsed = wrap64 (now - timestamp p);
          (drp, q) = checkFaTime now elapsed q
      in if dropping q \<and> \<not> drp then (drp, q\<lparr>dropping := False\<rparr>)
         else if dropping q \<and> now > dropNext q
         then
           (let q = q\<lparr>count := wrap64 (count q + 1)\<rparr>;
                (nxt, q) = controlLaw (dropNext q) q
            in (True, q\<lparr>dropNext := nxt\<rparr>))
         else if drp \<and> (wrap64 (now - dropNext q) < Internal (c_option q)
                     \<or> wrap64 (now - faTime q) \<ge> Internal (c_option q))
         then
           (let q = restart now q;
                (nxt, q) = controlLaw now q
            in (True, q\<lparr>dropNext := nxt\<rparr>))
         else (drp, q))"

section \<open>Waiting and waking\<close>

text \<open>\<open>Pool.Get\<close>: one of the pooled channels (\<open>pick\<close>), or a new one.\<close>

definition pool_Get :: "nat \<Rightarrow> codel \<Rightarrow> nat \<times> codel" where
  "pool_Get pick q =
     (if pick < length (c_pool q)
      then (c_pool q ! pick, q\<lparr>c_pool := take pick (c_pool q) @ drop (Suc pick) (c_pool q)\<rparr>)
      else (fresh q, q\<lparr>fresh := Suc (fresh q)\<rparr>))"

definition pool_Put :: "nat \<Rightarrow> codel \<Rightarrow> codel" where
  "pool_Put ch q = q\<lparr>c_pool := ch # c_pool q\<rparr>"

text \<open>\<open>Push\<close> up to its second \<open>select\<close>; then parked there; then woken by a packet's
  channel or by its context.\<close>

definition push_begin :: "int \<Rightarrow> nat \<Rightarrow> codel \<Rightarrow> (codel_error + nat) \<times> codel" where
  "push_begin now pick q =
     (let (ch, q) = pool_Get pick q
      in if length (packets q) < 2048
         then (Inr ch, q\<lparr>packets := packets q @ [\<lparr>dropChan = ch, timestamp = now\<rparr>]\<rparr>)
         else (Inl ErrLimitExceed, pool_Put ch q))"

definition push_park :: "nat \<Rightarrow> nat \<Rightarrow> codel \<Rightarrow> codel" where
  "push_park g ch q = q\<lparr>waiting := waiting q @ [(ch, g)]\<rparr>"

definition push_wake :: "nat \<Rightarrow> nat \<Rightarrow> codel \<Rightarrow> (codel_error option \<times> codel) option" where
  "push_wake g ch q =
     (case map_of (told q) g of
        None \<Rightarrow> None
      | Some drp \<Rightarrow>
          Some (if drp then Some ErrLimitExceed else None,
            pool_Put ch (q\<lparr>told := filter (\<lambda>(h, _). h \<noteq> g) (told q)\<rparr>)))"

definition push_deadline :: "nat \<Rightarrow> nat \<Rightarrow> codel \<Rightarrow> (codel_error \<times> codel) option" where
  "push_deadline g ch q =
     (if (ch, g) \<in> set (waiting q)
      then Some (ErrDeadline, q\<lparr>waiting := remove1 (ch, g) (waiting q)\<rparr>) else None)"

text \<open>One turn of the loop of \<open>Pop\<close>; the result is whether the loop goes on. The send is
  non-blocking and reaches the goroutine that waits longest on the packet's channel.\<close>

definition pop_turn :: "int \<Rightarrow> codel \<Rightarrow> bool \<times> codel" where
  "pop_turn now q =
     (case packets q of
        [] \<Rightarrow> (False, q)
      | p # ps \<Rightarrow>
          (let (drp, q) = judge now p (q\<lparr>packets := ps\<rparr>)
           in case filter (\<lambda>(ch, _). ch = dropChan p) (waiting q) of
                [] \<Rightarrow> (True, pool_Put (dropChan p) q)
              | (ch, g) # _ \<Rightarrow>
                  (drp, q\<lparr>waiting := remove1 (ch, g) (waiting q), told := told q @ [(g, drp)]\<rparr>)))"

text \<open>\<open>Pop\<close> on its own: it ends, since each turn that goes on takes a packet.\<close>

lemma judge_frame [simp]:
  "packets (snd (judge now p q)) = packets q" "waiting (snd (judge now p q)) = waiting q"
  "told (snd (judge now p q)) = told q" "c_pool (snd (judge now p q)) = c_pool q"
  "c_option (snd (judge now p q)) = c_option q" "fresh (snd (judge now p q)) = fresh q"
  by (simp_all add: judge_def checkFaTime_def controlLaw_def restart_def Let_def split: prod.split)

lemma pop_turn_packets:
  "pop_turn now q = (b, q') \<Longrightarrow> packets q' = tl (packets q) \<and> (b \<longrightarrow> packets q \<noteq> [])"
  by (auto simp: pop_turn_def pool_Put_def Let_def case_prod_beta split: list.splits)

function Pop :: "int \<Rightarrow> codel \<Rightarrow> codel" where
  "Pop now q = (case pop_turn now q of (True, q) \<Rightarrow> Pop now q | (False, q) \<Rightarrow> q)"
  by pat_completeness auto
termination
  by (relation "measure (\<lambda>(now, q). length (packets q))") (auto dest!: pop_turn_packets [OF sym])

declare Pop.simps [simp del]

section \<open>What judge decides\<close>

text \<open>
  A reference for the decision, over the packets judged so far, each with the time of its
  judging and the time it has waited: the last packets that all waited for at least
  \<open>Target\<close>, newest first, and the rule on them.
\<close>

definition streak :: "int \<Rightarrow> (int \<times> int) list \<Rightarrow> (int \<times> int) list" where
  "streak target h = takeWhile (\<lambda>(now, elapsed). target \<le> elapsed) (rev h)"

definition above_for :: "codel_option \<Rightarrow> (int \<times> int) list \<Rightarrow> bool" where
  "above_for opt h =
     (let s = streak (Target opt) h
      in 2 \<le> length s \<and> fst (last s) + Internal opt \<le> fst (hd s))"

fun judges :: "(int \<times> int) list \<Rightarrow> codel \<Rightarrow> bool list \<times> codel" where
  "judges [] q = ([], q)"
| "judges ((now, elapsed) # ps) q =
     (let (d, q) = judge now \<lparr>dropChan = 0, timestamp = now - elapsed\<rparr> q;
          (ds, q) = judges ps q
      in (d # ds, q))"

text \<open>\<open>judge\<close> returns what \<open>checkFaTime\<close> does, whatever the state of its dropping.\<close>

lemma judge_is_check:
  "fst (judge now p q) = fst (checkFaTime now (wrap64 (now - timestamp p)) q)"
  "faTime (snd (judge now p q)) = faTime (snd (checkFaTime now (wrap64 (now - timestamp p)) q))"
  by (auto simp: judge_def checkFaTime_def controlLaw_def restart_def Let_def split: prod.split)

definition streak_state :: "(int \<times> int) list \<Rightarrow> codel \<Rightarrow> bool" where
  "streak_state h q \<longleftrightarrow>
     faTime q = (let s = streak (Target (c_option q)) h in if s = [] then 0 else fst (last s) + Internal (c_option q))"

definition timely :: "codel_option \<Rightarrow> int \<times> int \<Rightarrow> bool" where
  "timely opt ne = (case ne of (now, elapsed) \<Rightarrow>
     0 < now \<and> 0 \<le> Internal opt \<and> now + Internal opt < 2 ^ 63 \<and> in_int64 elapsed)"

lemma streak_snoc:
  "streak t (h @ [(now, e)]) = (if t \<le> e then (now, e) # streak t h else [])"
  by (simp add: streak_def)

lemma streak_timely:
  assumes "\<forall>x \<in> set h. timely opt x" "streak t h \<noteq> []"
  shows "0 < fst (last (streak t h))"
proof -
  have "last (streak t h) \<in> set h"
    using assms(2) last_in_set [OF assms(2)] set_takeWhileD unfolding streak_def by fastforce
  with assms(1) show ?thesis by (auto simp: timely_def)
qed

lemma judge_streak:
  assumes "streak_state h q" "\<forall>x \<in> set h. timely (c_option q) x" "timely (c_option q) (now, e)"
  defines "r \<equiv> judge now \<lparr>dropChan = 0, timestamp = now - e\<rparr> q"
  shows "fst r = above_for (c_option q) (h @ [(now, e)]) \<and> streak_state (h @ [(now, e)]) (snd r) \<and>
    c_option (snd r) = c_option q"
proof -
  let ?s = "streak (Target (c_option q)) h" and ?I = "Internal (c_option q)"
  have n: "0 < now" "0 \<le> ?I" "now + ?I < 2 ^ 63" "in_int64 e" using assms(3) by (simp_all add: timely_def)
  have w: "wrap64 e = e" "wrap64 (now + ?I) = now + ?I" using n by (simp_all add: wrap64_id)
  have pos: "?s \<noteq> [] \<Longrightarrow> 0 < fst (last ?s) + ?I" using streak_timely [OF assms(2)] n(2) by fastforce
  have fa: "faTime q = (if ?s = [] then 0 else fst (last ?s) + ?I)"
    using assms(1) by (simp add: streak_state_def Let_def)
  show ?thesis
  proof (cases "Target (c_option q) \<le> e")
    case False
    then show ?thesis
      by (simp add: r_def judge_is_check checkFaTime_def w streak_state_def above_for_def streak_snoc)
  next
    case True
    show ?thesis
    proof (cases "?s = []")
      case empty: True
      with True show ?thesis
        by (simp add: r_def judge_is_check checkFaTime_def w fa streak_state_def above_for_def streak_snoc)
    next
      case False
      then obtain s1 s2 where "?s = s1 # s2" by (cases ?s) auto
      with True False pos show ?thesis
        by (simp add: r_def judge_is_check checkFaTime_def w fa streak_state_def above_for_def streak_snoc)
    qed
  qed
qed

lemma judges_spec:
  assumes "streak_state h q" "\<forall>x \<in> set (h @ ps). timely (c_option q) x"
  shows "fst (judges ps q) = map (\<lambda>k. above_for (c_option q) (h @ take (Suc k) ps)) [0..<length ps]"
  using assms
proof (induction ps arbitrary: h q)
  case (Cons p ps)
  obtain now e where p: "p = (now, e)" by (cases p)
  define r where "r = judge now \<lparr>dropChan = 0, timestamp = now - e\<rparr> q"
  have s: "fst r = above_for (c_option q) (h @ [(now, e)])" "streak_state (h @ [(now, e)]) (snd r)"
    "c_option (snd r) = c_option q"
    using judge_streak [OF Cons.prems(1), of now e] Cons.prems(2) by (simp_all add: p r_def)
  have IH: "fst (judges ps (snd r)) = map (\<lambda>k. above_for (c_option q) ((h @ [(now, e)]) @ take (Suc k) ps)) [0..<length ps]"
    using Cons.IH [OF s(2)] Cons.prems(2) by (simp add: s(3) p)
  have "fst (judges (p # ps) q) = fst r # fst (judges ps (snd r))"
    by (simp add: p r_def Let_def case_prod_beta)
  also have "\<dots> = map (\<lambda>k. above_for (c_option q) (h @ take (Suc k) (p # ps))) [0..<length (p # ps)]"
    unfolding IH s(1) by (simp add: p upt_conv_Cons map_Suc_upt [symmetric] del: upt_Suc)
  finally show ?case .
qed simp

text \<open>The next drop is at most an interval away, and the computation does not divide by zero.\<close>

lemma controlLaw_bounds:
  assumes "1 \<le> count q" "count q < 2 ^ 53" "0 < Internal (c_option q)" "Internal (c_option q) \<le> 2 ^ 53"
    and "0 \<le> now" "now < 2 ^ 62"
  shows "now \<le> fst (controlLaw now q) \<and> fst (controlLaw now q) \<le> now + Internal (c_option q)"
proof -
  let ?I = "Internal (c_option q)" and ?c = "count q"
  have I: "(0 :: rat) < of_int ?I" "(of_int ?I :: rat) \<le> of_int (2 ^ 53)"
    using assms(3,4) by (simp_all only: of_int_le_iff of_int_0_less_iff)
  have c: "(1 :: rat) \<le> of_int ?c" "(of_int ?c :: rat) < of_int (2 ^ 53)"
    using assms(1,2) by (simp_all only: of_int_less_iff of_int_1_le_iff)
  have "?c \<le> ?c ^ 2" using assms(1) by (simp add: power2_eq_square)
  then have cc: "(of_int ?c :: rat) \<le> of_int ?c ^ 2" by (metis of_int_le_iff of_int_power)
  have "(of_int ?c :: rat) < 2 ^ 100" using c(2) by simp
  with f_sqrt_int [of "of_int ?c" 1 ?c] c cc assms(1,2) obtain s where
    s: "f_sqrt (Fin (of_int ?c)) = Fin s" "1 \<le> s" by auto
  have "of_int ?I / s \<le> of_int ?I / 1" using s(2) I by (intro divide_left_mono) simp_all
  then have d: "0 < of_int ?I / s" "of_int ?I / s \<le> of_int ?I" using I s(2) by simp_all
  have "(of_int (2 ^ 53) :: rat) \<le> 2 ^ 1023" by simp
  then have "fl (of_int ?I / s) = Fin (round53 (of_int ?I / s))" using d I by (intro fl_Fin) linarith+
  moreover have r: "0 \<le> round53 (of_int ?I / s)" "round53 (of_int ?I / s) \<le> of_int ?I"
    using d assms(3,4) by (auto intro!: round53_nonneg round53_le short_int)
  ultimately have f: "f_div (f_of_int ?I) (f_sqrt (f_of_int ?c)) = Fin (round53 (of_int ?I / s))"
    using s assms by (simp add: f_of_int_small)
  have t: "0 \<le> trunc (round53 (of_int ?I / s))" "trunc (round53 (of_int ?I / s)) \<le> ?I"
    using r by (simp_all add: trunc_def floor_le_iff)
  then have "f_to_int (Fin (round53 (of_int ?I / s))) = trunc (round53 (of_int ?I / s))"
    using assms(4) by (simp add: f_to_int_def)
  then show ?thesis using t assms(4-6) by (simp add: controlLaw_def f Let_def wrap64_id)
qed

section \<open>The property\<close>

text \<open>
  C16. For any packets, judged at any positive times, a new queue decides exactly by the
  reference: a packet is dropped if and only if it and every packet judged since some
  earlier one, itself included, waited for at least \<open>Target\<close>, and that one was judged
  at least \<open>Internal\<close> before. The dropping state, the count of drops and the control law
  (\<open>dropping\<close>, \<open>count\<close>, \<open>dropNext\<close>) never change a decision: once the queue has
  been above its target for an interval, every packet is dropped, not one in each of the
  shrinking intervals that the control law computes.
\<close>

theorem codel_decides:
  assumes "\<forall>x \<in> set ps. timely (c_option (NewCoDel opt)) x"
  shows "fst (judges ps (NewCoDel opt)) =
    map (\<lambda>k. above_for (c_option (NewCoDel opt)) (take (Suc k) ps)) [0..<length ps]"
proof -
  have "streak_state [] (NewCoDel opt)" by (simp add: streak_state_def streak_def NewCoDel_def)
  from judges_spec [OF this, of ps] assms show ?thesis by simp
qed

theorem codel_decides_witness:
  "fst (judges [(1000, 60), (1200, 70), (1500, 55), (1501, 51), (1502, 49), (1503, 90)] (NewCoDel [])) =
     [False, False, True, True, False, False]"
proof -
  have opt: "c_option (NewCoDel []) = \<lparr>Target = 50, Internal = 500\<rparr>" by (simp add: NewCoDel_def)
  have "\<forall>x \<in> set [(1000, 60), (1200, 70), (1500, 55), (1501, 51), (1502, 49), (1503, 90)]. timely (c_option (NewCoDel [])) x"
    by (simp add: opt timely_def)
  from codel_decides [OF this] show ?thesis
    by (simp add: opt above_for_def streak_def Let_def upt_conv_Cons)
qed

end
