(* ===== verification/Limiter.thy ===== *)
theory Limiter
  imports Vegas CoDel
begin

text \<open>
  \<open>grate/limiter.go\<close>: Vegas and CoDel together. Each call of \<open>Allow\<close> is a client, a
  position of the list \<open>clients\<close>; its value is where the client is. A step is what a
  client does between two points at which others run: up to the second \<open>select\<close> of
  \<open>Push\<close>, parking there, being woken or timed out, the returned function up to the lock
  of Vegas, the section under the lock, a turn of the loop of \<open>Pop\<close>.
\<close>

datatype client =
  Pushing int nat | Parked int nat | Granted int int | Locking nat int | Popping
| Refused codel_error | Finished

record limiter =
  rate :: vegas
  queue :: codel
  clients :: "client list"

definition NewLimiter :: "codel_option list \<Rightarrow> limiter" where
  "NewLimiter c = \<lparr>rate = NewVegas, queue = NewCoDel c, clients = []\<rparr>"

definition limiter_Stats :: "limiter \<Rightarrow> vegas_stats \<times> codel_stats" where
  "limiter_Stats l = (vegas_Stats (rate l), codel_Stats (queue l))"

definition set_client :: "nat \<Rightarrow> client \<Rightarrow> limiter \<Rightarrow> limiter" where
  "set_client g c l = l\<lparr>clients := (clients l)[g := c]\<rparr>"

text \<open>\<open>done(time.Time{}, Ignore)\<close> and the error.\<close>

definition refuse :: "nat \<Rightarrow> int \<Rightarrow> codel_error \<Rightarrow> limiter \<Rightarrow> limiter" where
  "refuse g n e l = set_client g (Refused e) (l\<lparr>rate := snd (done_add 0 0 n Ignore (rate l))\<rparr>)"

definition Allow :: "int \<Rightarrow> nat \<Rightarrow> limiter \<Rightarrow> limiter" where
  "Allow now pick l =
     (let (n, ok, v) = Acquire (rate l);
          g = length (clients l);
          l = l\<lparr>rate := v, clients := clients l @ [Granted n now]\<rparr>
      in if ok then l
         else
           (let (r, q) = push_begin now pick (queue l);
                l = l\<lparr>queue := q\<rparr>
            in case r of Inr ch \<Rightarrow> set_client g (Pushing n ch) l | Inl e \<Rightarrow> refuse g n e l))"

definition allow_park :: "nat \<Rightarrow> int \<Rightarrow> nat \<Rightarrow> limiter \<Rightarrow> limiter" where
  "allow_park g n ch l = set_client g (Parked n ch) (l\<lparr>queue := push_park g ch (queue l)\<rparr>)"

definition allow_wake :: "nat \<Rightarrow> int \<Rightarrow> int \<Rightarrow> nat \<Rightarrow> limiter \<Rightarrow> limiter option" where
  "allow_wake g now n ch l =
     map_option
       (\<lambda>(e, q). let l = l\<lparr>queue := q\<rparr> in case e of None \<Rightarrow> set_client g (Granted n now) l | Some e \<Rightarrow> refuse g n e l)
       (push_wake g ch (queue l))"

definition allow_deadline :: "nat \<Rightarrow> int \<Rightarrow> nat \<Rightarrow> limiter \<Rightarrow> limiter option" where
  "allow_deadline g n ch l =
     map_option (\<lambda>(e, q). refuse g n e (l\<lparr>queue := q\<rparr>)) (push_deadline g ch (queue l))"

definition finish_add :: "nat \<Rightarrow> int \<Rightarrow> operation \<Rightarrow> int \<Rightarrow> int \<Rightarrow> limiter \<Rightarrow> limiter" where
  "finish_add g now op n begun l =
     (let (p, v) = done_add now begun n op (rate l)
      in set_client g (case p of None \<Rightarrow> Popping | Some (s, t) \<Rightarrow> Locking s t) (l\<lparr>rate := v\<rparr>))"

definition finish_locked :: "nat \<Rightarrow> (int \<Rightarrow> int) \<Rightarrow> nat \<Rightarrow> int \<Rightarrow> limiter \<Rightarrow> limiter option" where
  "finish_locked g rnd s t l =
     map_option (\<lambda>v. set_client g Popping (l\<lparr>rate := v\<rparr>)) (done_locked rnd s t (rate l))"

definition finish_pop :: "nat \<Rightarrow> int \<Rightarrow> limiter \<Rightarrow> limiter" where
  "finish_pop g now l =
     (let (more, q) = pop_turn now (queue l)
      in set_client g (if more then Popping else Finished) (l\<lparr>queue := q\<rparr>))"

text \<open>The steps; \<open>Step g now op rnd\<close> is what client \<open>g\<close> does next, \<open>Deadline g\<close> the
  end of its context. A client that waits has no step (\<open>None\<close>).\<close>

datatype lim_move = Call int nat | Step nat int operation "int \<Rightarrow> int" | Deadline nat

fun lim_step :: "lim_move \<Rightarrow> limiter \<Rightarrow> limiter option" where
  "lim_step (Call now pick) l = Some (Allow now pick l)"
| "lim_step (Step g now op rnd) l =
     (if g < length (clients l) then
        (case clients l ! g of
           Pushing n ch \<Rightarrow> Some (allow_park g n ch l)
         | Parked n ch \<Rightarrow> allow_wake g now n ch l
         | Granted n begun \<Rightarrow> Some (finish_add g now op n begun l)
         | Locking s t \<Rightarrow> finish_locked g rnd s t l
         | Popping \<Rightarrow> Some (finish_pop g now l)
         | Refused e \<Rightarrow> None
         | Finished \<Rightarrow> None)
      else None)"
| "lim_step (Deadline g) l =
     (if g < length (clients l) then
        (case clients l ! g of
           Pushing n ch \<Rightarrow> Some (refuse g n ErrDeadline l)
         | Parked n ch \<Rightarrow> allow_deadline g n ch l
         | _ \<Rightarrow> None)
      else None)"

inductive lim_reach :: "codel_option list \<Rightarrow> limiter \<Rightarrow> bool" for c where
  start: "lim_reach c (NewLimiter c)"
| step: "lim_reach c l \<Longrightarrow> lim_step d l = Some l' \<Longrightarrow> lim_reach c l'"

fun lim_steps :: "lim_move list \<Rightarrow> limiter \<Rightarrow> limiter option" where
  "lim_steps [] l = Some l"
| "lim_steps (d # ds) l = (case lim_step d l of None \<Rightarrow> None | Some l \<Rightarrow> lim_steps ds l)"

lemma lim_reach_steps: "lim_reach c l \<Longrightarrow> lim_steps ds l = Some l' \<Longrightarrow> lim_reach c l'"
  by (induction ds arbitrary: l) (auto split: option.splits intro: lim_reach.step)

section \<open>Requests in flight\<close>

fun in_flight :: "client \<Rightarrow> bool" where
  "in_flight (Pushing _ _) = True"
| "in_flight (Parked _ _) = True"
| "in_flight (Granted _ _) = True"
| "in_flight _ = False"

abbreviation flying :: "limiter \<Rightarrow> nat" where
  "flying l \<equiv> length (filter in_flight (clients l))"

definition counts_to :: "vegas \<Rightarrow> nat \<Rightarrow> bool" where
  "counts_to v k \<longleftrightarrow> limit_ok (limit v) \<and> inFlight v = wrap64 (int k)"

lemma counts_to_vegas: "counts_to v k \<longleftrightarrow> vegas_ok v (replicate_mset k 0)"
  by (simp add: counts_to_def vegas_ok_def)

lemma counts_acquire: "counts_to v k \<Longrightarrow> Acquire v = (n, ok, v') \<Longrightarrow> counts_to v' (Suc k)"
  using wrap64_add [of "int k" 1] by (auto simp: counts_to_def Acquire_def Let_def add.commute)

lemma counts_done: "counts_to v (Suc k) \<Longrightarrow> done_add now begun n op v = (p, v') \<Longrightarrow> counts_to v' k"
  using done_add_ok [of v n "replicate_mset k 0" now begun op p v']
  by (simp add: counts_to_vegas vegas_ok_def)

lemma counts_locked: "counts_to v k \<Longrightarrow> \<exists>v'. done_locked rnd s now v = Some v' \<and> counts_to v' k"
  using done_locked_ok unfolding counts_to_vegas by blast

lemma flight_update:
  assumes "g < length cs"
  shows "length (filter in_flight (cs[g := c])) + (if in_flight (cs ! g) then 1 else 0) =
    length (filter in_flight cs) + (if in_flight c then 1 else 0)"
proof -
  obtain us vs where "cs = us @ cs ! g # vs" "length us = g"
    using id_take_nth_drop [OF assms] assms by (metis length_take min.absorb4)
  then obtain d where "cs = us @ d # vs" "cs ! g = d" "length us = g" by blast
  then show ?thesis by (auto simp: list_update_append)
qed

definition lim_ok :: "limiter \<Rightarrow> bool" where
  "lim_ok l \<longleftrightarrow> counts_to (rate l) (flying l)"

lemma lim_ok_set:
  assumes "g < length (clients l)" "counts_to (rate l) k"
    and "k + (if in_flight (clients l ! g) then 1 else 0) = flying l + (if in_flight c then 1 else 0)"
  shows "lim_ok (set_client g c l)"
proof -
  have "k = flying (set_client g c l)"
    using flight_update [OF assms(1), of c] assms(3) by (simp add: set_client_def)
  then show ?thesis using assms(2) by (simp add: lim_ok_def set_client_def)
qed

lemma flying_Suc:
  assumes "g < length (clients l)" "in_flight (clients l ! g)"
  obtains k where "flying l = Suc k"
proof -
  have "clients l ! g \<in> set (filter in_flight (clients l))" using assms by simp
  then have "0 < flying l" by (rule length_pos_if_in_set)
  then show thesis by (intro that [of "flying l - 1"]) simp
qed

lemma refuse_ok:
  assumes "g < length (clients l)" "lim_ok l" "in_flight (clients l ! g)"
  shows "lim_ok (refuse g n e l)"
proof -
  obtain k where k: "flying l = Suc k" using assms(1,3) by (rule flying_Suc)
  obtain p v where v: "done_add 0 0 n Ignore (rate l) = (p, v)" by fastforce
  have "counts_to v k" using counts_done [OF _ v, of k] assms(2) k by (simp add: lim_ok_def)
  then show ?thesis using assms(1,3) k unfolding refuse_def by (intro lim_ok_set [where k = k]) (simp_all add: v)
qed

lemma Allow_ok:
  assumes "lim_ok l"
  shows "lim_ok (Allow now pick l)"
proof -
  obtain n ok v where v: "Acquire (rate l) = (n, ok, v)" by (metis prod_cases3)
  define l1 where "l1 = l\<lparr>rate := v, clients := clients l @ [Granted n now]\<rparr>"
  have l1: "lim_ok l1" using counts_acquire [OF _ v] assms by (simp add: lim_ok_def l1_def)
  obtain r q where r: "push_begin now pick (queue l) = (r, q)" by fastforce
  show ?thesis
  proof (cases ok)
    case True
    then show ?thesis using l1 by (simp add: Allow_def v l1_def)
  next
    case False
    have g: "length (clients l) < length (clients (l1\<lparr>queue := q\<rparr>))"
      "in_flight (clients (l1\<lparr>queue := q\<rparr>) ! length (clients l))" by (simp_all add: l1_def)
    have ok: "lim_ok (l1\<lparr>queue := q\<rparr>)" using l1 by (simp add: lim_ok_def)
    have "Allow now pick l = (case r of Inr ch \<Rightarrow> set_client (length (clients l)) (Pushing n ch) (l1\<lparr>queue := q\<rparr>)
        | Inl e \<Rightarrow> refuse (length (clients l)) n e (l1\<lparr>queue := q\<rparr>))"
      using False r unfolding l1_def by (cases r) (simp_all add: Allow_def v)
    then show ?thesis
      using refuse_ok [OF g(1) ok g(2)] lim_ok_set [OF g(1), of "flying (l1\<lparr>queue := q\<rparr>)" "Pushing n _"] ok g(2)
      by (cases r) (simp_all add: lim_ok_def)
  qed
qed

lemma lim_step_ok:
  assumes "lim_ok l" "lim_step d l = Some l'"
  shows "lim_ok l'"
proof -
  have same: "lim_ok (set_client g c (l\<lparr>queue := q\<rparr>))"
    if "g < length (clients l)" "in_flight (clients l ! g) = in_flight c" for g c q
    using that assms(1) by (intro lim_ok_set [where k = "flying l"]) (simp_all add: lim_ok_def)
  have refuse: "lim_ok (refuse g n e (l\<lparr>queue := q\<rparr>))"
    if "g < length (clients l)" "in_flight (clients l ! g)" for g n e q
    using that assms(1) by (intro refuse_ok) (simp_all add: lim_ok_def)
  show ?thesis
  proof (cases d)
    case (Call now pick)
    then show ?thesis using assms Allow_ok by auto
  next
    case (Deadline g)
    then have g: "g < length (clients l)" using assms(2) by (auto split: if_splits)
    show ?thesis using assms(2) Deadline g refuse [of g _ _ "queue l"] refuse [of g]
      by (cases "clients l ! g") (auto simp: allow_deadline_def)
  next
    case (Step g now op rnd)
    then have g: "g < length (clients l)" using assms(2) by (auto split: if_splits)
    show ?thesis
    proof (cases "clients l ! g")
      case (Granted n begun)
      then have "in_flight (clients l ! g)" by simp
      with g obtain k where k: "flying l = Suc k" by (rule flying_Suc)
      obtain p v where v: "done_add now begun n op (rate l) = (p, v)" by fastforce
      have "counts_to v k" using counts_done [OF _ v, of k] assms(1) k by (simp add: lim_ok_def)
      then show ?thesis using assms(2) Step g Granted k
        by (auto simp: finish_add_def v intro!: lim_ok_set [where k = k] split: option.splits)
    next
      case (Locking s t)
      from counts_locked [of "rate l" "flying l" rnd s t] assms(1) obtain v where
        v: "done_locked rnd s t (rate l) = Some v" "counts_to v (flying l)" by (auto simp: lim_ok_def)
      then show ?thesis using assms(2) Step g Locking
        by (auto simp: finish_locked_def intro!: lim_ok_set [where k = "flying l"])
    next
      case (Pushing n ch)
      then show ?thesis using assms(2) Step g same by (auto simp: allow_park_def)
    next
      case (Parked n ch)
      then show ?thesis using assms(2) Step g same refuse
        by (auto simp: allow_wake_def Let_def split: option.splits)
    next
      case Popping
      then show ?thesis using assms(2) Step g same by (auto simp: finish_pop_def split: prod.splits)
    qed (use assms(2) Step g in simp_all)
  qed
qed

lemma lim_reach_ok: "lim_reach c l \<Longrightarrow> lim_ok l"
proof (induction rule: lim_reach.induct)
  case start
  then show ?case
    by (simp add: lim_ok_def counts_to_def NewLimiter_def NewVegas_def limit_defs wrap64_id)
next
  case (step l d l')
  then show ?case using lim_step_ok by blast
qed

section \<open>A request that nobody wakes\<close>

text \<open>Nine requests; the first finishes, and looks for the ninth, between the enqueueing and
  the parking of the ninth; then all others finish.\<close>

definition quick :: "nat \<Rightarrow> nat \<Rightarrow> lim_move list" where
  "quick g turns = Step g 20 Success id # replicate turns (Step g 20 Success id)"

definition hang_moves :: "lim_move list" where
  "hang_moves = replicate 9 (Call 10 0) @ quick 0 2 @ [Step 8 20 Success id] @ concat (map (\<lambda>g. quick g 1) [1..<8])"

definition hung :: "limiter \<Rightarrow> bool" where
  "hung l \<longleftrightarrow> clients l = replicate 8 Finished @ [Parked 9 0] \<and> packets (queue l) = [] \<and> told (queue l) = []"

lemma hang_run:
  "map_option (\<lambda>l. (clients l, packets (queue l), told (queue l), waiting (queue l))) (lim_steps hang_moves (NewLimiter [])) =
     Some (replicate 8 Finished @ [Parked 9 0], [], [], [(0, 8)])"
  by code_simp

lemma hung_reached: "\<exists>l. lim_reach [] l \<and> hung l"
proof -
  from hang_run obtain l where l: "lim_steps hang_moves (NewLimiter []) = Some l" and "hung l"
    by (auto simp: hung_def)
  from lim_reach_steps [OF lim_reach.start l] \<open>hung l\<close> show ?thesis by blast
qed

lemma hung_stays:
  assumes "hung l" "lim_step d l \<noteq> None"
  shows "(\<exists>now pick. d = Call now pick) \<or> d = Deadline 8"
proof (cases d)
  case (Step g now op rnd)
  with assms show ?thesis
    by (auto simp: hung_def allow_wake_def push_wake_def nth_append nth_Cons' split: if_splits)
next
  case (Deadline g)
  with assms show ?thesis by (auto simp: hung_def nth_append nth_Cons' split: if_splits)
qed simp

section \<open>The properties\<close>

text \<open>
  C17. A request can hang. Without any error or deadline there is a run of nine requests
  after which eight have finished and the ninth waits, although it is the only one in
  flight of the eight that the limit allows: the packet that announced it was taken by a
  \<open>Pop\<close> before the request was parked, its channel went back to the pool, and no step of
  any request wakes it; only the end of its own context, or further requests, can.
\<close>

theorem limiter_request_hangs:
  "\<exists>l. lim_reach [] l \<and> clients l = replicate 8 Finished @ [Parked 9 0] \<and>
     inFlight (rate l) = 1 \<and> 8 \<le> limit (rate l) \<and>
     (\<forall>d. lim_step d l \<noteq> None \<longrightarrow> (\<exists>now pick. d = Call now pick) \<or> d = Deadline 8)"
proof -
  from hung_reached obtain l where l: "lim_reach [] l" "hung l" by blast
  from lim_reach_ok [OF l(1)] l(2) have "inFlight (rate l) = wrap64 1" "8 \<le> limit (rate l)"
    by (simp_all add: lim_ok_def counts_to_def hung_def limit_defs)
  then show ?thesis using l hung_stays [OF l(2)]
    by (intro exI [of _ l]) (simp add: hung_def wrap64_def)
qed

theorem limiter_request_hangs_witness:
  "\<exists>l. lim_reach [] l \<and> clients l ! 8 = Parked 9 0"
proof -
  from limiter_request_hangs obtain l where "lim_reach [] l" "clients l = replicate 8 Finished @ [Parked 9 0]" by blast
  then show ?thesis by (intro exI [of _ l]) (simp add: nth_append)
qed

end
