(* ===== verification/Samples.thy ===== *)
theory Samples
  imports Vegas
begin

text \<open>
  \<open>grate/sample.go\<close> one atomic operation at a time: any number of goroutines are inside
  \<open>Add\<close> of one sample, each at its own place, with the compare-and-swap loop on
  \<open>maxInFlight\<close>. This is what lets \<open>Vegas\<close> take \<open>Add\<close> as one step.
\<close>

section \<open>The goroutines in Add\<close>

text \<open>
  Before the store to \<open>drop\<close>, before the load of \<open>maxInFlight\<close>, before the
  compare-and-swap with the value loaded, before each of the two additions, and returned.
\<close>

datatype add_pc = AtDrop | AtLoad | AtCas int | AtRTT | AtCount | Added

record adder =
  ad_rtt :: int
  ad_inFlight :: int
  ad_drop :: bool
  ad_pc :: add_pc

definition add_step :: "adder \<Rightarrow> sample \<Rightarrow> adder \<times> sample" where
  "add_step a s =
     (case ad_pc a of
        AtDrop \<Rightarrow> (a\<lparr>ad_pc := AtLoad\<rparr>, if ad_drop a then s\<lparr>s_drop := 1\<rparr> else s)
      | AtLoad \<Rightarrow> (a\<lparr>ad_pc := if s_maxInFlight s < ad_inFlight a then AtCas (s_maxInFlight s) else AtRTT\<rparr>, s)
      | AtCas m \<Rightarrow> (if s_maxInFlight s = m then (a\<lparr>ad_pc := AtRTT\<rparr>, s\<lparr>s_maxInFlight := ad_inFlight a\<rparr>)
                    else (a\<lparr>ad_pc := AtLoad\<rparr>, s))
      | AtRTT \<Rightarrow> (a\<lparr>ad_pc := AtCount\<rparr>, s\<lparr>s_totalRTT := wrap64 (s_totalRTT s + ad_rtt a)\<rparr>)
      | AtCount \<Rightarrow> (a\<lparr>ad_pc := Added\<rparr>, s\<lparr>s_count := wrap64 (s_count s + 1)\<rparr>)
      | Added \<Rightarrow> (a, s))"

text \<open>The goroutine number \<open>i\<close> takes its next step.\<close>

definition conc_step :: "nat \<Rightarrow> sample \<times> adder list \<Rightarrow> sample \<times> adder list" where
  "conc_step i p =
     (if i < length (snd p) then let (a, s) = add_step (snd p ! i) (fst p) in (s, (snd p)[i := a]) else p)"

definition conc_run :: "nat list \<Rightarrow> sample \<times> adder list \<Rightarrow> sample \<times> adder list" where
  "conc_run is p = fold conc_step is p"

definition busy :: "nat \<Rightarrow> sample \<times> adder list \<Rightarrow> bool" where
  "busy i p \<longleftrightarrow> i < length (snd p) \<and> ad_pc (snd p ! i) \<noteq> Added"

text \<open>The steps of a schedule that are taken by a goroutine still inside \<open>Add\<close>.\<close>

fun moves :: "nat list \<Rightarrow> sample \<times> adder list \<Rightarrow> nat" where
  "moves [] p = 0"
| "moves (i # is) p = (if busy i p then 1 else 0) + moves is (conc_step i p)"

definition start_add :: "int \<times> int \<times> bool \<Rightarrow> adder" where
  "start_add x = (case x of (r, n, d) \<Rightarrow> \<lparr>ad_rtt = r, ad_inFlight = n, ad_drop = d, ad_pc = AtDrop\<rparr>)"

definition all_added :: "adder list \<Rightarrow> bool" where
  "all_added as \<longleftrightarrow> (\<forall>a \<in> set as. ad_pc a = Added)"

section \<open>Adds one after the other\<close>

fun add_one :: "int \<times> int \<times> bool \<Rightarrow> sample \<Rightarrow> sample" where
  "add_one (r, n, d) s = sample_Add r n d s"

text \<open>The result does not depend on the order.\<close>

definition sum_of :: "(int \<times> int \<times> bool) list \<Rightarrow> sample \<Rightarrow> sample" where
  "sum_of xs s =
     \<lparr>s_count = wrap64 (s_count s + int (length xs)),
      s_maxInFlight = Max (insert (s_maxInFlight s) (set (map (fst \<circ> snd) xs))),
      s_drop = (if \<exists>x \<in> set xs. snd (snd x) then 1 else s_drop s),
      s_totalRTT = wrap64 (s_totalRTT s + sum_list (map fst xs))\<rparr>"

lemma sample_eqI:
  "s_count s = s_count t \<Longrightarrow> s_maxInFlight s = s_maxInFlight t \<Longrightarrow> s_drop s = s_drop t \<Longrightarrow>
   s_totalRTT s = s_totalRTT t \<Longrightarrow> s = (t :: sample)"
  by simp

definition sample_int64 :: "sample \<Rightarrow> bool" where
  "sample_int64 s \<longleftrightarrow> in_int64 (s_count s) \<and> in_int64 (s_totalRTT s)"

lemma wrap64_add_right: "wrap64 (x + wrap64 y) = wrap64 (x + y)"
  using wrap64_add [of y x] by (simp add: add.commute)

lemma fold_add_one: "sample_int64 s \<Longrightarrow> fold add_one xs s = sum_of xs s"
proof (induction xs arbitrary: s)
  case Nil
  then show ?case by (intro sample_eqI) (simp_all add: sum_of_def sample_int64_def wrap64_id)
next
  case (Cons x xs)
  obtain r n d where x: "x = (r, n, d)" by (cases x) auto
  have "sample_int64 (sample_Add r n d s)"
    using wrap64_range by (simp add: sample_int64_def sample_Add_def)
  from Cons.IH [OF this] have "fold add_one (x # xs) s = sum_of xs (sample_Add r n d s)" by (simp add: x)
  also have "\<dots> = sum_of (x # xs) s"
  proof (rule sample_eqI)
    show "s_count (sum_of xs (sample_Add r n d s)) = s_count (sum_of (x # xs) s)"
      by (simp add: sum_of_def sample_Add_def wrap64_add add.assoc)
    show "s_totalRTT (sum_of xs (sample_Add r n d s)) = s_totalRTT (sum_of (x # xs) s)"
      by (simp add: sum_of_def sample_Add_def wrap64_add add.assoc x)
    show "s_drop (sum_of xs (sample_Add r n d s)) = s_drop (sum_of (x # xs) s)"
      by (auto simp: sum_of_def sample_Add_def x)
    let ?M = "set (map (fst \<circ> snd) xs)"
    have "Max (insert (max (s_maxInFlight s) n) ?M) = Max (insert (s_maxInFlight s) (insert n ?M))"
      by (cases "?M = {}") (simp_all add: max.assoc)
    moreover have "(if s_maxInFlight s < n then n else s_maxInFlight s) = max (s_maxInFlight s) n" by simp
    ultimately show "s_maxInFlight (sum_of xs (sample_Add r n d s)) = s_maxInFlight (sum_of (x # xs) s)"
      by (simp add: sum_of_def sample_Add_def x)
  qed
  finally show ?case .
qed

section \<open>The invariant of the steps\<close>

definition passed :: "adder \<Rightarrow> bool" where
  "passed a \<longleftrightarrow> ad_pc a \<in> {AtRTT, AtCount, Added}"

definition rtt_part :: "adder \<Rightarrow> int" where
  "rtt_part a = (if ad_pc a \<in> {AtCount, Added} then ad_rtt a else 0)"

definition count_part :: "adder \<Rightarrow> int" where
  "count_part a = (if ad_pc a = Added then 1 else 0)"

definition conc_inv :: "sample \<Rightarrow> sample \<times> adder list \<Rightarrow> bool" where
  "conc_inv s0 p \<longleftrightarrow> (case p of (s, as) \<Rightarrow>
     s_count s = wrap64 (s_count s0 + sum_list (map count_part as)) \<and>
     s_totalRTT s = wrap64 (s_totalRTT s0 + sum_list (map rtt_part as)) \<and>
     s_drop s = (if \<exists>a \<in> set as. ad_drop a \<and> ad_pc a \<noteq> AtDrop then 1 else s_drop s0) \<and>
     s_maxInFlight s = Max (insert (s_maxInFlight s0) (ad_inFlight ` {a \<in> set as. passed a})) \<and>
     (\<forall>a \<in> set as. \<forall>m. ad_pc a = AtCas m \<longrightarrow> m < ad_inFlight a))"

lemma set_update_split:
  assumes "i < length as"
  obtains A B where "as = A @ as ! i # B" "\<And>x. as[i := x] = A @ x # B"
proof (rule that)
  show "as = take i as @ as ! i # drop (Suc i) as" using assms by (rule id_take_nth_drop)
qed (simp add: upd_conv_take_nth_drop [OF assms])


lemma Max_passed:
  "Max (insert m (ad_inFlight ` {a \<in> set (A @ b # B). passed a})) =
     (let M = Max (insert m (ad_inFlight ` {a \<in> set (A @ B). passed a}))
      in if passed b then max (ad_inFlight b) M else M)"
proof (cases "passed b")
  case True
  have "insert m (ad_inFlight ` {a \<in> set (A @ b # B). passed a}) =
    insert (ad_inFlight b) (insert m (ad_inFlight ` {a \<in> set (A @ B). passed a}))" using True by auto
  moreover have "finite (insert m (ad_inFlight ` {a \<in> set (A @ B). passed a}))" by simp
  ultimately show ?thesis using True by (simp only: Max_insert Let_def if_True) simp
next
  case False
  then have "{a \<in> set (A @ b # B). passed a} = {a \<in> set (A @ B). passed a}" by auto
  with False show ?thesis by (simp add: Let_def)
qed

lemma conc_step_inv:
  assumes inv: "conc_inv s0 p"
  shows "conc_inv s0 (conc_step i p)"
proof (cases "i < length (snd p)")
  case True
  obtain s as where p: "p = (s, as)" by (cases p)
  obtain A B where AB: "as = A @ as ! i # B" "\<And>x. as[i := x] = A @ x # B"
    using set_update_split [of i as] True p by auto
  define a where "a = as ! i"
  obtain b t where bt: "add_step a s = (b, t)" by (cases "add_step a s")
  have step: "conc_step i p = (t, A @ b # B)" using True p bt AB(2) by (simp add: conc_step_def a_def)
  have as: "as = A @ a # B" using AB(1) by (simp add: a_def)
  define M where "M = Max (insert (s_maxInFlight s0) (ad_inFlight ` {a \<in> set (A @ B). passed a}))"
  have i: "s_count s = wrap64 (s_count s0 + sum_list (map count_part (A @ a # B)))"
    "s_totalRTT s = wrap64 (s_totalRTT s0 + sum_list (map rtt_part (A @ a # B)))"
    "s_drop s = (if \<exists>a \<in> set (A @ a # B). ad_drop a \<and> ad_pc a \<noteq> AtDrop then 1 else s_drop s0)"
    "s_maxInFlight s = (if passed a then max (ad_inFlight a) M else M)"
    "\<forall>x \<in> set (A @ a # B). \<forall>m. ad_pc x = AtCas m \<longrightarrow> m < ad_inFlight x"
    using inv unfolding conc_inv_def p as prod.case Max_passed M_def [symmetric] Let_def by blast+
  have w: "wrap64 (wrap64 x + y) = wrap64 (x + y)" for x y by (rule wrap64_add)
  note w = w wrap64_add_right
  have "s_count t = wrap64 (s_count s0 + sum_list (map count_part (A @ b # B)))"
    using i(1) bt by (auto simp: add_step_def count_part_def w algebra_simps split: add_pc.splits if_splits)
  moreover have "s_totalRTT t = wrap64 (s_totalRTT s0 + sum_list (map rtt_part (A @ b # B)))"
    using i(2) bt by (auto simp: add_step_def rtt_part_def w algebra_simps split: add_pc.splits if_splits)
  moreover have "s_drop t = (if \<exists>a \<in> set (A @ b # B). ad_drop a \<and> ad_pc a \<noteq> AtDrop then 1 else s_drop s0)"
    using i(3) bt by (auto simp: add_step_def split: add_pc.splits if_splits)
  moreover have "s_maxInFlight t = (if passed b then max (ad_inFlight b) M else M)"
    using i(4,5) bt by (auto simp: add_step_def passed_def split: add_pc.splits if_splits)
  moreover have "\<forall>x \<in> set (A @ b # B). \<forall>m. ad_pc x = AtCas m \<longrightarrow> m < ad_inFlight x"
    using i(5) bt by (auto simp: add_step_def split: add_pc.splits if_splits)
  ultimately show ?thesis
    unfolding conc_inv_def step prod.case Max_passed M_def [symmetric] Let_def by blast
qed (use inv in \<open>simp add: conc_step_def\<close>)

text \<open>The arguments stay.\<close>

definition args :: "adder \<Rightarrow> int \<times> int \<times> bool" where
  "args a = (ad_rtt a, ad_inFlight a, ad_drop a)"

lemma add_step_args: "args (fst (add_step a s)) = args a"
  by (simp add: add_step_def args_def split: add_pc.split)

lemma conc_step_args: "map args (snd (conc_step i p)) = map args (snd p)"
proof (cases "i < length (snd p)")
  case True
  have "(map args (snd p))[i := args (snd p ! i)] = map args (snd p)"
    using True by (metis list_update_id nth_map)
  with True add_step_args [of "snd p ! i" "fst p"] show ?thesis
    by (cases "add_step (snd p ! i) (fst p)") (simp add: conc_step_def map_update)
qed (simp add: conc_step_def)

lemma conc_run_inv:
  "conc_inv s0 p \<Longrightarrow> conc_inv s0 (conc_run is p) \<and> map args (snd (conc_run is p)) = map args (snd p)"
  unfolding conc_run_def
  by (induction "is" arbitrary: p) (simp_all add: conc_step_inv conc_step_args)

lemma start_inv: "sample_int64 s \<Longrightarrow> conc_inv s (s, map start_add xs)"
proof -
  assume "sample_int64 s"
  moreover have "count_part (start_add x) = 0" "rtt_part (start_add x) = 0" "\<not> passed (start_add x)"
    "ad_pc (start_add x) = AtDrop" for x
    by (simp_all add: start_add_def count_part_def rtt_part_def passed_def split: prod.split)
  moreover from this have "{a \<in> start_add ` set xs. passed a} = {}" by auto
  ultimately show ?thesis
    by (simp add: conc_inv_def sample_int64_def wrap64_id comp_def cong: conj_cong)
qed

text \<open>When all have returned, the sample is what the adds give one after the other.\<close>

lemma all_added_sum:
  assumes inv: "conc_inv s0 (s, as)" and all: "all_added as"
  shows "s = sum_of (map args as) s0"
proof (rule sample_eqI)
  have d: "ad_pc a = Added" if "a \<in> set as" for a using all that by (simp add: all_added_def)
  have "map count_part as = map (\<lambda>_. 1) as" "map rtt_part as = map ad_rtt as"
    using d by (simp_all add: count_part_def rtt_part_def)
  with inv show "s_count s = s_count (sum_of (map args as) s0)"
    "s_totalRTT s = s_totalRTT (sum_of (map args as) s0)"
    by (simp_all add: conc_inv_def sum_of_def sum_list_triv args_def comp_def)
  show "s_drop s = s_drop (sum_of (map args as) s0)"
    using inv d by (auto simp: conc_inv_def sum_of_def args_def)
  have "{a \<in> set as. passed a} = set as" using d by (auto simp: passed_def)
  then show "s_maxInFlight s = s_maxInFlight (sum_of (map args as) s0)"
    using inv by (simp add: conc_inv_def sum_of_def args_def comp_def image_image)
qed


section \<open>Progress\<close>

text \<open>
  How many steps a goroutine has left as long as nobody else moves the maximum; a
  compare-and-swap with an old value costs two more. Only a goroutine that leaves the loop
  moves it, which pays for the others.
\<close>

definition weight :: "int \<Rightarrow> adder \<Rightarrow> nat" where
  "weight M a = (case ad_pc a of AtDrop \<Rightarrow> 5 | AtLoad \<Rightarrow> 4 | AtCas m \<Rightarrow> (if m = M then 3 else 5)
     | AtRTT \<Rightarrow> 2 | AtCount \<Rightarrow> 1 | Added \<Rightarrow> 0)"

definition credit :: "sample \<times> adder list \<Rightarrow> nat" where
  "credit p = 2 * length (snd p) * length (filter (\<lambda>a. \<not> passed a) (snd p)) +
     sum_list (map (weight (s_maxInFlight (fst p))) (snd p))"

lemma weight_any: "weight M' a \<le> weight M a + 2"
  by (simp add: weight_def split: add_pc.split)

lemma weights_any: "sum_list (map (weight M') as) \<le> sum_list (map (weight M) as) + 2 * length as"
proof (induction as)
  case (Cons a as)
  with weight_any [of M' a M] show ?case by simp
qed simp

lemma busy_step_pays:
  assumes "busy i p"
  shows "credit (conc_step i p) < credit p"
proof -
  obtain s as where p: "p = (s, as)" by (cases p)
  have i: "i < length as" "ad_pc (as ! i) \<noteq> Added" using assms p by (simp_all add: busy_def)
  obtain A B where AB: "as = A @ as ! i # B" "\<And>x. as[i := x] = A @ x # B"
    using set_update_split [OF i(1)] by auto
  define a where "a = as ! i"
  obtain b t where bt: "add_step a s = (b, t)" by (cases "add_step a s")
  have step: "conc_step i p = (t, A @ b # B)" using i p bt AB(2) by (simp add: conc_step_def a_def)
  have as: "as = A @ a # B" "ad_pc a \<noteq> Added" using AB(1) i(2) by (simp_all add: a_def)
  define U N where "U = length (filter (\<lambda>a. \<not> passed a) (A @ B))" and "N = length A + length B"
  define W where "W = (\<lambda>M. sum_list (map (weight M) (A @ B)))"
  have c: "credit (u, A @ x # B) =
    2 * (N + 1) * (U + (if passed x then 0 else 1)) + (W (s_maxInFlight u) + weight (s_maxInFlight u) x)" for u x
    by (simp add: credit_def U_def N_def W_def)
  have W: "W M' \<le> W M + 2 * N" for M M' using weights_any [of M' "A @ B" M] by (simp add: W_def N_def)
  show ?thesis
  proof (cases "s_maxInFlight t = s_maxInFlight s")
    case True
    with bt as(2) show ?thesis unfolding step unfolding p as(1) c
      by (auto simp: add_step_def weight_def passed_def split: add_pc.splits if_splits)
  next
    case False
    with bt have "\<not> passed a" "passed b" "weight (s_maxInFlight t) b = 2" "weight (s_maxInFlight s) a = 3"
      by (auto simp: add_step_def weight_def passed_def split: add_pc.splits if_splits)
    with W [of "s_maxInFlight t" "s_maxInFlight s"] show ?thesis unfolding step unfolding p as(1) c by simp
  qed
qed

lemma idle_step: "\<not> busy i p \<Longrightarrow> conc_step i p = p"
  by (cases p) (simp add: busy_def conc_step_def add_step_def)

lemma moves_le_credit: "moves is p \<le> credit p"
proof (induction "is" arbitrary: p)
  case (Cons i "is")
  show ?case
  proof (cases "busy i p")
    case True
    with busy_step_pays [OF this] Cons [of "conc_step i p"] show ?thesis by simp
  qed (use Cons [of p] in \<open>simp add: idle_step\<close>)
qed simp

lemma credit_start: "credit (s, map start_add xs) = length xs * (2 * length xs + 5)"
proof -
  have "\<not> passed (start_add x)" "weight M (start_add x) = 5" for x M
    by (simp_all add: start_add_def passed_def weight_def split: prod.split)
  then show ?thesis by (simp add: credit_def comp_def sum_list_triv algebra_simps)
qed

lemma can_finish: "\<exists>is. all_added (snd (conc_run is p))"
proof (induction "credit p" arbitrary: p rule: less_induct)
  case less
  show ?case
  proof (cases "all_added (snd p)")
    case True
    then show ?thesis by (intro exI [of _ "[]"]) (simp add: conc_run_def)
  next
    case False
    then obtain i where "busy i p" by (auto simp: all_added_def busy_def in_set_conv_nth)
    from less [OF busy_step_pays [OF this]] obtain "is" where "all_added (snd (conc_run is (conc_step i p)))" by blast
    then show ?thesis by (intro exI [of _ "i # is"]) (simp add: conc_run_def)
  qed
qed

section \<open>The property\<close>

text \<open>
  C18. \<open>Add\<close> is linearizable and free of locks. Whatever the interleaving of the atomic
  operations of any number of goroutines inside \<open>Add\<close> of one sample, once all have
  returned the sample is exactly what the same adds give one after the other, in any order: no
  rtt, no count and no maximum is lost. And the compare-and-swap loop ends under every
  schedule: the \<open>n\<close> goroutines together take at most \<open>n * (2 * n + 5)\<close> steps, and
  some schedule finishes all of them from every state.
\<close>

theorem sample_add_linearizes:
  assumes "sample_int64 s"
  shows "(\<forall>is s' as. conc_run is (s, map start_add xs) = (s', as) \<and> all_added as \<longrightarrow>
      (\<forall>ys. mset ys = mset xs \<longrightarrow> s' = fold add_one ys s)) \<and>
    (\<forall>is. moves is (s, map start_add xs) \<le> length xs * (2 * length xs + 5)) \<and>
    (\<forall>is. \<exists>js. all_added (snd (conc_run (is @ js) (s, map start_add xs))))"
proof (intro conjI allI impI)
  fix "is" s' as ys
  assume r: "conc_run is (s, map start_add xs) = (s', as) \<and> all_added as" and ys: "mset ys = mset xs"
  have "args (start_add x) = x" for x by (cases x) (simp add: start_add_def args_def)
  then have "map args (map start_add xs) = xs" by (simp add: comp_def)
  with conc_run_inv [OF start_inv [OF assms, of xs], of "is"] r
  have "conc_inv s (s', as)" "map args as = xs" by simp_all
  with all_added_sum r have "s' = sum_of xs s" by blast
  also have "\<dots> = sum_of ys s"
  proof -
    have "set xs = set ys" using ys by (metis set_mset_mset)
    moreover have "sum_list (map fst xs) = sum_list (map fst ys)" using ys by (metis mset_map sum_mset_sum_list)
    moreover have "length xs = length ys" using ys by (metis size_mset)
    ultimately show ?thesis by (simp add: sum_of_def)
  qed
  finally show "s' = fold add_one ys s" by (simp add: fold_add_one assms)
next
  fix "is"
  show "moves is (s, map start_add xs) \<le> length xs * (2 * length xs + 5)"
    using moves_le_credit [of "is" "(s, map start_add xs)"] by (simp add: credit_start)
  from can_finish [of "conc_run is (s, map start_add xs)"]
  show "\<exists>js. all_added (snd (conc_run (is @ js) (s, map start_add xs)))" by (auto simp: conc_run_def)
qed

text \<open>
  Two goroutines load the same maximum; the smaller value gets in first, and the other one's
  compare-and-swap fails once.
\<close>

theorem sample_add_linearizes_witness:
  "\<exists>s' as. conc_run [0, 1, 0, 1, 0, 1, 1, 1, 1, 0, 1, 0] (new_sample, map start_add [(7, 3, False), (9, 5, True)]) = (s', as) \<and>
     all_added as \<and> s' = fold add_one [(9, 5, True), (7, 3, False)] new_sample \<and> s_maxInFlight s' = 5"
proof -
  have "sample_int64 new_sample" by (simp add: sample_int64_def new_sample_def)
  note lin = sample_add_linearizes [OF this, of "[(7, 3, False), (9, 5, True)]", THEN conjunct1, rule_format]
  have l: "s' = fold add_one [(9, 5, True), (7, 3, False)] new_sample"
    if "conc_run is (new_sample, map start_add [(7, 3, False), (9, 5, True)]) = (s', as)" "all_added as" for "is" s' as
    by (rule lin [of "is" s' as]) (use that in \<open>auto simp: add_mset_commute\<close>)
  let ?p = "conc_run [0, 1, 0, 1, 0, 1, 1, 1, 1, 0, 1, 0] (new_sample, map start_add [(7, 3, False), (9, 5, True)])"
  have "all_added (snd ?p)" "s_maxInFlight (fst ?p) = 5" by code_simp+
  moreover obtain s' as where p: "?p = (s', as)" by (cases ?p)
  ultimately have "all_added as" "s_maxInFlight s' = 5" by simp_all
  with l p show ?thesis by blast
qed

end
