(* ===== verification/Backoff.thy ===== *)
theory Backoff
  imports FloatGo
begin

text \<open>
  \<open>gnet/backoff.go\<close>: the exponential back-off, its delays in nanoseconds (\<open>int64\<close>), its
  factors as \<open>float64\<close>. What \<open>rand.Float64\<close> returns is an argument, a value in
  \<open>[0, 1)\<close>.
\<close>

record backoff_config =
  MaxDelay :: int
  BaseDelay :: int
  Factor :: f64
  Jitter :: f64

text \<open>The values of the constants \<open>1.6\<close> and \<open>0.2\<close> are those rationals rounded.\<close>

definition DefaultBackoff :: backoff_config where
  "DefaultBackoff = \<lparr>MaxDelay = 120000000000, BaseDelay = 1000000000, Factor = fl (16 / 10), Jitter = fl (2 / 10)\<rparr>"

fun backoff_loop :: "nat \<Rightarrow> f64 \<Rightarrow> f64 \<Rightarrow> f64 \<Rightarrow> f64" where
  "backoff_loop 0 factor mx b = b"
| "backoff_loop (Suc retries) factor mx b =
     (if f_lt b mx then backoff_loop retries factor mx (f_mul b factor) else b)"

definition jittered :: "f64 \<Rightarrow> f64 \<Rightarrow> f64 \<Rightarrow> f64" where
  "jittered jitter rnd b = f_mul b (f_add (Fin 1) (f_mul jitter (f_sub (f_mul rnd (Fin 2)) (Fin 1))))"

definition backoff_after :: "backoff_config \<Rightarrow> f64 \<Rightarrow> int \<Rightarrow> int" where
  "backoff_after bc rnd retries =
     (if retries = 0 then BaseDelay bc
      else
        (let mx = f_of_int (MaxDelay bc);
             b = backoff_loop (nat retries) (Factor bc) mx (f_of_int (BaseDelay bc));
             b = (if f_lt mx b then mx else b);
             b = jittered (Jitter bc) rnd b
         in if f_lt b (Fin 0) then 0 else f_to_int b))"

section \<open>The bounds\<close>

lemma loop_above:
  assumes "\<And>x. b \<le> x \<Longrightarrow> x \<le> m \<Longrightarrow> \<exists>y. f_mul (Fin x) f = y \<and> (y = PInf \<or> (\<exists>z. y = Fin z \<and> b \<le> z))" "b \<le> x"
  shows "backoff_loop n f (Fin m) (Fin x) = PInf \<or> (\<exists>z. backoff_loop n f (Fin m) (Fin x) = Fin z \<and> b \<le> z)"
  using assms(2)
proof (induction n arbitrary: x)
  case (Suc n)
  show ?case
  proof (cases "x < m")
    case True
    with assms(1) [of x] Suc.prems consider "f_mul (Fin x) f = PInf" | z where "f_mul (Fin x) f = Fin z" "b \<le> z"
      by fastforce
    then show ?thesis
    proof cases
      case 1
      have "backoff_loop n f (Fin m) PInf = PInf" by (cases n) simp_all
      with True 1 show ?thesis by simp
    next
      case 2
      with True Suc.IH [of z] show ?thesis by simp
    qed
  qed (use Suc.prems in simp)
qed simp

lemma clamp:
  assumes "c = PInf \<or> (\<exists>z. c = Fin z \<and> b \<le> z)" "b \<le> m"
  shows "\<exists>z. (if f_lt (Fin m) c then Fin m else c) = Fin z \<and> b \<le> z \<and> z \<le> m"
  using assms by auto

lemma jitter_range:
  assumes "0 \<le> j" "j \<le> 1" "0 \<le> r" "r \<le> 1" "0 \<le> x" "x \<le> of_int m" "0 \<le> m" "m < 2 ^ 52"
  shows "\<exists>z. jittered (Fin j) (Fin r) (Fin x) = Fin z \<and> 0 \<le> z \<and> z \<le> of_int (2 * m)"
proof -
  have big: "(2 :: rat) \<le> 2 ^ 1023" "(1 :: rat) \<le> 2 ^ 1023" by simp_all
  have s: "short 2" "short 1" using short_int [of 2] short_int [of 1] by simp_all
  have "\<bar>r * 2\<bar> \<le> 2" using assms by simp
  from fl_abs [OF this s(1) big(1)] round53_nonneg [of "r * 2"] assms(3) obtain a where
    a: "fl (r * 2) = Fin a" "0 \<le> a" "a \<le> 2" by auto
  have "\<bar>a - 1\<bar> \<le> 1" using a by linarith
  from fl_abs [OF this s(2) big(2)] obtain d where d: "fl (a - 1) = Fin d" "\<bar>d\<bar> \<le> 1" by blast
  have "\<bar>j * d\<bar> \<le> 1 * 1" unfolding abs_mult using assms d(2) by (intro mult_mono) simp_all
  then have "\<bar>j * d\<bar> \<le> 1" by simp
  from fl_abs [OF this s(2) big(2)] obtain e where e: "fl (j * d) = Fin e" "\<bar>e\<bar> \<le> 1" by blast
  have "\<bar>1 + e\<bar> \<le> 2" using e(2) by linarith
  from fl_abs [OF this s(1) big(1)] round53_nonneg [of "1 + e"] e(2) obtain f where
    f: "fl (1 + e) = Fin f" "0 \<le> f" "f \<le> 2" by auto
  have "x * f \<le> of_int m * 2" "0 \<le> x * f" using assms f by (intro mult_mono mult_nonneg_nonneg; simp)+
  then have xf: "\<bar>x * f\<bar> \<le> of_int (2 * m)" "0 \<le> x * f" by simp_all
  have "2 * m \<le> 2 * (2 ^ 52)" using assms(8) by linarith
  also have "\<dots> = 2 ^ 53" by simp
  finally have m2: "2 * m \<le> 2 ^ 53" .
  then have sm: "short (of_int (2 * m))" using assms(7) by (intro short_int) simp_all
  have "(of_int (2 * m) :: rat) \<le> of_int (2 ^ 53)" using m2 by (simp only: of_int_le_iff)
  also have "\<dots> \<le> 2 ^ 1023" by simp
  finally have "(of_int (2 * m) :: rat) \<le> 2 ^ 1023" .
  from fl_abs [OF xf(1) sm this] round53_nonneg [OF xf(2)] show ?thesis
    by (simp add: jittered_def f_sub_def a d e f)
qed

lemma to_int_range:
  assumes "of_int a \<le> z" "z \<le> of_int b" "0 \<le> a" "b < 2 ^ 63"
  shows "a \<le> f_to_int (Fin z) \<and> f_to_int (Fin z) \<le> b"
proof -
  have "(0 :: rat) \<le> of_int a" using assms(3) by simp
  then have z: "0 \<le> z" using assms(1) by linarith
  then have "a \<le> trunc z" "trunc z \<le> b" using assms(1,2) by (auto simp: trunc_def le_floor_iff floor_le_iff)
  then show ?thesis using assms(3,4) by (simp add: f_to_int_def)
qed

lemma factor_grows:
  assumes "1 \<le> q" "1 \<le> b" "b \<le> 2 ^ 53" "of_int b \<le> x"
  shows "\<exists>y. f_mul (Fin x) (Fin q) = y \<and> (y = PInf \<or> (\<exists>z. y = Fin z \<and> of_int b \<le> z))"
proof -
  have b: "(1 :: rat) \<le> of_int b" using assms(2) by simp
  have "x * 1 \<le> x * q" using assms(1,4) b by (intro mult_left_mono) simp_all
  then have "of_int b \<le> x * q" "0 < x * q" using assms(4) b by linarith+
  then have r: "of_int b \<le> round53 (x * q)" using assms(2,3) by (intro round53_ge short_int) simp_all
  then have "\<not> round53 (x * q) \<le> - (2 ^ 1024)" proof -
    have "(0 :: rat) \<le> 2 ^ 1024" by simp
    then show ?thesis using r b by linarith
  qed
  with r show ?thesis by (auto simp: fl_def Let_def)
qed

text \<open>The delay before the random factor: between \<open>BaseDelay\<close> and \<open>MaxDelay\<close>.\<close>

lemma delay_range:
  assumes "1 \<le> BaseDelay bc" "BaseDelay bc \<le> MaxDelay bc" "MaxDelay bc < 2 ^ 52" "Factor bc = Fin q" "1 \<le> q"
  shows "\<exists>x. (let b = backoff_loop n (Factor bc) (f_of_int (MaxDelay bc)) (f_of_int (BaseDelay bc))
      in if f_lt (f_of_int (MaxDelay bc)) b then f_of_int (MaxDelay bc) else b) = Fin x \<and>
    of_int (BaseDelay bc) \<le> x \<and> x \<le> of_int (MaxDelay bc)"
proof -
  have i: "f_of_int (MaxDelay bc) = Fin (of_int (MaxDelay bc))" "f_of_int (BaseDelay bc) = Fin (of_int (BaseDelay bc))"
    using assms(1-3) by (intro f_of_int_small; simp)+
  have "backoff_loop n (Fin q) (Fin (of_int (MaxDelay bc))) (Fin (of_int (BaseDelay bc))) = PInf \<or>
    (\<exists>z. backoff_loop n (Fin q) (Fin (of_int (MaxDelay bc))) (Fin (of_int (BaseDelay bc))) = Fin z \<and> of_int (BaseDelay bc) \<le> z)"
    using factor_grows [OF assms(5,1)] assms(2,3) by (intro loop_above) simp_all
  from clamp [OF this, of "of_int (MaxDelay bc)"] assms(2) show ?thesis unfolding i assms(4) Let_def by simp
qed

text \<open>Without jitter and with an integer factor the delay is exact.\<close>

lemma loop_exact:
  assumes "1 \<le> f" "1 \<le> b" "m * f \<le> 2 ^ 53" "b \<le> m"
  shows "\<exists>z. backoff_loop n (Fin (of_int f)) (Fin (of_int m)) (Fin (of_int b)) = Fin (of_int z) \<and>
    min z m = min (b * f ^ n) m"
  using assms(2,4)
proof (induction n arbitrary: b)
  case (Suc n)
  show ?case
  proof (cases "b < m")
    case True
    have "b * f \<le> m * f" using Suc.prems assms(1) by (intro mult_right_mono) simp_all
    then have bf: "b * f \<le> 2 ^ 53" using assms(3) by linarith
    have pos: "b * 1 \<le> b * f" using Suc.prems assms(1) by (intro mult_left_mono) simp_all
    have "(of_int (b * f) :: rat) \<le> of_int (2 ^ 53)" using bf by (simp only: of_int_le_iff)
    also have "\<dots> \<le> 2 ^ 1023" by simp
    finally have "f_mul (Fin (of_int b)) (Fin (of_int f)) = Fin (of_int (b * f))"
      using bf pos Suc.prems fl_short [OF short_int [of "b * f"]] by simp
    then have step: "backoff_loop (Suc n) (Fin (of_int f)) (Fin (of_int m)) (Fin (of_int b)) =
        backoff_loop n (Fin (of_int f)) (Fin (of_int m)) (Fin (of_int (b * f)))" using True by simp
    show ?thesis
    proof (cases "b * f \<le> m")
      case True
      with Suc.IH [of "b * f"] pos Suc.prems show ?thesis unfolding step by (simp add: mult.assoc)
    next
      case False
      have "backoff_loop n (Fin (of_int f)) (Fin (of_int m)) (Fin (of_int (b * f))) = Fin (of_int (b * f))"
        using False by (cases n) (simp_all del: of_int_mult)
      moreover have "b * f * 1 \<le> b * f * f ^ n"
        using pos Suc.prems assms(1) by (intro mult_left_mono one_le_power) simp_all
      ultimately show ?thesis using False unfolding step
        by (intro exI [of _ "b * f"]) (simp add: mult.assoc)
    qed
  next
    case False
    with Suc.prems have "b = m" by simp
    moreover have "m * 1 \<le> m * f ^ Suc n" using assms(1) Suc.prems \<open>b = m\<close>
      by (intro mult_left_mono one_le_power) simp_all
    ultimately show ?thesis by (intro exI [of _ m]) simp
  qed
qed (use assms in auto)

lemma no_jitter:
  assumes "0 \<le> r" "r \<le> 1" "jittered (Fin 0) (Fin r) (Fin x) = Fin z"
  shows "z = round53 x"
proof -
  have s: "short 2" "short 1" using short_int [of 2] short_int [of 1] by simp_all
  have big: "(2 :: rat) \<le> 2 ^ 1023" "(1 :: rat) \<le> 2 ^ 1023" by simp_all
  have "\<bar>r * 2\<bar> \<le> 2" using assms(1,2) by simp
  from fl_abs [OF this s(1) big(1)] round53_nonneg [of "r * 2"] assms(1) obtain a where
    a: "fl (r * 2) = Fin a" "0 \<le> a" "a \<le> 2" by auto
  have "\<bar>a - 1\<bar> \<le> 1" using a by linarith
  from fl_abs [OF this s(2) big(2)] obtain d where d: "fl (a - 1) = Fin d" by blast
  have "fl 0 = Fin 0" by (simp add: fl_def round53_def)
  moreover have "fl 1 = Fin 1" using fl_short [OF s(2)] by simp
  ultimately have "fl x = Fin z" using assms(3) a d by (simp add: jittered_def f_sub_def)
  then show ?thesis by (auto simp: fl_def Let_def split: if_splits)
qed

lemma to_int_exact: "0 \<le> k \<Longrightarrow> k < 2 ^ 63 \<Longrightarrow> f_to_int (Fin (of_int k)) = k"
  using to_int_range [of k "of_int k" k] by simp

section \<open>The property\<close>

text \<open>
  C33. The delay. No retry: \<open>BaseDelay\<close>. Otherwise, for any factor of at least 1, any
  jitter of at most 1 and any random number, the delay is never negative and at most twice
  \<open>MaxDelay\<close>; without jitter it lies between \<open>BaseDelay\<close> and \<open>MaxDelay\<close>, and with
  an integer factor it is exactly \<open>BaseDelay * Factor ^ retries\<close>, cut at \<open>MaxDelay\<close>,
  although everything is computed in \<open>float64\<close>.
\<close>

theorem backoff_delay:
  assumes "1 \<le> BaseDelay bc" "BaseDelay bc \<le> MaxDelay bc" "MaxDelay bc < 2 ^ 52"
    and "Factor bc = Fin q" "1 \<le> q" "Jitter bc = Fin j" "0 \<le> j" "j \<le> 1" "0 \<le> r" "r < 1" "0 \<le> n"
  shows "0 \<le> backoff_after bc (Fin r) n \<and> backoff_after bc (Fin r) n \<le> 2 * MaxDelay bc \<and>
    backoff_after bc (Fin r) 0 = BaseDelay bc \<and>
    (j = 0 \<longrightarrow> BaseDelay bc \<le> backoff_after bc (Fin r) n \<and> backoff_after bc (Fin r) n \<le> MaxDelay bc) \<and>
    (j = 0 \<and> q = of_int f \<and> MaxDelay bc * f \<le> 2 ^ 53 \<longrightarrow>
      backoff_after bc (Fin r) n = min (BaseDelay bc * f ^ nat n) (MaxDelay bc))"
proof (cases "n = 0")
  case True
  then have "backoff_after bc (Fin r) n = BaseDelay bc" "backoff_after bc (Fin r) 0 = BaseDelay bc"
    by (simp_all add: backoff_after_def)
  then show ?thesis using assms(1,2) True by simp
next
  case False
  let ?m = "MaxDelay bc" and ?b = "BaseDelay bc"
  define c where "c = backoff_loop (nat n) (Factor bc) (f_of_int ?m) (f_of_int ?b)"
  from delay_range [OF assms(1-5), of "nat n"] obtain x where
    x: "(if f_lt (f_of_int ?m) c then f_of_int ?m else c) = Fin x" "of_int ?b \<le> x" "x \<le> of_int ?m"
    unfolding Let_def c_def by blast
  have b: "(1 :: rat) \<le> of_int ?b" using assms(1) by simp
  have "\<exists>z. jittered (Fin j) (Fin r) (Fin x) = Fin z \<and> 0 \<le> z \<and> z \<le> of_int (2 * ?m)"
    using assms x b by (intro jitter_range) simp_all
  then obtain z where z: "jittered (Fin j) (Fin r) (Fin x) = Fin z" "0 \<le> z" "z \<le> of_int (2 * ?m)" by blast
  have res: "backoff_after bc (Fin r) n = f_to_int (Fin z)"
    using False z unfolding backoff_after_def Let_def c_def [symmetric] x(1) assms(6) by simp
  have range: "0 \<le> f_to_int (Fin z) \<and> f_to_int (Fin z) \<le> 2 * ?m"
    using z assms(1-3) by (intro to_int_range) simp_all
  have flat: "z = round53 x" if "j = 0" using no_jitter [of r x z] z(1) assms(9,10) that by simp
  have "?b \<le> f_to_int (Fin (round53 x)) \<and> f_to_int (Fin (round53 x)) \<le> ?m"
    using x b assms(1-3) by (intro to_int_range round53_ge round53_le short_int) simp_all
  moreover have "f_to_int (Fin (round53 x)) = min (?b * f ^ nat n) ?m" if f: "q = of_int f" "?m * f \<le> 2 ^ 53"
  proof -
    define k where "k = min (?b * f ^ nat n) ?m"
    have i: "f_of_int ?m = Fin (of_int ?m)" "f_of_int ?b = Fin (of_int ?b)"
      using assms(1-3) by (intro f_of_int_small; simp)+
    have "1 \<le> f" using assms(5) f(1) by simp
    from loop_exact [OF this assms(1) f(2) assms(2), of "nat n"] obtain y where
      y: "c = Fin (of_int y)" "min y ?m = k" unfolding c_def i assms(4) f(1) k_def by blast
    then have xi: "x = of_int k" using x(1) unfolding i y(2) [symmetric] by (auto simp: min_def split: if_splits)
    then have k: "?b \<le> k" "k \<le> ?m" using x(2,3) by simp_all
    then have "round53 x = of_int k" unfolding xi using assms(1,3) by (intro round53_short short_int) simp_all
    then show ?thesis using k assms(1,3) to_int_exact [of k] by (simp add: k_def)
  qed
  moreover have "backoff_after bc (Fin r) 0 = ?b" by (simp add: backoff_after_def)
  ultimately show ?thesis using range flat unfolding res by blast
qed

theorem backoff_delay_witness:
  "backoff_after \<lparr>MaxDelay = 120000, BaseDelay = 1000, Factor = Fin 2, Jitter = Fin 0\<rparr> (Fin (1 / 4)) 5 = 32000"
  using backoff_delay [of "\<lparr>MaxDelay = 120000, BaseDelay = 1000, Factor = Fin 2, Jitter = Fin 0\<rparr>" 2 0 "1 / 4" 5 2]
  by simp

end
