(* ===== verification/HumanBytes.thy ===== *)
theory HumanBytes
  imports FloatGo Strconv
begin

text \<open>
  \<open>gstr/human_bytes.go\<close>: byte counts for people. Beside the two functions, what they use
  of the library: \<open>%.2f\<close> (the exact value rounded to hundredths, ties to even),
  \<open>ParseFloat\<close> (the decimal rounded to a \<open>float64\<close>, a range error when that is
  infinite), and the one regular expression of the file as the matcher it denotes: each
  part is greedy and the parts begin with different characters, so that it never has to
  go back.
\<close>

section \<open>The library\<close>

definition two_digits :: "nat \<Rightarrow> string" where
  "two_digits n = [digit_char (n div 10 mod 10), digit_char (n mod 10)]"

definition fixed2 :: "f64 \<Rightarrow> string" where
  "fixed2 v =
     (case v of
        Fin x \<Rightarrow>
          (let h = nat (round_even (\<bar>x\<bar> * 100))
           in (if x < 0 then ''-'' else '''') @ dec (h div 100) @ ''.'' @ two_digits (h mod 100))
      | PInf \<Rightarrow> ''+Inf'' | NInf \<Rightarrow> ''-Inf'' | NaN \<Rightarrow> ''NaN'')"

text \<open>A number as the expression matches it: sign, digits, and digits after a point.\<close>

record number =
  negative :: bool
  int_part :: string
  frac_part :: string

definition ParseFloat :: "number \<Rightarrow> f64 option" where
  "ParseFloat n =
     (let x = of_nat (digits_value 10 (int_part n @ frac_part n)) / 10 ^ length (frac_part n);
          v = fl (if negative n then - x else x)
      in case v of Fin _ \<Rightarrow> Some v | _ \<Rightarrow> None)"

definition upper :: "char \<Rightarrow> char" where
  "upper c = (if 97 \<le> byte c \<and> byte c \<le> 122 then char_of (byte c - 32) else c)"

text \<open>The unit, \<open>([KMGTPE]B?|B?)$\<close> without regard to case; the Kelvin sign (three bytes of
  UTF-8) counts as a \<open>K\<close>.\<close>

definition unit_ok :: "string \<Rightarrow> bool" where
  "unit_ok u =
     (let rest = (\<lambda>t. t = [] \<or> map upper t = ''B'')
      in u = [] \<or> map upper u = ''B'' \<or> (upper (hd u) \<in> set ''KMGTPE'' \<and> rest (tl u)) \<or>
         (map byte (take 3 u) = [226, 132, 170] \<and> rest (drop 3 u)))"

definition is_space :: "char \<Rightarrow> bool" where
  "is_space c \<longleftrightarrow> byte c \<in> {9, 10, 12, 13, 32}"

definition split_digits :: "string \<Rightarrow> string \<times> string" where
  "split_digits s = (takeWhile (is_digit 10) s, dropWhile (is_digit 10) s)"

definition FindStringSubmatch :: "string \<Rightarrow> (number \<times> string) option" where
  "FindStringSubmatch s =
     (let (neg, s) = (case s of [] \<Rightarrow> (False, []) | c # t \<Rightarrow> if c = CHR ''-'' then (True, t) else (False, s));
          (ip, s) = split_digits s
      in if ip = [] then None
         else
           (let (fp, s) = (case s of
                  [] \<Rightarrow> ([], [])
                | c # t \<Rightarrow>
                    (let (f, r) = split_digits t
                     in if c = CHR ''.'' \<and> f \<noteq> [] then (f, r) else ([], s)));
                u = (case s of [] \<Rightarrow> [] | c # t \<Rightarrow> if is_space c then t else s)
            in if unit_ok u then Some (\<lparr>negative = neg, int_part = ip, frac_part = fp\<rparr>, u) else None))"

section \<open>The functions\<close>

definition KB :: int where "KB = 2 ^ 10"
definition MB :: int where "MB = 2 ^ 20"
definition GB :: int where "GB = 2 ^ 30"
definition TB :: int where "TB = 2 ^ 40"
definition PB :: int where "PB = 2 ^ 50"
definition EB :: int where "EB = 2 ^ 60"

definition FormatHumanBytes :: "int \<Rightarrow> string" where
  "FormatHumanBytes b =
     (let value = f_of_int b
      in if b \<ge> EB then fixed2 (f_div value (Fin (of_int EB))) @ ''EB''
         else if b \<ge> PB then fixed2 (f_div value (Fin (of_int PB))) @ ''PB''
         else if b \<ge> TB then fixed2 (f_div value (Fin (of_int TB))) @ ''TB''
         else if b \<ge> GB then fixed2 (f_div value (Fin (of_int GB))) @ ''GB''
         else if b \<ge> MB then fixed2 (f_div value (Fin (of_int MB))) @ ''MB''
         else if b \<ge> KB then fixed2 (f_div value (Fin (of_int KB))) @ ''KB''
         else if b = 0 then ''0''
         else FormatInt b @ ''B'')"

datatype human_error = ErrParsing string | ErrFloat

definition ParseHumanBytes :: "string \<Rightarrow> human_error + int" where
  "ParseHumanBytes value =
     (case FindStringSubmatch value of
        None \<Rightarrow> Inl (ErrParsing value)
      | Some (n, multiple) \<Rightarrow>
          (case ParseFloat n of
             None \<Rightarrow> Inl ErrFloat
           | Some bytes \<Rightarrow>
               Inr (f_to_int
                 (if multiple \<in> {''K'', ''KB''} then f_mul bytes (Fin (of_int KB))
                  else if multiple \<in> {''M'', ''MB''} then f_mul bytes (Fin (of_int MB))
                  else if multiple \<in> {''G'', ''GB''} then f_mul bytes (Fin (of_int GB))
                  else if multiple \<in> {''T'', ''TB''} then f_mul bytes (Fin (of_int TB))
                  else if multiple \<in> {''P'', ''PB''} then f_mul bytes (Fin (of_int PB))
                  else if multiple \<in> {''E'', ''EB''} then f_mul bytes (Fin (of_int EB))
                  else bytes))))"

section \<open>Reading what was written\<close>

definition the_units :: "(string \<times> int) list" where
  "the_units = [(''KB'', KB), (''MB'', MB), (''GB'', GB), (''TB'', TB), (''PB'', PB), (''EB'', EB)]"

lemma split_digits_dec:
  "(case r of [] \<Rightarrow> True | c # _ \<Rightarrow> \<not> is_digit 10 c) \<Longrightarrow> split_digits (dec n @ r) = (dec n, r)"
  by (cases r) (simp_all add: split_digits_def takeWhile_append dropWhile_append dec_digits)

lemma two_digits_split:
  "(case r of [] \<Rightarrow> True | c # _ \<Rightarrow> \<not> is_digit 10 c) \<Longrightarrow>
     split_digits (two_digits n @ r) = (two_digits n, r) \<and> length (two_digits n) = 2 \<and> two_digits n \<noteq> []"
  by (cases r) (simp_all add: split_digits_def two_digits_def)

lemma unit_chars:
  "(u, k) \<in> set the_units \<Longrightarrow>
     unit_ok u \<and> (case u of [] \<Rightarrow> True | c # _ \<Rightarrow> \<not> is_digit 10 c \<and> \<not> is_space c)"
proof -
  have "list_all (\<lambda>u. unit_ok u \<and> (case u of [] \<Rightarrow> True | c # _ \<Rightarrow> \<not> is_digit 10 c \<and> \<not> is_space c))
    [''KB'', ''MB'', ''GB'', ''TB'', ''PB'', ''EB'']" by code_simp
  then show "(u, k) \<in> set the_units \<Longrightarrow> ?thesis" by (auto simp: the_units_def)
qed

lemma match_fixed:
  assumes "(u, k) \<in> set the_units"
  shows "FindStringSubmatch (dec a @ ''.'' @ two_digits b @ u) =
    Some (\<lparr>negative = False, int_part = dec a, frac_part = two_digits b\<rparr>, u)"
proof -
  obtain c t where u: "u = c # t" using assms by (auto simp: the_units_def)
  note c = unit_chars [OF assms]
  have d: "hd (dec a @ x) \<noteq> CHR ''-''" "dec a @ x \<noteq> []" for x using hd_dec [of a] by simp_all
  have first: "(case dec a @ x of [] \<Rightarrow> (False, []) | c # t \<Rightarrow> if c = CHR ''-'' then (True, t) else (False, dec a @ x)) = (False, dec a @ x)" for x
    using d [of x] by (cases "dec a @ x") auto
  have dot: "\<not> is_digit 10 CHR ''.''" by code_simp
  show ?thesis
    using c two_digits_split [of u b] split_digits_dec [of "''.'' @ two_digits b @ u" a] dot
    by (simp add: FindStringSubmatch_def first u)
qed

lemma digits_value_snoc2:
  "digits_value b (s @ [c, d]) = (digits_value b s * b + the (digit_of c)) * b + the (digit_of d)"
  by (simp add: digits_value_def)

lemma fixed2_value: "digits_value 10 (dec (h div 100) @ two_digits (h mod 100)) = h"
proof -
  define q r where "q = h div 100" and "r = h mod 100"
  then have h: "h = 100 * q + r" and r: "r < 100" by simp_all
  have r10: "r div 10 < 10" using r by simp
  then have d: "r div 10 mod 10 = r div 10" by simp
  have "digits_value 10 (dec q @ two_digits r) = (q * 10 + r div 10) * 10 + r mod 10"
    by (simp add: two_digits_def digits_value_snoc2 d r10 del: mod_mod_trivial)
  also have "\<dots> = 100 * q + (r div 10 * 10 + r mod 10)" by simp
  also have "\<dots> = h" unfolding h by (simp only: div_mult_mod_eq)
  finally show ?thesis by (simp only: q_def r_def)
qed

lemma match_plain:
  assumes "u \<in> {'''', ''B''}"
  shows "FindStringSubmatch ((if neg then ''-'' else '''') @ dec n @ u) =
    Some (\<lparr>negative = neg, int_part = dec n, frac_part = []\<rparr>, u)"
proof -
  have c: "\<not> is_digit 10 CHR ''B''" "\<not> is_space CHR ''B''" "unit_ok ''B''" "unit_ok []" by code_simp+
  then have sd: "split_digits (dec n @ u) = (dec n, u)" using assms by (intro split_digits_dec) auto
  have "hd (dec n @ u) \<noteq> CHR ''-''" "dec n @ u \<noteq> []" using hd_dec [of n] by simp_all
  then have first: "(case dec n @ u of [] \<Rightarrow> (False, []) | c # t \<Rightarrow> if c = CHR ''-'' then (True, t) else (False, dec n @ u)) = (False, dec n @ u)"
    by (cases "dec n @ u") auto
  have sB: "split_digits [] = ([], [])" by (simp add: split_digits_def)
  show ?thesis
  proof (cases neg)
    case True
    then show ?thesis using assms c sd sB by (auto simp: FindStringSubmatch_def)
  next
    case False
    then show ?thesis using assms c sd sB first by (auto simp: FindStringSubmatch_def)
  qed
qed

lemma parse_plain:
  assumes "u \<in> {'''', ''B''}" "n \<le> 2 ^ 53"
  shows "ParseHumanBytes ((if neg then ''-'' else '''') @ dec n @ u) = Inr (if neg then - int n else int n)"
proof -
  have n: "short (of_nat n)" using short_int [of "int n"] assms(2) by simp
  have "(of_nat n :: rat) \<le> of_nat (2 ^ 53)" using assms(2) by (simp only: of_nat_le_iff)
  also have "\<dots> \<le> 2 ^ 1023" by simp
  finally have big: "(of_nat n :: rat) \<le> 2 ^ 1023" .
  have "\<bar>if neg then - of_nat n else of_nat n :: rat\<bar> \<le> of_nat n" by (cases neg) simp_all
  note fl_abs [OF this n big]
  then have "fl (if neg then - of_nat n else of_nat n) = Fin (if neg then - of_nat n else of_nat n)"
    using round53_short [OF n] by (cases neg) (simp_all add: round53_neg)
  then have f: "ParseFloat \<lparr>negative = neg, int_part = dec n, frac_part = []\<rparr> =
      Some (Fin (if neg then - of_nat n else of_nat n))"
    by (simp add: ParseFloat_def Let_def)
  have t: "trunc (if neg then - of_nat n else of_nat n) = (if neg then - int n else int n)"
    by (cases neg) (simp_all add: trunc_def)
  have "int n \<le> 2 ^ 53" using assms(2) by (metis of_nat_le_iff of_nat_numeral of_nat_power)
  then have "in_int64 (if neg then - int n else int n)" by (cases neg) simp_all
  then have "f_to_int (Fin (if neg then - of_nat n else of_nat n)) = (if neg then - int n else int n)"
    unfolding f_to_int_def f64.case t by (rule if_P)
  moreover have "u \<notin> {''K'', ''KB''}" "u \<notin> {''M'', ''MB''}" "u \<notin> {''G'', ''GB''}" "u \<notin> {''T'', ''TB''}"
    "u \<notin> {''P'', ''PB''}" "u \<notin> {''E'', ''EB''}" using assms(1) by auto
  ultimately show ?thesis
    unfolding ParseHumanBytes_def match_plain [OF assms(1)] option.case prod.case f by (simp only: if_False)
qed

section \<open>Two decimals of a unit\<close>

lemma short_scaled: "0 \<le> m \<Longrightarrow> m \<le> 2 ^ 53 \<Longrightarrow> j \<le> 1000 \<Longrightarrow> short (of_int m / 2 ^ j)"
  unfolding short_def
  by (rule exI [of _ m], rule exI [of _ "- int j"]) (simp add: power_int_minus power_int_of_nat field_simps)

text \<open>A count of at least one unit \<open>k\<close>, divided, written with two decimals, read and
  multiplied: it comes back within half a hundredth of the unit, and the few bytes that
  rounding to \<open>float64\<close> and truncation cost.\<close>

lemma round53_close: "1 \<le> x \<Longrightarrow> \<bar>round53 x - x\<bar> \<le> x / 2 ^ 53 \<and> 1 \<le> round53 x"
proof -
  assume x: "1 \<le> x"
  have "(2 powi (- 1022) :: rat) \<le> 2 powi 0" by (rule power_int_increasing) simp_all
  then have "2 powi (- 1022) \<le> x" using x by simp
  moreover have "short 1" using short_int [of 1] by simp
  ultimately show ?thesis using round53_error [of x] round53_ge [of x 1] x by simp
qed

lemma hundredths_back:
  fixes b k :: rat
  assumes "1 \<le> k" "k \<le> b" "b \<le> 2 ^ 53" "k \<le> 2 ^ 50"
  defines "h \<equiv> round_even (b / k * 100)"
  shows "\<exists>z. fl (of_int h / 100) = Fin (round53 (of_int h / 100)) \<and>
    f_mul (Fin (round53 (of_int h / 100))) (Fin k) = Fin z \<and> \<bar>z - b\<bar> \<le> k / 200 + 3 \<and> 100 \<le> h \<and> 0 \<le> z"
proof -
  have E: "(9007199254740992 :: rat) = 2 ^ 53" "(1125899906842624 :: rat) = 2 ^ 50" by simp_all
  have big: "(2 :: rat) ^ 60 \<le> 2 ^ 1023" by (rule power_increasing) simp_all
  have "1 \<le> b / k" using assms(1,2) by simp
  moreover have "of_int 100 \<le> w * 100" if "1 \<le> w" for w :: rat using that by simp
  ultimately have "of_int 100 \<le> b / k * 100" by blast
  then have h100: "100 \<le> h" unfolding h_def by (rule round_even_ge)
  then have hr: "(100 :: rat) \<le> of_int h" by simp
  have near: "\<bar>of_int h * k / 100 - b\<bar> \<le> k / 200"
  proof -
    have "of_int h * k / 100 - b = (of_int h - b / k * 100) * (k / 100)" using assms(1) by (simp add: field_simps)
    also have "\<bar>\<dots>\<bar> \<le> 1 / 2 * (k / 100)"
      unfolding abs_mult using round_even_near [of "b / k * 100"] assms(1) unfolding h_def by (intro mult_mono) simp_all
    finally show ?thesis by simp
  qed
  define c where "c = of_int h * k / 100"
  have "100 * 1 \<le> of_int h * k" using hr assms(1) by (intro mult_mono) simp_all
  then have c: "c \<le> b + k / 200" "1 \<le> c" using near unfolding c_def by linarith+
  define p where "p = round53 (of_int h / 100)"
  have p: "\<bar>p - of_int h / 100\<bar> \<le> of_int h / 100 / 2 ^ 53" "1 \<le> p"
    using round53_close [of "of_int h / 100"] hr unfolding p_def by simp_all
  have "p * k - c = (p - of_int h / 100) * k" by (simp add: c_def algebra_simps)
  then have "\<bar>p * k - c\<bar> = \<bar>p - of_int h / 100\<bar> * k" using assms(1) by (simp add: abs_mult)
  also have "\<dots> \<le> of_int h / 100 / 2 ^ 53 * k" using p(1) assms(1) by (intro mult_right_mono) simp_all
  finally have y: "\<bar>p * k - c\<bar> \<le> c / 2 ^ 53" by (simp add: c_def)
  have "1 * 1 \<le> p * k" using p(2) assms(1) by (intro mult_mono) simp_all
  then have z: "\<bar>round53 (p * k) - p * k\<bar> \<le> p * k / 2 ^ 53" "1 \<le> round53 (p * k)"
    using round53_close [of "p * k"] by simp_all
  have cb: "c \<le> 2 ^ 53 + 2 ^ 50" using c(1) assms by simp
  then have "c / 2 ^ 53 \<le> 9 / 8" by simp
  with y have y2: "\<bar>p * k - c\<bar> \<le> 9 / 8" by linarith
  then have "p * k \<le> 2 ^ 53 + 2 ^ 50 + 9 / 8" using cb by linarith
  then have "p * k \<le> 10 / 8 * 2 ^ 53" by simp
  then have pk: "p * k / 2 ^ 53 \<le> 10 / 8" "p * k \<le> 2 ^ 60" by (simp_all add: pos_divide_le_eq mult.commute)
  have "\<bar>round53 (p * k) - p * k\<bar> \<le> 10 / 8" using z(1) pk(1) by (rule order_trans)
  then have "\<bar>round53 (p * k) - b\<bar> \<le> k / 200 + 3" using y2 near unfolding c_def by linarith
  moreover have "fl (p * k) = Fin (round53 (p * k))"
    using pk(2) big \<open>1 * 1 \<le> p * k\<close> by (intro fl_Fin) linarith+
  moreover have "fl (of_int h / 100) = Fin (round53 (of_int h / 100))"
  proof (rule fl_Fin)
    have "of_int h * 1 \<le> of_int h * k" using hr assms(1) by (intro mult_left_mono) simp_all
    then have "of_int h / 100 \<le> c" by (simp add: c_def)
    then have "of_int h / 100 \<le> (2 :: rat) ^ 60" using cb by simp
    then show "of_int h / 100 \<le> (2 :: rat) ^ 1023" using big by (rule order_trans)
  qed (use hr in simp)
  ultimately show ?thesis using h100 z(2) by (simp add: p_def)
qed

lemma parse_unit:
  assumes "ParseFloat \<lparr>negative = False, int_part = dec a, frac_part = two_digits c\<rparr> = Some v" "(u, k) \<in> set the_units"
  shows "ParseHumanBytes (dec a @ ''.'' @ two_digits c @ u) = Inr (f_to_int (f_mul v (Fin (of_int k))))"
proof -
  from assms(2) consider "u = ''KB''" "k = KB" | "u = ''MB''" "k = MB" | "u = ''GB''" "k = GB" | "u = ''TB''" "k = TB"
    | "u = ''PB''" "k = PB" | "u = ''EB''" "k = EB" unfolding the_units_def by auto
  then show ?thesis
    unfolding ParseHumanBytes_def match_fixed [OF assms(2)] option.case prod.case assms(1) by cases simp_all
qed

lemma parse_format_unit:
  assumes "(u, k) \<in> set the_units" "1 \<le> k" "k \<le> b" "b \<le> 2 ^ 53" "k \<le> 2 ^ 50" "k = 2 ^ j" "j \<le> 1000"
  shows "\<exists>r. ParseHumanBytes (fixed2 (f_div (f_of_int b) (Fin (of_int k))) @ u) = Inr r \<and> 200 * \<bar>r - b\<bar> \<le> k + 800"
proof -
  define h where "h = round_even (of_int b / of_int k * 100 :: rat)"
  have kr: "(1 :: rat) \<le> of_int k" "(of_int k :: rat) \<le> of_int b" "(of_int b :: rat) \<le> of_int (2 ^ 53)"
    "(of_int k :: rat) \<le> of_int (2 ^ 50)"
    using assms(2-5) by (simp_all only: of_int_le_iff of_int_1_le_iff)
  then obtain z where z: "fl (of_int h / 100) = Fin (round53 (of_int h / 100))"
    "f_mul (Fin (round53 (of_int h / 100))) (Fin (of_int k)) = Fin z"
    "\<bar>z - of_int b\<bar> \<le> of_int k / 200 + 3" "100 \<le> h" "0 \<le> z"
    using hundredths_back [of "of_int k" "of_int b"] by (auto simp: h_def)
  have "f_of_int b = Fin (of_int b)" using assms(2-4) by (intro f_of_int_small) simp_all
  moreover have "fl (of_int b / of_int k) = Fin (of_int b / of_int k)"
  proof (rule fl_short)
    show "short (of_int b / of_int k)" using short_scaled [of b j] assms by simp
    have "of_int b / of_int k \<le> (of_int b :: rat) / 1" using kr by (intro divide_left_mono) simp_all
    also have "\<dots> \<le> 2 ^ 1023" using kr(3) by simp
    finally show "of_int b / of_int k \<le> (2 :: rat) ^ 1023" .
  qed
  ultimately have v: "f_div (f_of_int b) (Fin (of_int k)) = Fin (of_int b / of_int k)" using kr(1) by simp
  have bk: "0 \<le> (of_int b / of_int k :: rat)" using kr by simp
  have shown: "fixed2 (f_div (f_of_int b) (Fin (of_int k))) @ u =
      dec (nat h div 100) @ ''.'' @ two_digits (nat h mod 100) @ u"
    unfolding v fixed2_def f64.case abs_of_nonneg [OF bk] h_def [symmetric] Let_def using bk by (simp only: not_less if_False leD append_Nil append_assoc)
  have "ParseFloat \<lparr>negative = False, int_part = dec (nat h div 100), frac_part = two_digits (nat h mod 100)\<rparr> =
      Some (Fin (round53 (of_int h / 100)))"
  proof -
    have "of_nat (digits_value 10 (dec (nat h div 100) @ two_digits (nat h mod 100))) = (of_int h :: rat)"
      using z(4) unfolding fixed2_value by simp
    moreover have "(10 :: rat) ^ length (two_digits (nat h mod 100)) = 100" by (simp add: two_digits_def)
    ultimately show ?thesis
      unfolding ParseFloat_def Let_def number.simps if_False by (simp only: z(1) f64.case)
  qed
  then have "ParseHumanBytes (fixed2 (f_div (f_of_int b) (Fin (of_int k))) @ u) =
      Inr (f_to_int (f_mul (Fin (round53 (of_int h / 100))) (Fin (of_int k))))"
    using assms(1) unfolding shown by (rule parse_unit)
  then have "ParseHumanBytes (fixed2 (f_div (f_of_int b) (Fin (of_int k))) @ u) = Inr (f_to_int (Fin z))"
    by (simp only: z(2))
  moreover have "200 * \<bar>f_to_int (Fin z) - b\<bar> \<le> k + 800"
  proof -
    have tz: "of_int (trunc z) \<le> z" "z < of_int (trunc z) + 1" using z(5) by (simp_all add: trunc_def) linarith
    have "z \<le> of_int b + of_int k / 200 + 3" using z(3) by linarith
    also have "\<dots> \<le> of_int (2 ^ 60)" using kr by simp
    finally have "of_int (trunc z) \<le> (of_int (2 ^ 60) :: rat)" using tz(1) by linarith
    then have "trunc z \<le> 2 ^ 60" by (simp only: of_int_le_iff)
    moreover have "0 \<le> trunc z" using z(5) by (simp add: trunc_def)
    ultimately have t: "f_to_int (Fin z) = trunc z" by (simp add: f_to_int_def)
    have "\<bar>of_int (trunc z) - of_int b\<bar> \<le> (of_int k / 200 + 4 :: rat)" using tz z(3) by linarith
    then have "200 * \<bar>of_int (trunc z) - of_int b\<bar> \<le> (of_int k + 800 :: rat)" by simp
    then have "(of_int (200 * \<bar>trunc z - b\<bar>) :: rat) \<le> of_int (k + 800)" by simp
    then show ?thesis unfolding t by (simp only: of_int_le_iff)
  qed
  ultimately show ?thesis by blast
qed

section \<open>The property\<close>

lemma human_units:
  "KB \<le> b \<Longrightarrow> b < EB \<Longrightarrow> \<exists>u k j. (u, k) \<in> set the_units \<and> k = 2 ^ j \<and> 10 \<le> j \<and> j \<le> 50 \<and> k \<le> b \<and> b < 1024 * k \<and>
     FormatHumanBytes b = fixed2 (f_div (f_of_int b) (Fin (of_int k))) @ u"
proof -
  assume b: "KB \<le> b" "b < EB"
  consider "PB \<le> b" | "TB \<le> b" "b < PB" | "GB \<le> b" "b < TB" | "MB \<le> b" "b < GB" | "KB \<le> b" "b < MB"
    using b(1) by linarith
  then show ?thesis
  proof cases
    case 1
    with b show ?thesis
      by (intro exI [of _ "''PB''"] exI [of _ PB] exI [of _ 50]) (simp add: FormatHumanBytes_def the_units_def PB_def EB_def)
  next
    case 2
    with b show ?thesis
      by (intro exI [of _ "''TB''"] exI [of _ TB] exI [of _ 40]) (simp add: FormatHumanBytes_def the_units_def TB_def PB_def EB_def)
  next
    case 3
    with b show ?thesis
      by (intro exI [of _ "''GB''"] exI [of _ GB] exI [of _ 30])
        (simp add: FormatHumanBytes_def the_units_def GB_def TB_def PB_def EB_def)
  next
    case 4
    with b show ?thesis
      by (intro exI [of _ "''MB''"] exI [of _ MB] exI [of _ 20])
        (simp add: FormatHumanBytes_def the_units_def MB_def GB_def TB_def PB_def EB_def)
  next
    case 5
    with b show ?thesis
      by (intro exI [of _ "''KB''"] exI [of _ KB] exI [of _ 10])
        (simp add: FormatHumanBytes_def the_units_def KB_def MB_def GB_def TB_def PB_def EB_def)
  qed
qed

lemma human_small:
  assumes "- (2 ^ 53) \<le> b" "b < KB"
  shows "ParseHumanBytes (FormatHumanBytes b) = Inr b"
proof -
  have f: "FormatHumanBytes b = (if b = 0 then ''0'' else FormatInt b @ ''B'')"
    using assms(2) by (simp add: FormatHumanBytes_def KB_def MB_def GB_def TB_def PB_def EB_def)
  consider "b = 0" | "b < 0" | "0 < b" by linarith
  then show ?thesis
  proof cases
    case 1
    have "''0'' = dec 0" by (simp add: dec.simps digit_chars)
    then show ?thesis using 1 parse_plain [of "''''" 0 False] f by simp
  next
    case 2
    then show ?thesis using parse_plain [of "''B''" "nat (- b)" True] assms(1) by (simp add: f FormatInt_def)
  next
    case 3
    then show ?thesis using parse_plain [of "''B''" "nat b" False] assms(2) by (simp add: f FormatInt_def KB_def)
  qed
qed

text \<open>Next to \<open>2 ^ 63\<close> the count is written as eight exabytes, which no \<open>int64\<close> holds.\<close>

lemma eight_shown:
  assumes "7996 * 2 ^ 60 \<le> 1000 * b" "b < 2 ^ 63"
  shows "fixed2 (f_div (f_of_int b) (Fin (of_int EB))) = ''8.00''"
proof -
  have pos: "0 \<le> b" using assms(1) by simp
  define x where "x = round53 (of_int b)"
  have x: "f_of_int b = Fin x" "x \<le> 2 ^ 63" using f_of_int_64 [OF pos assms(2)] by (simp_all add: x_def)
  have "of_int (7996 * 2 ^ 60) \<le> (of_int (1000 * b) :: rat)" using assms(1) by (simp only: of_int_le_iff)
  then have b: "(7996 * 2 ^ 60 :: rat) \<le> 1000 * of_int b" by simp
  then have "\<bar>x - of_int b\<bar> \<le> of_int b / 2 ^ 53" unfolding x_def using round53_close [of "of_int b"] by simp
  moreover have "(of_int b :: rat) \<le> of_int (2 ^ 63)" using assms(2) by (simp only: of_int_le_iff)
  then have "(of_int b / 2 ^ 53 :: rat) \<le> 1024" by simp
  ultimately have "of_int b - 1024 \<le> x" by linarith
  then have xl: "79955 * 2 ^ 60 \<le> 10000 * x" using b by simp
  define v where "v = round53 (x / 2 ^ 60)"
  have y: "79955 \<le> 10000 * (x / 2 ^ 60)" "x / 2 ^ 60 \<le> 8" using xl x(2) by simp_all
  have "short 8" using short_int [of 8] by simp
  then have v8: "v \<le> 8" unfolding v_def using y by (intro round53_le) simp_all
  have "1 \<le> x / 2 ^ 60" using y(1) by linarith
  from round53_close [OF this] have vy: "\<bar>v - x / 2 ^ 60\<bar> \<le> x / 2 ^ 60 / 2 ^ 53" unfolding v_def by blast
  have "x / 2 ^ 60 / 2 ^ 53 \<le> 1 / 10000" using y(2) by simp
  with vy y(1) have v: "79951 \<le> 10000 * v" by linarith
  have "x / 2 ^ 60 \<le> (2 :: rat) ^ 1023"
  proof (rule order_trans [OF y(2)])
    have "(2 :: rat) ^ 3 \<le> 2 ^ 1023" by (rule power_increasing) simp_all
    then show "(8 :: rat) \<le> 2 ^ 1023" by simp
  qed
  then have d: "f_div (Fin x) (Fin (of_int EB)) = Fin v"
    using y(1) fl_Fin [of "x / 2 ^ 60"] by (simp add: EB_def v_def)
  have "\<bar>of_int (round_even (v * 100)) - v * 100\<bar> \<le> 1 / 2" by (rule round_even_near)
  with v have "(799 :: rat) < of_int (round_even (v * 100))" by linarith
  then have "799 < round_even (v * 100)" by (metis of_int_less_iff of_int_numeral)
  moreover have "round_even (v * 100) \<le> 800" using v8 by (intro round_even_le) simp
  ultimately have h: "round_even (v * 100) = 800" by simp
  have "0 \<le> v" using v by linarith
  then show ?thesis
    unfolding x(1) d by (simp add: fixed2_def h Let_def dec.simps digit_chars two_digits_def)
qed

lemma eight_read: "ParseHumanBytes ''8.00EB'' = Inr (- (2 ^ 63))"
proof -
  have "short 8" "short (2 ^ 63)" using short_int [of 8] short_power [of 63] by (simp_all add: power_int_def)
  moreover have "(8 :: rat) \<le> 2 ^ 1023"
    using power_increasing [of 3 1023 "2 :: rat"] by simp
  ultimately have f: "fl 8 = Fin 8" "fl (2 ^ 63) = Fin (2 ^ 63)" by (simp_all add: fl_short)
  have v: "digits_value 10 (dec 8 @ two_digits 0) = 800" using fixed2_value [of 800] by simp
  have "ParseFloat \<lparr>negative = False, int_part = dec 8, frac_part = two_digits 0\<rparr> = Some (Fin 8)"
    unfolding ParseFloat_def Let_def number.simps if_False v by (simp add: two_digits_def f)
  from parse_unit [OF this, of "''EB''" EB] have "ParseHumanBytes (dec 8 @ ''.'' @ two_digits 0 @ ''EB'') =
      Inr (f_to_int (f_mul (Fin 8) (Fin (of_int EB))))" by (simp add: the_units_def)
  moreover have "f_mul (Fin 8) (Fin (of_int EB)) = Fin (2 ^ 63)" using f by (simp add: EB_def)
  moreover have "dec 8 @ ''.'' @ two_digits 0 @ ''EB'' = ''8.00EB''" by (simp add: dec.simps digit_chars two_digits_def)
  moreover have "f_to_int (Fin (2 ^ 63)) = - (2 ^ 63)" by (simp add: f_to_int_def trunc_def)
  ultimately show ?thesis by (simp only:)
qed

text \<open>
  C39. Reading back what was written. Every count between \<open>- 2 ^ 53\<close> and a kilobyte comes
  back as it was; one from a kilobyte to \<open>2 ^ 53\<close> is written in the largest unit it
  reaches and comes back within half a hundredth of that unit, give or take the four bytes
  that \<open>float64\<close> and the truncation may cost; the parser never fails on it. A count of 7.996
  exabytes or more, the largest \<open>int64\<close> among them, is written as eight exabytes and comes back
  as the smallest \<open>int64\<close>, without an error.
\<close>

theorem human_bytes_roundtrip:
  "(- (2 ^ 53) \<le> b \<and> b < KB \<longrightarrow> ParseHumanBytes (FormatHumanBytes b) = Inr b) \<and>
   (KB \<le> b \<and> b \<le> 2 ^ 53 \<longrightarrow> (\<exists>k r. k \<in> snd ` set the_units \<and> k \<le> b \<and> b < 1024 * k \<and>
      ParseHumanBytes (FormatHumanBytes b) = Inr r \<and> 200 * \<bar>r - b\<bar> \<le> k + 800)) \<and>
   (7996 * EB \<le> 1000 * b \<and> b < 2 ^ 63 \<longrightarrow>
      FormatHumanBytes b = ''8.00EB'' \<and> ParseHumanBytes (FormatHumanBytes b) = Inr (- (2 ^ 63)))"
proof (intro conjI impI)
  assume "- (2 ^ 53) \<le> b \<and> b < KB"
  then show "ParseHumanBytes (FormatHumanBytes b) = Inr b" using human_small by blast
next
  assume b: "KB \<le> b \<and> b \<le> 2 ^ 53"
  then have "b < EB" by (simp add: EB_def)
  with b obtain u k j where u: "(u, k) \<in> set the_units" "k = 2 ^ j" "10 \<le> j" "j \<le> 50" "k \<le> b" "b < 1024 * k"
    "FormatHumanBytes b = fixed2 (f_div (f_of_int b) (Fin (of_int k))) @ u"
    using human_units by blast
  have "1 \<le> k" "k \<le> 2 ^ 50" unfolding u(2) using u(4) by (simp, intro power_increasing) simp_all
  then obtain r where "ParseHumanBytes (fixed2 (f_div (f_of_int b) (Fin (of_int k))) @ u) = Inr r" "200 * \<bar>r - b\<bar> \<le> k + 800"
    using parse_format_unit [OF u(1) _ u(5) _ _ u(2)] u(4) b by auto
  moreover have "k \<in> snd ` set the_units" using u(1) by force
  ultimately show "\<exists>k r. k \<in> snd ` set the_units \<and> k \<le> b \<and> b < 1024 * k \<and>
      ParseHumanBytes (FormatHumanBytes b) = Inr r \<and> 200 * \<bar>r - b\<bar> \<le> k + 800"
    using u(5-7) by (intro exI [of _ k] exI [of _ r]) simp
next
  assume b: "7996 * EB \<le> 1000 * b \<and> b < 2 ^ 63"
  then have "EB \<le> b" by (simp add: EB_def)
  with eight_shown [of b] b show f: "FormatHumanBytes b = ''8.00EB''" by (simp add: FormatHumanBytes_def EB_def)
  show "ParseHumanBytes (FormatHumanBytes b) = Inr (- (2 ^ 63))" unfolding f by (rule eight_read)
qed

theorem human_bytes_roundtrip_witness:
  "ParseHumanBytes (FormatHumanBytes 515) = Inr 515 \<and>
   (\<exists>r. ParseHumanBytes (FormatHumanBytes 31323) = Inr r \<and> 200 * \<bar>r - 31323\<bar> \<le> 1024 + 800) \<and>
   ParseHumanBytes (FormatHumanBytes (2 ^ 63 - 1)) = Inr (- (2 ^ 63))"
proof (intro conjI)
  have EB_short: "7996 * EB \<le> 1000 * (2 ^ 63 - 1) \<and> (2 ^ 63 - 1 :: int) < 2 ^ 63" by (simp add: EB_def)
  show "ParseHumanBytes (FormatHumanBytes 515) = Inr 515" using human_bytes_roundtrip [of 515] by (simp add: KB_def)
  from human_bytes_roundtrip [of 31323] obtain k r where k: "k \<in> snd ` set the_units" "k \<le> 31323" "31323 < 1024 * k"
    "ParseHumanBytes (FormatHumanBytes 31323) = Inr r" "200 * \<bar>r - 31323\<bar> \<le> k + 800" by (auto simp: KB_def)
  from k(1-3) have "k = 1024" by (auto simp: the_units_def KB_def MB_def GB_def TB_def PB_def EB_def)
  then show "\<exists>r. ParseHumanBytes (FormatHumanBytes 31323) = Inr r \<and> 200 * \<bar>r - 31323\<bar> \<le> 1024 + 800" using k(4,5) by auto
  show "ParseHumanBytes (FormatHumanBytes (2 ^ 63 - 1)) = Inr (- (2 ^ 63))"
    using human_bytes_roundtrip [of "2 ^ 63 - 1"] EB_short by blast
qed

end
