(* ===== verification/Rand.thy ===== *)
theory Rand
  imports FloatGo Strconv "HOL-Library.Word"
begin

unbundle bit_operations_syntax

text \<open>
  \<open>grand/rand.go\<close> and the slice helpers of \<open>gslice/slice.go\<close>. What the random sources
  return is an argument: the bytes of \<open>crypto/rand\<close> (\<open>None\<close> when it fails, a panic of
  the code), the numbers of \<open>math/rand\<close>. \<open>None\<close> as a result is a panic.
\<close>

section \<open>Hexadecimal\<close>

definition hex_digit :: "nat \<Rightarrow> char" where
  "hex_digit n = (if n < 10 then char_of (48 + n) else char_of (87 + n))"

definition hex_byte :: "8 word \<Rightarrow> string" where
  "hex_byte b = [hex_digit (unat b div 16), hex_digit (unat b mod 16)]"

definition hex_encode :: "8 word list \<Rightarrow> string" where
  "hex_encode bs = concat (map hex_byte bs)"

definition is_hex :: "char \<Rightarrow> bool" where
  "is_hex c \<longleftrightarrow> c \<in> set ''0123456789abcdef''"

lemma length_hex [simp]: "length (hex_encode bs) = 2 * length bs"
  by (induction bs) (simp_all add: hex_encode_def hex_byte_def)

lemma hex_digit_ok: "n < 16 \<Longrightarrow> is_hex (hex_digit n)"
proof -
  have "\<forall>n \<in> set [0..<16]. is_hex (hex_digit n)" by code_simp
  then show "n < 16 \<Longrightarrow> ?thesis" by simp
qed

lemma unat_hex_byte: "unat (b :: 8 word) < 256"
  using unsigned_less [of b] by simp

lemma hex_ok: "c \<in> set (hex_encode bs) \<Longrightarrow> is_hex c"
proof -
  assume "c \<in> set (hex_encode bs)"
  then obtain b where "c \<in> set (hex_byte b)" by (auto simp: hex_encode_def)
  moreover have "unat b div 16 < 16" "unat b mod 16 < 16" using unat_hex_byte [of b] by (simp_all add: less_mult_imp_div_less)
  ultimately show ?thesis using hex_digit_ok by (auto simp: hex_byte_def)
qed

section \<open>Random strings\<close>

text \<open>\<open>rnd n\<close>: what \<open>io.ReadFull\<close> fills a buffer of \<open>n\<close> bytes with.\<close>

definition NewRand :: "(nat \<Rightarrow> 8 word list option) \<Rightarrow> int \<Rightarrow> string option" where
  "NewRand rnd n =
     (let h = go_quot n 2
      in if h < 0 then None else map_option hex_encode (rnd (nat h)))"

definition NewRandWithPrefix :: "(nat \<Rightarrow> 8 word list option) \<Rightarrow> string \<Rightarrow> int \<Rightarrow> string option" where
  "NewRandWithPrefix rnd prefix n =
     map_option (\<lambda>s. hex_encode (map (\<lambda>c. of_nat (byte c)) prefix) @ s) (NewRand rnd n)"

definition NewUUID :: "(nat \<Rightarrow> 8 word list option) \<Rightarrow> string option" where
  "NewUUID rnd =
     (case rnd 16 of
        None \<Rightarrow> None
      | Some u \<Rightarrow>
          (let version = (push_bit 4 4 :: 8 word);
               variant = (push_bit 4 2 :: 8 word);
               u = u[6 := version OR (u ! 6 AND 15)];
               u = u[8 := variant OR (u ! 8 AND 15)];
               hex = (\<lambda>i j. hex_encode (take (j - i) (drop i u)))
           in Some (hex 0 4 @ ''-'' @ hex 4 6 @ ''-'' @ hex 6 8 @ ''-'' @ hex 8 10 @ ''-'' @ hex 10 16)))"

text \<open>\<open>Intn(n)\<close> panics for \<open>n \<le> 0\<close>; \<open>rnd n\<close> is its result otherwise.\<close>

definition Intn :: "(int \<Rightarrow> int) \<Rightarrow> int \<Rightarrow> int option" where
  "Intn rnd n = (if n \<le> 0 then None else Some (rnd n))"

definition RangeRand :: "(int \<Rightarrow> int) \<Rightarrow> int \<Rightarrow> int option" where
  "RangeRand rnd n = Intn rnd n"

text \<open>\<open>normals\<close>: the values of \<open>NormFloat64\<close>, one per turn.\<close>

fun norm_loop :: "f64 list \<Rightarrow> int \<Rightarrow> int \<Rightarrow> int" where
  "norm_loop [] n sample = sample"
| "norm_loop (x # xs) n sample =
     (let rn = f_to_int (f_add (f_mul x (Fin 100)) (Fin 0)) in norm_loop xs n (go_rem rn n))"

definition NormRand :: "(nat \<Rightarrow> f64) \<Rightarrow> int \<Rightarrow> f64" where
  "NormRand normals n =
     (case f_of_int (norm_loop (map normals [0..<nat n]) n 0) of Fin x \<Rightarrow> Fin \<bar>x\<bar> | NInf \<Rightarrow> PInf | y \<Rightarrow> y)"

fun string_loop :: "(int \<Rightarrow> int) list \<Rightarrow> string \<Rightarrow> string option" where
  "string_loop [] letters = Some []"
| "string_loop (rnd # rs) letters =
     (case Intn rnd (int (length letters)) of
        None \<Rightarrow> None
      | Some i \<Rightarrow>
          (case slice_get letters i of
             None \<Rightarrow> None
           | Some c \<Rightarrow> map_option ((#) c) (string_loop rs letters)))"

definition StringRand :: "(nat \<Rightarrow> int \<Rightarrow> int) \<Rightarrow> string \<Rightarrow> int \<Rightarrow> string option" where
  "StringRand rnd strRange n = (if n < 0 then None else string_loop (map rnd [0..<nat n]) strRange)"

text \<open>What a source of the library returns.\<close>

definition reader_ok :: "(nat \<Rightarrow> 8 word list option) \<Rightarrow> bool" where
  "reader_ok rnd \<longleftrightarrow> (\<forall>n bs. rnd n = Some bs \<longrightarrow> length bs = n)"

definition intn_ok :: "(int \<Rightarrow> int) \<Rightarrow> bool" where
  "intn_ok rnd \<longleftrightarrow> (\<forall>n > 0. 0 \<le> rnd n \<and> rnd n < n)"

text \<open>An odd length gives one character less than asked for.\<close>

lemma NewRand_length:
  assumes "reader_ok rnd" "NewRand rnd n = Some s" "0 \<le> n"
  shows "int (length s) = n - n mod 2 \<and> (\<forall>c \<in> set s. is_hex c)"
proof -
  from assms(2) obtain bs where bs: "rnd (nat (n div 2)) = Some bs" "s = hex_encode bs"
    using assms(3) by (auto simp: NewRand_def Let_def go_quot_nonneg split: if_splits)
  then have "length bs = nat (n div 2)" using assms(1) by (simp add: reader_ok_def)
  then have "int (length s) = 2 * (n div 2)" using bs(2) assms(3) by simp
  then show ?thesis using bs(2) hex_ok by (simp add: minus_mod_eq_mult_div)
qed

lemma string_loop_ok:
  assumes "letters \<noteq> []" "\<forall>r \<in> set rs. intn_ok r"
  shows "\<exists>s. string_loop rs letters = Some s \<and> length s = length rs \<and> set s \<subseteq> set letters"
  using assms(2)
proof (induction rs)
  case (Cons r rs)
  then obtain s where s: "string_loop rs letters = Some s" "length s = length rs" "set s \<subseteq> set letters" by auto
  let ?n = "int (length letters)"
  have n: "0 < ?n" using assms(1) by simp
  then have r: "0 \<le> r ?n" "r ?n < ?n" using Cons.prems by (simp_all add: intn_ok_def)
  then have "slice_get letters (r ?n) = Some (letters ! nat (r ?n))" "letters ! nat (r ?n) \<in> set letters"
    by (simp_all add: slice_get_def nat_less_iff)
  then show ?case using s n by (simp add: Intn_def)
qed simp

lemma StringRand_ok:
  assumes "letters \<noteq> []" "\<forall>i. intn_ok (rnd i)" "0 \<le> n"
  shows "\<exists>s. StringRand rnd letters n = Some s \<and> int (length s) = n \<and> set s \<subseteq> set letters"
  using string_loop_ok [OF assms(1), of "map rnd [0..<nat n]"] assms(2,3) by (auto simp: StringRand_def)

section \<open>Slices\<close>

text \<open>The result of \<open>append\<close> on the slice that \<open>make\<close> has already filled: \<open>None\<close> is
  nil.\<close>

definition SliceStrTo :: "string list \<Rightarrow> string option list" where
  "SliceStrTo sts = foldl (\<lambda>uns v. uns @ [Some v]) (replicate (length sts) None) sts"

definition SliceInt64To :: "int list \<Rightarrow> int option list" where
  "SliceInt64To sts = foldl (\<lambda>uns v. uns @ [Some v]) (replicate (length sts) None) sts"

fun StrSliceContains :: "string list \<Rightarrow> string \<Rightarrow> bool" where
  "StrSliceContains [] str = False"
| "StrSliceContains (s # sl) str = (if s = str then True else StrSliceContains sl str)"

fun Int64SliceContains :: "int list \<Rightarrow> int \<Rightarrow> bool" where
  "Int64SliceContains [] i = False"
| "Int64SliceContains (s # sl) i = (if s = i then True else Int64SliceContains sl i)"

lemma contains_iff: "StrSliceContains sl str \<longleftrightarrow> str \<in> set sl" "Int64SliceContains is i \<longleftrightarrow> i \<in> set is"
proof -
  show "StrSliceContains sl str \<longleftrightarrow> str \<in> set sl" by (induction sl) auto
  show "Int64SliceContains is i \<longleftrightarrow> i \<in> set is" by (induction "is") auto
qed

lemma append_each: "foldl (\<lambda>uns v. uns @ [Some v]) us sts = us @ map Some sts"
  by (induction sts arbitrary: us) auto

text \<open>The converted slice has as many nils before its elements as it has elements.\<close>

lemma slices_doubled:
  "SliceStrTo sts = replicate (length sts) None @ map Some sts"
  "SliceInt64To is = replicate (length is) None @ map Some is"
  by (simp_all add: SliceStrTo_def SliceInt64To_def append_each)

section \<open>The property\<close>

lemma nibbles:
  "unat (push_bit 4 4 OR (b AND 15) :: 8 word) div 16 = 4 \<and> unat (push_bit 4 2 OR (b AND 15) :: 8 word) div 16 = 2"
proof -
  have "b AND 15 \<le> 15" by (rule word_and_le1)
  then have "unat (b AND 15) \<le> unat (15 :: 8 word)" by (simp only: word_le_nat_alt)
  then have k: "unat (b AND 15) \<in> set [0..<16]" by simp
  have "\<forall>k \<in> set [0..<16]. unat (push_bit 4 4 OR of_nat k :: 8 word) div 16 = 4 \<and>
      unat (push_bit 4 2 OR of_nat k :: 8 word) div 16 = 2" by code_simp
  from bspec [OF this k] show ?thesis by simp
qed

text \<open>
  C40. The form of a UUID: 16 random bytes always give five groups of 8, 4, 4, 4 and 12
  lower-case hexadecimal digits with dashes between them, the third beginning with the
  version digit 4 and the fourth with the digit 2 (where RFC 4122 has 8, 9, a or b: the
  code sets the variant as \<open>2 << 4\<close>). Without random bytes it panics.
\<close>

theorem uuid_form:
  assumes "reader_ok rnd"
  shows "(rnd 16 = None \<longrightarrow> NewUUID rnd = None) \<and>
    (rnd 16 \<noteq> None \<longrightarrow> (\<exists>a b c d e. NewUUID rnd = Some (a @ ''-'' @ b @ ''-'' @ c @ ''-'' @ d @ ''-'' @ e) \<and>
      map length [a, b, c, d, e] = [8, 4, 4, 4, 12] \<and> (\<forall>x \<in> set (a @ b @ c @ d @ e). is_hex x) \<and>
      hd c = CHR ''4'' \<and> hd d = CHR ''2''))"
proof (intro conjI impI)
  assume "rnd 16 \<noteq> None"
  then obtain u where u: "rnd 16 = Some u" "length u = 16" using assms by (auto simp: reader_ok_def)
  define v where "v = u[6 := push_bit 4 4 OR (u ! 6 AND 15), 8 := push_bit 4 2 OR (u ! 8 AND 15)]"
  define hex where "hex i j = hex_encode (take (j - i) (drop i v))" for i j
  have len: "length v = 16" using u(2) by (simp add: v_def)
  have group: "length (hex i j) = 2 * (j - i)" if "i \<le> j" "j \<le> 16" for i j
    using that len by (simp add: hex_def)
  have head: "hd (hex i j) = hex_digit (unat (v ! i) div 16)" if "i < j" "j \<le> 16" for i j
    using that len by (simp add: hex_def hex_encode_def hex_byte_def Cons_nth_drop_Suc [symmetric] take_Cons')
  have "v ! 6 = push_bit 4 4 OR (u ! 6 AND 15)" "v ! 8 = push_bit 4 2 OR (u ! 8 AND 15)" using u(2) by (simp_all add: v_def)
  then have "hd (hex 6 8) = CHR ''4''" "hd (hex 8 10) = CHR ''2''"
    using head [of 6 8] head [of 8 10] nibbles digit_chars by (simp_all add: hex_digit_def digit_char_def)
  moreover have "is_hex x" if "x \<in> set (hex i j)" for x i j using that hex_ok by (simp add: hex_def)
  moreover have "NewUUID rnd = Some (hex 0 4 @ ''-'' @ hex 4 6 @ ''-'' @ hex 6 8 @ ''-'' @ hex 8 10 @ ''-'' @ hex 10 16)"
    unfolding NewUUID_def u(1) option.case Let_def
    using u(2) by (simp add: hex_def v_def)
  ultimately show "\<exists>a b c d e. NewUUID rnd = Some (a @ ''-'' @ b @ ''-'' @ c @ ''-'' @ d @ ''-'' @ e) \<and>
      map length [a, b, c, d, e] = [8, 4, 4, 4, 12] \<and> (\<forall>x \<in> set (a @ b @ c @ d @ e). is_hex x) \<and>
      hd c = CHR ''4'' \<and> hd d = CHR ''2''"
    using group [of 0 4] group [of 4 6] group [of 6 8] group [of 8 10] group [of 10 16]
    by (intro exI [of _ "hex 0 4"] exI [of _ "hex 4 6"] exI [of _ "hex 6 8"] exI [of _ "hex 8 10"] exI [of _ "hex 10 16"]) auto
qed (simp add: NewUUID_def)

theorem uuid_form_witness:
  "\<exists>a b c d e. NewUUID (\<lambda>n. Some (replicate n 255)) = Some (a @ ''-'' @ b @ ''-'' @ c @ ''-'' @ d @ ''-'' @ e) \<and>
     map length [a, b, c, d, e] = [8, 4, 4, 4, 12] \<and> (\<forall>x \<in> set (a @ b @ c @ d @ e). is_hex x) \<and>
     hd c = CHR ''4'' \<and> hd d = CHR ''2''"
proof -
  have "reader_ok (\<lambda>n. Some (replicate n 255))" by (simp add: reader_ok_def)
  from uuid_form [OF this] show ?thesis by blast
qed

end
