(* ===== verification/Files.thy ===== *)
theory Files
  imports Prelude "HOL-Library.AList" "HOL-Library.Sublist" "HOL-Library.Word"
begin

unbundle bit_operations_syntax

text \<open>
  \<open>gfile/file.go\<close>: questions about files, and copying files and directories. The file
  system is a list of paths with what is there, a path a list of names from the root; the
  list's order is the order in which a directory is read. What the code uses of \<open>os\<close> and
  \<open>io\<close> works on it as documented, without links. A path or a name can be too long for the
  system, and a call can be refused for a reason outside the tree (no descriptor left, no
  space, no permission, a failing device): what is refused, and how much of a copy is written
  before it is, belongs to the process and is arbitrary. The state is a result even where there
  is an error, since what was done before stays done.
\<close>

section \<open>The file system\<close>

type_synonym path = "string list"
type_synonym mode = "12 word"

datatype entry = FileE (entry_mode: mode) "8 word list" | DirE (entry_mode: mode)

type_synonym fs = "(path \<times> entry) list"

datatype fs_error = ENOENT | EISDIR | ENOTDIR | ENAMETOOLONG | EMFILE | ENOSPC | EACCES | EIO

datatype sys_call = Open | Stat | Creat | Mkdir | Readdir | Write | Chmod

text \<open>
  The process: its \<open>umask\<close>, how many bytes a path may have (with the zero at its end) and
  how many a name, the calls that are refused, and what is written of a refused copy.
\<close>

record process =
  umask_of :: mode
  path_max :: nat
  name_max :: nat
  refused :: "sys_call \<Rightarrow> path \<Rightarrow> fs \<Rightarrow> fs_error option"
  written :: "path \<Rightarrow> fs \<Rightarrow> nat"

definition path_len :: "path \<Rightarrow> nat" where
  "path_len p = sum_list (map (\<lambda>n. Suc (length n)) p)"

definition too_long :: "process \<Rightarrow> path \<Rightarrow> bool" where
  "too_long P p \<longleftrightarrow> path_max P \<le> path_len p \<or> (\<exists>n \<in> set p. name_max P < length n)"

fun is_dir :: "entry \<Rightarrow> bool" where
  "is_dir (DirE m) = True"
| "is_dir (FileE m c) = False"

definition is_file_at :: "fs \<Rightarrow> path \<Rightarrow> bool" where
  "is_file_at fs p = (case map_of fs p of Some e \<Rightarrow> \<not> is_dir e | None \<Rightarrow> False)"

text \<open>The error of a path at which there is nothing: a file may be in the way.\<close>

definition absent :: "fs \<Rightarrow> path \<Rightarrow> fs_error" where
  "absent fs p = (if list_ex (is_file_at fs) (prefixes p) then ENOTDIR else ENOENT)"

text \<open>What stops a call on a path before it does anything.\<close>

definition stops :: "process \<Rightarrow> sys_call \<Rightarrow> path \<Rightarrow> fs \<Rightarrow> fs_error option" where
  "stops P call p fs = (if too_long P p then Some ENAMETOOLONG else refused P call p fs)"

definition os_Stat :: "process \<Rightarrow> fs \<Rightarrow> path \<Rightarrow> fs_error + entry" where
  "os_Stat P fs p =
     (case stops P Stat p fs of
        Some e \<Rightarrow> Inl e
      | None \<Rightarrow> (case map_of fs p of None \<Rightarrow> Inl (absent fs p) | Some e \<Rightarrow> Inr e))"

definition os_Open :: "process \<Rightarrow> fs \<Rightarrow> path \<Rightarrow> fs_error option" where
  "os_Open P fs p =
     (case stops P Open p fs of
        Some e \<Rightarrow> Some e
      | None \<Rightarrow> (case map_of fs p of None \<Rightarrow> Some (absent fs p) | Some e \<Rightarrow> None))"

text \<open>\<open>os.Create\<close> truncates a file that is there and keeps its mode.\<close>

definition os_Create :: "process \<Rightarrow> path \<Rightarrow> fs \<Rightarrow> fs_error option \<times> fs" where
  "os_Create P p fs =
     (case stops P Creat p fs of
        Some e \<Rightarrow> (Some e, fs)
      | None \<Rightarrow>
          (case map_of fs p of
             Some (DirE m) \<Rightarrow> (Some EISDIR, fs)
           | Some (FileE m c) \<Rightarrow> (None, AList.update p (FileE m []) fs)
           | None \<Rightarrow>
               (case map_of fs (butlast p) of
                  Some (DirE m) \<Rightarrow> (None, AList.update p (FileE (438 AND NOT (umask_of P)) []) fs)
                | _ \<Rightarrow> (Some (absent fs p), fs))))"

text \<open>
  \<open>io.Copy\<close> from one open file to another, at its beginning; what was written before an error
  stays.
\<close>

definition io_Copy :: "process \<Rightarrow> path \<Rightarrow> path \<Rightarrow> fs \<Rightarrow> fs_error option \<times> fs" where
  "io_Copy P dest src fs =
     (case (map_of fs src, map_of fs dest) of
        (Some (FileE m c), Some (FileE m' c')) \<Rightarrow>
          (let e = refused P Write dest fs;
               d = (if e = None then c else take (written P dest fs) c)
           in (e, AList.update dest (FileE m' (d @ drop (length d) c')) fs))
      | _ \<Rightarrow> (Some EISDIR, fs))"

definition os_Chmod :: "process \<Rightarrow> path \<Rightarrow> mode \<Rightarrow> fs \<Rightarrow> fs_error option \<times> fs" where
  "os_Chmod P p m fs =
     (case stops P Chmod p fs of
        Some e \<Rightarrow> (Some e, fs)
      | None \<Rightarrow>
          (case map_of fs p of
             None \<Rightarrow> (Some (absent fs p), fs)
           | Some (FileE m' c) \<Rightarrow> (None, AList.update p (FileE m c) fs)
           | Some (DirE m') \<Rightarrow> (None, AList.update p (DirE m) fs)))"

text \<open>
  \<open>os.MkdirAll\<close>: the missing directories on the way from \<open>q\<close>, one after the other. A directory
  that is there already is not made and so not refused.
\<close>

fun mkdir_from :: "process \<Rightarrow> mode \<Rightarrow> path \<Rightarrow> path \<Rightarrow> fs \<Rightarrow> fs_error option \<times> fs" where
  "mkdir_from P m q [] fs = (None, fs)"
| "mkdir_from P m q (x # xs) fs =
     (if too_long P (q @ [x]) then (Some ENAMETOOLONG, fs)
      else
        (case map_of fs (q @ [x]) of
           None \<Rightarrow>
             (case refused P Mkdir (q @ [x]) fs of
                Some e \<Rightarrow> (Some e, fs)
              | None \<Rightarrow> mkdir_from P m (q @ [x]) xs (AList.update (q @ [x]) (DirE m) fs))
         | Some (DirE m') \<Rightarrow> mkdir_from P m (q @ [x]) xs fs
         | Some (FileE m' c) \<Rightarrow> (Some ENOTDIR, fs)))"

definition os_MkdirAll :: "process \<Rightarrow> path \<Rightarrow> mode \<Rightarrow> fs \<Rightarrow> fs_error option \<times> fs" where
  "os_MkdirAll P p m fs = mkdir_from P (m AND NOT (umask_of P)) [] p fs"

definition child_of :: "path \<Rightarrow> path \<Rightarrow> bool" where
  "child_of p q \<longleftrightarrow> q \<noteq> [] \<and> butlast q = p"

text \<open>On an open directory, whatever the length of its path.\<close>

definition dir_Readdir :: "process \<Rightarrow> path \<Rightarrow> fs \<Rightarrow> fs_error + (string \<times> entry) list" where
  "dir_Readdir P p fs =
     (case map_of fs p of
        Some (DirE m) \<Rightarrow>
          (case refused P Readdir p fs of
             Some e \<Rightarrow> Inl e
           | None \<Rightarrow> Inr (map (\<lambda>(q, e). (last q, e)) (filter (\<lambda>(q, e). child_of p q) fs)))
      | _ \<Rightarrow> Inl ENOTDIR)"

section \<open>The functions\<close>

text \<open>\<open>os.IsExist\<close> is false for every error of \<open>os.Stat\<close>.\<close>

definition FileExist :: "process \<Rightarrow> fs \<Rightarrow> path \<Rightarrow> bool" where
  "FileExist P fs p = (case os_Stat P fs p of Inr e \<Rightarrow> True | Inl err \<Rightarrow> False)"

definition IsFile :: "process \<Rightarrow> fs \<Rightarrow> path \<Rightarrow> bool" where
  "IsFile P fs p = (case os_Stat P fs p of Inr f \<Rightarrow> \<not> \<not> is_dir f | Inl e \<Rightarrow> False)"

definition IsDir :: "process \<Rightarrow> fs \<Rightarrow> path \<Rightarrow> bool" where
  "IsDir P fs p = (case os_Stat P fs p of Inr f \<Rightarrow> is_dir f | Inl e \<Rightarrow> False)"

text \<open>\<open>dir_size\<close>: what the system says of a directory.\<close>

definition FileSize :: "(path \<Rightarrow> int) \<Rightarrow> process \<Rightarrow> fs \<Rightarrow> path \<Rightarrow> fs_error + int" where
  "FileSize dir_size P fs p =
     (case os_Stat P fs p of
        Inl e \<Rightarrow> Inl e
      | Inr (FileE m c) \<Rightarrow> Inr (int (length c))
      | Inr (DirE m) \<Rightarrow> Inr (dir_size p))"

definition CopyFile :: "process \<Rightarrow> path \<Rightarrow> path \<Rightarrow> fs \<Rightarrow> fs_error option \<times> fs" where
  "CopyFile P src dest fs =
     (case os_Open P fs src of
        Some e \<Rightarrow> (Some e, fs)
      | None \<Rightarrow>
          (case os_Create P dest fs of
             (Some e, fs) \<Rightarrow> (Some e, fs)
           | (None, fs) \<Rightarrow>
               (case io_Copy P dest src fs of
                  (Some e, fs) \<Rightarrow> (Some e, fs)
                | (None, fs) \<Rightarrow>
                    (case os_Stat P fs src of
                       Inl e \<Rightarrow> (Some e, fs)
                     | Inr info \<Rightarrow> os_Chmod P dest (entry_mode info) fs))))"

text \<open>The loop over the entries of a directory: it stops at the first error.\<close>

fun each_file :: "('f \<Rightarrow> 's \<Rightarrow> 'e option \<times> 's) \<Rightarrow> 'f list \<Rightarrow> 's \<Rightarrow> 'e option \<times> 's" where
  "each_file f [] s = (None, s)"
| "each_file f (x # xs) s = (case f x s of (Some e, s) \<Rightarrow> (Some e, s) | (None, s) \<Rightarrow> each_file f xs s)"

lemma each_file_cong [fundef_cong]:
  "xs = ys \<Longrightarrow> s = t \<Longrightarrow> (\<And>x s. x \<in> set ys \<Longrightarrow> f x s = g x s) \<Longrightarrow> each_file f xs s = each_file g ys t"
proof (induction xs arbitrary: ys s t)
  case (Cons x xs)
  then have "f x s = g x s" "each_file f xs s' = each_file g xs s'" for s' by auto
  then show ?case using Cons.prems(1,2) by (auto split: prod.split option.split)
qed simp

lemma path_len_snoc [simp]: "path_len (p @ [n]) = path_len p + Suc (length n)"
  by (simp add: path_len_def)

lemma Open_short: "os_Open P fs p = None \<Longrightarrow> path_len p < path_max P"
  by (auto simp: os_Open_def stops_def too_long_def split: if_splits option.splits)

text \<open>
  A directory can only be opened under a path that is not too long, so the recursion ends: copying
  a directory into itself too.
\<close>

function CopyDir :: "process \<Rightarrow> mode \<Rightarrow> path \<Rightarrow> path \<Rightarrow> fs \<Rightarrow> fs_error option \<times> fs" where
  "CopyDir P dirMode src dest fs =
     (case os_Open P fs src of
        Some e \<Rightarrow> (Some e, fs)
      | None \<Rightarrow>
          (case os_MkdirAll P dest dirMode fs of
             (Some e, fs) \<Rightarrow> (Some e, fs)
           | (None, fs) \<Rightarrow>
               (case dir_Readdir P src fs of
                  Inl e \<Rightarrow> (Some e, fs)
                | Inr files \<Rightarrow>
                    each_file
                      (\<lambda>file fs.
                         if is_dir (snd file)
                         then CopyDir P dirMode (src @ [fst file]) (dest @ [fst file]) fs
                         else CopyFile P (src @ [fst file]) (dest @ [fst file]) fs)
                      files fs)))"
  by pat_completeness auto
termination
  by (relation "measure (\<lambda>(P, dirMode, src, dest, fs). path_max P - path_len src)") (auto dest: Open_short)

declare CopyDir.simps [simp del]

section \<open>Well-formed file systems\<close>

definition tree_ok :: "(path \<rightharpoonup> entry) \<Rightarrow> bool" where
  "tree_ok h \<longleftrightarrow> (\<exists>m. h [] = Some (DirE m)) \<and> (\<forall>p n e. h (p @ [n]) = Some e \<longrightarrow> (\<exists>m. h p = Some (DirE m)))"

definition fs_ok :: "fs \<Rightarrow> bool" where
  "fs_ok fs \<longleftrightarrow> distinct (map fst fs) \<and> tree_ok (map_of fs)"

definition fresh_at :: "(path \<rightharpoonup> entry) \<Rightarrow> path \<Rightarrow> bool" where
  "fresh_at h p \<longleftrightarrow> (\<forall>r. h (p @ r) = None)"

definition way_clear :: "(path \<rightharpoonup> entry) \<Rightarrow> path \<Rightarrow> bool" where
  "way_clear h p \<longleftrightarrow> (\<forall>q m c. prefix q p \<longrightarrow> h q \<noteq> Some (FileE m c))"

lemma strict_below: "strict_prefix p q \<longleftrightarrow> (\<exists>k r. q = p @ k # r)"
  by (metis strict_prefixE' strict_prefixI')

lemma tree_okD: "tree_ok h \<Longrightarrow> h (p @ [n]) = Some e \<Longrightarrow> \<exists>m. h p = Some (DirE m)"
  unfolding tree_ok_def by blast

lemma above_dir:
  assumes "tree_ok h" "h (q @ r) \<noteq> None" "r \<noteq> []"
  shows "\<exists>m. h q = Some (DirE m)"
  using assms(2,3)
proof (induction r rule: rev_induct)
  case (snoc n r)
  from tree_okD [OF assms(1), of "q @ r" n] snoc.prems(1) obtain m where m: "h (q @ r) = Some (DirE m)" by auto
  with snoc.IH show ?case by (cases "r = []") auto
qed simp

lemma above_dir':
  assumes "tree_ok h" "h p \<noteq> None" "strict_prefix q p"
  shows "\<exists>m. h q = Some (DirE m)"
  using assms(3) above_dir [OF assms(1)] assms(2) by (auto simp: strict_prefix_def prefix_def)

lemma way_clear_child:
  assumes "tree_ok h" "h d = Some (DirE m)" "h (d @ [n]) = None"
  shows "way_clear h (d @ [n])"
  unfolding way_clear_def
proof (intro allI impI)
  fix q m c assume "prefix q (d @ [n])"
  then have "q = d @ [n] \<or> q = d \<or> strict_prefix q d" by (auto simp: prefix_snoc)
  then show "h q \<noteq> Some (FileE m c)" using above_dir' [OF assms(1), of d q] assms(2,3) by auto
qed

lemma below_none: "tree_ok h \<Longrightarrow> h p = None \<Longrightarrow> fresh_at h p"
  unfolding fresh_at_def by (metis above_dir append_Nil2 option.distinct(1))

lemma below_file: "tree_ok h \<Longrightarrow> h p = Some (FileE m c) \<Longrightarrow> r \<noteq> [] \<Longrightarrow> h (p @ r) = None"
  using above_dir [of h p r] by (cases "h (p @ r)") auto

lemma tree_upd:
  assumes "tree_ok h" "\<And>k. h (p @ [k]) = None" "p \<noteq> []" "\<exists>m. h (butlast p) = Some (DirE m)"
  shows "tree_ok (h(p \<mapsto> e))"
  unfolding tree_ok_def
proof (intro conjI allI impI)
  show "\<exists>m. (h(p \<mapsto> e)) [] = Some (DirE m)" using assms(1,3) by (simp add: tree_ok_def)
  fix q n e' assume q: "(h(p \<mapsto> e)) (q @ [n]) = Some e'"
  then have "q \<noteq> p" using assms(2,3) by auto
  moreover have "\<exists>m. h q = Some (DirE m)"
    using q assms(4) tree_okD [OF assms(1), of q n] by (cases "q @ [n] = p") auto
  ultimately show "\<exists>m. (h(p \<mapsto> e)) q = Some (DirE m)" by simp
qed

lemma tree_put:
  assumes "tree_ok h" "h p = Some (DirE m)" "h (p @ [n]) = None"
  shows "tree_ok (h(p @ [n] \<mapsto> e))"
  using below_none [OF assms(1,3)] assms(2) by (intro tree_upd [OF assms(1)]) (simp_all add: fresh_at_def)

lemma tree_same:
  assumes "tree_ok h" "h p = Some (FileE m c)"
  shows "tree_ok (h(p \<mapsto> e))"
proof (rule tree_upd [OF assms(1)])
  show p: "p \<noteq> []" using assms by (auto simp: tree_ok_def)
  show "\<exists>m. h (butlast p) = Some (DirE m)"
    using tree_okD [OF assms(1), of "butlast p" "last p"] assms(2) p by simp
qed (use below_file [OF assms] in simp)

section \<open>What the system calls do\<close>

text \<open>An error that is the system's: a path of \<open>S\<close> is too long, or a call is refused.\<close>

definition blames :: "process \<Rightarrow> path set \<Rightarrow> fs_error \<Rightarrow> bool" where
  "blames P S e \<longleftrightarrow> e = ENAMETOOLONG \<and> (\<exists>p \<in> S. too_long P p) \<or> (\<exists>call p fs. refused P call p fs = Some e)"

text \<open>The tree becomes \<open>h\<close>, or there is an error of the system.\<close>

definition outcome :: "process \<Rightarrow> path set \<Rightarrow> (path \<rightharpoonup> entry) \<Rightarrow> fs_error option \<times> fs \<Rightarrow> bool" where
  "outcome P S h r = (case r of (None, fs) \<Rightarrow> fs_ok fs \<and> map_of fs = h | (Some e, fs) \<Rightarrow> blames P S e)"

lemma outcome_simps [simp]:
  "outcome P S h (None, fs) \<longleftrightarrow> fs_ok fs \<and> map_of fs = h"
  "outcome P S h (Some e, fs) \<longleftrightarrow> blames P S e"
  by (simp_all add: outcome_def)

lemma outcome_cases:
  assumes "outcome P S h r"
  obtains fs where "r = (None, fs)" "fs_ok fs" "map_of fs = h" | e fs where "r = (Some e, fs)" "blames P S e"
  using assms by (cases r; cases "fst r") (auto simp: outcome_def)

lemma blames_mono: "blames P S e \<Longrightarrow> S \<subseteq> T \<Longrightarrow> blames P T e"
  unfolding blames_def by blast

lemma outcome_mono: "outcome P S h r \<Longrightarrow> S \<subseteq> T \<Longrightarrow> outcome P T h r"
  by (auto simp: outcome_def blames_mono split: prod.splits option.splits)

lemma refused_blames: "refused P call p fs = Some e \<Longrightarrow> blames P S e"
  unfolding blames_def by blast

lemma stops_blames: "stops P call p fs = Some e \<Longrightarrow> p \<in> S \<Longrightarrow> blames P S e"
  unfolding blames_def stops_def by (metis option.inject)

lemma Open_there: "map_of fs p \<noteq> None \<Longrightarrow> os_Open P fs p = stops P Open p fs"
  by (auto simp: os_Open_def split: option.split)

lemma Create_ok:
  assumes "fs_ok fs" "map_of fs p = Some (DirE md)" "map_of fs (p @ [n]) = None"
  shows "outcome P {p @ [n]} ((map_of fs)(p @ [n] \<mapsto> FileE (438 AND NOT (umask_of P)) [])) (os_Create P (p @ [n]) fs)"
  using assms tree_put [OF _ assms(2,3)] stops_blames [of P Creat "p @ [n]" fs _ "{p @ [n]}"]
  by (auto simp: os_Create_def fs_ok_def update_conv' distinct_update split: option.split)

lemma mkdir_ok:
  assumes "fs_ok fs" "map_of fs q = Some (DirE md)" "way_clear (map_of fs) (q @ xs)"
  shows "outcome P {p. prefix p (q @ xs)} (\<lambda>p. if prefix p (q @ xs) \<and> map_of fs p = None then Some (DirE m) else map_of fs p)
    (mkdir_from P m q xs fs)"
  using assms
proof (induction P m q xs fs arbitrary: md rule: mkdir_from.induct)
  case (1 P m q fs)
  have "map_of fs p \<noteq> None" if "prefix p q" for p
    using that 1(2) above_dir' [of "map_of fs" q p] 1(1) by (cases "p = q") (auto simp: strict_prefix_def fs_ok_def)
  then have "(\<lambda>p. if prefix p q \<and> map_of fs p = None then Some (DirE m) else map_of fs p) = map_of fs" by auto
  with 1 show ?case by simp
next
  case (2 P m q x xs fs)
  have way: "prefix (q @ [x]) (q @ x # xs)" by simp
  show ?case
  proof (cases "too_long P (q @ [x])")
    case True
    with way show ?thesis by (auto simp: blames_def)
  next
    case short: False
    show ?thesis
    proof (cases "map_of fs (q @ [x])")
      case None
      let ?fs = "AList.update (q @ [x]) (DirE m) fs"
      show ?thesis
      proof (cases "refused P Mkdir (q @ [x]) fs")
        case free: None
        have ok: "fs_ok ?fs"
          using 2(3,4) None tree_put [of "map_of fs" q md x] by (simp add: fs_ok_def update_conv' distinct_update)
        have clear: "way_clear (map_of ?fs) ((q @ [x]) @ xs)" using 2(5) by (simp add: way_clear_def update_conv')
        have same: "(\<lambda>p. if prefix p ((q @ [x]) @ xs) \<and> map_of ?fs p = None then Some (DirE m) else map_of ?fs p) =
            (\<lambda>p. if prefix p (q @ x # xs) \<and> map_of fs p = None then Some (DirE m) else map_of fs p)"
          using None by (auto simp: update_conv' fun_eq_iff)
        have "map_of ?fs (q @ [x]) = Some (DirE m)" by (simp add: update_conv')
        from 2(1) [OF short None free ok this clear] show ?thesis
          unfolding same using short None free by simp
      qed (use short None in \<open>simp add: refused_blames\<close>)
    next
      case (Some e)
      with 2(5) obtain md' where e: "e = DirE md'" by (cases e) (auto simp: way_clear_def)
      with Some short 2(2) [OF short Some e 2(3)] 2(5) show ?thesis by auto
    qed
  qed
qed

lemma CopyFile_ok:
  assumes "fs_ok fs" "map_of fs src = Some (FileE m c)" "map_of fs d = Some (DirE md)" "map_of fs (d @ [n]) = None"
  shows "outcome P {src, d @ [n]} ((map_of fs)(d @ [n] \<mapsto> FileE m c)) (CopyFile P src (d @ [n]) fs)"
proof -
  let ?S = "{src, d @ [n]}"
  have ne: "src \<noteq> d @ [n]" using assms(2,4) by auto
  have op: "os_Open P fs src = stops P Open src fs" using assms(2) by (simp add: Open_there)
  from Create_ok [OF assms(1,3,4), of P] show ?thesis
  proof (cases rule: outcome_cases)
    case (1 f1)
    let ?f2 = "AList.update (d @ [n]) (FileE (438 AND NOT (umask_of P)) c) f1"
    let ?f3 = "AList.update (d @ [n]) (FileE m c) ?f2"
    show ?thesis
    proof (cases "refused P Write (d @ [n]) f1")
      case None
      then have "io_Copy P (d @ [n]) src f1 = (None, ?f2)" using 1(3) assms(2) ne by (simp add: io_Copy_def)
      moreover have "os_Chmod P (d @ [n]) m ?f2 =
          (case stops P Chmod (d @ [n]) ?f2 of None \<Rightarrow> (None, ?f3) | Some e \<Rightarrow> (Some e, ?f2))"
        by (simp add: os_Chmod_def update_conv' split: option.split)
      moreover have "map_of ?f2 src = Some (FileE m c)" using 1(3) assms(2) ne by (simp add: update_conv')
      moreover have "fs_ok ?f3"
        using 1(2) tree_same [of "map_of f1" "d @ [n]"] 1(3) by (simp add: fs_ok_def update_conv' distinct_update)
      moreover have "map_of ?f3 = (map_of fs)(d @ [n] \<mapsto> FileE m c)" using 1(3) by (simp add: update_conv')
      ultimately show ?thesis
        using 1(1) op stops_blames [of P _ src _ _ ?S] stops_blames [of P _ "d @ [n]" _ _ ?S]
        by (simp add: CopyFile_def os_Stat_def split: option.split)
    next
      case (Some e)
      then have "\<exists>f. io_Copy P (d @ [n]) src f1 = (Some e, f)" using 1(3) assms(2) ne by (simp add: io_Copy_def)
      then show ?thesis
        using 1(1) op Some stops_blames [of P _ src _ _ ?S] by (auto simp: CopyFile_def refused_blames split: option.split)
    qed
  next
    case (2 e f1)
    then have "blames P ?S e" using blames_mono [OF 2(2), of ?S] by simp
    then show ?thesis
      using 2(1) op stops_blames [of P _ src _ _ ?S] by (simp add: CopyFile_def split: option.split)
  qed
qed

section \<open>What CopyDir does\<close>

text \<open>
  The result: below \<open>dest\<close> what is below \<open>src\<close>, the files as they are and the
  directories with the mode asked for; the way to \<open>dest\<close> filled with directories; the
  rest as it was.
\<close>

fun copied :: "mode \<Rightarrow> entry \<Rightarrow> entry" where
  "copied m (FileE md c) = FileE md c"
| "copied m (DirE md) = DirE m"

definition copy_of :: "mode \<Rightarrow> path \<Rightarrow> path \<Rightarrow> (path \<rightharpoonup> entry) \<Rightarrow> path \<rightharpoonup> entry" where
  "copy_of m src dest h p =
     (if prefix dest p then map_option (copied m) (h (src @ drop (length dest) p))
      else if prefix p dest \<and> h p = None then Some (DirE m) else h p)"

text \<open>Part of the copy: the entries \<open>N\<close> of \<open>src\<close>.\<close>

definition partial :: "mode \<Rightarrow> path \<Rightarrow> path \<Rightarrow> string set \<Rightarrow> (path \<rightharpoonup> entry) \<Rightarrow> path \<rightharpoonup> entry" where
  "partial m src dest N h p =
     (if strict_prefix dest p \<and> p ! length dest \<notin> N then None else copy_of m src dest h p)"

lemma copy_file_copy_of:
  assumes "fs_ok fs" "map_of fs (src @ [n]) = Some (FileE m c)" "map_of fs d = Some (DirE md)" "map_of fs (d @ [n]) = None"
  shows "outcome P {src @ [n], d @ [n]} (copy_of dm (src @ [n]) (d @ [n]) (map_of fs)) (CopyFile P (src @ [n]) (d @ [n]) fs)"
proof -
  have t: "tree_ok (map_of fs)" using assms(1) by (simp add: fs_ok_def)
  have "(map_of fs)(d @ [n] \<mapsto> FileE m c) = copy_of dm (src @ [n]) (d @ [n]) (map_of fs)"
  proof
    fix p
    show "((map_of fs)(d @ [n] \<mapsto> FileE m c)) p = copy_of dm (src @ [n]) (d @ [n]) (map_of fs) p"
    proof (cases "prefix (d @ [n]) p")
      case True
      then obtain r where p: "p = (d @ [n]) @ r" by (auto simp: prefix_def)
      show ?thesis
      proof (cases "r = []")
        case False
        then show ?thesis
          using below_none [OF t assms(4)] below_file [OF t assms(2) False] by (simp add: p copy_of_def fresh_at_def)
      qed (use assms(2) in \<open>simp add: p copy_of_def\<close>)
    next
      case False
      have "map_of fs p \<noteq> None" if "prefix p (d @ [n])"
        using that False assms(3) above_dir' [OF t, of d p] by (cases "p = d") (auto simp: prefix_snoc strict_prefix_def)
      with False show ?thesis by (auto simp: copy_of_def)
    qed
  qed
  with CopyFile_ok [OF assms, of P] show ?thesis by simp
qed

text \<open>What is below \<open>src\<close> is not touched.\<close>

lemma partial_src:
  assumes "\<not> prefix src dest" "h src \<noteq> None" "fresh_at h dest"
  shows "partial dm src dest N h (src @ r) = h (src @ r)"
proof -
  have "\<not> prefix dest src" using assms(2,3) by (auto simp: prefix_def fresh_at_def)
  moreover have "prefix dest (src @ r) \<Longrightarrow> prefix dest src \<or> prefix src dest"
    by (metis prefix_append prefix_order.order_refl prefix_same_cases)
  ultimately have "\<not> prefix dest (src @ r)" using assms(1) by blast
  moreover have "\<not> prefix (src @ r) dest" using assms(1) by (auto dest: append_prefixD)
  ultimately show ?thesis by (auto simp: partial_def copy_of_def strict_prefix_def)
qed

lemma partial_insert:
  assumes "\<not> prefix src dest" "h src = Some (DirE md)" "fresh_at h dest" "n \<notin> N"
  shows "copy_of dm (src @ [n]) (dest @ [n]) (partial dm src dest N h) = partial dm src dest (insert n N) h"
proof
  fix p
  have src: "partial dm src dest N h (src @ r) = h (src @ r)" for r
    using assms(1-3) by (intro partial_src) simp_all
  show "copy_of dm (src @ [n]) (dest @ [n]) (partial dm src dest N h) p = partial dm src dest (insert n N) h p"
  proof (cases "prefix (dest @ [n]) p")
    case True
    then obtain q where p: "p = dest @ n # q" by (auto simp: prefix_def)
    then show ?thesis using src [of "n # q"] by (simp add: copy_of_def partial_def nth_append)
  next
    case False
    have "partial dm src dest N h p \<noteq> None" if "prefix p (dest @ [n])"
      using that False assms(2) by (auto simp: partial_def copy_of_def prefix_snoc strict_prefix_def dest: prefix_order.antisym)
    with False have "copy_of dm (src @ [n]) (dest @ [n]) (partial dm src dest N h) p = partial dm src dest N h p"
      by (auto simp: copy_of_def)
    moreover have "p ! length dest \<noteq> n" if "strict_prefix dest p"
      using that False by (auto simp: strict_below)
    ultimately show ?thesis by (auto simp: partial_def)
  qed
qed

lemma partial_all:
  assumes "tree_ok h" "\<And>n. h (src @ [n]) \<noteq> None \<Longrightarrow> n \<in> N"
  shows "partial dm src dest N h = copy_of dm src dest h"
proof
  fix p
  have "copy_of dm src dest h p = None" if p: "strict_prefix dest p" "p ! length dest \<notin> N"
  proof -
    from p(1) obtain k q where q: "p = dest @ k # q" by (auto simp: strict_below)
    with p(2) have "k \<notin> N" by simp
    with assms(2) have "h (src @ [k]) = None" by blast
    from below_none [OF assms(1) this] show ?thesis using q by (simp add: copy_of_def fresh_at_def)
  qed
  then show "partial dm src dest N h p = copy_of dm src dest h p" by (simp add: partial_def)
qed

lemma partial_none:
  assumes "h src = Some (DirE md)" "fresh_at h dest"
  shows "partial dm src dest {} h = (\<lambda>p. if prefix p dest \<and> h p = None then Some (DirE dm) else h p)"
proof
  fix p
  have "h dest = None" "strict_prefix dest p \<Longrightarrow> h p = None"
    using assms(2) by (auto simp: fresh_at_def strict_prefix_def prefix_def dest: spec [of _ "[]"])
  with assms(1) show "partial dm src dest {} h p = (if prefix p dest \<and> h p = None then Some (DirE dm) else h p)"
    by (cases "p = dest") (auto simp: partial_def copy_of_def strict_prefix_def dest: prefix_order.antisym)
qed

lemma Readdir_ok:
  assumes "fs_ok fs" "map_of fs p = Some (DirE md)"
  shows "case dir_Readdir P p fs of
      Inl e \<Rightarrow> blames P S e
    | Inr files \<Rightarrow> distinct (map fst files) \<and> (\<forall>n e. (n, e) \<in> set files \<longleftrightarrow> map_of fs (p @ [n]) = Some e)"
proof -
  let ?fl = "filter (\<lambda>(q, e). child_of p q) fs"
  let ?files = "map (\<lambda>(q, e). (last q, e)) ?fl"
  have d: "distinct (map fst fs)" using assms(1) by (simp add: fs_ok_def)
  then have "distinct (map fst ?fl)" by (rule distinct_map_filter)
  moreover have "inj_on last (fst ` set ?fl)"
    by (rule inj_onI) (auto simp: child_of_def, metis append_butlast_last_id)
  ultimately have "distinct (map last (map fst ?fl))" by (subst distinct_map) simp
  moreover have "map last (map fst ?fl) = map fst ?files" by (simp add: case_prod_beta comp_def)
  ultimately have "distinct (map fst ?files)" by (simp only:)
  moreover have "(n, e) \<in> set ?files \<longleftrightarrow> map_of fs (p @ [n]) = Some e" for n e
  proof -
    have "(n, e) \<in> set ?files \<longleftrightarrow> (p @ [n], e) \<in> set fs"
      by (force simp: child_of_def image_iff dest: append_butlast_last_id)
    then show ?thesis using d by simp
  qed
  moreover have "dir_Readdir P p fs = (case refused P Readdir p fs of Some e \<Rightarrow> Inl e | None \<Rightarrow> Inr ?files)"
    using assms(2) by (simp add: dir_Readdir_def)
  ultimately show ?thesis using refused_blames [of P Readdir p fs _ S]
    by (cases "refused P Readdir p fs") (simp_all only: option.case sum.case simp_thms)
qed

text \<open>The paths a copy asks the system for.\<close>

definition involved :: "path \<Rightarrow> path \<Rightarrow> (path \<rightharpoonup> entry) \<Rightarrow> path set" where
  "involved src dest h =
     {p. prefix p dest} \<union> {src @ r |r. h (src @ r) \<noteq> None} \<union> {dest @ r |r. h (src @ r) \<noteq> None}"

lemma involved_src: "h src \<noteq> None \<Longrightarrow> src \<in> involved src dest h"
  unfolding involved_def by (rule UnI1, rule UnI2) (simp add: exI [of _ "[]"])

lemma involved_entry: "h (src @ [n]) \<noteq> None \<Longrightarrow> {src @ [n], dest @ [n]} \<subseteq> involved src dest h"
  unfolding involved_def by blast

lemma involved_child:
  assumes "h (src @ [n]) \<noteq> None" "\<forall>r. h' (src @ r) = h (src @ r)"
  shows "involved (src @ [n]) (dest @ [n]) h' \<subseteq> involved src dest h"
proof
  fix p assume "p \<in> involved (src @ [n]) (dest @ [n]) h'"
  then consider "prefix p dest" | "p = dest @ [n]"
    | r where "p = src @ n # r \<or> p = dest @ n # r" "h' (src @ n # r) \<noteq> None"
    by (auto simp: involved_def prefix_snoc)
  then show "p \<in> involved src dest h"
    using assms by cases (auto simp: involved_def)
qed

text \<open>The loop, with whatever copies one entry.\<close>

lemma each_copies:
  assumes "\<not> prefix src dest" "h src = Some (DirE md)" "fresh_at h dest"
    and "\<And>n e fsc. (n, e) \<in> set files \<Longrightarrow> fs_ok fsc \<Longrightarrow> \<forall>r. map_of fsc (src @ r) = h (src @ r) \<Longrightarrow>
      \<exists>m. map_of fsc dest = Some (DirE m) \<Longrightarrow> map_of fsc (dest @ [n]) = None \<Longrightarrow>
      outcome P S (copy_of dm (src @ [n]) (dest @ [n]) (map_of fsc)) (f (n, e) fsc)"
    and "distinct (map fst files)" "fst ` set files \<inter> N = {}" "fs_ok fsc" "map_of fsc = partial dm src dest N h"
  shows "outcome P S (partial dm src dest (fst ` set files \<union> N) h) (each_file f files fsc)"
  using assms(4-8)
proof (induction files arbitrary: fsc N)
  case (Cons x files)
  obtain n e where x: "x = (n, e)" by (cases x)
  have n: "n \<notin> N" "map_of fsc (dest @ [n]) = None" using Cons.prems(3,5) x by (auto simp: partial_def strict_below)
  have src: "\<forall>r. map_of fsc (src @ r) = h (src @ r)"
    unfolding Cons.prems(5) using assms(1-3) by (intro allI partial_src) simp_all
  have "\<exists>m. map_of fsc dest = Some (DirE m)"
    using assms(2) by (simp add: Cons.prems(5) partial_def copy_of_def strict_prefix_def)
  from Cons.prems(1) [OF _ Cons.prems(4) src this n(2), of e] x
  have "outcome P S (copy_of dm (src @ [n]) (dest @ [n]) (map_of fsc)) (f (n, e) fsc)" by simp
  then show ?case
  proof (cases rule: outcome_cases)
    case (1 f1)
    then have "map_of f1 = partial dm src dest (insert n N) h"
      using partial_insert [where h = h, OF assms(1-3) n(1)] by (simp add: Cons.prems(5))
    moreover have "distinct (map fst files)" "fst ` set files \<inter> insert n N = {}" using Cons.prems(2,3) x by auto
    ultimately have "outcome P S (partial dm src dest (fst ` set files \<union> insert n N) h) (each_file f files f1)"
      using Cons.prems(1) 1(2) by (intro Cons.IH) simp_all
    then show ?thesis using 1(1) x by simp
  qed (simp add: x)
qed simp

lemma CopyDir_copies:
  assumes "fs_ok fs" "map_of fs src = Some (DirE md)" "\<not> prefix src dest" "fresh_at (map_of fs) dest"
    "way_clear (map_of fs) dest"
  shows "outcome P (involved src dest (map_of fs)) (copy_of (dirMode AND NOT (umask_of P)) src dest (map_of fs))
    (CopyDir P dirMode src dest fs)"
  using assms
proof (induction P dirMode src dest fs arbitrary: md rule: CopyDir.induct)
  case (1 P dirMode src dest fs)
  let ?h = "map_of fs" and ?dm = "dirMode AND NOT (umask_of P)"
  let ?S = "involved src dest ?h"
  have t: "tree_ok ?h" using 1(2) by (simp only: fs_ok_def)
  then have "\<exists>m. ?h [] = Some (DirE m)" by (simp only: tree_ok_def)
  then obtain m0 where root: "?h [] = Some (DirE m0)" ..
  have there: "?h src \<noteq> None" by (simp only: 1(3) option.simps not_False_eq_True)
  have op: "blames P ?S e" if "os_Open P fs src = Some e" for e
    using that [unfolded Open_there [OF there]] involved_src [where h = ?h, OF there] by (rule stops_blames)
  have "outcome P {p. prefix p dest} (partial ?dm src dest {} ?h) (os_MkdirAll P dest dirMode fs)"
    using mkdir_ok [OF 1(2) root, of dest P ?dm, unfolded append_Nil, OF 1(6)]
    unfolding os_MkdirAll_def partial_none [where h = ?h, OF 1(3,5)] .
  then have "outcome P ?S (partial ?dm src dest {} ?h) (os_MkdirAll P dest dirMode fs)"
    by (rule outcome_mono) (auto simp only: involved_def)
  then show ?case
  proof (cases rule: outcome_cases)
    case f1: (1 f1)
    have src: "map_of f1 (src @ r) = ?h (src @ r)" for r
      unfolding f1(3) using 1(3-5) by (intro partial_src) simp_all
    with 1(3) have "map_of f1 src = Some (DirE md)" by (metis append_Nil2)
    note rd = Readdir_ok [OF f1(2) this, of P ?S, unfolded src]
    show ?thesis
    proof (cases "os_Open P fs src = None \<and> (\<exists>files. dir_Readdir P src f1 = Inr files)")
      case True
      then obtain files where open_dir: "os_Open P fs src = None" "dir_Readdir P src f1 = Inr files" by blast
      from rd have files: "distinct (map fst files)" "\<And>n e. (n, e) \<in> set files \<longleftrightarrow> ?h (src @ [n]) = Some e"
        unfolding open_dir(2) by simp_all
      let ?f = "\<lambda>file fs. if is_dir (snd file) then CopyDir P dirMode (src @ [fst file]) (dest @ [fst file]) fs
         else CopyFile P (src @ [fst file]) (dest @ [fst file]) fs"
      have step: "outcome P ?S (copy_of ?dm (src @ [n]) (dest @ [n]) (map_of fsc)) (?f (n, e) fsc)"
        if e: "(n, e) \<in> set files" and ok: "fs_ok fsc" and same: "\<forall>r. map_of fsc (src @ r) = ?h (src @ r)"
          and dir: "\<exists>m. map_of fsc dest = Some (DirE m)" and free: "map_of fsc (dest @ [n]) = None" for n e fsc
      proof -
        have here: "map_of fsc (src @ [n]) = Some e" "?h (src @ [n]) \<noteq> None" using e files(2) same by (simp_all only: option.simps not_False_eq_True)
        note sub = involved_child [where h = ?h and h' = "map_of fsc", OF here(2) same, of dest]
        show ?thesis
        proof (cases e)
          case (FileE m c)
          from dir obtain md' where "map_of fsc dest = Some (DirE md')" ..
          from copy_file_copy_of [OF ok here(1) [unfolded FileE] this free, of P]
          have "outcome P {src @ [n], dest @ [n]} (copy_of ?dm (src @ [n]) (dest @ [n]) (map_of fsc)) (?f (n, e) fsc)"
            using FileE by simp
          then show ?thesis using involved_entry [where h = ?h, OF here(2)] by (rule outcome_mono)
        next
          case (DirE m)
          have d: "map_of fsc (src @ [n]) = Some (DirE m)" "is_dir (snd (n, e))" using here(1) DirE by simp_all
          have "\<not> prefix (src @ [n]) (dest @ [n])" using 1(4) by (auto dest: append_prefixD)
          moreover have "fresh_at (map_of fsc) (dest @ [n])" using below_none ok free by (simp only: fs_ok_def)
          moreover have "way_clear (map_of fsc) (dest @ [n])"
            using dir free way_clear_child ok by (auto simp only: fs_ok_def)
          ultimately have "outcome P (involved (src @ [n]) (dest @ [n]) (map_of fsc))
              (copy_of ?dm (src @ [n]) (dest @ [n]) (map_of fsc)) (CopyDir P dirMode (src @ [n]) (dest @ [n]) fsc)"
            by (rule 1(1) [OF open_dir(1) f1(1) [symmetric] refl open_dir(2) e d(2), unfolded fst_conv, OF ok d(1)])
          from outcome_mono [OF this sub] show ?thesis using DirE by simp
        qed
      qed
      have "outcome P ?S (partial ?dm src dest (fst ` set files \<union> {}) ?h) (each_file ?f files f1)"
        by (rule each_copies [where h = ?h, OF 1(4,3,5) _ files(1) Int_empty_right f1(2,3)]) (rule step)
      moreover have "partial ?dm src dest (fst ` set files \<union> {}) ?h = copy_of ?dm src dest ?h"
      proof (rule partial_all [OF t])
        fix n assume "?h (src @ [n]) \<noteq> None"
        then obtain e where "(n, e) \<in> set files" using files(2) by blast
        then show "n \<in> fst ` set files \<union> {}" by force
      qed
      ultimately show ?thesis using f1(1) open_dir by (simp add: CopyDir.simps [of P dirMode src dest fs])
    next
      case False
      then consider e where "os_Open P fs src = Some e" | e where "os_Open P fs src = None" "dir_Readdir P src f1 = Inl e"
        by (cases "os_Open P fs src"; cases "dir_Readdir P src f1") blast+
      then show ?thesis
      proof cases
        case (1 e)
        with op show ?thesis by (simp add: CopyDir.simps [of P dirMode src dest fs])
      next
        case (2 e)
        with rd f1(1) show ?thesis by (simp add: CopyDir.simps [of P dirMode src dest fs])
      qed
    qed
  next
    case (2 e f1)
    then show ?thesis using op by (cases "os_Open P fs src") (simp_all add: CopyDir.simps [of P dirMode src dest fs])
  qed
qed

section \<open>Copying a directory into itself\<close>

text \<open>A loop over entries of which one ends in an error of the system.\<close>

lemma each_fails:
  assumes dest: "dest = src @ x # xs"
    and copies: "\<And>n e fsc. n \<noteq> x \<Longrightarrow> (n, e) \<in> set files \<Longrightarrow> fs_ok fsc \<Longrightarrow> map_of fsc (src @ [n]) = Some e \<Longrightarrow>
      \<exists>m. map_of fsc dest = Some (DirE m) \<Longrightarrow> map_of fsc (dest @ [n]) = None \<Longrightarrow>
      outcome P UNIV (copy_of dm (src @ [n]) (dest @ [n]) (map_of fsc)) (f (n, e) fsc)"
    and fails: "\<And>fsc. fs_ok fsc \<Longrightarrow> map_of fsc (src @ [x]) = Some e0 \<Longrightarrow>
      \<exists>m. map_of fsc dest = Some (DirE m) \<Longrightarrow> map_of fsc (dest @ [x]) = None \<Longrightarrow>
      \<exists>e fs'. f (x, e0) fsc = (Some e, fs') \<and> blames P UNIV e"
  shows "\<lbrakk>distinct (map fst files); (x, e0) \<in> set files; fs_ok fsc; \<exists>m. map_of fsc dest = Some (DirE m);
      \<forall>(n, e) \<in> set files. map_of fsc (src @ [n]) = Some e \<and> map_of fsc (dest @ [n]) = None\<rbrakk> \<Longrightarrow>
    \<exists>e fs'. each_file f files fsc = (Some e, fs') \<and> blames P UNIV e"
  using copies
proof (induction files arbitrary: fsc)
  case (Cons k files)
  obtain n e where k: "k = (n, e)" by (cases k)
  with Cons.prems(5) have here: "map_of fsc (src @ [n]) = Some e" "map_of fsc (dest @ [n]) = None" by auto
  show ?case
  proof (cases "n = x")
    case True
    with Cons.prems(1,2) k have "e = e0" by (auto simp: image_iff)
    with fails [OF Cons.prems(3) _ Cons.prems(4)] here True k show ?thesis by auto
  next
    case False
    from Cons.prems(6) [OF False _ Cons.prems(3) here(1) Cons.prems(4) here(2)] k
    have "outcome P UNIV (copy_of dm (src @ [n]) (dest @ [n]) (map_of fsc)) (f k fsc)" by simp
    then show ?thesis
    proof (cases rule: outcome_cases)
      case (1 f1)
      have same: "map_of f1 p = map_of fsc p" if "\<not> prefix (dest @ [n]) p" "\<not> prefix p (dest @ [n]) \<or> map_of fsc p \<noteq> None" for p
        using that by (auto simp: 1(3) copy_of_def)
      have "\<exists>m. map_of f1 dest = Some (DirE m)" using Cons.prems(4) same [of dest] by auto
      moreover have "map_of f1 (src @ [j]) = Some i \<and> map_of f1 (dest @ [j]) = None" if "(j, i) \<in> set files" for j i
      proof -
        have "map_of fsc (src @ [j]) = Some i" "map_of fsc (dest @ [j]) = None" "j \<noteq> n"
          using that Cons.prems(1,5) k by auto force
        moreover have "\<not> prefix (dest @ [n]) (src @ [j])" by (auto simp: dest dest: prefix_length_le)
        ultimately show ?thesis using same [of "src @ [j]"] same [of "dest @ [j]"] by auto
      qed
      moreover have "distinct (map fst files)" "(x, e0) \<in> set files" using Cons.prems(1,2) False k by auto
      ultimately have "\<exists>e fs'. each_file f files f1 = (Some e, fs') \<and> blames P UNIV e"
        using 1(2) Cons.prems(6) by (intro Cons.IH) auto
      then show ?thesis using 1(1) by simp
    qed simp
  qed
qed simp

definition into_itself :: "fs \<Rightarrow> path \<Rightarrow> path \<Rightarrow> bool" where
  "into_itself fs src dest \<longleftrightarrow> fs_ok fs \<and> (\<exists>m. map_of fs src = Some (DirE m)) \<and> strict_prefix src dest \<and>
     fresh_at (map_of fs) dest \<and> way_clear (map_of fs) dest"

lemma into_itself_start:
  assumes "into_itself fs src dest"
  shows "\<exists>x xs. dest = src @ x # xs \<and>
    outcome P UNIV (\<lambda>p. if prefix p dest \<and> map_of fs p = None then Some (DirE (dirMode AND NOT (umask_of P))) else map_of fs p)
      (os_MkdirAll P dest dirMode fs)"
proof -
  from assms obtain x xs where dest: "dest = src @ x # xs" by (auto simp: into_itself_def strict_below)
  from assms have ok: "fs_ok fs" and way: "way_clear (map_of fs) dest" by (simp_all add: into_itself_def)
  then have "tree_ok (map_of fs)" by (simp only: fs_ok_def)
  then obtain m0 where "map_of fs [] = Some (DirE m0)" by (auto simp only: tree_ok_def)
  from mkdir_ok [OF ok this, of dest P "dirMode AND NOT (umask_of P)", unfolded append_Nil, OF way] dest show ?thesis
    unfolding os_MkdirAll_def by (blast intro: outcome_mono)
qed

lemma into_itself_opened:
  assumes "into_itself fs src dest" "dest = src @ x # xs" "fs_ok f1" "dir_Readdir P src f1 = Inr files"
    and f1: "map_of f1 = (\<lambda>p. if prefix p dest \<and> map_of fs p = None then Some (DirE dm) else map_of fs p)"
  shows "\<exists>e. (x, e) \<in> set files \<and> is_dir e" "distinct (map fst files)" "\<exists>m. map_of f1 dest = Some (DirE m)"
    "\<forall>(n, e) \<in> set files. map_of f1 (src @ [n]) = Some e \<and> map_of f1 (dest @ [n]) = None"
proof -
  from assms(1) have way: "way_clear (map_of fs) dest" and fresh: "fresh_at (map_of fs) dest"
    by (simp_all add: into_itself_def)
  from assms(1) obtain md where "map_of fs src = Some (DirE md)" by (auto simp: into_itself_def)
  then have "map_of f1 src = Some (DirE md)" by (simp add: f1)
  from Readdir_ok [OF assms(3) this, of P] assms(4) have files: "distinct (map fst files)"
    "\<And>n e. (n, e) \<in> set files \<longleftrightarrow> map_of f1 (src @ [n]) = Some e" by simp_all
  have "\<exists>e. map_of f1 (src @ [x]) = Some e \<and> is_dir e"
  proof (cases "map_of fs (src @ [x])")
    case None
    then show ?thesis by (simp add: f1 assms(2))
  next
    case (Some e)
    have "prefix (src @ [x]) dest" by (simp add: assms(2))
    with way Some have "is_dir e" unfolding way_clear_def by (cases e) auto
    with Some show ?thesis by (simp add: f1)
  qed
  then show "\<exists>e. (x, e) \<in> set files \<and> is_dir e" using files(2) by blast
  show "distinct (map fst files)" by (rule files(1))
  show "\<exists>m. map_of f1 dest = Some (DirE m)" using fresh by (auto simp: f1 fresh_at_def dest: spec [of _ "[]"])
  have "map_of f1 (dest @ [n]) = None" for n using fresh by (simp add: f1 fresh_at_def)
  then show "\<forall>(n, e) \<in> set files. map_of f1 (src @ [n]) = Some e \<and> map_of f1 (dest @ [n]) = None"
    using files(2) by blast
qed

lemma into_itself_child:
  assumes "strict_prefix src dest" "fs_ok fsc" "map_of fsc (src @ [x]) = Some e" "is_dir e"
    "prefix (src @ [x]) dest" "\<exists>m. map_of fsc dest = Some (DirE m)" "map_of fsc (dest @ [x]) = None"
  shows "into_itself fsc (src @ [x]) (dest @ [x])"
proof -
  have t: "tree_ok (map_of fsc)" using assms(2) by (simp only: fs_ok_def)
  have "strict_prefix (src @ [x]) (dest @ [x])" using assms(5) by (auto simp: strict_prefix_def dest: prefix_length_le)
  moreover have "\<exists>m. e = DirE m" using assms(4) by (cases e) auto
  ultimately show ?thesis
    using assms(2,3,6) below_none [OF t assms(7)] way_clear_child [OF t _ assms(7)] by (auto simp: into_itself_def)
qed

lemma CopyDir_fails:
  assumes "into_itself fs src dest"
  shows "\<exists>e fs'. CopyDir P dirMode src dest fs = (Some e, fs') \<and> blames P UNIV e"
  using assms
proof (induction P dirMode src dest fs rule: CopyDir.induct)
  case (1 P dirMode src dest fs)
  let ?dm = "dirMode AND NOT (umask_of P)"
  from 1(2) have there: "map_of fs src \<noteq> None" by (auto simp: into_itself_def)
  have op: "blames P UNIV e" if "os_Open P fs src = Some e" for e
    using that [unfolded Open_there [OF there]] UNIV_I by (rule stops_blames)
  from into_itself_start [OF 1(2), of P dirMode] obtain x xs where dest: "dest = src @ x # xs"
    and mk: "outcome P UNIV (\<lambda>p. if prefix p dest \<and> map_of fs p = None then Some (DirE ?dm) else map_of fs p)
      (os_MkdirAll P dest dirMode fs)" by blast
  show ?case
  proof (cases "os_Open P fs src")
    case (Some e)
    with op show ?thesis by (simp add: CopyDir.simps [of P dirMode src dest fs])
  next
    case opened: None
    from mk show ?thesis
    proof (cases rule: outcome_cases)
      case f1: (1 f1)
      show ?thesis
      proof (cases "dir_Readdir P src f1")
        case (Inl e)
        from there 1(2) obtain md where "map_of f1 src = Some (DirE md)" by (auto simp: f1(3) into_itself_def)
        from Readdir_ok [OF f1(2) this, of P UNIV] Inl have "blames P UNIV e" by simp
        with opened f1(1) Inl show ?thesis by (simp add: CopyDir.simps [of P dirMode src dest fs])
      next
        case (Inr files)
        note o = into_itself_opened [OF 1(2) dest f1(2) Inr f1(3)]
        from o(1) obtain e where x: "(x, e) \<in> set files" "is_dir e" by blast
        let ?f = "\<lambda>file fs. if is_dir (snd file) then CopyDir P dirMode (src @ [fst file]) (dest @ [fst file]) fs
           else CopyFile P (src @ [fst file]) (dest @ [fst file]) fs"
        have "\<exists>e fs'. each_file ?f files f1 = (Some e, fs') \<and> blames P UNIV e"
        proof (rule each_fails [OF dest _ _ o(2) x(1) f1(2) o(3,4)])
          fix n e' fsc
          assume n: "n \<noteq> x" "(n, e') \<in> set files" "fs_ok fsc" "map_of fsc (src @ [n]) = Some e'"
            "\<exists>m. map_of fsc dest = Some (DirE m)" "map_of fsc (dest @ [n]) = None"
          show "outcome P UNIV (copy_of ?dm (src @ [n]) (dest @ [n]) (map_of fsc)) (?f (n, e') fsc)"
          proof (cases e')
            case (FileE m c)
            from n(5) obtain md where "map_of fsc dest = Some (DirE md)" ..
            from copy_file_copy_of [OF n(3) n(4) [unfolded FileE] this n(6), of P ?dm] FileE show ?thesis
              by (simp add: outcome_mono)
          next
            case (DirE m)
            have t: "tree_ok (map_of fsc)" using n(3) by (simp only: fs_ok_def)
            have "way_clear (map_of fsc) (dest @ [n])" using n(5,6) way_clear_child [OF t] by blast
            moreover have "\<not> prefix (src @ [n]) (dest @ [n])" using n(1) by (simp add: dest)
            ultimately show ?thesis
              using CopyDir_copies [OF n(3) n(4) [unfolded DirE] _ below_none [OF t n(6)], of P dirMode] DirE
              by (simp add: outcome_mono)
          qed
        next
          fix fsc
          assume c: "fs_ok fsc" "map_of fsc (src @ [x]) = Some e" "\<exists>m. map_of fsc dest = Some (DirE m)" "map_of fsc (dest @ [x]) = None"
          have "into_itself fsc (src @ [x]) (dest @ [x])"
            using c x(2) by (intro into_itself_child) (simp_all add: dest strict_below)
          with 1(1) [OF opened f1(1) [symmetric] refl Inr x(1)] x(2)
          show "\<exists>e' fs'. ?f (x, e) fsc = (Some e', fs') \<and> blames P UNIV e'" by simp
        qed
        then show ?thesis using opened f1(1) Inr by (simp add: CopyDir.simps [of P dirMode src dest fs])
      qed
    next
      case (2 e f1)
      with opened show ?thesis by (simp add: CopyDir.simps [of P dirMode src dest fs])
    qed
  qed
qed

section \<open>What CopyDir leaves alone\<close>

definition keeps :: "path \<Rightarrow> (path \<rightharpoonup> entry) \<Rightarrow> (path \<rightharpoonup> entry) \<Rightarrow> bool" where
  "keeps dest h h' \<longleftrightarrow> (\<forall>p. prefix dest p \<or> h' p = h p \<or> prefix p dest \<and> h p = None)"

lemma keeps_refl [simp]: "keeps dest h h"
  by (simp add: keeps_def)

lemma keeps_trans: "keeps dest h h' \<Longrightarrow> keeps dest h' h'' \<Longrightarrow> keeps dest h h''"
  unfolding keeps_def by metis

lemma keeps_child: "keeps (dest @ [n]) h h' \<Longrightarrow> keeps dest h h'"
  unfolding keeps_def by (metis append_prefixD prefix_snoc prefix_order.order_refl)

lemma keeps_mkdir: "q @ xs = dest \<Longrightarrow> keeps dest (map_of fs) (map_of (snd (mkdir_from P m q xs fs)))"
proof (induction P m q xs fs rule: mkdir_from.induct)
  case (2 P m q x xs fs)
  have way: "prefix (q @ [x]) dest" using 2(3) by auto
  show ?case
  proof (cases "\<not> too_long P (q @ [x]) \<and> map_of fs (q @ [x]) = None \<and> refused P Mkdir (q @ [x]) fs = None")
    case True
    then have "keeps dest (map_of (AList.update (q @ [x]) (DirE m) fs))
        (map_of (snd (mkdir_from P m (q @ [x]) xs (AList.update (q @ [x]) (DirE m) fs))))"
      using 2 by simp
    moreover have "keeps dest (map_of fs) (map_of (AList.update (q @ [x]) (DirE m) fs))"
      using True way by (simp add: keeps_def update_conv')
    ultimately show ?thesis using True keeps_trans by simp
  qed (use 2 in \<open>auto split: option.split entry.split\<close>)
qed simp

lemma keeps_file: "keeps dest (map_of fs) (map_of (snd (CopyFile P src dest fs)))"
proof -
  obtain e1 f1 where c: "os_Create P dest fs = (e1, f1)" by (cases "os_Create P dest fs")
  obtain e2 f2 where w: "io_Copy P dest src f1 = (e2, f2)" by (cases "io_Copy P dest src f1")
  have "keeps dest (map_of fs) (map_of (snd (os_Create P dest fs)))"
    by (auto simp: keeps_def os_Create_def update_conv' split: option.split entry.split)
  moreover have "keeps dest (map_of f1) (map_of (snd (io_Copy P dest src f1)))"
    by (auto simp: keeps_def io_Copy_def Let_def update_conv' split: option.split entry.split)
  moreover have chmod: "keeps dest (map_of f2) (map_of (snd (os_Chmod P dest m f2)))" for m
    by (auto simp: keeps_def os_Chmod_def update_conv' split: option.split entry.split)
  ultimately have k: "keeps dest (map_of fs) (map_of f1)" "keeps dest (map_of fs) (map_of f2)"
    using keeps_trans by (simp_all add: c w)
  have "keeps dest (map_of fs) (map_of (snd (os_Chmod P dest m f2)))" for m by (rule keeps_trans [OF k(2) chmod])
  with k show ?thesis by (simp add: CopyFile_def c w split: option.split sum.split)
qed

lemma keeps_each:
  "(\<And>x s. x \<in> set files \<Longrightarrow> keeps dest (map_of s) (map_of (snd (f x s)))) \<Longrightarrow>
    keeps dest (map_of fs) (map_of (snd (each_file f files fs)))"
proof (induction files arbitrary: fs)
  case (Cons x files)
  obtain e s where x: "f x fs = (e, s)" by (cases "f x fs")
  from Cons.prems [of x fs] x have "keeps dest (map_of fs) (map_of s)" by simp
  moreover have "keeps dest (map_of s) (map_of (snd (each_file f files s)))" using Cons by simp
  ultimately show ?case using x by (auto intro: keeps_trans split: option.split)
qed simp

lemma CopyDir_keeps: "keeps dest (map_of fs) (map_of (snd (CopyDir P dirMode src dest fs)))"
proof (induction P dirMode src dest fs rule: CopyDir.induct)
  case (1 P dirMode src dest fs)
  obtain e f1 where mk: "os_MkdirAll P dest dirMode fs = (e, f1)" by (cases "os_MkdirAll P dest dirMode fs")
  have k1: "keeps dest (map_of fs) (map_of f1)"
    using keeps_mkdir [of "[]" dest dest fs P "dirMode AND NOT (umask_of P)"] mk by (simp add: os_MkdirAll_def)
  let ?f = "\<lambda>file fs. if is_dir (snd file) then CopyDir P dirMode (src @ [fst file]) (dest @ [fst file]) fs
     else CopyFile P (src @ [fst file]) (dest @ [fst file]) fs"
  show ?case
  proof (cases "os_Open P fs src = None \<and> e = None \<and> (\<exists>files. dir_Readdir P src f1 = Inr files)")
    case True
    then obtain files where go: "os_Open P fs src = None" "e = None" "dir_Readdir P src f1 = Inr files" by blast
    have "keeps dest (map_of f1) (map_of (snd (each_file ?f files f1)))"
    proof (rule keeps_each)
      fix x s assume "x \<in> set files"
      from 1 [OF go(1) mk [symmetric] go(2,3) this, of s]
      show "keeps dest (map_of s) (map_of (snd (?f x s)))"
        using keeps_child [OF keeps_file] by (cases "is_dir (snd x)") (simp_all add: keeps_child)
    qed
    with k1 have "keeps dest (map_of fs) (map_of (snd (each_file ?f files f1)))" by (rule keeps_trans)
    then show ?thesis using go mk by (simp add: CopyDir.simps [of P dirMode src dest fs])
  next
    case False
    then show ?thesis
      using k1 mk by (auto simp: CopyDir.simps [of P dirMode src dest fs] split: option.split sum.split)
  qed
qed

section \<open>The other functions\<close>

text \<open>\<open>IsFile\<close> is \<open>IsDir\<close>.\<close>

lemma IsFile_IsDir: "IsFile P fs p = IsDir P fs p"
  by (cases "os_Stat P fs p") (simp_all add: IsFile_def IsDir_def)

lemma FileExist_iff: "FileExist P fs p \<longleftrightarrow> map_of fs p \<noteq> None \<and> stops P Stat p fs = None"
  by (auto simp: FileExist_def os_Stat_def split: option.split)

text \<open>
  \<open>CopyFile\<close> on every kind of source and target, when the system stops nothing: content and
  mode are copied; a directory as the target stops it; a directory as the source leaves an
  empty file behind; and a file copied to itself is emptied, without an error.
\<close>

definition creatable :: "fs \<Rightarrow> path \<Rightarrow> bool" where
  "creatable fs p \<longleftrightarrow>
     (case map_of fs p of
        Some e \<Rightarrow> \<not> is_dir e
      | None \<Rightarrow> (case map_of fs (butlast p) of Some e \<Rightarrow> is_dir e | None \<Rightarrow> False))"

definition willing :: "process \<Rightarrow> path \<Rightarrow> bool" where
  "willing P p \<longleftrightarrow> \<not> too_long P p \<and> (\<forall>call fs. refused P call p fs = None)"

lemma willing_stops: "willing P p \<Longrightarrow> stops P call p fs = None"
  by (simp add: willing_def stops_def)

lemma willing_write: "willing P p \<Longrightarrow> refused P call p fs = None"
  by (simp add: willing_def)

lemma Create_creatable:
  assumes "creatable fs p" "willing P p"
  shows "\<exists>m. os_Create P p fs = (None, AList.update p (FileE m []) fs)"
  using assms by (auto simp: creatable_def os_Create_def willing_stops split: option.splits entry.splits)

lemma copy_file_cases:
  assumes "willing P src" "willing P dest"
  shows "map_of fs src = None \<Longrightarrow> CopyFile P src dest fs = (Some (absent fs src), fs)"
    and "map_of fs src \<noteq> None \<Longrightarrow> map_of fs dest = Some (DirE m) \<Longrightarrow> CopyFile P src dest fs = (Some EISDIR, fs)"
    and "map_of fs src = Some (DirE m) \<Longrightarrow> creatable fs dest \<Longrightarrow>
      \<exists>m'. CopyFile P src dest fs = (Some EISDIR, AList.update dest (FileE m' []) fs)"
    and "map_of fs src = Some (FileE m c) \<Longrightarrow> creatable fs dest \<Longrightarrow> src \<noteq> dest \<Longrightarrow>
      \<exists>fs'. CopyFile P src dest fs = (None, fs') \<and> map_of fs' = (map_of fs)(dest \<mapsto> FileE m c)"
    and "map_of fs src = Some (FileE m c) \<Longrightarrow>
      \<exists>fs'. CopyFile P src src fs = (None, fs') \<and> map_of fs' = (map_of fs)(src \<mapsto> FileE m [])"
proof -
  note go = assms [THEN willing_stops] assms [THEN willing_write]
  show "map_of fs src = None \<Longrightarrow> CopyFile P src dest fs = (Some (absent fs src), fs)"
    by (simp add: CopyFile_def os_Open_def go)
  show "map_of fs src \<noteq> None \<Longrightarrow> map_of fs dest = Some (DirE m) \<Longrightarrow> CopyFile P src dest fs = (Some EISDIR, fs)"
    by (auto simp: CopyFile_def os_Open_def os_Create_def go)
  show "\<exists>m'. CopyFile P src dest fs = (Some EISDIR, AList.update dest (FileE m' []) fs)"
    if "map_of fs src = Some (DirE m)" "creatable fs dest"
  proof -
    have "src \<noteq> dest" using that by (auto simp: creatable_def)
    with that Create_creatable [OF that(2) assms(2)] show ?thesis
      by (auto simp: CopyFile_def os_Open_def io_Copy_def update_conv' go)
  qed
  show "\<exists>fs'. CopyFile P src dest fs = (None, fs') \<and> map_of fs' = (map_of fs)(dest \<mapsto> FileE m c)"
    if "map_of fs src = Some (FileE m c)" "creatable fs dest" "src \<noteq> dest"
    using that Create_creatable [OF that(2) assms(2)]
    by (auto simp: CopyFile_def os_Open_def os_Stat_def io_Copy_def os_Chmod_def update_conv' go)
  show "\<exists>fs'. CopyFile P src src fs = (None, fs') \<and> map_of fs' = (map_of fs)(src \<mapsto> FileE m [])"
    if "map_of fs src = Some (FileE m c)"
    using that by (auto simp: CopyFile_def os_Open_def os_Stat_def os_Create_def io_Copy_def os_Chmod_def update_conv' go)
qed

section \<open>The property\<close>

definition fs_ex :: fs where
  "fs_ex = [([], DirE 493), ([''a''], DirE 493), ([''a'', ''f''], FileE 420 [1, 2]), ([''a'', ''d''], DirE 448)]"

text \<open>A process under Linux that nothing is refused.\<close>

definition linux_ex :: process where
  "linux_ex = \<lparr>umask_of = 18, path_max = 4096, name_max = 255, refused = (\<lambda>call p fs. None), written = (\<lambda>p fs. 0)\<rparr>"

lemma fs_ex_facts:
  "fs_ok fs_ex" "map_of fs_ex [''a''] = Some (DirE 493)"
  "fresh_at (map_of fs_ex) [''b'']" "way_clear (map_of fs_ex) [''b'']"
  "fresh_at (map_of fs_ex) [''a'', ''b'']" "way_clear (map_of fs_ex) [''a'', ''b'']"
  by (auto simp: fs_ex_def fs_ok_def tree_ok_def fresh_at_def way_clear_def prefix_Cons append_eq_Cons_conv split: if_splits)

lemma linux_ex_short: "p \<in> involved [''a''] [''b''] (map_of fs_ex) \<Longrightarrow> \<not> too_long linux_ex p"
  by (auto simp: involved_def fs_ex_def linux_ex_def too_long_def path_len_def prefix_Cons split: if_splits)

text \<open>
  C34. Copying a directory to a place where there is nothing yet (and no file in the way), in
  any process: whatever the lengths it allows and whatever calls it refuses. If the place is not
  inside the directory and \<open>CopyDir\<close> ends without an error, below the target there is exactly
  what is below the source, the files with their content and modes, the directories with the mode
  asked for (less the umask), missing directories on the way are made, and nothing else has
  changed; an error is the system's: a call was refused, or one of the paths the copy is made of
  is too long. If the place is inside the directory, the call always ends in such an error: it
  finds its own copy and goes on copying it, until a path is too long or a call is refused. What
  is neither at the target nor missing on the way to it is never touched, with or without an error.
\<close>

theorem copy_dir:
  assumes "fs_ok fs" "map_of fs src = Some (DirE md)" "fresh_at (map_of fs) dest" "way_clear (map_of fs) dest"
    and "CopyDir P dirMode src dest fs = (err, fs')"
  shows "(\<not> prefix src dest \<longrightarrow>
      (case err of
         None \<Rightarrow> fs_ok fs' \<and> map_of fs' = copy_of (dirMode AND NOT (umask_of P)) src dest (map_of fs)
       | Some e \<Rightarrow> e = ENAMETOOLONG \<and> (\<exists>p \<in> involved src dest (map_of fs). too_long P p) \<or>
           (\<exists>call p s. refused P call p s = Some e))) \<and>
    (prefix src dest \<longrightarrow> err = Some ENAMETOOLONG \<or> (\<exists>e call p s. err = Some e \<and> refused P call p s = Some e)) \<and>
    (\<forall>p. prefix dest p \<or> map_of fs' p = map_of fs p \<or> prefix p dest \<and> map_of fs p = None)"
proof (intro conjI impI)
  assume "\<not> prefix src dest"
  from CopyDir_copies [OF assms(1,2) this assms(3,4), of P dirMode]
  show "case err of
         None \<Rightarrow> fs_ok fs' \<and> map_of fs' = copy_of (dirMode AND NOT (umask_of P)) src dest (map_of fs)
       | Some e \<Rightarrow> e = ENAMETOOLONG \<and> (\<exists>p \<in> involved src dest (map_of fs). too_long P p) \<or>
           (\<exists>call p s. refused P call p s = Some e)"
    unfolding assms(5) outcome_def blames_def by simp
next
  assume inside: "prefix src dest"
  have "src \<noteq> dest" using assms(2,3) by (auto simp: fresh_at_def dest: spec [of _ "[]"])
  with inside assms(1-4) have "into_itself fs src dest" by (simp add: into_itself_def strict_prefix_def)
  from CopyDir_fails [OF this, of P dirMode]
  show "err = Some ENAMETOOLONG \<or> (\<exists>e call p s. err = Some e \<and> refused P call p s = Some e)"
    unfolding assms(5) blames_def by auto
next
  show "\<forall>p. prefix dest p \<or> map_of fs' p = map_of fs p \<or> prefix p dest \<and> map_of fs p = None"
    using CopyDir_keeps [of dest fs P dirMode src] by (simp add: assms(5) keeps_def)
qed

theorem copy_dir_witness:
  "(\<exists>fs'. CopyDir linux_ex 511 [''a''] [''b''] fs_ex = (None, fs') \<and> map_of fs' [''b'', ''f''] = Some (FileE 420 [1, 2])) \<and>
   (\<exists>fs'. CopyDir linux_ex 511 [''a''] [''a'', ''b''] fs_ex = (Some ENAMETOOLONG, fs') \<and>
      map_of fs' [''a'', ''f''] = Some (FileE 420 [1, 2]))"
proof
  have none: "refused linux_ex call p s = None" for call p s by (simp add: linux_ex_def)
  obtain e1 f1 where c1: "CopyDir linux_ex 511 [''a''] [''b''] fs_ex = (e1, f1)"
    by (cases "CopyDir linux_ex 511 [''a''] [''b''] fs_ex")
  have "e1 = None \<and> map_of f1 = copy_of (511 AND NOT 18) [''a''] [''b''] (map_of fs_ex)"
    using copy_dir [OF fs_ex_facts(1-4) c1] linux_ex_short by (cases e1) (auto simp: none, simp add: linux_ex_def)
  then show "\<exists>fs'. CopyDir linux_ex 511 [''a''] [''b''] fs_ex = (None, fs') \<and> map_of fs' [''b'', ''f''] = Some (FileE 420 [1, 2])"
    using c1 by (auto simp: copy_of_def) (simp add: fs_ex_def)
  obtain e2 f2 where c2: "CopyDir linux_ex 511 [''a''] [''a'', ''b''] fs_ex = (e2, f2)"
    by (cases "CopyDir linux_ex 511 [''a''] [''a'', ''b''] fs_ex")
  have at: "map_of fs_ex [''a'', ''f''] = Some (FileE 420 [1, 2])" by (simp add: fs_ex_def)
  have "e2 = Some ENAMETOOLONG \<and> map_of f2 [''a'', ''f''] = Some (FileE 420 [1, 2])"
    using copy_dir [OF fs_ex_facts(1,2,5,6) c2] at by (auto simp: none dest: spec [of _ "[''a'', ''f'']"])
  then show "\<exists>fs'. CopyDir linux_ex 511 [''a''] [''a'', ''b''] fs_ex = (Some ENAMETOOLONG, fs') \<and>
      map_of fs' [''a'', ''f''] = Some (FileE 420 [1, 2])" using c2 by simp
qed

end
