(* ===== verification/Paths.thy ===== *)
theory Paths
  imports Strconv
begin

text \<open>
  \<open>gfile/file.go\<close>, \<open>GetProcPwd\<close> and \<open>GetPwd\<close>: the directory of the program. What the
  process was started with, its working directory (\<open>None\<close> when the system cannot tell) and
  what \<open>exec.LookPath\<close> finds are arguments; the operations of \<open>path/filepath\<close> on a path as
  text are here, for systems with one separator.
\<close>

section \<open>Paths as text\<close>

abbreviation slash :: char where
  "slash \<equiv> CHR ''/''"

definition IsAbs :: "string \<Rightarrow> bool" where
  "IsAbs p \<longleftrightarrow> (case p of [] \<Rightarrow> False | c # _ \<Rightarrow> c = slash)"

text \<open>The components kept so far, the last one first.\<close>

fun clean_step :: "bool \<Rightarrow> string \<Rightarrow> string list \<Rightarrow> string list" where
  "clean_step rooted c acc =
     (if c = '''' \<or> c = ''.'' then acc
      else if c = ''..'' then
        (case acc of
           [] \<Rightarrow> if rooted then [] else [''..'']
         | d # ds \<Rightarrow> if d = ''..'' then ''..'' # acc else ds)
      else c # acc)"

fun join_slash :: "string list \<Rightarrow> string" where
  "join_slash [] = ''''"
| "join_slash [c] = c"
| "join_slash (c # d # cs) = c @ slash # join_slash (d # cs)"

definition components :: "bool \<Rightarrow> string list \<Rightarrow> string list" where
  "components rooted cs = rev (fold (clean_step rooted) cs [])"

definition Clean :: "string \<Rightarrow> string" where
  "Clean p =
     (let cs = components (IsAbs p) (split_at slash p)
      in if IsAbs p then slash # join_slash cs else if cs = [] then ''.'' else join_slash cs)"

text \<open>Everything up to and with the last separator.\<close>

definition dir_part :: "string \<Rightarrow> string" where
  "dir_part p = rev (dropWhile (\<lambda>c. c \<noteq> slash) (rev p))"

definition Dir :: "string \<Rightarrow> string" where
  "Dir p = Clean (dir_part p)"

text \<open>\<open>Abs\<close> with its error, which leaves the empty string.\<close>

definition Abs :: "string option \<Rightarrow> string \<Rightarrow> string \<times> bool" where
  "Abs cwd p =
     (if IsAbs p then (Clean p, True)
      else case cwd of None \<Rightarrow> ('''', False) | Some wd \<Rightarrow> (Clean (wd @ slash # p), True))"

section \<open>The operations\<close>

text \<open>Both throw the errors away. Without any argument \<open>os.Args[0]\<close> panics.\<close>

definition GetProcPwd :: "(string \<Rightarrow> string \<times> bool) \<Rightarrow> string option \<Rightarrow> string list \<Rightarrow> string option" where
  "GetProcPwd LookPath cwd args = do {
     arg \<leftarrow> slice_get args 0;
     let (found, _) = LookPath arg;
     let (path, _) = Abs cwd (Dir found);
     Some path
   }"

definition GetPwd :: "string option \<Rightarrow> string list \<Rightarrow> string option" where
  "GetPwd cwd args = do {
     arg \<leftarrow> slice_get args 0;
     let (dir, _) = Abs cwd (Dir arg);
     Some dir
   }"

section \<open>What Clean leaves\<close>

text \<open>A name: not empty, no separator, neither of the two special ones.\<close>

definition is_name :: "string \<Rightarrow> bool" where
  "is_name c \<longleftrightarrow> c \<noteq> '''' \<and> c \<noteq> ''.'' \<and> c \<noteq> ''..'' \<and> slash \<notin> set c"

text \<open>Clean components: names, after any number of steps upwards in a path without a root.\<close>

definition clean_comps :: "bool \<Rightarrow> string list \<Rightarrow> bool" where
  "clean_comps rooted cs \<longleftrightarrow>
     (\<exists>n ns. cs = replicate n ''..'' @ ns \<and> (\<forall>c \<in> set ns. is_name c) \<and> (rooted \<longrightarrow> n = 0))"

definition clean_acc :: "bool \<Rightarrow> string list \<Rightarrow> bool" where
  "clean_acc rooted acc \<longleftrightarrow>
     (\<exists>n ns. acc = ns @ replicate n ''..'' \<and> (\<forall>c \<in> set ns. is_name c) \<and> (rooted \<longrightarrow> n = 0))"

lemma clean_acc_rev: "clean_comps rooted (rev acc) \<longleftrightarrow> clean_acc rooted acc"
proof
  assume "clean_comps rooted (rev acc)"
  then obtain n ns where "rev acc = replicate n ''..'' @ ns" "\<forall>c \<in> set ns. is_name c" "rooted \<longrightarrow> n = 0"
    by (auto simp: clean_comps_def)
  then show "clean_acc rooted acc"
    unfolding clean_acc_def by (intro exI [of _ n] exI [of _ "rev ns"]) (simp add: rev_swap)
next
  assume "clean_acc rooted acc"
  then obtain n ns where "acc = ns @ replicate n ''..''" "\<forall>c \<in> set ns. is_name c" "rooted \<longrightarrow> n = 0"
    by (auto simp: clean_acc_def)
  then show "clean_comps rooted (rev acc)"
    unfolding clean_comps_def by (intro exI [of _ n] exI [of _ "rev ns"]) simp
qed

lemma clean_step_acc:
  assumes "clean_acc rooted acc" "slash \<notin> set c"
  shows "clean_acc rooted (clean_step rooted c acc)"
proof -
  from assms(1) obtain n ns where acc: "acc = ns @ replicate n ''..''" "\<forall>c \<in> set ns. is_name c" "rooted \<longrightarrow> n = 0"
    by (auto simp: clean_acc_def)
  consider "c = '''' \<or> c = ''.''" | "c = ''..''" | "is_name c" using assms(2) by (auto simp: is_name_def)
  then show ?thesis
  proof cases
    case 1
    then show ?thesis using assms(1) by auto
  next
    case 2
    show ?thesis
    proof (cases ns)
      case Nil
      with acc 2 have "clean_step rooted c acc = [] @ replicate (if rooted then n else Suc n) ''..''"
        by (cases n) auto
      then show ?thesis using acc(3) unfolding clean_acc_def
        by (intro exI [of _ "if rooted then n else Suc n"] exI [of _ "[]"]) auto
    next
      case (Cons d ds)
      with acc 2 have "clean_step rooted c acc = ds @ replicate n ''..''" by (auto simp: is_name_def)
      then show ?thesis using acc(2,3) Cons unfolding clean_acc_def
        by (intro exI [of _ n] exI [of _ ds]) auto
    qed
  next
    case 3
    then have "clean_step rooted c acc = (c # ns) @ replicate n ''..''" using acc by (simp add: is_name_def)
    then show ?thesis using acc(2,3) 3 unfolding clean_acc_def
      by (intro exI [of _ n] exI [of _ "c # ns"]) auto
  qed
qed

lemma split_no_slash: "c \<in> set (split_at slash p) \<Longrightarrow> slash \<notin> set c"
  by (induction p arbitrary: c) (auto split: if_splits list.splits)

lemma components_clean:
  assumes "\<forall>c \<in> set cs. slash \<notin> set c"
  shows "clean_comps rooted (components rooted cs)"
proof -
  have "clean_acc rooted (fold (clean_step rooted) cs acc)" if "clean_acc rooted acc" for acc
    using assms that
  proof (induction cs arbitrary: acc)
    case (Cons c cs)
    then show ?case using clean_step_acc by (simp del: clean_step.simps)
  qed simp
  moreover have "clean_acc rooted []" by (simp add: clean_acc_def)
  ultimately show ?thesis by (simp add: components_def clean_acc_rev)
qed

text \<open>Clean components stay as they are.\<close>

lemma components_names:
  assumes "\<forall>c \<in> set ns. is_name c"
  shows "fold (clean_step rooted) ns acc = rev ns @ acc"
  using assms by (induction ns arbitrary: acc) (auto simp: is_name_def)

lemma components_up: "fold (clean_step False) (replicate n ''..'') (replicate m ''..'') = replicate (n + m) ''..''"
proof (induction n arbitrary: m)
  case (Suc n)
  have "clean_step False ''..'' (replicate m ''..'') = replicate (Suc m) ''..''" by (cases m) simp_all
  with Suc [of "Suc m"] show ?case by (simp del: clean_step.simps)
qed simp

lemma components_id:
  assumes "clean_comps rooted cs"
  shows "components rooted cs = cs"
proof -
  from assms obtain n ns where cs: "cs = replicate n ''..'' @ ns" "\<forall>c \<in> set ns. is_name c" "rooted \<longrightarrow> n = 0"
    by (auto simp: clean_comps_def)
  have "fold (clean_step rooted) (replicate n ''..'') [] = replicate n ''..''"
    using cs(3) components_up [of n 0] by (cases rooted) simp_all
  with cs(1) components_names [OF cs(2)] show ?thesis by (simp add: components_def)
qed

lemma split_join_slash:
  assumes "cs \<noteq> []" "\<forall>c \<in> set cs. slash \<notin> set c"
  shows "split_at slash (join_slash cs) = cs"
  using assms by (induction cs rule: join_slash.induct) (simp_all add: split_at_last split_at_cons)

lemma clean_comps_no_slash: "clean_comps rooted cs \<Longrightarrow> c \<in> set cs \<Longrightarrow> slash \<notin> set c \<and> c \<noteq> ''''"
proof -
  assume "clean_comps rooted cs" and c: "c \<in> set cs"
  then obtain n ns where cs: "cs = replicate n ''..'' @ ns" "\<forall>c \<in> set ns. is_name c"
    unfolding clean_comps_def by blast
  with c consider "c = ''..''" | "is_name c" by (auto simp: in_set_replicate)
  then show ?thesis by cases (simp_all add: is_name_def)
qed

lemma join_not_abs:
  assumes "cs \<noteq> []" "\<forall>c \<in> set cs. slash \<notin> set c \<and> c \<noteq> ''''"
  shows "\<not> IsAbs (join_slash cs)"
proof -
  from assms obtain c ds where cs: "cs = c # ds" by (cases cs) auto
  with assms(2) obtain x xs where "c = x # xs" "x \<noteq> slash" by (cases c) auto
  then show ?thesis unfolding cs by (cases ds) (simp_all add: IsAbs_def)
qed

lemma Clean_comps:
  assumes c: "clean_comps rooted cs"
  shows "rooted \<Longrightarrow> Clean (slash # join_slash cs) = slash # join_slash cs"
    and "\<not> rooted \<Longrightarrow> cs \<noteq> [] \<Longrightarrow> Clean (join_slash cs) = join_slash cs"
proof -
  have ns: "\<forall>c \<in> set cs. slash \<notin> set c" "\<forall>c \<in> set cs. slash \<notin> set c \<and> c \<noteq> ''''"
    using clean_comps_no_slash [OF c] by blast+
  assume r: "rooted"
  have "components True (split_at slash (slash # join_slash cs)) = cs"
  proof (cases "cs = []")
    case True
    then show ?thesis by (simp add: components_def)
  next
    case False
    then have "components True (split_at slash (slash # join_slash cs)) = components True cs"
      using split_join_slash [OF False ns(1)] by (simp add: components_def)
    then show ?thesis using components_id [OF c] r by simp
  qed
  then show "Clean (slash # join_slash cs) = slash # join_slash cs"
    unfolding Clean_def by (simp add: IsAbs_def)
next
  have ns: "\<forall>c \<in> set cs. slash \<notin> set c" "\<forall>c \<in> set cs. slash \<notin> set c \<and> c \<noteq> ''''"
    using clean_comps_no_slash [OF c] by blast+
  assume r: "\<not> rooted" "cs \<noteq> []"
  then show "Clean (join_slash cs) = join_slash cs"
    using join_not_abs [OF r(2) ns(2)] split_join_slash [OF r(2) ns(1)] components_id [OF c] by (simp add: Clean_def)
qed

lemma Clean_clean: "Clean (Clean p) = Clean p"
proof -
  have "\<forall>c \<in> set (split_at slash p). slash \<notin> set c" using split_no_slash by blast
  note c = components_clean [OF this, of "IsAbs p"]
  show ?thesis
  proof (cases "IsAbs p")
    case True
    with Clean_comps(1) [OF c] show ?thesis by (simp add: Clean_def [of p] Let_def)
  next
    case False
    show ?thesis
    proof (cases "components False (split_at slash p) = []")
      case True
      with False show ?thesis by (simp add: Clean_def [of p] Let_def) (simp add: Clean_def components_def IsAbs_def)
    next
      case nonempty: False
      with False Clean_comps(2) [OF c] show ?thesis by (simp add: Clean_def [of p] Let_def)
    qed
  qed
qed


lemma Clean_abs: "IsAbs (Clean p) \<longleftrightarrow> IsAbs p"
proof (cases "IsAbs p")
  case True
  then show ?thesis by (simp add: Clean_def Let_def) (simp add: IsAbs_def)
next
  case False
  have "\<forall>c \<in> set (split_at slash p). slash \<notin> set c" using split_no_slash by blast
  note c = components_clean [OF this, of False]
  show ?thesis
  proof (cases "components False (split_at slash p) = []")
    case True
    with False show ?thesis by (simp add: Clean_def Let_def) (simp add: IsAbs_def)
  next
    case nonempty: False
    have "\<forall>x \<in> set (components False (split_at slash p)). slash \<notin> set x \<and> x \<noteq> ''''"
      using clean_comps_no_slash [OF c] by blast
    from join_not_abs [OF nonempty this] False nonempty show ?thesis by (simp add: Clean_def Let_def)
  qed
qed

section \<open>The property\<close>

lemma dir_part_name: "slash \<notin> set p \<Longrightarrow> dir_part p = ''''"
  by (auto simp: dir_part_def)

lemma dir_part_abs: "IsAbs (dir_part p) \<longleftrightarrow> IsAbs p"
proof (cases p)
  case Nil
  then show ?thesis by (simp add: dir_part_def)
next
  case (Cons c q)
  show ?thesis
  proof (cases "slash \<in> set q")
    case True
    then have "dropWhile (\<lambda>c. c \<noteq> slash) (rev q @ [c]) = dropWhile (\<lambda>c. c \<noteq> slash) (rev q) @ [c]"
      by (subst dropWhile_append1) auto
    then show ?thesis by (simp add: dir_part_def Cons IsAbs_def)
  next
    case False
    then have "dropWhile (\<lambda>c. c \<noteq> slash) (rev q @ [c]) = dropWhile (\<lambda>c. c \<noteq> slash) [c]"
      by (subst dropWhile_append2) auto
    then show ?thesis by (simp add: dir_part_def Cons IsAbs_def)
  qed
qed

lemma Dir_abs: "IsAbs (Dir p) \<longleftrightarrow> IsAbs p"
  by (simp add: Dir_def Clean_abs dir_part_abs)

lemma split_at_not_Nil: "split_at c xs \<noteq> []"
  by (induction xs) (simp_all split: list.splits)

lemma split_at_append: "split_at slash (wd @ slash # p) = split_at slash wd @ split_at slash p"
proof (induction wd)
  case (Cons x xs)
  then show ?case
    using split_at_not_Nil [of slash xs] by (cases "split_at slash xs") simp_all
qed simp

text \<open>A working directory as the system reports it is rooted and clean.\<close>

lemma Clean_dot:
  assumes "IsAbs wd" "Clean wd = wd"
  shows "Clean (wd @ slash # ''.'') = wd"
proof -
  have "components True (split_at slash (wd @ slash # ''.'')) = components True (split_at slash wd)"
    by (simp add: split_at_append components_def)
  moreover have "IsAbs (wd @ slash # ''.'')" using assms(1) by (cases wd) (simp_all add: IsAbs_def)
  ultimately show ?thesis using assms by (simp add: Clean_def)
qed

lemma Dir_name: "slash \<notin> set p \<Longrightarrow> Dir p = ''.''"
  by (simp add: Dir_def dir_part_name Clean_def components_def IsAbs_def)

text \<open>
  C35. The directory of the program. \<open>GetPwd\<close> does not give the working directory but
  the directory in the name that the program was started with: for a name from the root the
  directory of the name, wherever the process is; for a bare name the working directory; for
  any other name its directory as seen from the working directory. What it gives is a clean path
  from the root; but when the system cannot tell the working directory, a name that is not from
  the root gives the empty string and no error. \<open>GetProcPwd\<close> is the same for the file that
  the look-up finds, and the working directory when it finds none.
\<close>

theorem program_directory:
  assumes "IsAbs wd" "Clean wd = wd"
  shows "(IsAbs arg \<longrightarrow> GetPwd cwd (arg # args) = Some (Dir arg)) \<and>
    (slash \<notin> set arg \<longrightarrow> GetPwd (Some wd) (arg # args) = Some wd) \<and>
    (\<not> IsAbs arg \<longrightarrow> GetPwd (Some wd) (arg # args) = Some (Clean (wd @ slash # Dir arg)) \<and>
      GetPwd None (arg # args) = Some '''') \<and>
    (\<exists>d. GetPwd (Some wd) (arg # args) = Some d \<and> IsAbs d \<and> Clean d = d) \<and>
    (LookPath arg = (found, ok) \<longrightarrow> GetProcPwd LookPath cwd (arg # args) = GetPwd cwd (found # args)) \<and>
    (LookPath arg = ('''', ok) \<longrightarrow> GetProcPwd LookPath (Some wd) (arg # args) = Some wd)"
proof -
  have arg: "slice_get (x # xs) 0 = Some x" for x :: string and xs by (simp add: slice_get_def)
  have cd: "Clean (Dir x) = Dir x" for x by (simp add: Dir_def Clean_clean)
  have rel: "GetPwd (Some wd) (x # xs) = Some (Clean (wd @ slash # Dir x))"
    "GetPwd None (x # xs) = Some ''''" if "\<not> IsAbs x" for x xs
    using that by (simp_all add: GetPwd_def arg Abs_def Dir_abs)
  have abs: "GetPwd c (x # xs) = Some (Dir x)" if "IsAbs x" for c x xs
    using that by (simp add: GetPwd_def arg Abs_def Dir_abs cd)
  have name: "GetPwd (Some wd) (x # xs) = Some wd" if "slash \<notin> set x" for x xs
  proof -
    have "\<not> IsAbs x" using that by (cases x) (auto simp: IsAbs_def)
    with rel(1) Dir_name [OF that] Clean_dot [OF assms] show ?thesis by simp
  qed
  have lk: "LookPath arg = (found, ok) \<Longrightarrow> GetProcPwd LookPath c (arg # args) = GetPwd c (found # args)" for c found ok
    by (simp add: GetProcPwd_def GetPwd_def arg)
  have "IsAbs (wd @ slash # Dir arg)" using assms(1) by (cases wd) (simp_all add: IsAbs_def)
  then have "\<exists>d. GetPwd (Some wd) (arg # args) = Some d \<and> IsAbs d \<and> Clean d = d"
    using abs [of arg "Some wd" args] rel(1) [of arg args]
    by (cases "IsAbs arg") (simp_all add: Dir_abs cd Clean_abs Clean_clean)
  moreover have "LookPath arg = ('''', ok) \<longrightarrow> GetProcPwd LookPath (Some wd) (arg # args) = Some wd"
    using lk [of "''''" ok "Some wd"] name [of "''''" args] by simp
  ultimately show ?thesis using abs rel name lk by blast
qed

theorem program_directory_witness:
  "GetPwd (Some ''/home/u'') [''bin/../app''] = Some (Clean ''/home/u/.'') \<and> GetPwd None [''app''] = Some '''' \<and>
   GetPwd (Some ''/home/u'') [''/opt//x/app''] = Some ''/opt/x'' \<and>
   GetProcPwd (\<lambda>_. ('''', False)) (Some ''/home/u'') [''app''] = Some ''/home/u''"
proof -
  have wd: "IsAbs ''/home/u''" "Clean ''/home/u'' = ''/home/u''" by code_simp+
  have d: "Dir ''bin/../app'' = ''.''" "Dir ''/opt//x/app'' = ''/opt/x''" by code_simp+
  have a: "\<not> IsAbs ''bin/../app''" "\<not> IsAbs ''app''" "IsAbs ''/opt//x/app''" by (simp_all add: IsAbs_def)
  note p = program_directory [OF wd, of "''bin/../app''" None "[]" "\<lambda>_. ('''', False)" "''''" False]
    program_directory [OF wd, of "''app''" None "[]" "\<lambda>_. ('''', False)" "''''" False]
    program_directory [OF wd, of "''/opt//x/app''" "Some ''/home/u''" "[]" "\<lambda>_. ('''', False)" "''''" False]
  show ?thesis using p a d by simp
qed

end
