(* ===== verification/Mail.thy ===== *)
theory Mail
  imports Base64 "HOL-Library.AList" "HOL-Library.Sublist"
begin

text \<open>
  \<open>gnet/gemail/email.go\<close>: mails with attachments, and the text that is sent. A string is a
  list of bytes. The map of attachments is a list whose order is the order in which the
  code's loop meets them; a message that was not made by one of the constructors has a nil
  map (\<open>None\<close>). The file system, the date and the SMTP client are arguments; \<open>None\<close>
  as a result is a panic. A reader of such mails, as MIME has it, stands beside the code.
\<close>

section \<open>Messages\<close>

abbreviation nl :: char where "nl \<equiv> CHR 0x0A"

record attachment =
  Filename :: string
  Data :: "byte8 list"
  att_Inline :: bool

record message =
  From :: string
  To :: "string list"
  Cc :: "string list"
  Bcc :: "string list"
  subject :: string
  body :: string
  bodyContentType :: string
  attachments :: "(string \<times> attachment) list option"

text \<open>\<open>filepath.Split\<close>: the name after the last slash.\<close>

definition base_name :: "string \<Rightarrow> string" where
  "base_name file = rev (takeWhile (\<lambda>c. c \<noteq> CHR ''/'') (rev file))"

text \<open>\<open>ReadFile\<close> is the content of a file or an error.\<close>

definition attach :: "(string \<Rightarrow> 'e + byte8 list) \<Rightarrow> string \<Rightarrow> bool \<Rightarrow> message \<Rightarrow> ('e option \<times> message) option" where
  "attach ReadFile file inl m =
     (case ReadFile file of
        Inl err \<Rightarrow> Some (Some err, m)
      | Inr data \<Rightarrow>
          (let filename = base_name file
           in case attachments m of
                None \<Rightarrow> None
              | Some as \<Rightarrow>
                  Some (None, m\<lparr>attachments :=
                    Some (AList.update filename \<lparr>Filename = filename, Data = data, att_Inline = inl\<rparr> as)\<rparr>)))"

definition Attach :: "(string \<Rightarrow> 'e + byte8 list) \<Rightarrow> string \<Rightarrow> message \<Rightarrow> ('e option \<times> message) option" where
  "Attach ReadFile file m = attach ReadFile file False m"

definition Inline :: "(string \<Rightarrow> 'e + byte8 list) \<Rightarrow> string \<Rightarrow> message \<Rightarrow> ('e option \<times> message) option" where
  "Inline ReadFile file m = attach ReadFile file True m"

definition newMessage :: "string \<Rightarrow> string \<Rightarrow> string \<Rightarrow> message" where
  "newMessage subj bdy contentType =
     \<lparr>From = [], To = [], Cc = [], Bcc = [], subject = subj, body = bdy, bodyContentType = contentType,
      attachments = Some []\<rparr>"

definition NewMessage :: "string \<Rightarrow> string \<Rightarrow> message" where
  "NewMessage subj bdy = newMessage subj bdy ''text/plain''"

definition NewHTMLMessage :: "string \<Rightarrow> string \<Rightarrow> message" where
  "NewHTMLMessage subj bdy = newMessage subj bdy ''text/html''"

definition Tolist :: "message \<Rightarrow> string list" where
  "Tolist m = foldl (\<lambda>tolist bcc. tolist @ [bcc]) (foldl (\<lambda>tolist cc. tolist @ [cc]) (To m) (Cc m)) (Bcc m)"

section \<open>The text of a mail\<close>

text \<open>\<open>strings.Join\<close> with a comma.\<close>

fun join_comma :: "string list \<Rightarrow> string" where
  "join_comma [] = []"
| "join_comma [a] = a"
| "join_comma (a # as) = a @ '','' @ join_comma as"

definition boundary :: string where
  "boundary = ''f46d043c813270fc6b04c2d223da''"

definition att_header :: "attachment \<Rightarrow> string" where
  "att_header a =
     (if att_Inline a
      then ''Content-Type: message/rfc822'' @ [nl] @
        ''Content-Disposition: inline; filename='' @ [CHR 0x22] @ Filename a @ [CHR 0x22]
      else ''Content-Type: application/octet-stream'' @ [nl] @ ''Content-Transfer-Encoding: base64'' @ [nl] @
        ''Content-Disposition: attachment; filename='' @ [CHR 0x22] @ Filename a @ [CHR 0x22])"

definition att_text :: "attachment \<Rightarrow> string" where
  "att_text a = (if att_Inline a then map (\<lambda>b. char_of (unat b)) (Data a) else EncodeToString (Data a))"

text \<open>One turn of the loop over the attachments.\<close>

definition write_attachment :: "string \<Rightarrow> attachment \<Rightarrow> string" where
  "write_attachment buf a =
     buf @ [nl, nl] @ ''--'' @ boundary @ [nl] @ att_header a @ [nl, nl] @ att_text a @ [nl] @ ''--'' @ boundary"

definition write_header :: "string \<Rightarrow> message \<Rightarrow> string" where
  "write_header date m =
     ''From: '' @ From m @ [nl] @ ''Date: '' @ date @ [nl] @ ''To: '' @ join_comma (To m) @ [nl] @
     (if length (Cc m) > 0 then ''Cc: '' @ join_comma (Cc m) @ [nl] else []) @
     ''Subject: '' @ subject m @ [nl] @ ''MIME-Version: 1.0'' @ [nl] @
     (case attachments m of
        Some (_ # _) \<Rightarrow> ''Content-Type: multipart/mixed; boundary='' @ boundary @ [nl] @ ''--'' @ boundary @ [nl]
      | _ \<Rightarrow> []) @
     ''Content-Type: '' @ bodyContentType m @ ''; charset=utf-8''"

definition bytes :: "string \<Rightarrow> message \<Rightarrow> string" where
  "bytes date m =
     (let buf = write_header date m @ [nl, nl] @ body m @ [nl]
      in case attachments m of
           Some (a # as) \<Rightarrow> foldl write_attachment buf (map snd (a # as)) @ ''--''
         | _ \<Rightarrow> buf)"

definition Send :: "('addr \<Rightarrow> 'auth \<Rightarrow> string \<Rightarrow> string list \<Rightarrow> string \<Rightarrow> 'r) \<Rightarrow> string \<Rightarrow> 'addr \<Rightarrow> 'auth \<Rightarrow> message \<Rightarrow> 'r" where
  "Send SendMail date addr auth m = SendMail addr auth (From m) (Tolist m) (bytes date m)"

section \<open>A reader of mails\<close>

text \<open>What follows the first empty line.\<close>

fun after_blank :: "string \<Rightarrow> string" where
  "after_blank (c # d # s) = (if c = nl \<and> d = nl then s else after_blank (d # s))"
| "after_blank _ = []"

text \<open>The pieces between the occurrences of a delimiter.\<close>

function split_on :: "'a list \<Rightarrow> 'a list \<Rightarrow> 'a list list" where
  "split_on d [] = [[]]"
| "split_on d (c # s) =
     (if d \<noteq> [] \<and> prefix d (c # s) then [] # split_on d (drop (length d) (c # s))
      else case split_on d s of [] \<Rightarrow> [[c]] | p # ps \<Rightarrow> (c # p) # ps)"
  by pat_completeness auto
termination by (relation "measure (\<lambda>(d, s). length s)") auto

declare split_on.simps [simp del]

text \<open>The delimiter at the beginning of a line; what is before the first one is the preamble,
  which a reader of \<open>multipart/mixed\<close> ignores; each part has its own header.\<close>

definition delimiter :: string where
  "delimiter = nl # ''--'' @ boundary"

definition mime_pieces :: "string \<Rightarrow> string list" where
  "mime_pieces mail = split_on delimiter (nl # after_blank mail)"

section \<open>Reading what was written\<close>

lemma split_on_last: "\<not> sublist d a \<Longrightarrow> split_on d a = [a]"
proof (induction a)
  case (Cons c a)
  then have "\<not> sublist d a" "\<not> prefix d (c # a)" by (auto simp: sublist_Cons_right)
  with Cons.IH show ?case by (simp add: split_on.simps)
qed (simp add: split_on.simps)

lemma split_on_first:
  assumes "x \<notin> set d" "\<not> sublist (x # d) a"
  shows "split_on (x # d) (a @ (x # d) @ b) = a # split_on (x # d) b"
  using assms(2)
proof (induction a)
  case Nil
  then show ?case by (simp add: split_on.simps)
next
  case (Cons c a)
  then have n: "\<not> sublist (x # d) a" "\<not> prefix (x # d) (c # a)" by (auto simp: sublist_Cons_right)
  have "\<not> prefix (x # d) ((c # a) @ (x # d) @ b)"
  proof
    assume "prefix (x # d) ((c # a) @ (x # d) @ b)"
    then have "prefix (x # d) (c # a) \<or> (\<exists>u. x # d = (c # a) @ u \<and> prefix u ((x # d) @ b))"
      by (simp only: prefix_append)
    with n(2) obtain u where u: "x # d = (c # a) @ u" "prefix u ((x # d) @ b)" by blast
    show False
    proof (cases u)
      case Nil
      with u(1) n(2) show False by simp
    next
      case (Cons y us)
      with u have "y = x" by simp
      with u(1) Cons assms(1) show False by auto
    qed
  qed
  then show ?case using Cons.IH [OF n(1)] by (simp add: split_on.simps(2))
qed

lemma sublist_across:
  assumes "x \<notin> set d" "\<not> sublist (x # d) u" "\<not> sublist (x # d) (x # v)"
  shows "\<not> sublist (x # d) (u @ x # v)"
proof
  assume "sublist (x # d) (u @ x # v)"
  with assms(2,3) obtain a b where ab: "x # d = a @ b" "suffix a u" "prefix b (x # v)"
    unfolding sublist_append by blast
  moreover from this assms(2,3) have "a \<noteq> []" "b \<noteq> []"
    by (metis append_Nil prefix_imp_sublist, metis append_Nil2 suffix_imp_sublist)
  ultimately have "x \<in> set b" "set b \<subseteq> set d" by (auto simp: prefix_Cons Cons_eq_append_conv)
  with assms(1) show False by blast
qed

text \<open>No \<open>x\<close> directly before a \<open>y\<close>.\<close>

primrec apart :: "char \<Rightarrow> char \<Rightarrow> string \<Rightarrow> bool" where
  "apart x y [] \<longleftrightarrow> True"
| "apart x y (c # s) \<longleftrightarrow> \<not> (c = x \<and> s \<noteq> [] \<and> hd s = y) \<and> apart x y s"

lemma apart_append:
  "apart x y (a @ b) \<longleftrightarrow> apart x y a \<and> apart x y b \<and> \<not> (a \<noteq> [] \<and> last a = x \<and> b \<noteq> [] \<and> hd b = y)"
  by (induction a) auto

lemma apart_none: "x \<notin> set s \<Longrightarrow> apart x y s"
  by (induction s) auto

lemma apart_sublist: "apart x y s \<Longrightarrow> \<not> sublist (x # y # d) s"
proof (induction s)
  case (Cons c s)
  then show ?case by (cases s) (auto simp: sublist_Cons_right)
qed simp

lemma after_blank_append: "apart nl nl (h @ [nl]) \<Longrightarrow> after_blank (h @ [nl, nl] @ b) = b"
proof (induction h)
  case (Cons c h)
  then show ?case by (cases h) auto
qed simp

lemma encode_chars: "set (EncodeToString bs) \<subseteq> insert (CHR ''='') (set alphabet)"
proof -
  have s: "set (sextets v) \<subseteq> set alphabet" if "v < 64 * 64 * 64 * 64" for v
    using sextet_bounds [OF that] alphabet_facts(1) by (simp add: sextets_def b64_char_def)
  show ?thesis
  proof (induction bs rule: EncodeToString.induct)
    case (2 a)
    with s [OF group24_less] set_take_subset show ?case by fastforce
  next
    case (3 a b)
    with s [OF group24_less] set_take_subset show ?case by fastforce
  next
    case (4 a b c bs)
    with s [OF group24_less] show ?case by auto
  qed simp
qed

lemma encode_apart: "apart nl y (EncodeToString bs)" "CHR ''-'' \<notin> set (EncodeToString bs)"
proof -
  have "nl \<notin> insert (CHR ''='') (set alphabet)" "CHR ''-'' \<notin> insert (CHR ''='') (set alphabet)"
    by (simp_all add: alphabet_def)
  then show "apart nl y (EncodeToString bs)" "CHR ''-'' \<notin> set (EncodeToString bs)"
    using encode_chars by (auto intro!: apart_none)
qed

text \<open>The part of an attachment, and the attachments one after the other.\<close>

definition part_of :: "attachment \<Rightarrow> string" where
  "part_of a = [nl] @ att_header a @ [nl, nl] @ att_text a"

definition att_ok :: "attachment \<Rightarrow> bool" where
  "att_ok a \<longleftrightarrow> nl \<notin> set (Filename a) \<and> (att_Inline a \<longrightarrow> \<not> sublist delimiter (nl # att_text a))"

lemma no_nl: "nl \<notin> set (''--'' @ boundary)"
  by (simp add: boundary_def)

lemma part_text: "att_ok a \<Longrightarrow> after_blank (part_of a) = att_text a"
proof -
  assume "att_ok a"
  then have "apart nl nl (Filename a)" by (simp add: att_ok_def apart_none)
  then have "apart nl nl ((nl # att_header a) @ [nl])"
    by (simp add: att_header_def apart_append)
  from after_blank_append [OF this, of "att_text a"] show ?thesis by (simp add: part_of_def)
qed

lemma part_whole: "att_ok a \<Longrightarrow> \<not> sublist delimiter (part_of a)"
proof -
  assume a: "att_ok a"
  then have f: "apart nl (CHR ''-'') (Filename a)" by (simp add: att_ok_def apart_none)
  have "\<not> sublist delimiter (nl # att_text a)"
  proof (cases "att_Inline a")
    case False
    have "apart nl (CHR ''-'') (nl # att_text a)"
      using encode_apart(1) [of "CHR ''-''" "Data a"] encode_apart(2) [of "Data a"] False
      by (auto simp: att_text_def) (metis hd_in_set)
    then show ?thesis using apart_sublist by (simp add: delimiter_def)
  qed (use a in \<open>simp add: att_ok_def\<close>)
  moreover have "apart nl (CHR ''-'') (nl # att_header a @ [nl])" using f by (simp add: att_header_def apart_append)
  then have "\<not> sublist delimiter (nl # att_header a @ [nl])" using apart_sublist by (simp add: delimiter_def)
  ultimately show ?thesis
    using sublist_across [OF no_nl, where u = "nl # att_header a @ [nl]" and v = "att_text a"]
    by (simp add: part_of_def delimiter_def)
qed

lemma written:
  "foldl write_attachment buf as = buf @ concat (map (\<lambda>a. [nl] @ delimiter @ part_of a @ delimiter) as)"
  by (induction as arbitrary: buf) (simp_all add: write_attachment_def delimiter_def part_of_def)

lemma pieces_of_attachments:
  assumes "\<forall>a \<in> set as. att_ok a" "\<not> sublist delimiter (p @ [nl])"
  shows "split_on delimiter (p @ concat (map (\<lambda>a. [nl] @ delimiter @ part_of a @ delimiter) as) @ ''--'') =
    (if as = [] then split_on delimiter (p @ ''--'')
     else (p @ [nl]) # tl (concat (map (\<lambda>a. [[nl], part_of a]) as)) @ [''--''])"
  using assms
proof (induction as arbitrary: p)
  case (Cons a as)
  let ?block = "\<lambda>a. [nl] @ delimiter @ part_of a @ delimiter"
  note split = split_on_first [OF no_nl, folded delimiter_def]
  have "split_on delimiter (p @ concat (map ?block (a # as)) @ ''--'') =
      split_on delimiter ((p @ [nl]) @ delimiter @ part_of a @ delimiter @ concat (map ?block as) @ ''--'')" by simp
  also have "\<dots> = (p @ [nl]) # part_of a # split_on delimiter ([] @ concat (map ?block as) @ ''--'')"
    using split [OF Cons.prems(2)] split [OF part_whole] Cons.prems(1) by simp
  also have "split_on delimiter ([] @ concat (map ?block as) @ ''--'') = concat (map (\<lambda>a. [[nl], part_of a]) as) @ [''--'']"
  proof (cases as)
    case Nil
    have "\<not> sublist delimiter ''--''"
      using apart_sublist [of nl "CHR ''-''" "''--''"] by (simp add: delimiter_def)
    then show ?thesis using Nil by (simp add: split_on_last)
  next
    case (Cons b bs)
    have "\<not> sublist delimiter ([] @ [nl])"
      using apart_sublist [of nl "CHR ''-''" "[nl]"] by (simp add: delimiter_def)
    with Cons.IH [of "[]"] Cons.prems(1) Cons show ?thesis by simp
  qed
  finally show ?case by simp
qed simp

lemma join_comma_nl: "\<forall>s \<in> set ss. nl \<notin> set s \<Longrightarrow> nl \<notin> set (join_comma ss)"
  by (induction ss rule: join_comma.induct) auto

definition fields_ok :: "string \<Rightarrow> message \<Rightarrow> bool" where
  "fields_ok date m \<longleftrightarrow>
     (\<forall>s \<in> set (date # From m # subject m # bodyContentType m # To m @ Cc m). nl \<notin> set s)"

lemma no_break: "nl \<notin> set s \<Longrightarrow> apart nl nl s \<and> (s = [] \<or> hd s \<noteq> nl) \<and> (s = [] \<or> last s \<noteq> nl)"
  by (auto intro: apart_none dest: hd_in_set last_in_set)

lemma header_apart:
  assumes "fields_ok date m"
  shows "apart nl nl (write_header date m @ [nl])"
proof -
  have "nl \<notin> set (join_comma (To m))" "nl \<notin> set (join_comma (Cc m))"
    "nl \<notin> set date" "nl \<notin> set (From m)" "nl \<notin> set (subject m)" "nl \<notin> set (bodyContentType m)"
    using assms by (auto simp: fields_ok_def intro!: join_comma_nl)
  note this [THEN no_break]
  moreover have "apart nl nl boundary" by (simp add: boundary_def)
  ultimately show ?thesis
    by (simp add: write_header_def apart_append boundary_def split: option.split list.split)
qed

lemma after_header:
  assumes "fields_ok date m"
  shows "after_blank (bytes date m) = body m @ [nl] @
    (case attachments m of
       Some (a # as) \<Rightarrow> concat (map (\<lambda>a. [nl] @ delimiter @ part_of a @ delimiter) (map snd (a # as))) @ ''--''
     | _ \<Rightarrow> [])"
proof -
  note blank = after_blank_append [OF header_apart [OF assms]]
  show ?thesis
    by (simp only: bytes_def Let_def written append_assoc blank split: option.split list.split) (simp add: blank)
qed

section \<open>Recipients\<close>

lemma Tolist_all: "Tolist m = To m @ Cc m @ Bcc m"
proof -
  have f: "foldl (\<lambda>ts t. ts @ [t]) us ts = us @ ts" for us ts :: "string list" by (induction ts arbitrary: us) simp_all
  show ?thesis by (simp add: Tolist_def f)
qed

section \<open>The property\<close>

text \<open>
  C36. Reading a mail as MIME has it (header fields, file names without line breaks; body
  and inline files without a line that begins with the boundary). Without attachments the
  text after the header is the body. With attachments, whatever their number and order,
  every attachment is a part, and its content, or for a base64 one what it decodes to, is
  the file's data. But there is no empty line between the header and the first boundary,
  so the first boundary and the content type of the body belong to the header and the body
  is in the preamble, which is in no part; and between two attachments there is an empty
  part.
\<close>

theorem mail_read:
  assumes "fields_ok date m" "attachments m = Some as"
    and "\<forall>a \<in> set (map snd as). att_ok a" "\<not> sublist delimiter (nl # body m @ [nl, nl])"
  shows "(as = [] \<longrightarrow> after_blank (bytes date m) = body m @ [nl]) \<and>
    (as \<noteq> [] \<longrightarrow> mime_pieces (bytes date m) =
      (nl # body m @ [nl, nl]) # tl (concat (map (\<lambda>a. [[nl], part_of a]) (map snd as))) @ [''--'']) \<and>
    (\<forall>a \<in> set (map snd as). after_blank (part_of a) = att_text a \<and>
      (\<not> att_Inline a \<longrightarrow> DecodeString (after_blank (part_of a)) = Some (Data a)))"
proof (intro conjI impI ballI)
  show "after_blank (bytes date m) = body m @ [nl]" if "as = []"
    using after_header [OF assms(1)] assms(2) that by simp
  show "mime_pieces (bytes date m) =
      (nl # body m @ [nl, nl]) # tl (concat (map (\<lambda>a. [[nl], part_of a]) (map snd as))) @ [''--'']" if "as \<noteq> []"
  proof -
    have "nl # after_blank (bytes date m) =
        (nl # body m @ [nl]) @ concat (map (\<lambda>a. [nl] @ delimiter @ part_of a @ delimiter) (map snd as)) @ ''--''"
      using after_header [OF assms(1)] assms(2) that by (cases as) simp_all
    moreover have "\<not> sublist delimiter ((nl # body m @ [nl]) @ [nl])" using assms(4) by simp
    from pieces_of_attachments [OF assms(3) this] that have
      "split_on delimiter ((nl # body m @ [nl]) @
         concat (map (\<lambda>a. [nl] @ delimiter @ part_of a @ delimiter) (map snd as)) @ ''--'') =
       (nl # body m @ [nl, nl]) # tl (concat (map (\<lambda>a. [[nl], part_of a]) (map snd as))) @ [''--'']"
      by simp
    ultimately show ?thesis by (simp only: mime_pieces_def)
  qed
  fix a assume a: "a \<in> set (map snd as)"
  with assms(3) part_text show "after_blank (part_of a) = att_text a" by blast
  then show "DecodeString (after_blank (part_of a)) = Some (Data a)" if "\<not> att_Inline a"
    using that by (simp add: att_text_def)
qed

definition mail_ex :: message where
  "mail_ex = (newMessage ''hi'' ''text'' ''text/plain'')\<lparr>From := ''a'', To := [''b''],
     attachments := Some [(''f'', \<lparr>Filename = ''f'', Data = [1, 2, 3], att_Inline = False\<rparr>)]\<rparr>"

theorem mail_read_witness:
  "\<exists>p. mime_pieces (bytes ''today'' mail_ex) = [nl # ''text'' @ [nl, nl], p, ''--''] \<and>
     DecodeString (after_blank p) = Some [1, 2, 3]"
proof -
  let ?a = "\<lparr>Filename = ''f'', Data = [1, 2, 3], att_Inline = False\<rparr>"
  have m: "attachments mail_ex = Some [(''f'', ?a)]" "body mail_ex = ''text''" by (simp_all add: mail_ex_def newMessage_def)
  have "fields_ok ''today'' mail_ex" by (simp add: fields_ok_def mail_ex_def newMessage_def)
  moreover have "att_ok ?a" by (simp add: att_ok_def)
  moreover have "\<not> sublist delimiter (nl # body mail_ex @ [nl, nl])"
    using apart_sublist [of nl "CHR ''-''" "nl # body mail_ex @ [nl, nl]"] by (simp add: delimiter_def m)
  ultimately show ?thesis
    using mail_read [OF _ m(1), of "''today''"] m(2) by (simp add: att_text_def del: EncodeToString.simps)
qed

end
