(* ===== verification/MailMem.thy ===== *)
theory MailMem
  imports Mail Slices
begin

text \<open>
  \<open>gnet/gemail/email.go\<close>, \<open>Tolist\<close> with the memory it works on: it starts from the slice
  \<open>To\<close> of the message and appends to it, so the other recipients are written behind \<open>To\<close>
  as long as its array has room.
\<close>

section \<open>The operation\<close>

text \<open>
  \<open>for _, x := range src\<close> with \<open>append\<close> of each \<open>x\<close>: the slice is read once, its elements
  one by one when their turn comes.
\<close>

fun range_append :: "(nat \<Rightarrow> nat) \<Rightarrow> slice \<Rightarrow> nat \<Rightarrow> nat \<Rightarrow> slice \<Rightarrow> string arrays \<Rightarrow> slice \<times> string arrays" where
  "range_append grow src i 0 dst h = (dst, h)"
| "range_append grow src i (Suc n) dst h =
     (let (dst, h) = go_append '''' grow dst (h ! sl_arr src ! (sl_off src + i)) h
      in range_append grow src (Suc i) n dst h)"

definition Tolist_mem :: "(nat \<Rightarrow> nat) \<Rightarrow> slice \<Rightarrow> slice \<Rightarrow> slice \<Rightarrow> string arrays \<Rightarrow> slice \<times> string arrays" where
  "Tolist_mem grow to cc bcc h =
     (let tolist = to;
          (tolist, h) = range_append grow cc 0 (sl_len cc) tolist h;
          (tolist, h) = range_append grow bcc 0 (sl_len bcc) tolist h
      in (tolist, h))"

section \<open>Apart from each other\<close>

lemma clear_of_append:
  assumes "valid_slice h dst" "valid_slice h src" "clear_of dst src" "go_append zero grow dst x h = (dst', h')"
  shows "content h' src = content h src" "valid_slice h' src" "clear_of dst' src"
proof -
  note A = go_append_spec [OF assms(1,4)]
  have v: "sl_arr src < length h" "sl_arr dst < length h" "sl_off dst + sl_cap dst \<le> length (h ! sl_arr dst)"
    using assms(1,2) by (simp_all add: valid_slice_def)
  have "content h' src = content (take (length h) h') src"
    using content_later [OF v(1) refl A(4)] by simp
  also have "\<dots> = content h src"
  proof (cases "sl_len dst < sl_cap dst")
    case True
    let ?i = "sl_off dst + sl_len dst"
    have w: "(h ! sl_arr dst)[?i := x] = write_at ?i [x] (h ! sl_arr dst)"
      using True v(3) by (simp add: write_at_def upd_conv_take_nth_drop)
    have "take (sl_len src) (drop (sl_off src) (write_at ?i [x] (h ! sl_arr dst))) =
        take (sl_len src) (drop (sl_off src) (h ! sl_arr dst))" if "sl_arr src = sl_arr dst"
      using assms(3) that True v(3) by (intro window_write_at) (auto simp: clear_of_def)
    then show ?thesis using True A(5) v(2) w by (cases "sl_arr src = sl_arr dst") (simp_all add: content_def)
  next
    case False
    then show ?thesis using A(5) by simp
  qed
  finally show "content h' src = content h src" .
  have "length (h' ! sl_arr src) = length (h ! sl_arr src)"
    using A(5) v by (metis (no_types, lifting) length_list_update nth_list_update nth_take)
  then show "valid_slice h' src" using assms(2) A(4) by (simp add: valid_slice_def)
  show "clear_of dst' src" using A(6) assms(3) v(1) by (auto simp: clear_of_def split: if_splits)
qed

lemma range_append_spec:
  assumes "valid_slice h dst" "valid_slice h src" "clear_of dst src" "i + n = sl_len src"
    and "range_append grow src i n dst h = (dst', h')"
  shows "valid_slice h' dst' \<and> content h' dst' = content h dst @ drop i (content h src) \<and>
    (\<forall>s. valid_slice h s \<and> clear_of dst s \<longrightarrow> content h' s = content h s \<and> valid_slice h' s \<and> clear_of dst' s)"
  using assms
proof (induction n arbitrary: i dst h)
  case (Suc n)
  let ?x = "h ! sl_arr src ! (sl_off src + i)"
  obtain d1 h1 where a: "go_append '''' grow dst ?x h = (d1, h1)" by (cases "go_append '''' grow dst ?x h")
  with Suc.prems(5) have r: "range_append grow src (Suc i) n d1 h1 = (dst', h')" by simp
  note A = go_append_spec [OF Suc.prems(1) a] and C = clear_of_append [OF Suc.prems(1) _ _ a]
  have x: "drop i (content h src) = ?x # drop (Suc i) (content h src)"
    using Suc.prems(2,4) by (simp add: content_drop)
  note IH = Suc.IH [OF A(1) C(2) [OF Suc.prems(2,3)] C(3) [OF Suc.prems(2,3)] _ r]
  have "Suc i + n = sl_len src" using Suc.prems(4) by simp
  note IH = IH [OF this]
  have "content h' dst' = content h dst @ drop i (content h src)"
    using IH A(2) C(1) [OF Suc.prems(2,3)] x by simp
  moreover have "content h' s = content h s \<and> valid_slice h' s \<and> clear_of dst' s"
    if "valid_slice h s" "clear_of dst s" for s
    using IH C [OF that] by simp
  ultimately show ?case using IH by blast
qed simp

section \<open>Reading ahead of the writes\<close>

text \<open>
  With room in the array, and when what is read has not been written by the same loop before,
  the loop writes the elements as they were.
\<close>

lemma range_append_room:
  assumes "valid_slice h dst" "valid_slice h src" "sl_len dst + n \<le> sl_cap dst" "i + n = sl_len src"
    and "sl_arr src \<noteq> sl_arr dst \<or> sl_off src + sl_len src \<le> sl_off dst + sl_len dst \<or>
      sl_off dst + sl_len dst \<le> sl_off src + i"
  shows "range_append grow src i n dst h = (dst\<lparr>sl_len := sl_len dst + n\<rparr>,
    h[sl_arr dst := write_at (sl_off dst + sl_len dst) (drop i (content h src)) (h ! sl_arr dst)])"
  using assms
proof (induction n arbitrary: i dst h)
  case 0
  then show ?case by simp
next
  case (Suc n)
  let ?x = "h ! sl_arr src ! (sl_off src + i)" and ?p = "sl_off dst + sl_len dst"
  let ?d = "dst\<lparr>sl_len := Suc (sl_len dst)\<rparr>" and ?h = "h[sl_arr dst := (h ! sl_arr dst)[?p := ?x]]"
  have v: "sl_arr src < length h" "sl_arr dst < length h" "sl_off dst + sl_cap dst \<le> length (h ! sl_arr dst)"
    "sl_off src + sl_cap src \<le> length (h ! sl_arr src)" "sl_len src \<le> sl_cap src"
    using Suc.prems(1,2) by (simp_all add: valid_slice_def)
  have a: "go_append '''' grow dst ?x h = (?d, ?h)" using Suc.prems(3) by (simp add: go_append_def)
  have vd: "valid_slice ?h ?d" using Suc.prems(1,3) by (simp add: valid_slice_def)
  have vs: "valid_slice ?h src" using Suc.prems(2) v(2) by (auto simp: valid_slice_def nth_list_update)
  have x: "drop i (content h src) = ?x # drop (Suc i) (content h src)"
    using Suc.prems(2,4) by (simp add: content_drop)
  have c: "drop (Suc i) (content ?h src) = drop (Suc i) (content h src)"
  proof (rule nth_equalityI)
    show "length (drop (Suc i) (content ?h src)) = length (drop (Suc i) (content h src))"
      using vs Suc.prems(2) by simp
    fix k assume k: "k < length (drop (Suc i) (content ?h src))"
    then have k: "Suc i + k < sl_len src" using vs by simp
    have "sl_arr src = sl_arr dst \<Longrightarrow> ?p \<noteq> sl_off src + (Suc i + k)" using Suc.prems(5) k by auto
    then have "?h ! sl_arr src ! (sl_off src + (Suc i + k)) = h ! sl_arr src ! (sl_off src + (Suc i + k))"
      using v(2) by (simp add: nth_list_update)
    then show "drop (Suc i) (content ?h src) ! k = drop (Suc i) (content h src) ! k"
      using vs Suc.prems(2) k by (simp add: content_nth)
  qed
  have "range_append grow src i (Suc n) dst h = range_append grow src (Suc i) n ?d ?h" using a by simp
  also have "\<dots> = (?d\<lparr>sl_len := sl_len ?d + n\<rparr>,
    ?h[sl_arr ?d := write_at (sl_off ?d + sl_len ?d) (drop (Suc i) (content ?h src)) (?h ! sl_arr ?d)])"
    using Suc.prems(3-5) by (intro Suc.IH [OF vd vs]) auto
  also have "\<dots> = (dst\<lparr>sl_len := sl_len dst + Suc n\<rparr>,
    h[sl_arr dst := write_at (Suc ?p) (drop (Suc i) (content h src)) ((h ! sl_arr dst)[?p := ?x])])"
    unfolding c using v(2) by simp
  also have "write_at (Suc ?p) (drop (Suc i) (content h src)) ((h ! sl_arr dst)[?p := ?x]) =
      write_at ?p (drop i (content h src)) (h ! sl_arr dst)"
    unfolding x using Suc.prems(2-4) v(3) by (intro write_at_Cons) simp
  finally show ?case .
qed

section \<open>The property\<close>

text \<open>
  C37. The recipients of a mail and the memory of the caller. \<open>Tolist\<close> gives all recipients,
  \<open>To\<close>, then \<open>Cc\<close>, then \<open>Bcc\<close>, and changes nothing but the room behind \<open>To\<close>, when the
  other two lists do not lie there. But when the three lists are parts of one array, \<open>Bcc\<close> right
  behind \<open>To\<close> and \<open>Cc\<close> of the same length behind it, every \<open>Bcc\<close> recipient is lost and
  every \<open>Cc\<close> recipient occurs twice. And when two messages share a list \<open>To\<close> with room
  behind it, the recipients of the first become those of the second as soon as the second is
  sent, also while the first is still being sent.
\<close>

theorem mail_recipients:
  assumes "valid_slice h to" "valid_slice h cc" "valid_slice h bcc"
  shows "(clear_of to cc \<and> clear_of to bcc \<longrightarrow>
      (\<exists>r h'. Tolist_mem grow to cc bcc h = (r, h') \<and>
        content h' r = Tolist (m\<lparr>To := content h to, Cc := content h cc, Bcc := content h bcc\<rparr>) \<and>
        (\<forall>s. valid_slice h s \<and> clear_of to s \<longrightarrow> content h' s = content h s))) \<and>
    (sl_arr cc = sl_arr to \<and> sl_arr bcc = sl_arr to \<and> sl_off bcc = sl_off to + sl_len to \<and>
      sl_off cc = sl_off bcc + sl_len bcc \<and> sl_len cc = sl_len bcc \<and> sl_len to + 2 * sl_len cc \<le> sl_cap to \<longrightarrow>
      (\<exists>r h'. Tolist_mem grow to cc bcc h = (r, h') \<and>
        content h' r = content h to @ content h cc @ content h cc)) \<and>
    (valid_slice h cc2 \<and> clear_of to cc \<and> clear_of to cc2 \<and> sl_len bcc = 0 \<and> sl_len cc2 = sl_len cc \<and>
      sl_len to + sl_len cc \<le> sl_cap to \<longrightarrow>
      (\<exists>r h1 r2 h2. Tolist_mem grow to cc bcc h = (r, h1) \<and> content h1 r = content h to @ content h cc \<and>
        Tolist_mem grow to cc2 bcc h1 = (r2, h2) \<and> content h2 r = content h to @ content h cc2))"
proof (intro conjI impI)
  assume a: "clear_of to cc \<and> clear_of to bcc"
  obtain r1 h1 where 1: "range_append grow cc 0 (sl_len cc) to h = (r1, h1)" by fastforce
  obtain r h' where 2: "range_append grow bcc 0 (sl_len bcc) r1 h1 = (r, h')" by fastforce
  from range_append_spec [OF assms(1,2) _ _ 1] a have
    s1: "valid_slice h1 r1" "content h1 r1 = content h to @ content h cc"
      "\<And>s. valid_slice h s \<Longrightarrow> clear_of to s \<Longrightarrow> content h1 s = content h s \<and> valid_slice h1 s \<and> clear_of r1 s"
    by simp_all
  from range_append_spec [OF s1(1) _ _ _ 2] s1(3) [OF assms(3)] a have
    s2: "content h' r = content h1 r1 @ content h bcc"
      "\<And>s. valid_slice h1 s \<Longrightarrow> clear_of r1 s \<Longrightarrow> content h' s = content h1 s" by simp_all
  have "content h' r = Tolist (m\<lparr>To := content h to, Cc := content h cc, Bcc := content h bcc\<rparr>)"
    by (simp add: Tolist_all s1(2) s2(1))
  moreover have "\<forall>s. valid_slice h s \<and> clear_of to s \<longrightarrow> content h' s = content h s"
    using s1(3) s2(2) by metis
  ultimately show "\<exists>r h'. Tolist_mem grow to cc bcc h = (r, h') \<and>
      content h' r = Tolist (m\<lparr>To := content h to, Cc := content h cc, Bcc := content h bcc\<rparr>) \<and>
      (\<forall>s. valid_slice h s \<and> clear_of to s \<longrightarrow> content h' s = content h s)"
    by (simp add: Tolist_mem_def 1 2)
next
  assume a: "sl_arr cc = sl_arr to \<and> sl_arr bcc = sl_arr to \<and> sl_off bcc = sl_off to + sl_len to \<and>
      sl_off cc = sl_off bcc + sl_len bcc \<and> sl_len cc = sl_len bcc \<and> sl_len to + 2 * sl_len cc \<le> sl_cap to"
  let ?n = "sl_len cc" and ?p = "sl_off to + sl_len to" and ?a = "h ! sl_arr to"
  let ?to = "to\<lparr>sl_len := sl_len to + ?n\<rparr>" and ?h = "h[sl_arr to := write_at ?p (content h cc) ?a]"
  have v: "sl_arr to < length h" "sl_off to + sl_cap to \<le> length ?a" using assms(1) by (simp_all add: valid_slice_def)
  have l: "?p + length (content h cc) \<le> length ?a" using assms(2) a v(2) by simp
  have 1: "range_append grow cc 0 ?n to h = (?to, ?h)"
    using range_append_room [OF assms(1,2), of ?n 0] a by simp
  note w = write_behind [OF assms(1), of "content h cc"]
  have v1: "valid_slice ?h ?to" "valid_slice ?h bcc" "content ?h ?to = content h to @ content h cc"
    using w assms a by simp_all
  have "length (content h cc) = sl_len bcc" "sl_off bcc = ?p" "sl_arr bcc = sl_arr to" using a assms(2) by simp_all
  then have b: "content ?h bcc = content h cc"
    using v(1) l by (simp add: content_def [of _ bcc] write_at_def)
  have 2: "range_append grow bcc 0 (sl_len bcc) ?to ?h =
      (?to\<lparr>sl_len := sl_len ?to + sl_len bcc\<rparr>, ?h[sl_arr ?to := write_at (sl_off ?to + sl_len ?to) (content h cc) (?h ! sl_arr ?to)])"
    using range_append_room [OF v1(1,2), of "sl_len bcc" 0 grow] a b by simp
  have "sl_len ?to + length (content h cc) \<le> sl_cap ?to" "length (content h cc) = sl_len bcc" using a assms(2) by simp_all
  from write_behind(1) [OF v1(1) this(1)] this(2) v1(3)
  have "content (snd (range_append grow bcc 0 (sl_len bcc) ?to ?h)) (fst (range_append grow bcc 0 (sl_len bcc) ?to ?h)) =
      content h to @ content h cc @ content h cc" unfolding 2 by simp
  then show "\<exists>r h'. Tolist_mem grow to cc bcc h = (r, h') \<and> content h' r = content h to @ content h cc @ content h cc"
    by (simp add: Tolist_mem_def 1 2)
next
  assume a: "valid_slice h cc2 \<and> clear_of to cc \<and> clear_of to cc2 \<and> sl_len bcc = 0 \<and> sl_len cc2 = sl_len cc \<and>
      sl_len to + sl_len cc \<le> sl_cap to"
  let ?to = "to\<lparr>sl_len := sl_len to + sl_len cc\<rparr>" and ?w = "\<lambda>h ws. h[sl_arr to := write_at (sl_off to + sl_len to) ws (h ! sl_arr to)]"
  let ?h1 = "?w h (content h cc)" and ?h2 = "?w (?w h (content h cc)) (content h cc2)"
  have ahead: "sl_arr s \<noteq> sl_arr to \<or> sl_off s + sl_len s \<le> sl_off to + sl_len to \<or> sl_off to + sl_len to \<le> sl_off s + 0"
    if "clear_of to s" for s
    using that assms(1) by (auto simp: clear_of_def valid_slice_def)
  have 1: "range_append grow cc 0 (sl_len cc) to h = (?to, ?h1)"
    using range_append_room [OF assms(1,2), of "sl_len cc" 0 grow] a ahead [of cc] by simp
  note w = write_behind [OF assms(1), of "content h cc"]
  have s: "content ?h1 s = content h s" if "valid_slice h s" "clear_of to s" for s
    using range_append_spec [OF assms(1,2) _ _ 1] that a by simp
  have v: "valid_slice ?h1 to" "valid_slice ?h1 cc2" "content ?h1 to = content h to"
    "content ?h1 ?to = content h to @ content h cc" "content ?h1 cc2 = content h cc2"
    using w(1,3,4) a assms(1,2) s by simp_all
  have 2: "range_append grow cc2 0 (sl_len cc2) to ?h1 = (?to, ?h2)"
    using range_append_room [OF v(1,2), of "sl_len cc2" 0 grow] a ahead [of cc2] v(5) by simp
  have "content ?h2 ?to = content h to @ content h cc2"
    using write_behind(1) [OF v(1), of "content h cc2"] a v(3) by simp
  moreover have "Tolist_mem grow to cc bcc h = (?to, ?h1)" "Tolist_mem grow to cc2 bcc ?h1 = (?to, ?h2)"
    using a unfolding Tolist_mem_def Let_def 1 2 by simp_all
  ultimately show "\<exists>r h1 r2 h2. Tolist_mem grow to cc bcc h = (r, h1) \<and> content h1 r = content h to @ content h cc \<and>
        Tolist_mem grow to cc2 bcc h1 = (r2, h2) \<and> content h2 r = content h to @ content h cc2"
    using v(4) by blast
qed

text \<open>One array with three addresses, a list each.\<close>

theorem mail_recipients_witness:
  "\<exists>r h'. Tolist_mem (\<lambda>n. 2 * n) \<lparr>sl_arr = 0, sl_off = 0, sl_len = 1, sl_cap = 3\<rparr> \<lparr>sl_arr = 0, sl_off = 2, sl_len = 1, sl_cap = 1\<rparr>
      \<lparr>sl_arr = 0, sl_off = 1, sl_len = 1, sl_cap = 2\<rparr> [[''to'', ''bcc'', ''cc'']] = (r, h') \<and> content h' r = [''to'', ''cc'', ''cc'']"
proof -
  let ?h = "[[''to'', ''bcc'', ''cc'']]" and ?to = "\<lparr>sl_arr = 0, sl_off = 0, sl_len = 1, sl_cap = 3\<rparr>"
    and ?cc = "\<lparr>sl_arr = 0, sl_off = 2, sl_len = 1, sl_cap = 1\<rparr>" and ?bcc = "\<lparr>sl_arr = 0, sl_off = 1, sl_len = 1, sl_cap = 2\<rparr>"
  have v: "valid_slice ?h ?to" "valid_slice ?h ?cc" "valid_slice ?h ?bcc" by (simp_all add: valid_slice_def)
  have "content ?h ?to @ content ?h ?cc @ content ?h ?cc = [''to'', ''cc'', ''cc'']" by (simp add: content_def)
  with mail_recipients [OF v, THEN conjunct2, THEN conjunct1, of "\<lambda>n. 2 * n"] show ?thesis by simp
qed

end
