(* ===== verification/Patterns.thy ===== *)
theory Patterns
  imports Prelude
begin

text \<open>
  \<open>gstr/strings.go\<close>: the tests by regular expressions. A text is the list of its code
  points, as \<open>regexp\<close> reads it (a byte that is not UTF-8 counts as U+FFFD). The
  expressions are the file's, matched by derivatives; an expression without anchors matches
  when any part of the text does.
\<close>

section \<open>Regular expressions\<close>

type_synonym text_points = "nat list"

datatype regex = One | Class "(nat \<times> nat) list" | Alt regex regex | Seq regex regex | Star regex | Never

definition in_class :: "(nat \<times> nat) list \<Rightarrow> nat \<Rightarrow> bool" where
  "in_class cs c \<longleftrightarrow> (\<exists>(lo, hi) \<in> set cs. lo \<le> c \<and> c \<le> hi)"

fun nullable :: "regex \<Rightarrow> bool" where
  "nullable Never = False"
| "nullable One = True"
| "nullable (Class cs) = False"
| "nullable (Alt r s) = (nullable r \<or> nullable s)"
| "nullable (Seq r s) = (nullable r \<and> nullable s)"
| "nullable (Star r) = True"

fun deriv :: "nat \<Rightarrow> regex \<Rightarrow> regex" where
  "deriv c Never = Never"
| "deriv c One = Never"
| "deriv c (Class cs) = (if in_class cs c then One else Never)"
| "deriv c (Alt r s) = Alt (deriv c r) (deriv c s)"
| "deriv c (Seq r s) = (if nullable r then Alt (Seq (deriv c r) s) (deriv c s) else Seq (deriv c r) s)"
| "deriv c (Star r) = Seq (deriv c r) (Star r)"

definition matches :: "regex \<Rightarrow> text_points \<Rightarrow> bool" where
  "matches r s = nullable (foldl (\<lambda>r c. deriv c r) r s)"

definition any_char :: regex where
  "any_char = Class [(0, 1114111)]"

definition opt :: "regex \<Rightarrow> regex" where
  "opt r = Alt One r"

definition some_of :: "regex \<Rightarrow> regex" where
  "some_of r = Seq r (Star r)"

definition lit :: "string \<Rightarrow> regex" where
  "lit s = foldr (\<lambda>c r. Seq (Class [(of_char c, of_char c)]) r) s One"

text \<open>\<open>MatchString\<close> of an expression without anchors.\<close>

definition find_in :: "regex \<Rightarrow> text_points \<Rightarrow> bool" where
  "find_in r s = matches (Seq (Star any_char) (Seq r (Star any_char))) s"

section \<open>The expressions\<close>

definition digits :: "(nat \<times> nat) list" where "digits = [(48, 57)]"
definition letters :: "(nat \<times> nat) list" where "letters = [(97, 122), (65, 90)]"
definition han :: "(nat \<times> nat) list" where "han = [(19968, 40869)]"

text \<open>\<open>[A-Z]\<close> without regard to case: also the long s and the Kelvin sign.\<close>

definition letters_ci :: "(nat \<times> nat) list" where
  "letters_ci = letters @ [(383, 383), (8490, 8490)]"

definition points :: "string \<Rightarrow> (nat \<times> nat) list" where
  "points s = map (\<lambda>c. (of_char c, of_char c)) s"

definition digitRegexp :: regex where
  "digitRegexp = some_of (Class digits)"

definition chLetterNumUnlineRegexp :: regex where
  "chLetterNumUnlineRegexp = some_of (Class (han @ points ''_'' @ letters @ digits))"

definition letterNumUnlineRegexp :: regex where
  "letterNumUnlineRegexp = some_of (Class (letters @ digits @ points ''_''))"

definition chineseRegexp :: regex where
  "chineseRegexp = some_of (Class han)"

definition emailRegexp :: regex where
  "emailRegexp =
     (let letter = Class letters_ci
      in Seq (some_of (Class (letters_ci @ digits @ points ''._%+-'')))
        (Seq (lit ''@'')
          (Seq (some_of (Seq (some_of (Class (letters_ci @ digits @ points ''-''))) (lit ''.'')))
            (Seq letter (Seq letter (Seq (opt letter) (Seq (opt letter) (Seq (opt letter) (opt letter)))))))))"

definition strictEmailRegexp :: regex where
  "strictEmailRegexp =
     (let atom = some_of (Class (letters_ci @ digits @ points (''!#$%&'' @ [CHR 0x27] @ ''*+/=?^_{|}~-'')));
          edge = Class (letters_ci @ digits);
          label = Seq edge (opt (Seq (Star (Class (letters_ci @ digits @ points ''-''))) edge))
      in Seq (Seq atom (Star (Seq (lit ''.'') atom)))
        (Seq (lit ''@'') (Seq (some_of (Seq label (lit ''.''))) label)))"

text \<open>\<open>\w\<close> and \<open>\S\<close>.\<close>

definition word_chars :: "(nat \<times> nat) list" where
  "word_chars = digits @ letters @ points ''_''"

definition no_space :: "(nat \<times> nat) list" where
  "no_space = [(0, 8), (11, 11), (14, 31), (33, 1114111)]"

definition urlRegexp :: regex where
  "urlRegexp =
     Seq (Alt (lit ''ftp'') (Alt (lit ''http'') (lit ''https'')))
      (Seq (lit ''://'')
       (Seq (opt (Seq (some_of (Class word_chars)) (Seq (opt (lit '':'')) (Seq (Star (Class word_chars)) (lit ''@'')))))
        (Seq (some_of (Class no_space))
         (Seq (opt (Seq (lit '':'') (some_of (Class digits))))
          (opt (Alt (lit ''/'') (Seq (lit ''/'') (Class (word_chars @ points ''#!:.?+=&%@!-/'')))))))))"

section \<open>The functions\<close>

definition IsDigit :: "text_points \<Rightarrow> bool" where
  "IsDigit str = matches digitRegexp str"

definition IsChineseLetterNumUnline :: "text_points \<Rightarrow> bool" where
  "IsChineseLetterNumUnline str = matches chLetterNumUnlineRegexp str"

definition IsLetterNumUnline :: "text_points \<Rightarrow> bool" where
  "IsLetterNumUnline str = matches letterNumUnlineRegexp str"

definition IsChinese :: "text_points \<Rightarrow> bool" where
  "IsChinese str = matches chineseRegexp str"

definition IsEmail :: "text_points \<Rightarrow> bool" where
  "IsEmail str = find_in emailRegexp str"

definition IsEmailRFC :: "text_points \<Rightarrow> bool" where
  "IsEmailRFC str = find_in strictEmailRegexp str"

definition IsURL :: "text_points \<Rightarrow> bool" where
  "IsURL str = find_in urlRegexp str"

definition IfEmpty :: "text_points \<Rightarrow> text_points \<Rightarrow> text_points" where
  "IfEmpty a b = (if a = [] then b else a)"

section \<open>The language of an expression\<close>

inductive lang :: "regex \<Rightarrow> text_points \<Rightarrow> bool" where
  One: "lang One []"
| Class: "in_class cs c \<Longrightarrow> lang (Class cs) [c]"
| AltL: "lang r s \<Longrightarrow> lang (Alt r q) s"
| AltR: "lang q s \<Longrightarrow> lang (Alt r q) s"
| Seq: "lang r s \<Longrightarrow> lang q t \<Longrightarrow> lang (Seq r q) (s @ t)"
| Nil: "lang (Star r) []"
| Cons: "lang r (c # s) \<Longrightarrow> lang (Star r) t \<Longrightarrow> lang (Star r) (c # s @ t)"

inductive_simps lang_simps [simp]:
  "lang Never s" "lang One s" "lang (Class cs) s" "lang (Alt r q) s"

inductive_simps lang_Seq: "lang (Seq r q) s"
inductive_simps lang_Star_Cons: "lang (Star r) (c # s)"

lemma lang_Star_Nil [simp]: "lang (Star r) []"
  by (rule lang.Nil)

lemma nullable_iff: "nullable r \<longleftrightarrow> lang r []"
  by (induction r) (auto simp: lang_Seq)

lemma lang_deriv: "lang (deriv c r) s \<longleftrightarrow> lang r (c # s)"
proof (induction r arbitrary: s)
  case (Seq r q)
  have "lang (Seq r q) (c # s) \<longleftrightarrow> lang r [] \<and> lang q (c # s) \<or> (\<exists>u v. s = u @ v \<and> lang r (c # u) \<and> lang q v)"
    unfolding lang_Seq by (auto simp: Cons_eq_append_conv)
  then show ?case by (auto simp: Seq.IH lang_Seq nullable_iff)
qed (auto simp: lang_Seq lang_Star_Cons)

lemma matches_lang: "matches r s \<longleftrightarrow> lang r s"
proof -
  have "nullable (foldl (\<lambda>r c. deriv c r) r s) \<longleftrightarrow> lang r s"
    by (induction s arbitrary: r) (simp_all add: nullable_iff lang_deriv)
  then show ?thesis by (simp add: matches_def)
qed

lemma lang_Star_Class: "lang (Star (Class cs)) s \<longleftrightarrow> (\<forall>c \<in> set s. in_class cs c)"
  by (induction s) (simp_all add: lang_Star_Cons)

lemma lang_some_Class: "lang (some_of (Class cs)) s \<longleftrightarrow> s \<noteq> [] \<and> (\<forall>c \<in> set s. in_class cs c)"
proof
  assume "s \<noteq> [] \<and> (\<forall>c \<in> set s. in_class cs c)"
  then have "s = [hd s] @ tl s" "in_class cs (hd s)" "\<forall>c \<in> set (tl s). in_class cs c"
    by (auto dest: list.set_sel(2))
  then show "lang (some_of (Class cs)) s"
    unfolding some_of_def by (metis lang.Class lang.Seq lang_Star_Class)
qed (auto simp: some_of_def lang_Seq lang_Star_Class)

lemma lang_lit: "lang (lit w) s \<longleftrightarrow> s = map of_char w"
proof (induction w arbitrary: s)
  case (Cons c w)
  have "lit (c # w) = Seq (Class [(of_char c, of_char c)]) (lit w)" by (simp add: lit_def)
  then show ?case by (auto simp: lang_Seq Cons.IH in_class_def)
qed (simp add: lit_def)

definition valid :: "text_points \<Rightarrow> bool" where
  "valid s \<longleftrightarrow> (\<forall>c \<in> set s. c \<le> 1114111)"

lemma valid_append: "valid (a @ b) \<longleftrightarrow> valid a \<and> valid b"
  by (auto simp: valid_def)

lemma find_in_lang: "valid s \<Longrightarrow> find_in r s \<longleftrightarrow> (\<exists>a b c. s = a @ b @ c \<and> lang r b)"
proof -
  assume v: "valid s"
  have "lang (Star any_char) a \<longleftrightarrow> valid a" for a
    by (simp add: any_char_def lang_Star_Class in_class_def valid_def)
  then have "find_in r s \<longleftrightarrow> (\<exists>a b c. s = a @ b @ c \<and> valid a \<and> lang r b \<and> valid c)"
    unfolding find_in_def matches_lang lang_Seq by blast
  also have "\<dots> \<longleftrightarrow> (\<exists>a b c. s = a @ b @ c \<and> lang r b)" using v by (metis valid_append)
  finally show ?thesis .
qed

lemma lang_opt: "lang (opt r) s \<longleftrightarrow> s = [] \<or> lang r s"
  by (simp add: opt_def)

section \<open>What the tests accept\<close>

definition scheme :: "text_points \<Rightarrow> bool" where
  "scheme w \<longleftrightarrow> w \<in> map of_char ` {''ftp'', ''http'', ''https''}"

lemma url_lang:
  assumes "lang urlRegexp s"
  shows "\<exists>w c t. s = w @ map of_char ''://'' @ c # t \<and> scheme w \<and> in_class no_space c"
proof -
  let ?user = "Seq (some_of (Class word_chars)) (Seq (opt (lit '':'')) (Seq (Star (Class word_chars)) (lit ''@'')))"
  from assms obtain w p u v t where l: "s = w @ p @ u @ v @ t"
    "lang (Alt (lit ''ftp'') (Alt (lit ''http'') (lit ''https''))) w" "lang (lit ''://'') p"
    "lang (opt ?user) u" "lang (some_of (Class no_space)) v"
    unfolding urlRegexp_def by (simp only: lang_Seq) blast
  then have s: "s = w @ map of_char ''://'' @ u @ v @ t" "scheme w" "u = [] \<or> lang ?user u"
      "lang (some_of (Class no_space)) v"
    by (auto simp only: lang_lit lang_opt lang_simps scheme_def image_insert)
  from s(4) obtain c v' where v: "v = c # v'" "in_class no_space c" by (cases v) (auto simp: lang_some_Class)
  show ?thesis
  proof (cases u)
    case Nil
    with s(1,2) v show ?thesis by auto
  next
    case (Cons d u')
    with s(3) obtain x y where "d # u' = x @ y" "lang (some_of (Class word_chars)) x" by (auto simp only: lang_Seq)
    then have "in_class word_chars d" by (auto simp: lang_some_Class Cons_eq_append_conv)
    then have "in_class no_space d"
      by (auto simp: in_class_def word_chars_def no_space_def digits_def letters_def points_def)
    with s(1,2) Cons show ?thesis by auto
  qed
qed

lemma url_shortest:
  assumes "scheme w" "in_class no_space c"
  shows "lang urlRegexp (w @ map of_char ''://'' @ [c])"
proof -
  have "lang (some_of (Class no_space)) [c]" using assms(2) by (simp add: lang_some_Class)
  moreover have "lang (Alt (lit ''ftp'') (Alt (lit ''http'') (lit ''https''))) w"
    using assms(1) by (auto simp: scheme_def lang_lit)
  moreover have "lang (opt r) []" for r by (simp add: lang_opt)
  moreover have "lang (lit ''://'') (map of_char ''://'')" by (simp only: lang_lit)
  ultimately have "lang urlRegexp (w @ map of_char ''://'' @ [] @ [c] @ [] @ [])"
    unfolding urlRegexp_def by (intro lang.Seq)
  then show ?thesis by simp
qed

text \<open>
  An expression matches somewhere when a shortest text of its language does: the shortest form of
  an address has one character before the at sign and the fewest after the last dot.
\<close>

lemma lang_Star_iff: "lang (Star r) s \<longleftrightarrow> (\<exists>ts. s = concat ts \<and> (\<forall>t \<in> set ts. t \<noteq> [] \<and> lang r t))"
proof
  assume "lang (Star r) s"
  then show "\<exists>ts. s = concat ts \<and> (\<forall>t \<in> set ts. t \<noteq> [] \<and> lang r t)"
  proof (induction "Star r" s rule: lang.induct)
    case Nil
    show ?case by (rule exI [of _ "[]"]) simp
  next
    case (Cons c s t)
    then obtain ts where "t = concat ts" "\<forall>t \<in> set ts. t \<noteq> [] \<and> lang r t" by blast
    with Cons.hyps(1) show ?case by (intro exI [of _ "(c # s) # ts"]) simp
  qed
next
  assume "\<exists>ts. s = concat ts \<and> (\<forall>t \<in> set ts. t \<noteq> [] \<and> lang r t)"
  then obtain ts where "s = concat ts" "\<forall>t \<in> set ts. t \<noteq> [] \<and> lang r t" by blast
  then show "lang (Star r) s"
  proof (induction ts arbitrary: s)
    case (Cons t ts)
    then have t: "lang r t" "t \<noteq> []" "lang (Star r) (concat ts)" by auto
    with Cons.prems(1) show ?case by (cases t) (auto dest: lang.Cons)
  qed simp
qed

text \<open>Labels, each followed by a dot.\<close>

definition dotted :: "text_points list \<Rightarrow> text_points" where
  "dotted labels = concat (map (\<lambda>l. l @ [46]) labels)"

lemma lang_dotted:
  "lang (some_of (Seq r (lit ''.''))) s \<longleftrightarrow> (\<exists>labels. labels \<noteq> [] \<and> (\<forall>l \<in> set labels. lang r l) \<and> s = dotted labels)"
  (is "?L \<longleftrightarrow> ?R")
proof
  have one: "lang (Seq r (lit ''.'')) t \<longleftrightarrow> (\<exists>l. lang r l \<and> t = l @ [46])" for t
    by (auto simp: lang_Seq lang_lit)
  assume ?L
  then obtain t ts where t: "s = t @ concat ts" "lang (Seq r (lit ''.'')) t" "\<forall>t \<in> set ts. lang (Seq r (lit ''.'')) t"
    unfolding some_of_def lang_Seq [of "Seq r (lit ''.'')"] lang_Star_iff by blast
  have "\<exists>ls. (\<forall>l \<in> set ls. lang r l) \<and> concat ts = dotted ls"
    using t(3)
  proof (induction ts)
    case (Cons u us)
    then obtain ls l where "\<forall>l \<in> set ls. lang r l" "concat us = dotted ls" "lang r l" "u = l @ [46]"
      by (auto simp: one)
    then show ?case by (intro exI [of _ "l # ls"]) (simp add: dotted_def)
  qed (auto simp: dotted_def intro: exI [of _ "[]"])
  moreover from t(2) obtain l where "lang r l" "t = l @ [46]" by (auto simp: one)
  ultimately obtain ls where "\<forall>l \<in> set (l # ls). lang r l" "s = dotted (l # ls)"
    using t(1) by (auto simp: dotted_def)
  then show ?R by blast
next
  assume ?R
  then obtain l ls where l: "\<forall>l \<in> set (l # ls). lang r l" "s = dotted (l # ls)" by (metis neq_Nil_conv)
  have each: "lang (Seq r (lit ''.'')) (l @ [46])" if "lang r l" for l
    using that lang_lit [of "''.''" "[46]"] by (intro lang.Seq) simp_all
  have "lang (Star (Seq r (lit ''.''))) (dotted ls)"
    unfolding lang_Star_iff by (intro exI [of _ "map (\<lambda>l. l @ [46]) ls"]) (use l(1) each in \<open>simp add: dotted_def\<close>)
  then have "lang (some_of (Seq r (lit ''.''))) ((l @ [46]) @ dotted ls)"
    unfolding some_of_def using l(1) by (intro lang.Seq each) simp_all
  then show ?L using l(2) by (simp add: dotted_def)
qed

lemma in_class_append: "in_class (xs @ ys) c \<longleftrightarrow> in_class xs c \<or> in_class ys c"
  by (auto simp: in_class_def)

lemma in_class_points: "in_class (points s) c \<longleftrightarrow> c \<in> of_char ` set s"
  by (auto simp: in_class_def points_def)

text \<open>
  The characters of an address: letters without regard to case, digits, and a few others; labels
  of letters, digits and hyphens, of which the strict ones neither begin nor end with a hyphen.
\<close>

definition letter :: "nat \<Rightarrow> bool" where
  "letter c \<longleftrightarrow> 97 \<le> c \<and> c \<le> 122 \<or> 65 \<le> c \<and> c \<le> 90 \<or> c = 383 \<or> c = 8490"

definition digit :: "nat \<Rightarrow> bool" where
  "digit c \<longleftrightarrow> 48 \<le> c \<and> c \<le> 57"

definition mail_char :: "nat \<Rightarrow> bool" where
  "mail_char c \<longleftrightarrow> letter c \<or> digit c \<or> c \<in> of_char ` set ''._%+-''"

definition atom_char :: "nat \<Rightarrow> bool" where
  "atom_char c \<longleftrightarrow> letter c \<or> digit c \<or> c = 39 \<or> c \<in> of_char ` set ''!#$%&*+/=?^_{|}~-''"

definition label :: "text_points \<Rightarrow> bool" where
  "label l \<longleftrightarrow> l \<noteq> [] \<and> (\<forall>c \<in> set l. letter c \<or> digit c \<or> c = 45)"

definition strict_label :: "text_points \<Rightarrow> bool" where
  "strict_label l \<longleftrightarrow> label l \<and> hd l \<noteq> 45 \<and> last l \<noteq> 45"

lemma letters_ci_class: "in_class letters_ci c = letter c"
  by (auto simp: in_class_def letters_ci_def letters_def letter_def)

lemma digits_class: "in_class digits c = digit c"
  by (auto simp: in_class_def digits_def digit_def)

lemmas classes = in_class_append in_class_points letters_ci_class digits_class

definition address_in :: "(nat \<Rightarrow> bool) \<Rightarrow> (text_points \<Rightarrow> bool) \<Rightarrow> (text_points \<Rightarrow> bool) \<Rightarrow> text_points \<Rightarrow> bool" where
  "address_in ch lab final s \<longleftrightarrow>
     (\<exists>a c labels t b. s = a @ c # 64 # dotted labels @ t @ b \<and> ch c \<and>
       labels \<noteq> [] \<and> (\<forall>l \<in> set labels. lab l) \<and> final t)"

lemma lang_snoc_char:
  "lang (some_of (Class cs)) s \<Longrightarrow> \<exists>a c. s = a @ [c] \<and> in_class cs c"
  unfolding lang_some_Class by (metis append_butlast_last_id last_in_set)

lemma email_found:
  assumes "valid s"
  shows "find_in emailRegexp s \<longleftrightarrow> address_in mail_char label (\<lambda>t. \<exists>x y. t = [x, y] \<and> letter x \<and> letter y) s"
    (is "_ \<longleftrightarrow> ?R")
proof -
  let ?l = "Class letters_ci" and ?loc = "Class (letters_ci @ digits @ points ''._%+-'')"
    and ?lab = "some_of (Class (letters_ci @ digits @ points ''-''))"
  have loc: "in_class (letters_ci @ digits @ points ''._%+-'') c = mail_char c" for c
    by (simp add: classes mail_char_def)
  have lab: "lang ?lab l = label l" for l by (simp add: lang_some_Class classes label_def)
  show ?thesis
    unfolding find_in_lang [OF assms]
  proof
    assume "\<exists>a b c. s = a @ b @ c \<and> lang emailRegexp b"
    then obtain a b c where s: "s = a @ b @ c" "lang emailRegexp b" by blast
    from s(2) obtain u at d x y t where l: "b = u @ at @ d @ x @ y @ t" "lang (lit ''@'') at" "lang (some_of ?loc) u"
      "lang (some_of (Seq ?lab (lit ''.''))) d" "lang ?l x" "lang ?l y"
      unfolding emailRegexp_def Let_def
      by (simp only: lang_Seq [of "some_of _"] lang_Seq [of "lit _"] lang_Seq [of ?l]) blast
    then have at: "at = [64]" by (simp add: lang_lit)
    from lang_snoc_char [OF l(3)] obtain u' e where "u = u' @ [e]" "mail_char e" by (auto simp: loc)
    moreover from l(5,6) obtain x' y' where "x = [x']" "y = [y']" "letter x'" "letter y'" by (auto simp: letters_ci_class)
    moreover from l(4) obtain labels where "labels \<noteq> []" "\<forall>l \<in> set labels. label l" "d = dotted labels"
      by (auto simp: lang_dotted lab)
    ultimately have "s = (a @ u') @ e # 64 # dotted labels @ [x', y'] @ (t @ c) \<and> mail_char e \<and> labels \<noteq> [] \<and>
        (\<forall>l \<in> set labels. label l) \<and> letter x' \<and> letter y'" using l(1) s(1) at by simp
    then show ?R unfolding address_in_def by blast
  next
    assume ?R
    then obtain a c labels x y b where r: "s = a @ c # 64 # dotted labels @ [x, y] @ b" "mail_char c" "labels \<noteq> []"
      "\<forall>l \<in> set labels. label l" "letter x" "letter y" unfolding address_in_def by blast
    have "lang (some_of ?loc) [c]" using r(2) by (simp add: lang_some_Class loc)
    moreover have "lang (lit ''@'') [64]" by (simp add: lang_lit)
    moreover have "lang (some_of (Seq ?lab (lit ''.''))) (dotted labels)" using r(3,4) by (auto simp: lang_dotted lab)
    moreover have "lang ?l [x]" "lang ?l [y]" using r(5,6) by (simp_all add: letters_ci_class)
    moreover have "lang (opt r) []" for r by (simp add: lang_opt)
    ultimately have "lang emailRegexp ([c] @ [64] @ dotted labels @ [x] @ [y] @ [] @ [] @ [] @ [])"
      unfolding emailRegexp_def Let_def by (intro lang.Seq)
    moreover have "s = a @ ([c] @ [64] @ dotted labels @ [x] @ [y] @ [] @ [] @ [] @ []) @ b" using r(1) by simp
    ultimately show "\<exists>a b c. s = a @ b @ c \<and> lang emailRegexp b" by blast
  qed
qed

lemma lang_strict_label:
  "lang (Seq (Class (letters_ci @ digits)) (opt (Seq (Star (Class (letters_ci @ digits @ points ''-''))) (Class (letters_ci @ digits))))) l
    \<longleftrightarrow> strict_label l"
  (is "lang (Seq ?e (opt (Seq (Star ?m) ?e))) l \<longleftrightarrow> _")
proof -
  have e: "lang ?e t \<longleftrightarrow> (\<exists>c. t = [c] \<and> (letter c \<or> digit c))" for t by (auto simp: classes)
  have m: "lang (Star ?m) t \<longleftrightarrow> (\<forall>c \<in> set t. letter c \<or> digit c \<or> c = 45)" for t
    by (simp add: lang_Star_Class classes)
  have "\<not> letter 45" "\<not> digit 45" by (simp_all add: letter_def digit_def)
  then have ld: "letter c \<or> digit c \<longleftrightarrow> (letter c \<or> digit c \<or> c = 45) \<and> c \<noteq> 45" for c by auto
  have "lang (Seq ?e (opt (Seq (Star ?m) ?e))) l \<longleftrightarrow> (\<exists>c. l = [c] \<and> (letter c \<or> digit c)) \<or>
      (\<exists>c t d. l = c # t @ [d] \<and> (letter c \<or> digit c) \<and> (\<forall>c \<in> set t. letter c \<or> digit c \<or> c = 45) \<and> (letter d \<or> digit d))"
    (is "?L \<longleftrightarrow> ?R")
  proof
    assume ?L
    then show ?R unfolding lang_Seq lang_opt e m by auto
  next
    assume ?R
    then consider c where "l = [c] @ []" "letter c \<or> digit c"
      | c t d where "l = [c] @ t @ [d]" "letter c \<or> digit c" "\<forall>c \<in> set t. letter c \<or> digit c \<or> c = 45" "letter d \<or> digit d"
      by fastforce
    then show ?L
    proof cases
      case 1
      then show ?thesis by (auto simp only: lang_opt e intro!: lang.Seq)
    next
      case 2
      have "lang (opt (Seq (Star ?m) ?e)) (t @ [d])"
        unfolding lang_opt using 2(3,4) by (intro disjI2 lang.Seq) (simp_all only: e m, blast)
      with 2(1,2) show ?thesis by (auto simp only: e intro!: lang.Seq)
    qed
  qed
  also have "\<dots> \<longleftrightarrow> strict_label l"
  proof (cases l rule: rev_cases)
    case Nil
    then show ?thesis by (simp add: strict_label_def label_def)
  next
    case (snoc t d)
    then show ?thesis
      using ld by (cases t) (auto simp: strict_label_def label_def)
  qed
  finally show ?thesis .
qed

lemma strict_email_found:
  assumes "valid s"
  shows "find_in strictEmailRegexp s \<longleftrightarrow> address_in atom_char strict_label (\<lambda>t. \<exists>x. t = [x] \<and> (letter x \<or> digit x)) s"
    (is "_ \<longleftrightarrow> ?R")
proof -
  let ?atom = "some_of (Class (letters_ci @ digits @ points (''!#$%&'' @ [CHR 0x27] @ ''*+/=?^_{|}~-'')))"
  let ?lab = "Seq (Class (letters_ci @ digits)) (opt (Seq (Star (Class (letters_ci @ digits @ points ''-''))) (Class (letters_ci @ digits))))"
  have atom: "in_class (letters_ci @ digits @ points (''!#$%&'' @ [CHR 0x27] @ ''*+/=?^_{|}~-'')) c = atom_char c" for c
    unfolding classes atom_char_def by auto
  show ?thesis
    unfolding find_in_lang [OF assms]
  proof
    assume "\<exists>a b c. s = a @ b @ c \<and> lang strictEmailRegexp b"
    then obtain a b c u v d t where l: "s = a @ b @ c" "b = (u @ v) @ [64] @ d @ t" "lang ?atom u"
      "lang (Star (Seq (lit ''.'') ?atom)) v" "lang (some_of (Seq ?lab (lit ''.''))) d" "lang ?lab t"
      unfolding strictEmailRegexp_def Let_def lang_Seq [of "Seq ?atom _"] lang_Seq [of ?atom] lang_Seq [of "lit ''@''"]
        lang_Seq [of "some_of (Seq ?lab _)"] lang_lit by auto
    have "\<exists>w e. u @ v = w @ [e] \<and> atom_char e"
    proof (cases v rule: rev_cases)
      case Nil
      with lang_snoc_char [OF l(3), unfolded atom] show ?thesis by simp
    next
      case (snoc v' e)
      from l(4) obtain ts where ts: "v = concat ts" "\<forall>t \<in> set ts. t \<noteq> [] \<and> lang (Seq (lit ''.'') ?atom) t"
        unfolding lang_Star_iff by blast
      with snoc obtain ts' w where "ts = ts' @ [w]" by (cases ts rule: rev_cases) auto
      with ts have w: "lang (Seq (lit ''.'') ?atom) w" "v = concat ts' @ w" by auto
      then obtain p q where "w = p @ q" "lang ?atom q" by (auto simp: lang_Seq [of "lit _"])
      with lang_snoc_char [OF this(2), unfolded atom] w(2) snoc show ?thesis by force
    qed
    then obtain w e where e: "u @ v = w @ [e]" "atom_char e" by blast
    from l(5) obtain labels where "labels \<noteq> []" "\<forall>l \<in> set labels. strict_label l" "d = dotted labels"
      by (auto simp: lang_dotted lang_strict_label)
    moreover from l(6) have "strict_label t" by (simp add: lang_strict_label)
    then have "t \<noteq> []" "letter (hd t) \<or> digit (hd t)" by (auto simp: strict_label_def label_def)
    then obtain x t' where "t = x # t'" "letter x \<or> digit x" by (cases t) auto
    ultimately have "s = (a @ w) @ e # 64 # dotted labels @ [x] @ (t' @ c) \<and> atom_char e \<and> labels \<noteq> [] \<and>
        (\<forall>l \<in> set labels. strict_label l) \<and> (letter x \<or> digit x)" using l(1,2) e by simp
    then show ?R unfolding address_in_def by blast
  next
    assume ?R
    then obtain a c labels x b where r: "s = a @ c # 64 # dotted labels @ [x] @ b" "atom_char c" "labels \<noteq> []"
      "\<forall>l \<in> set labels. strict_label l" "letter x \<or> digit x" unfolding address_in_def by blast
    have c: "lang ?atom [c]" using r(2) unfolding lang_some_Class atom by simp
    moreover have "lang (lit ''@'') [64]" by (simp add: lang_lit)
    moreover have "lang (some_of (Seq ?lab (lit ''.''))) (dotted labels)" using r(3,4) by (auto simp: lang_dotted lang_strict_label)
    moreover have "lang ?lab [x]"
      using r(5) by (auto simp: lang_strict_label strict_label_def label_def letter_def digit_def)
    ultimately have "lang strictEmailRegexp (([c] @ []) @ [64] @ dotted labels @ [x])"
      unfolding strictEmailRegexp_def Let_def by (intro lang.Seq lang_Star_Nil c)
    moreover have "s = a @ (([c] @ []) @ [64] @ dotted labels @ [x]) @ b" using r(1) by simp
    ultimately show "\<exists>a b c. s = a @ b @ c \<and> lang strictEmailRegexp b" by blast
  qed
qed

text \<open>
  C38. What the tests accept, on any text of code points. The anchored ones: the non-empty
  texts of digits, of Han characters (U+4E00 to U+9FA5), of letters, digits and
  underscores, or of all these. \<open>IsURL\<close>: every text in which somewhere \<open>ftp\<close>,
  \<open>http\<close> or \<open>https\<close> is followed by \<open>://\<close> and a character that is no white space; the
  rest of its expression decides nothing. \<open>IsEmail\<close>: every text in which somewhere a
  letter, a digit or one of \<open>._%+-\<close> is followed by an at sign, by labels (of letters,
  digits and hyphens, at least one, each with a dot after it) and by two letters.
  \<open>IsEmailRFC\<close>: the same with more characters before the at sign, with labels that neither
  begin nor end with a hyphen, and with a letter or a digit after the last dot. What stands before
  and after does not matter, so neither test says that the text is an address.
\<close>

theorem patterns_accept:
  "IsDigit s = (s \<noteq> [] \<and> (\<forall>c \<in> set s. in_class digits c)) \<and>
   IsChinese s = (s \<noteq> [] \<and> (\<forall>c \<in> set s. in_class han c)) \<and>
   IsLetterNumUnline s = (s \<noteq> [] \<and> (\<forall>c \<in> set s. in_class (letters @ digits @ [(95, 95)]) c)) \<and>
   IsChineseLetterNumUnline s = (s \<noteq> [] \<and> (\<forall>c \<in> set s. in_class (han @ letters @ digits @ [(95, 95)]) c)) \<and>
   (valid s \<longrightarrow> IsURL s = (\<exists>a w c b. s = a @ w @ map of_char ''://'' @ c # b \<and> scheme w \<and> in_class no_space c)) \<and>
   (valid s \<longrightarrow> IsEmail s = address_in mail_char label (\<lambda>t. \<exists>x y. t = [x, y] \<and> letter x \<and> letter y) s) \<and>
   (valid s \<longrightarrow> IsEmailRFC s = address_in atom_char strict_label (\<lambda>t. \<exists>x. t = [x] \<and> (letter x \<or> digit x)) s)"
proof (intro conjI impI)
  have us: "points ''_'' = [(95, 95)]" by (simp add: points_def)
  show "IsDigit s = (s \<noteq> [] \<and> (\<forall>c \<in> set s. in_class digits c))"
    "IsChinese s = (s \<noteq> [] \<and> (\<forall>c \<in> set s. in_class han c))"
    "IsLetterNumUnline s = (s \<noteq> [] \<and> (\<forall>c \<in> set s. in_class (letters @ digits @ [(95, 95)]) c))"
    by (simp_all add: IsDigit_def IsChinese_def IsLetterNumUnline_def digitRegexp_def chineseRegexp_def
      letterNumUnlineRegexp_def matches_lang lang_some_Class us)
  have "in_class (han @ [(95, 95)] @ letters @ digits) c = in_class (han @ letters @ digits @ [(95, 95)]) c" for c
    by (auto simp: in_class_def)
  then show "IsChineseLetterNumUnline s = (s \<noteq> [] \<and> (\<forall>c \<in> set s. in_class (han @ letters @ digits @ [(95, 95)]) c))"
    by (simp add: IsChineseLetterNumUnline_def chLetterNumUnlineRegexp_def matches_lang lang_some_Class us)
  show "IsURL s = (\<exists>a w c b. s = a @ w @ map of_char ''://'' @ c # b \<and> scheme w \<and> in_class no_space c)" if "valid s"
    unfolding IsURL_def find_in_lang [OF that]
  proof
    assume "\<exists>a b c. s = a @ b @ c \<and> lang urlRegexp b"
    then obtain a b c where s: "s = a @ b @ c" "lang urlRegexp b" by blast
    from url_lang [OF this(2)] s(1) show "\<exists>a w c b. s = a @ w @ map of_char ''://'' @ c # b \<and> scheme w \<and> in_class no_space c"
      by fastforce
  next
    assume "\<exists>a w c b. s = a @ w @ map of_char ''://'' @ c # b \<and> scheme w \<and> in_class no_space c"
    then obtain a w c b where "s = a @ (w @ map of_char ''://'' @ [c]) @ b" "scheme w" "in_class no_space c" by auto
    with url_shortest show "\<exists>a b c. s = a @ b @ c \<and> lang urlRegexp b" by blast
  qed
  show "IsEmail s = address_in mail_char label (\<lambda>t. \<exists>x y. t = [x, y] \<and> letter x \<and> letter y) s" if "valid s"
    unfolding IsEmail_def by (rule email_found [OF that])
  show "IsEmailRFC s = address_in atom_char strict_label (\<lambda>t. \<exists>x. t = [x] \<and> (letter x \<or> digit x)) s" if "valid s"
    unfolding IsEmailRFC_def by (rule strict_email_found [OF that])
qed

theorem patterns_accept_witness:
  "IsURL (map of_char ''see http://x now'') \<and> IsEmail (map of_char ''<i@j.kl>'') \<and>
   \<not> IsEmailRFC (map of_char ''i at j.kl'')"
proof (intro conjI)
  have v: "valid (map of_char ''see http://x now'')" "valid (map of_char ''<i@j.kl>'')" "valid (map of_char ''i at j.kl'')"
    by (simp_all add: valid_def)
  have "\<exists>a w c b. (map of_char ''see http://x now'' :: nat list) = a @ w @ map of_char ''://'' @ c # b \<and>
      scheme w \<and> in_class no_space c"
    by (intro exI [of _ "map of_char ''see ''"] exI [of _ "map of_char ''http''"] exI [of _ "of_char CHR ''x''"]
      exI [of _ "map of_char '' now''"]) (simp add: scheme_def in_class_def no_space_def)
  with patterns_accept [of "map of_char ''see http://x now''"] v(1) show "IsURL (map of_char ''see http://x now'')" by blast
  have "map of_char ''<i@j.kl>'' = [60] @ 105 # 64 # dotted [[106 :: nat]] @ [107, 108] @ [62]" "mail_char 105"
    "\<forall>l \<in> set [[106]]. label l" "letter 107" "letter 108"
    by (simp_all add: dotted_def mail_char_def label_def letter_def)
  moreover have "address_in mail_char label (\<lambda>t. \<exists>x y. t = [x, y] \<and> letter x \<and> letter y)
      (a @ c # 64 # dotted [l] @ [x, y] @ b)"
    if "mail_char c" "\<forall>l \<in> set [l]. label l" "letter x" "letter y" for a c l x y b
    unfolding address_in_def using that by (intro exI [of _ a] exI [of _ c] exI [of _ "[l]"] exI [of _ "[x, y]"] exI [of _ b]) simp
  ultimately have "address_in mail_char label (\<lambda>t. \<exists>x y. t = [x, y] \<and> letter x \<and> letter y) (map of_char ''<i@j.kl>'')"
    by (simp only:)
  moreover have "IsEmail s = address_in mail_char label (\<lambda>t. \<exists>x y. t = [x, y] \<and> letter x \<and> letter y) s" if "valid s" for s
    using patterns_accept [of s] that by (elim conjE) (erule mp)
  ultimately show "IsEmail (map of_char ''<i@j.kl>'')" using v(2) by (simp only:)
  have "64 \<in> set s" if "address_in ch lab final s" for ch lab final s
    using that by (auto simp: address_in_def)
  moreover have "64 \<notin> set (map of_char ''i at j.kl'' :: nat list)" by simp
  ultimately have "\<not> address_in ch lab final (map of_char ''i at j.kl'')" for ch lab final by blast
  moreover have "IsEmailRFC s = address_in atom_char strict_label (\<lambda>t. \<exists>x. t = [x] \<and> (letter x \<or> digit x)) s" if "valid s" for s
    using patterns_accept [of s] that by (elim conjE) (erule mp)
  ultimately show "\<not> IsEmailRFC (map of_char ''i at j.kl'')" using v(3) by (simp only: not_False_eq_True)
qed

end
