(* ===== verification/Helpers.thy ===== *)
theory Helpers
  imports HumanBytes
begin

text \<open>
  Two small packages: \<open>gref/reflect.go\<close>, on values as \<open>reflect\<close> shows them (their kind
  and what the kind's accessor returns), and \<open>gnet/ghttp/error_wrapper.go\<close>, on a response
  writer that keeps the first status it is given, as that of \<open>net/http\<close> does. The JSON
  encoder is an argument. \<open>None\<close> is a panic.
\<close>

section \<open>Reflected values\<close>

text \<open>A \<open>reflect.Kind\<close> is a number; these are the constants that the code names.\<close>

type_synonym kind = nat

abbreviation KBool :: kind where "KBool \<equiv> 1"
abbreviation KInt :: kind where "KInt \<equiv> 2"
abbreviation KInt8 :: kind where "KInt8 \<equiv> 3"
abbreviation KInt16 :: kind where "KInt16 \<equiv> 4"
abbreviation KInt32 :: kind where "KInt32 \<equiv> 5"
abbreviation KInt64 :: kind where "KInt64 \<equiv> 6"
abbreviation KUint :: kind where "KUint \<equiv> 7"
abbreviation KUint8 :: kind where "KUint8 \<equiv> 8"
abbreviation KUint16 :: kind where "KUint16 \<equiv> 9"
abbreviation KUint32 :: kind where "KUint32 \<equiv> 10"
abbreviation KUint64 :: kind where "KUint64 \<equiv> 11"
abbreviation KUintptr :: kind where "KUintptr \<equiv> 12"
abbreviation KFloat32 :: kind where "KFloat32 \<equiv> 13"
abbreviation KFloat64 :: kind where "KFloat64 \<equiv> 14"
abbreviation KArray :: kind where "KArray \<equiv> 17"
abbreviation KInterface :: kind where "KInterface \<equiv> 20"
abbreviation KMap :: kind where "KMap \<equiv> 21"
abbreviation KPtr :: kind where "KPtr \<equiv> 22"
abbreviation KSlice :: kind where "KSlice \<equiv> 23"
abbreviation KString :: kind where "KString \<equiv> 24"

record ref_val =
  Kind :: kind
  v_Bool :: bool
  v_Int :: int
  v_Uint :: nat
  v_Float :: f64
  v_Len :: int
  v_IsNil :: bool

definition ToString :: "ref_val \<Rightarrow> string" where
  "ToString v =
     (let kind = Kind v
      in if kind = KInt \<or> kind = KInt8 \<or> kind = KInt16 \<or> kind = KInt32 \<or> kind = KInt64 then FormatInt (v_Int v)
         else if kind = KUint \<or> kind = KUint8 \<or> kind = KUint16 \<or> kind = KUint32 \<or> kind = KUint64 then dec (v_Uint v)
         else if kind = KFloat32 \<or> kind = KFloat64 then fixed2 (v_Float v)
         else '''')"

definition IsEmpty :: "ref_val \<Rightarrow> bool" where
  "IsEmpty v =
     (let k = Kind v
      in if k = KBool then v_Bool v = False
         else if KInt < k \<and> k < KInt64 then v_Int v = 0
         else if KUint < k \<and> k < KUintptr then v_Uint v = 0
         else if k = KFloat32 \<or> k = KFloat64 then v_Float v = Fin 0
         else if k = KArray \<or> k = KMap \<or> k = KSlice \<or> k = KString then v_Len v = 0
         else if k = KInterface \<or> k = KPtr then v_IsNil v
         else False)"

text \<open>Zero of kind \<open>int\<close>, \<open>int64\<close> or \<open>uint\<close> is not empty: the comparisons leave the
  ends of the ranges out.\<close>

lemma IsEmpty_ends: "Kind v \<in> {KInt, KInt64, KUint} \<Longrightarrow> \<not> IsEmpty v"
  by (auto simp: IsEmpty_def)

lemma IsEmpty_ints:
  "Kind v \<in> {KInt8, KInt16, KInt32} \<Longrightarrow> IsEmpty v \<longleftrightarrow> v_Int v = 0"
  "Kind v \<in> {KUint8, KUint16, KUint32, KUint64} \<Longrightarrow> IsEmpty v \<longleftrightarrow> v_Uint v = 0"
  by (auto simp: IsEmpty_def)

text \<open>What \<open>ToString\<close> writes of an integer is read back.\<close>

lemma ToString_int:
  "Kind v \<in> {KInt, KInt8, KInt16, KInt32, KInt64} \<Longrightarrow> in_int64 (v_Int v) \<Longrightarrow> ParseInt (ToString v) = Inr (v_Int v)"
  by (auto simp: ToString_def ParseInt_FormatInt)

section \<open>Error responses\<close>

record 'v error_response =
  statusCode :: int
  ErrorCode :: string
  ErrorMessage :: string
  ErrorParams :: "(string \<rightharpoonup> 'v) option"

definition NewErrorRes :: "int \<Rightarrow> 'v error_response" where
  "NewErrorRes code = \<lparr>statusCode = code, ErrorCode = [], ErrorMessage = [], ErrorParams = Some Map.empty\<rparr>"

definition WithMsg :: "string \<Rightarrow> 'v error_response \<Rightarrow> 'v error_response" where
  "WithMsg errMsg er = er\<lparr>ErrorMessage := errMsg\<rparr>"

text \<open>Writing to a nil map panics.\<close>

definition WithParam :: "string \<Rightarrow> 'v \<Rightarrow> 'v error_response \<Rightarrow> 'v error_response option" where
  "WithParam key v er = map_option (\<lambda>m. er\<lparr>ErrorParams := Some (m(key \<mapsto> v))\<rparr>) (ErrorParams er)"

text \<open>\<open>marshal\<close>: the JSON of a response, or \<open>None\<close> when a parameter has none.\<close>

definition Error :: "('v error_response \<Rightarrow> string option) \<Rightarrow> 'v error_response \<Rightarrow> string" where
  "Error marshal er = (case marshal er of None \<Rightarrow> '''' | Some bs \<Rightarrow> bs)"

record writer =
  w_status :: "int option"
  w_body :: string

text \<open>The first status counts; one that is no three-digit number is a panic.\<close>

definition WriteHeader :: "int \<Rightarrow> writer \<Rightarrow> writer option" where
  "WriteHeader code w =
     (if w_status w \<noteq> None then Some w
      else if code < 100 \<or> 999 < code then None
      else Some (w\<lparr>w_status := Some code\<rparr>))"

definition w_Write :: "string \<Rightarrow> writer \<Rightarrow> writer" where
  "w_Write s w = w\<lparr>w_status := Some (case w_status w of None \<Rightarrow> 200 | Some c \<Rightarrow> c), w_body := w_body w @ s\<rparr>"

definition Encode :: "('v error_response \<Rightarrow> string option) \<Rightarrow> 'v error_response \<Rightarrow> writer \<Rightarrow> bool \<times> writer" where
  "Encode marshal er w = (case marshal er of None \<Rightarrow> (False, w) | Some bs \<Rightarrow> (True, w_Write (bs @ [CHR 0x0A]) w))"

text \<open>The error that a handler returns: a response, possibly a nil pointer to one, or another
  error.\<close>

datatype 'v handler_error = ErrResponse "'v error_response option" | OtherError

definition WrapperHandler ::
  "('v error_response \<Rightarrow> string option) \<Rightarrow> (writer \<Rightarrow> 'v handler_error option \<times> writer) \<Rightarrow> writer \<Rightarrow> writer option" where
  "WrapperHandler marshal handlerFunc w =
     (case handlerFunc w of
        (None, w) \<Rightarrow> Some w
      | (Some (ErrResponse None), w) \<Rightarrow> None
      | (Some (ErrResponse (Some errRsp)), w) \<Rightarrow>
          do {
            w \<leftarrow> WriteHeader (statusCode errRsp) w;
            let (ok, w) = Encode marshal errRsp w;
            if \<not> ok then WriteHeader 500 w else Some w
          }
      | (Some OtherError, w) \<Rightarrow> WriteHeader 500 w)"

text \<open>A response goes out with its own status and its JSON; when there is no JSON, the status
  500 comes too late and the body is empty.\<close>

lemma wrapper_response:
  assumes "handlerFunc w = (Some (ErrResponse (Some er)), w')" "w_status w' = None" "100 \<le> statusCode er" "statusCode er \<le> 999"
  shows "marshal er = Some bs \<Longrightarrow> WrapperHandler marshal handlerFunc w =
      Some (w'\<lparr>w_status := Some (statusCode er), w_body := w_body w' @ bs @ [CHR 0x0A]\<rparr>)"
    and "marshal er = None \<Longrightarrow> WrapperHandler marshal handlerFunc w = Some (w'\<lparr>w_status := Some (statusCode er)\<rparr>)"
  using assms by (simp_all add: WrapperHandler_def WriteHeader_def Encode_def w_Write_def)

lemma wrapper_other:
  "handlerFunc w = (None, w') \<Longrightarrow> WrapperHandler marshal handlerFunc w = Some w'"
  "handlerFunc w = (Some OtherError, w') \<Longrightarrow> w_status w' = None \<Longrightarrow>
    WrapperHandler marshal handlerFunc w = Some (w'\<lparr>w_status := Some 500\<rparr>)"
  by (simp_all add: WrapperHandler_def WriteHeader_def)

end
