(* ===== verification/Corners.thy ===== *)
theory Corners
  imports DequeSpec WorkerProps Limiter HumanBytes Pbkdf2 Files Mail
begin

text \<open>
  Corners of the packages where the code does something else than a comment, a test or its
  purpose says, one lemma each. Those that need more than an example are with their component.
\<close>

section \<open>Collections and goroutines\<close>

text \<open>\<open>gcollection/queue.go\<close>: a deque for no elements can be made, and takes none.\<close>

lemma capacity_zero:
  "\<exists>q. NewDeque 0 = Some q \<and> OfferFirst (Some v) q = Some (False, q) \<and> OfferLast (Some v) q = Some (False, q)"
  by (simp add: NewDeque_def OfferFirst_def OfferLast_def linkFirst_def linkLast_def)

text \<open>\<open>gconcurrent/cond.go\<close>: \<open>Wait\<close> returns false after a signal, true after an interrupt.\<close>

lemma wait_results:
  assumes "recvq c = g # gs" "g \<notin> fst ` set (delivered c)"
  shows "\<exists>c1 c2. wait_resume g (Signal c) = Some (False, c1) \<and> wait_resume g (Interrupt c) = Some (True, c2)"
proof -
  have "map_of (delivered c) g = None" using assms(2) by (simp add: map_of_eq_None_iff)
  with assms(1) show ?thesis by (simp add: wait_resume_def Signal_def Interrupt_def map_add_def)
qed

text \<open>
  \<open>gconcurrent/worker.go\<close>, after a \<open>Shutdown\<close>: another one panics, and an \<open>Execute\<close>
  that has read the queue never gets past its send, whatever happens meanwhile to the rest of the
  pool (the caller keeps its place, so the state of the pool does not matter).
\<close>

lemma after_shutdown:
  assumes "queue_nil w"
  shows "calls w g = Some (CShutdown, CloseQueue) \<Longrightarrow> caller_step b g w = Some ([], set_pc g CShutdown Panicked w)"
    and "calls w g = Some (CExecute it, LoadQueue) \<Longrightarrow> caller_step b g w = Some ([], set_pc g (CExecute it) (wp_pc.Send True) w)"
    and "calls w' g = Some (CExecute it, wp_pc.Send True) \<Longrightarrow> caller_step b g w' = None \<and> handoff g i w' = None"
  using assms by (simp_all add: caller_step_def job_of_def Shutdown_def send_step_def handoff_def)

text \<open>\<open>grate/codel.go\<close>: the default target.\<close>

lemma default_target: "Target (c_option (NewCoDel [])) = 50"
  by (simp add: NewCoDel_def)

section \<open>Text and files\<close>

text \<open>\<open>gstr/human_bytes.go\<close>: units in lower case are accepted and ignored; eight exabytes overflow.\<close>

lemma parse_digit:
  assumes "n < 10"
  shows "ParseFloat \<lparr>negative = False, int_part = dec n, frac_part = []\<rparr> = Some (Fin (of_nat n))"
proof -
  have "short (of_nat n)" using short_int [of "int n"] assms by simp
  moreover have "(of_nat n :: rat) \<le> 2 ^ 1023"
  proof -
    have "(of_nat n :: rat) \<le> of_nat 16" using assms by (simp only: of_nat_le_iff)
    also have "\<dots> \<le> 2 ^ 1023" by simp
    finally show ?thesis .
  qed
  ultimately have "fl (of_nat n) = Fin (of_nat n)" by (rule fl_short)
  then show ?thesis by (simp add: ParseFloat_def Let_def)
qed

lemma unit_ignored: "ParseHumanBytes ''1kb'' = Inr 1"
proof -
  have m: "FindStringSubmatch ''1kb'' = Some (\<lparr>negative = False, int_part = ''1'', frac_part = []\<rparr>, ''kb'')" by code_simp
  have "ParseFloat \<lparr>negative = False, int_part = ''1'', frac_part = []\<rparr> = Some (Fin 1)"
    using parse_digit [of 1] by (simp add: dec.simps digit_chars)
  then show ?thesis unfolding ParseHumanBytes_def m by (simp add: f_to_int_def trunc_def)
qed

lemma size_overflows: "ParseHumanBytes ''8EB'' = Inr (- (2 ^ 63))"
proof -
  have m: "FindStringSubmatch ''8EB'' = Some (\<lparr>negative = False, int_part = ''8'', frac_part = []\<rparr>, ''EB'')" by code_simp
  have p: "ParseFloat \<lparr>negative = False, int_part = ''8'', frac_part = []\<rparr> = Some (Fin 8)"
    using parse_digit [of 8] by (simp add: dec.simps digit_chars)
  have "short (2 ^ 63)" using short_power [of 63] by (simp add: power_int_def)
  then have "fl (2 ^ 63) = Fin (2 ^ 63)" by (rule fl_short) simp
  then have "f_mul (Fin 8) (Fin (of_int EB)) = Fin (2 ^ 63)" by (simp add: EB_def)
  moreover have "f_to_int (Fin (2 ^ 63)) = - (2 ^ 63)" by (simp add: f_to_int_def trunc_def)
  ultimately show ?thesis unfolding ParseHumanBytes_def m by (simp add: p)
qed

text \<open>\<open>gcrypto/pbkdf2.go\<close>: when the random source fails the password is stored without a salt.\<close>

lemma no_salt:
  "can_make saltlen \<Longrightarrow> GenPbkdf2Passwd hmac (\<lambda>n. None) pw saltlen iter keyLen =
    map_option (\<lambda>dk. (EncodeToString dk, '''')) (pbkdf2key hmac 32 pw [] iter keyLen)"
  by (cases "pbkdf2key hmac 32 pw [] iter keyLen") (simp_all add: GenPbkdf2Passwd_def getSaltBytes_def)

text \<open>\<open>gfile/file.go\<close>: a file copied to itself is empty afterwards; of a directory an empty file is made.\<close>

lemma copy_to_itself:
  assumes "map_of fs p = Some (FileE m c)" "willing P p"
  shows "\<exists>fs'. CopyFile P p p fs = (None, fs') \<and> map_of fs' p = Some (FileE m [])"
  using copy_file_cases(5) [OF assms(2,2,1)] by auto

lemma copy_of_directory:
  assumes "map_of fs p = Some (DirE m)" "creatable fs q" "willing P p" "willing P q"
  shows "\<exists>fs' m'. CopyFile P p q fs = (Some EISDIR, fs') \<and> map_of fs' q = Some (FileE m' [])"
  using copy_file_cases(3) [OF assms(3,4,1,2)] by (auto simp: AList.update_conv')

text \<open>\<open>gnet/gemail/email.go\<close>: a line break in the subject makes a header field of its own.\<close>

lemma header_injected:
  "\<exists>a b. write_header date (m\<lparr>subject := s @ nl # field\<rparr>) = a @ s @ [nl] @ field @ [nl] @ b"
proof -
  have "write_header date (m\<lparr>subject := s @ nl # field\<rparr>) =
    (''From: '' @ From m @ [nl] @ ''Date: '' @ date @ [nl] @ ''To: '' @ join_comma (To m) @ [nl] @
      (if length (Cc m) > 0 then ''Cc: '' @ join_comma (Cc m) @ [nl] else []) @ ''Subject: '') @ s @ [nl] @ field @ [nl] @
    (''MIME-Version: 1.0'' @ [nl] @
     (case attachments m of
        Some (_ # _) \<Rightarrow> ''Content-Type: multipart/mixed; boundary='' @ boundary @ [nl] @ ''--'' @ boundary @ [nl]
      | _ \<Rightarrow> []) @
     ''Content-Type: '' @ bodyContentType m @ ''; charset=utf-8'')"
    by (simp add: write_header_def)
  then show ?thesis by blast
qed

end
