(* ===== verification/Spec2Isabelle.thy ===== *)
theory Spec2Isabelle
  imports Cond DequeSpec DequeIter BlockingProps TimerRaces
    CacheConc CacheJanitor Gid Join TimeMap GlsTime CryptoMem Pbkdf2 ListenConc
    WorkerPanics Limiter Samples Backoff HumanBytes Rand
    Files Paths MailMem Patterns Helpers Corners
begin

text \<open>
  Verification of gokits, a library of small Go packages.

  \<^bold>\<open>The program and its parts.\<close> The packages hardly depend on each other; where they do,
  the theories import each other in the same way.

    \<^item> \<open>gcollection/queue.go\<close>: a doubly linked, bounded, blocking deque and its
      iterators, on top of the condition variable of \<open>gconcurrent/cond.go\<close>.
    \<^item> \<open>gconcurrent/worker.go\<close>: a pool of workers with a job queue.
    \<^item> \<open>gtime/timerwheel.go\<close>: timers on a hashed wheel.
    \<^item> \<open>grate\<close>: an adaptive rate limiter (\<open>limiter.go\<close>), made of a limit on the
      requests in flight (\<open>vegas.go\<close>, \<open>sample.go\<close>) and a queue of the others
      (\<open>codel.go\<close>).
    \<^item> \<open>gcache/cache.go\<close>: a cache whose items expire.
    \<^item> \<open>gls\<close>: storage per goroutine, kept in a time map (\<open>internal/time_map.go\<close>)
      under the goroutine's id (\<open>gid/gstack.go\<close>).
    \<^item> \<open>gcrypto\<close>: AES-CBC with a work key (\<open>aes128.go\<close>), PBKDF2 passwords
      (\<open>pbkdf2.go\<close>).
    \<^item> \<open>gnet\<close>: a listener with a limit (\<open>listen.go\<close>), back-off (\<open>backoff.go\<close>),
      mails (\<open>gemail/email.go\<close>), error responses (\<open>ghttp/error_wrapper.go\<close>).
    \<^item> \<open>gfile/file.go\<close>: copying files and directories, and the directory of the program.
    \<^item> \<open>gstr\<close>, \<open>grand\<close>, \<open>gslice\<close>, \<open>gref\<close>: lists of integers as text (\<open>join.go\<close>),
      byte counts for people (\<open>human_bytes.go\<close>), tests by regular expressions
      (\<open>strings.go\<close>), random strings and UUIDs (\<open>rand.go\<close>), slices (\<open>slice.go\<close>),
      reflected values (\<open>reflect.go\<close>).

  \<^bold>\<open>How code becomes definitions.\<close> A Go function is a HOL function of the same name (with
  a prefix where the name is taken), its state an argument and a result; a struct is a
  record, shared structures are stores indexed by addresses. A panic, and a call that can
  never return, is \<open>None\<close>; an \<open>error\<close> is the left side of a sum. \<open>int64\<close> values are
  integers wrapped by \<open>wrap64\<close> where the code can overflow, narrower ones are words.
  Clocks, random sources, the AES block cipher, HMAC, the JSON encoder, the SMTP client, the working directory,
  the comparison of two values in an interface (which can panic), what the system refuses a process and
  the text that \<open>runtime.Stack\<close> writes are arguments; what is assumed of them is stated as a hypothesis
  with a concrete instance in the witness. Concurrent code is cut into its atomic steps (a
  critical section, an atomic operation, a channel operation), and an inductive relation, or
  a run along any schedule of steps, reaches every interleaving.

  \<^bold>\<open>The theories.\<close>

    \<^item> \<open>Prelude\<close>: wrapping integers, Go's division, slices, generic lemmas.
      \<open>Strconv\<close>, \<open>Base64\<close>, \<open>FloatGo\<close>: the parts of Go's library that the components
      compute with (decimal text, base64, \<open>float64\<close>). \<open>Slices\<close>: arrays in memory, windows
      on them, and what \<open>append\<close> writes where.
    \<^item> \<open>Cond\<close>: \<open>TimeoutCond\<close>, its \<open>Wait\<close> split at the points where others run; the
      channel is the queue of parked receivers.
    \<^item> \<open>Deque\<close>: the deque as a heap of nodes with links; \<open>dq_rep\<close> relates a heap to the
      list it holds. \<open>DequeSpec\<close>: every non-blocking operation refines its counterpart on
      bounded lists (locales for the two kinds of ends, interpreted on the operations), the removals
      by value for every comparison, the panics of the comparison included.
      \<open>DequeIter\<close>: iterators over a heap that changes under them; a run of an iterator carries
      the element last returned beside it, which \<open>Remove\<close> is measured by.
    \<^item> \<open>Blocking\<close>, \<open>BlockingProps\<close>: the blocking operations as goroutines that
      interleave; linearizability, which calls can panic, and what goes wrong (lost wake-ups,
      spinning on a finished context).
    \<^item> \<open>TimerWheel\<close>, \<open>TimerRuns\<close>: one tick at a time; when timers fire, how often,
      cancellation, and that no history of calls panics. \<open>TimerConc\<close>, \<open>TimerRaces\<close>: the
      tick cut into its steps, with the calls of clients, the goroutines that send and close,
      and \<open>Stop\<close> in between; the invariant of all interleavings, the two moments that
      panic, and the timers that fire early or are not cancelled.
    \<^item> \<open>WorkerPool\<close>, \<open>WorkerProps\<close>: the pool with its workers, callers and shutdown;
      where each job is, what the counters count, how many workers there are, and which
      jobs end. \<open>WorkerPanics\<close>: jobs as items with the name of their function, and which
      panics reach the callback.
    \<^item> \<open>Vegas\<close>, \<open>CoDel\<close>, \<open>Limiter\<close>: the two halves of the rate limiter and their
      composition; range and movement of the limit, the decision of CoDel against a
      reference on the history of waiting times, and a request that is never woken. \<open>Samples\<close>: \<open>sample.Add\<close> one atomic operation at
      a time, linearizable and without locks.
    \<^item> \<open>Cache\<close>: refinement of a map with deadlines, with every answer and error; clean-up; a wrapped deadline.
      \<open>CacheConc\<close>: concurrent calls, with the callbacks that run after the lock is given
      back; what a step took out of the map is read off the map itself. \<open>CacheJanitor\<close>: the goroutine that is to clean up, and its finalizer.
    \<^item> \<open>Gid\<close>, \<open>TimeMap\<close>, \<open>Gls\<close>: the parser of the goroutine id against the library's
      conversion, the buckets against one map, and the storages as references, so that
      sharing and copying are visible. \<open>GlsTime\<close>: histories of many goroutines with the
      sweeps of the time map between them; how long a storage lasts.
    \<^item> \<open>Crypto\<close>, \<open>Pbkdf2\<close>: round trips for any block cipher that inverts, every error,
      and RFC 8018 for any HMAC, with the limit of the standard and the panics of \<open>make\<close>. \<open>CryptoMem\<close>: encryption over slices of arrays, which
      tells what \<open>append\<close> writes into the memory of the caller.
    \<^item> \<open>Listen\<close>: the counter and the channel of tokens; what holds within the limit and
      what does not beyond it; \<open>ListenConc\<close>: the same with the atomic steps of all
      goroutines interleaved.
    \<^item> \<open>Files\<close>: a file system, the system calls on it for a process with limits, and the copying
      functions; what \<open>CopyDir\<close> copies, what it never touches, and the error in which it ends when it
      copies into itself.
      \<open>Paths\<close>: the clean form of a path as text, and what \<open>GetPwd\<close> and \<open>GetProcPwd\<close> give.
    \<^item> \<open>Mail\<close>: the text of a mail, and what a reader that follows MIME gets from it.
      \<open>MailMem\<close>: the list of recipients over slices of arrays, with what it writes into the
      lists of the caller.
    \<^item> \<open>Patterns\<close>: regular expressions, a matcher by derivatives, the language of an
      expression, and exactly which texts the tests of \<open>strings.go\<close> accept.
    \<^item> \<open>Join\<close>, \<open>HumanBytes\<close>, \<open>Rand\<close>, \<open>Backoff\<close>, \<open>Helpers\<close>: the small packages.
    \<^item> \<open>Corners\<close>: single inputs at the edge of what the components accept, among them
      those where a comment says otherwise.

  \<^bold>\<open>Fuel and bounds.\<close> The loops of the deque that follow pointers (the searches,
  \<open>ToSlice\<close> and \<open>succ\<close> of the iterator) are partial functions whose value is
  \<open>None\<close> when they do not end; \<open>deque_refines_list\<close> and \<open>iterator_next_returns\<close> show
  that they always end. All
  other loops are structural or carry a measure, and there is no fuel; that of \<open>CopyDir\<close> is what is
  left of the longest path the system allows, since a directory under a longer one cannot be opened. A
  slice of more than \<open>2 ^ 48\<close> bytes is one that \<open>make\<close> refuses. Loops that wait for
  other goroutines (the compare-and-swap of \<open>Add\<close>, \<open>Start\<close>, the janitor) are unrolled
  by the schedule, a list of steps of any length; \<open>sample_add_linearizes\<close> bounds the steps
  that the first can take.
  \<open>float64\<close> has 53
  significant bits, rounding to nearest and even, infinities and NaN; zeros carry no sign,
  which nothing here can tell apart. A conversion of a float out of range to \<open>int64\<close>
  gives \<open>- 2 ^ 63\<close>, as on amd64, and products and sums are rounded one by one.

  \<^bold>\<open>Granularity.\<close> In \<open>Blocking\<close> a step is a critical section; in \<open>WorkerPool\<close> an atomic
  operation. In \<open>Vegas\<close> the returned function of \<open>Acquire\<close> runs in one step up to the
  lock: the atomic operations in it work on different variables, and no property depends
  on a state between them. \<open>Samples\<close> takes \<open>Add\<close> apart and shows
  that \<open>Vegas\<close> may take it whole. In \<open>TimeMap\<close> every operation holds the lock of its
  bucket from beginning to end and is one step, and a round of the cleaning goroutine is
  one step for each bucket; in \<open>Cache\<close> an operation is one step too, and \<open>CacheConc\<close> separates
  the callbacks from it. A tick of \<open>TimerWheel\<close> is one step, and \<open>TimerConc\<close> has its
  parts. \<open>Listen\<close> runs one call after the other, and \<open>ListenConc\<close> has the two steps of
  \<open>acquire\<close> and of \<open>release\<close>. Memory is sequentially consistent everywhere: what the
  races on plain fields (the cursor of the wheel, \<open>onEvicted\<close>, the queue of the pool)
  could do beyond an interleaving is not in the models.

  \<^bold>\<open>The environment.\<close> The file system of \<open>Files\<close> has no links. A path or a name that
  is too long is an error, with any lengths; every call can be refused for a reason outside the
  tree (descriptors, space, permissions, a failing device), with part of a copy written; and there are
  the errors of missing entries and of files where directories should be and the other way round. What
  is refused is a function of the call, its path and the tree, since no copy makes a call twice with the
  same tree. The response
  writer of \<open>Helpers\<close> is that of \<open>net/http\<close> in what the code calls. A negative zero of
  \<open>float64\<close>, which \<open>ToString\<close> could print with its sign, is not told from zero.

  \<^bold>\<open>Not modelled.\<close> \<open>gls/internal/goid.go\<close>, whose body is assembly; \<open>md5str\<close> of the
  timer wheel, which nothing calls; the buffers of \<open>sync.Pool\<close>, which do not reach a
  result; the effects of data races that no interleaving has.
\<close>

end
